(* ===== verification/Prelude.thy ===== *)
theory Prelude
  imports Main "HOL-Library.Word"
begin

section \<open>Shared types and lemmas\<close>

text \<open>
  The prelude of the development.  It names the machine integers of the kernel
  (\<^verbatim>\<open>uint8_t\<close> to \<^verbatim>\<open>uint64_t\<close> and \<^verbatim>\<open>size_t\<close>, which is 64 bits wide on the only
  target, x86-64), the reasons for which the kernel panics, the result type of code
  that may panic, and the generic lemmas on words, lists and options which the
  component theories share.
\<close>

unbundle bit_operations_syntax

type_synonym u8 = "8 word"
type_synonym u16 = "16 word"
type_synonym u32 = "32 word"
type_synonym u64 = "64 word"
type_synonym bytes = "u8 list"

text \<open>Named collections: \<open>unat_simps\<close> moves word arithmetic to \<open>nat\<close>; \<open>frame_simps\<close>
  collects "this field is untouched" equations.\<close>

named_theorems unat_simps
named_theorems frame_simps

subsection \<open>Panic\<close>

datatype panic_code_t = PANIC_UNK | PANIC_PAGING | PANIC_NO_MEM | PANIC_STATE
  | PANIC_ACPI | PANIC_APIC

text \<open>Code that may stop the machine returns \<open>Inl\<close>: it calls \<^verbatim>\<open>panic\<close>, or it leaves the
  memory it owns (an access beyond a buffer, a division by zero), after which C gives no
  meaning to the run.\<close>

datatype fault = Panic panic_code_t | Undefined

type_synonym 'a outcome = "fault + 'a"

subsection \<open>Sequencing\<close>

text \<open>Code with loops that may not end returns an \<open>outcome option\<close>, where \<open>None\<close> is a run that does not return.  \<open>andthen\<close>
  is its sequential composition.\<close>

definition andthen :: "'a outcome option \<Rightarrow> ('a \<Rightarrow> 'b outcome option) \<Rightarrow> 'b outcome option" where
  "andthen m f = Option.bind m (case_sum (\<lambda>e. Some (Inl e)) f)"

abbreviation done_with :: "'a \<Rightarrow> 'a outcome option" where "done_with x \<equiv> Some (Inr x)"
abbreviation failed :: "fault \<Rightarrow> 'a outcome option" where "failed e \<equiv> Some (Inl e)"

lemma andthen_simps [simp]:
  "andthen None f = None" "andthen (failed e) f = failed e" "andthen (done_with x) f = f x"
  by (simp_all add: andthen_def)

lemma andthen_mono [partial_function_mono]:
  assumes "mono_option B" "\<And>y. mono_option (\<lambda>f. C y f)"
  shows "mono_option (\<lambda>f. andthen (B f) (\<lambda>y. C y f))"
proof -
  have "mono_option (\<lambda>f. case_sum (\<lambda>e. Some (Inl e)) (\<lambda>y. C y f) z)" for z
    using assms(2) by (cases z) (auto intro: option.const_mono)
  then show ?thesis unfolding andthen_def by (rule bind_mono[OF assms(1)])
qed

subsection \<open>Words\<close>

lemma bit_beyond: "LENGTH('a) \<le> n \<Longrightarrow> \<not> bit (w :: 'a::len word) n"
  using bit_imp_le_length[of w n] by auto

lemma bit_u8_beyond: "8 \<le> n \<Longrightarrow> \<not> bit (w :: u8) n"
  by (simp add: bit_beyond)

lemma and_one_bit: "(w :: 'a::len word) AND 1 = of_bool (bit w 0)"
  by (simp add: and_one_eq bit_0 mod_2_eq_odd)

lemma unat_succ_less: "(i :: 'a::len word) < n \<Longrightarrow> unat (i + 1) = Suc (unat i)"
proof -
  assume "i < n"
  moreover have "unat n < 2 ^ LENGTH('a)" by (rule unsigned_less)
  ultimately have "Suc (unat i) < 2 ^ LENGTH('a)" unfolding word_less_nat_alt by linarith
  then show ?thesis by (simp add: unat_word_ariths(1))
qed

lemma ucast_u8_inj [simp]:
  assumes "8 \<le> LENGTH('a)"
  shows "(ucast (b :: u8) :: 'a::len word) = ucast c \<longleftrightarrow> b = c"
proof
  assume eq: "(ucast b :: 'a word) = ucast c"
  show "b = c"
  proof (rule bit_eqI)
    fix i assume "possible_bit TYPE(u8) i"
    then have "i < LENGTH('a)" using assms by (simp add: possible_bit_def)
    moreover have "bit (ucast b :: 'a word) i = bit (ucast c :: 'a word) i" by (simp add: eq)
    ultimately show "bit b i = bit c i" by (simp add: bit_unsigned_iff)
  qed
qed simp

lemma unat_inject [simp]: "unat (v :: 'a::len word) = unat w \<longleftrightarrow> v = w"
  using unsigned_word_eqI by auto

lemma word_xor_cancel [simp]: "(x :: 'a::len word) XOR c = y XOR c \<longleftrightarrow> x = y"
  by (metis xor.assoc xor_self_eq xor.right_neutral)

lemma word_xor_eq_0 [simp]: "(x :: 'a::len word) XOR y = 0 \<longleftrightarrow> x = y"
  using word_xor_cancel[of x y y] by simp

lemma word_sub_less_shift: 
  fixes k c c' n :: "'a::len word"
  assumes "n \<le> c" "c' \<le> c - n"
  shows "k - n < c - n - c' \<longleftrightarrow> n \<le> k \<and> k < c - c'"
proof -
  have 1: "unat c' \<le> unat c - unat n" "unat n \<le> unat c" using assms by (auto simp: unat_sub word_le_nat_alt)
  have 2: "unat (c - n - c') = unat c - unat n - unat c'" "unat (c - c') = unat c - unat c'"
    using assms 1 by (auto simp: unat_sub word_le_nat_alt)
  obtain N where N: "N = (2 :: nat) ^ LENGTH('a)" by simp
  have 3: "unat c < N" "unat k < N" unfolding N by simp_all
  show ?thesis unfolding word_less_nat_alt word_le_nat_alt 2 using 1 3
    by (auto simp: unat_sub_if_size word_size simp flip: N)
qed

lemma word_sub_less_shift': 
  fixes x d c c' n :: "'a::len word"
  assumes "n \<le> c" "c' \<le> c - n"
  shows "x - (d + n) < c - n - c' \<longleftrightarrow> n \<le> x - d \<and> x - d < c - c'"
  using word_sub_less_shift[OF assms, of "x - d"] by (simp add: diff_diff_eq)

lemma region_shift:
  fixes x d c n :: "'a::len word"
  assumes "n \<le> c"
  shows "x - (d + n) < c - n \<longleftrightarrow> n \<le> x - d \<and> x - d < c"
  using word_sub_less_shift'[of n c 0 x d] assms by simp

lemma sint_u8_eq_iff: "sint (a :: u8) - sint b = 0 \<longleftrightarrow> a = b"
  by (metis diff_eq_diff_eq diff_self signed_word_eqI)

end
