(* ===== verification/KMem.thy ===== *)
theory KMem
  imports Prelude
begin

section \<open>Memory and string primitives (kernel/lib)\<close>

text \<open>
  The byte-level primitives \<^verbatim>\<open>kmemcpy\<close>, \<^verbatim>\<open>kmemset\<close>, \<^verbatim>\<open>kmemcmp\<close>, \<^verbatim>\<open>kstrlen\<close>, \<^verbatim>\<open>kstrcmp\<close>
  and the \<^verbatim>\<open>kstrcpy\<close> family of kernel/lib, over a flat 64-bit memory of bytes.  Pointers
  are 64-bit words and pointer arithmetic wraps, as on the target.  The copying loops
  move eight bytes at a time through a 64-bit register and finish byte by byte, as the
  source does; the theorems show that this is the plain byte copy.  The string loops run
  until a zero byte is met, so they are partial: a string without terminator gives
  \<open>None\<close>.
\<close>

type_synonym mem = "u64 \<Rightarrow> u8"

subsection \<open>64-bit little-endian access\<close>

definition load64 :: "mem \<Rightarrow> u64 \<Rightarrow> u64" where
  "load64 m a = ucast (m a) OR push_bit 8 (ucast (m (a + 1))) OR push_bit 16 (ucast (m (a + 2)))
     OR push_bit 24 (ucast (m (a + 3))) OR push_bit 32 (ucast (m (a + 4)))
     OR push_bit 40 (ucast (m (a + 5))) OR push_bit 48 (ucast (m (a + 6)))
     OR push_bit 56 (ucast (m (a + 7)))"

definition store64 :: "mem \<Rightarrow> u64 \<Rightarrow> u64 \<Rightarrow> mem" where
  "store64 m a w = (\<lambda>x. if x - a < 8 then ucast (drop_bit (8 * unat (x - a)) w) else m x)"

subsection \<open>kmemcpy\<close>

function memcpy_words :: "mem \<Rightarrow> u64 \<Rightarrow> u64 \<Rightarrow> u64 \<Rightarrow> mem \<times> u64 \<times> u64 \<times> u64" where
  "memcpy_words m dest64 src64 c =
     (if 8 \<le> c then memcpy_words (store64 m dest64 (load64 m src64)) (dest64 + 8) (src64 + 8) (c - 8)
      else (m, dest64, src64, c))"
  by pat_completeness auto
termination
  by (relation "measure (\<lambda>(m, d, s, c). unat c)") (auto simp: unat_sub word_le_nat_alt)

function memcpy_bytes :: "mem \<Rightarrow> u64 \<Rightarrow> u64 \<Rightarrow> u64 \<Rightarrow> mem" where
  "memcpy_bytes m dest8 src8 c =
     (if 1 \<le> c then memcpy_bytes (m(dest8 := m src8)) (dest8 + 1) (src8 + 1) (c - 1) else m)"
  by pat_completeness auto
termination
  by (relation "measure (\<lambda>(m, d, s, c). unat c)") (auto simp: unat_sub word_le_nat_alt)

definition kmemcpy :: "mem \<Rightarrow> u64 \<Rightarrow> u64 \<Rightarrow> u64 \<Rightarrow> u64 \<times> mem" where
  "kmemcpy m dest src c =
     (let (m1, dest64, src64, c1) = memcpy_words m dest src c
      in (dest, memcpy_bytes m1 dest64 src64 c1))"

subsection \<open>kmemset\<close>

definition memset_pattern :: "u8 \<Rightarrow> u64" where
  "memset_pattern v8 =
     (let pat = (\<lambda>s. push_bit (8 * s) (ucast v8 :: u64))
      in pat 0 OR pat 1 OR pat 2 OR pat 3 OR pat 4 OR pat 5 OR pat 6 OR pat 7)"

function memset_words :: "mem \<Rightarrow> u64 \<Rightarrow> u64 \<Rightarrow> u64 \<Rightarrow> mem \<times> u64 \<times> u64" where
  "memset_words m ptr64 v64 c =
     (if 8 \<le> c then memset_words (store64 m ptr64 v64) (ptr64 + 8) v64 (c - 8) else (m, ptr64, c))"
  by pat_completeness auto
termination
  by (relation "measure (\<lambda>(m, p, v, c). unat c)") (auto simp: unat_sub word_le_nat_alt)

function memset_bytes :: "mem \<Rightarrow> u64 \<Rightarrow> u8 \<Rightarrow> u64 \<Rightarrow> mem" where
  "memset_bytes m ptr8 v8 c =
     (if 1 \<le> c then memset_bytes (m(ptr8 := v8)) (ptr8 + 1) v8 (c - 1) else m)"
  by pat_completeness auto
termination
  by (relation "measure (\<lambda>(m, p, v, c). unat c)") (auto simp: unat_sub word_le_nat_alt)

definition kmemset :: "mem \<Rightarrow> u64 \<Rightarrow> 32 word \<Rightarrow> u64 \<Rightarrow> u64 \<times> mem" where
  "kmemset m ptr v c =
     (let v8 = ucast v; (m1, ptr64, c1) = memset_words m ptr (memset_pattern v8) c
      in (ptr, memset_bytes m1 ptr64 v8 c1))"

subsection \<open>kmemcmp\<close>

function memcmp_skip :: "mem \<Rightarrow> u64 \<Rightarrow> u64 \<Rightarrow> u64 \<Rightarrow> u64 \<times> u64 \<times> u64" where
  "memcmp_skip m p1 p2 c =
     (if c \<noteq> 0 \<and> m p1 = m p2 then memcmp_skip m (p1 + 1) (p2 + 1) (c - 1) else (p1, p2, c))"
  by pat_completeness auto
termination
  by (relation "measure (\<lambda>(m, p, q, c). unat c)") (auto simp: unat_minus_one unat_gt_0)

definition kmemcmp :: "mem \<Rightarrow> u64 \<Rightarrow> u64 \<Rightarrow> u64 \<Rightarrow> int" where
  "kmemcmp m l r c =
     (let (p1, p2, c1) = memcmp_skip m l r c
      in if c1 \<noteq> 0 then uint (m p1) - uint (m p2) else 0)"

subsection \<open>Strings\<close>

partial_function (option) kstrlen_loop :: "mem \<Rightarrow> u64 \<Rightarrow> u64 \<Rightarrow> u64 option" where
  "kstrlen_loop m s n = (if m s \<noteq> 0 then kstrlen_loop m (s + 1) (n + 1) else Some n)"

definition kstrlen :: "mem \<Rightarrow> u64 \<Rightarrow> u64 option" where
  "kstrlen m s = kstrlen_loop m s 0"

text \<open>The plain \<^verbatim>\<open>char\<close> of the target is signed, so the difference is taken of signed bytes.\<close>

partial_function (option) kstrcmp :: "mem \<Rightarrow> u64 \<Rightarrow> u64 \<Rightarrow> int option" where
  "kstrcmp m s1 s2 =
     (if m s1 \<noteq> 0 \<and> m s2 \<noteq> 0 \<and> m s1 = m s2 then kstrcmp m (s1 + 1) (s2 + 1)
      else Some (sint (m s1) - sint (m s2)))"

partial_function (option) strcpy_loop :: "mem \<Rightarrow> u64 \<Rightarrow> u64 \<Rightarrow> (u64 \<times> mem) option" where
  "strcpy_loop m dest src =
     (if m src \<noteq> 0 then strcpy_loop (m(dest := m src)) (dest + 1) (src + 1) else Some (dest, m))"

definition kstpcpy :: "mem \<Rightarrow> u64 \<Rightarrow> u64 \<Rightarrow> (u64 \<times> mem) option" where
  "kstpcpy m dest src =
     (case strcpy_loop m dest src of None \<Rightarrow> None | Some (d, m1) \<Rightarrow> Some (d, m1(d := 0)))"

definition kstrcpy :: "mem \<Rightarrow> u64 \<Rightarrow> u64 \<Rightarrow> (u64 \<times> mem) option" where
  "kstrcpy m dest src =
     (case strcpy_loop m dest src of None \<Rightarrow> None | Some (d, m1) \<Rightarrow> Some (dest, m1(d := 0)))"

definition kstrcpy_no_null :: "mem \<Rightarrow> u64 \<Rightarrow> u64 \<Rightarrow> (u64 \<times> mem) option" where
  "kstrcpy_no_null m dest src =
     (case strcpy_loop m dest src of None \<Rightarrow> None | Some (d, m1) \<Rightarrow> Some (dest, m1))"

text \<open>\<^verbatim>\<open>while (*src && --len)\<close>: the length is decremented only when the byte is not
  zero.  The loop is entered with a nonzero length, so the test \<open>len \<noteq> 0\<close> never fails; it makes
  the recursion total.\<close>

function strncpy_loop :: "mem \<Rightarrow> u64 \<Rightarrow> u64 \<Rightarrow> u64 \<Rightarrow> u64 \<times> mem" where
  "strncpy_loop m dest src len =
     (if m src \<noteq> 0 \<and> len \<noteq> 0 \<and> len - 1 \<noteq> 0
      then strncpy_loop (m(dest := m src)) (dest + 1) (src + 1) (len - 1) else (dest, m))"
  by pat_completeness auto
termination
  by (relation "measure (\<lambda>(m, d, s, n). unat n)") (auto simp: unat_minus_one unat_gt_0)

definition kstrncpy :: "mem \<Rightarrow> u64 \<Rightarrow> u64 \<Rightarrow> u64 \<Rightarrow> u64 \<times> mem" where
  "kstrncpy m dest src len =
     (if len = 0 then (dest, m)
      else let (d, m1) = strncpy_loop m dest src len in (d + 1, m1(d := 0)))"

declare memcpy_words.simps [simp del] memcpy_bytes.simps [simp del]
  memset_words.simps [simp del] memset_bytes.simps [simp del]
  memcmp_skip.simps [simp del] strncpy_loop.simps [simp del]

subsection \<open>Lemmas\<close>

lemma byte_load64:
  assumes "i < 8"
  shows "(ucast (drop_bit (8 * i) (load64 m a)) :: u8) = m (a + of_nat i)"
proof -
  from assms have "i \<in> {0,1,2,3,4,5,6,7}" by auto
  then show ?thesis
    unfolding load64_def
    by (elim insertE emptyE; hypsubst; intro bit_eqI; simp add: bit_simps bit_u8_beyond)
qed

lemma byte_pattern:
  assumes "i < 8"
  shows "(ucast (drop_bit (8 * i) (memset_pattern v)) :: u8) = v"
proof -
  from assms have "i \<in> {0,1,2,3,4,5,6,7}" by auto
  then show ?thesis
    unfolding memset_pattern_def Let_def
    by (elim insertE emptyE; hypsubst; intro bit_eqI; simp add: bit_simps  bit_u8_beyond)
qed

lemma store64_load64: "store64 m d (load64 m s) = (\<lambda>x. if x - d < 8 then m (s + (x - d)) else m x)"
proof 
  fix x show "store64 m d (load64 m s) x = (if x - d < 8 then m (s + (x - d)) else m x)"
   using byte_load64[of "unat (x - d)" m s] by (simp add: store64_def word_less_nat_alt)
qed

text \<open>Two regions of \<open>c\<close> bytes, on the circle of 64-bit addresses, do not overlap.\<close>

definition regions_disjoint :: "u64 \<Rightarrow> u64 \<Rightarrow> u64 \<Rightarrow> bool" where
  "regions_disjoint d s c \<longleftrightarrow> c = 0 \<or> c \<le> s - d \<and> c \<le> d - s"

lemma regions_disjointD:
  assumes "regions_disjoint d s c" "x - d < c" "x - s < c"
  shows False
proof (cases "x - s \<le> x - d")
  case True
  then have "(x - d) - (x - s) \<le> x - d" by (rule word_sub_le)
  with assms show False by (auto simp: regions_disjoint_def)
next
  case False
  then have "(x - s) - (x - d) \<le> x - s" by (intro word_sub_le) simp
  with assms show False by (auto simp: regions_disjoint_def)
qed

definition copy_region :: "mem \<Rightarrow> u64 \<Rightarrow> u64 \<Rightarrow> u64 \<Rightarrow> mem" where
  "copy_region m d s c = (\<lambda>x. if x - d < c then m (s + (x - d)) else m x)"

definition fill_region :: "mem \<Rightarrow> u64 \<Rightarrow> u8 \<Rightarrow> u64 \<Rightarrow> mem" where
  "fill_region m p v c = (\<lambda>x. if x - p < c then v else m x)"

lemma regions_disjoint_shift:
  assumes "regions_disjoint d s c" "n \<le> c"
  shows "regions_disjoint (d + n) (s + n) (c - n)"
  using assms word_sub_le[of n c] by (auto simp: regions_disjoint_def)

lemma copy_region_comp:
  assumes "n \<le> c" "regions_disjoint d s c"
  shows "copy_region (copy_region m d s n) (d + n) (s + n) (c - n) = copy_region m d s c"
proof
  fix x
  have "\<not> s + (x - d) - d < n" if "x - d < c"
  proof -
    have "\<not> s + (x - d) - d < c"
      using regions_disjointD[OF assms(2), of "s + (x - d)"] that by auto
    with \<open>n \<le> c\<close> show ?thesis by auto
  qed
  moreover have "s + n + (x - (d + n)) = s + (x - d)" by simp
  ultimately show "copy_region (copy_region m d s n) (d + n) (s + n) (c - n) x = copy_region m d s c x"
    using assms(1) by (auto simp: copy_region_def region_shift)
qed

lemma fill_region_comp:
  "n \<le> c \<Longrightarrow> fill_region (fill_region m p v n) (p + n) v (c - n) = fill_region m p v c"
  by (auto simp: fill_region_def region_shift fun_eq_iff)

lemma copy_region_0 [simp]: "copy_region m d s 0 = m"
  by (simp add: copy_region_def)

lemma fill_region_0 [simp]: "fill_region m p v 0 = m"
  by (simp add: fill_region_def)

lemma store64_load64': "store64 m d (load64 m s) = copy_region m d s 8"
  by (simp add: store64_load64 copy_region_def)

lemma store64_pattern: "store64 m p (memset_pattern v) = fill_region m p v 8"
proof 
  fix x show "store64 m p (memset_pattern v) x = fill_region m p v 8 x"
   using byte_pattern[of "unat (x - p)" v] by (simp add: store64_def fill_region_def word_less_nat_alt)
qed

lemma copy_byte: "m(d := m s) = copy_region m d s 1"
  by (auto simp: copy_region_def)

lemma fill_byte: "m(p := v) = fill_region m p v 1"
  by (auto simp: fill_region_def)

lemma memcpy_bytes_spec:
  "regions_disjoint d s c \<Longrightarrow> memcpy_bytes m d s c = copy_region m d s c"
proof (induction m d s c rule: memcpy_bytes.induct)
  case (1 m d s c)
  show ?case
  proof (cases "1 \<le> c")
    case True
    with 1 show ?thesis
      by (simp add: memcpy_bytes.simps[of m d s c] copy_byte regions_disjoint_shift copy_region_comp)
  qed (subst memcpy_bytes.simps, simp add: not_le)
qed

lemma memcpy_words_spec:
  "regions_disjoint d s c \<Longrightarrow> memcpy_words m d s c = (m1, d1, s1, c1) \<Longrightarrow>
   memcpy_bytes m1 d1 s1 c1 = copy_region m d s c"
proof (induction m d s c rule: memcpy_words.induct)
  case (1 m d s c)
  show ?case
  proof (cases "8 \<le> c")
    case True
    with 1 show ?thesis
      by (simp add: memcpy_words.simps[of m d s c] store64_load64' regions_disjoint_shift copy_region_comp)
  next
    case False
    with 1 show ?thesis by (auto simp: memcpy_words.simps[of m d s c] memcpy_bytes_spec)
  qed
qed

lemma kmemcpy_copy_region: "regions_disjoint d s c \<Longrightarrow> kmemcpy m d s c = (d, copy_region m d s c)"
  by (auto simp: kmemcpy_def memcpy_words_spec split: prod.splits)

lemma memset_bytes_spec: "memset_bytes m p v c = fill_region m p v c"
proof (induction m p v c rule: memset_bytes.induct)
  case (1 m p v c)
  show ?case
  proof (cases "1 \<le> c")
    case True
    with 1 show ?thesis
      by (simp add: memset_bytes.simps[of m p v c] fill_byte fill_region_comp)
  qed (subst memset_bytes.simps, simp add: not_le)
qed

lemma memset_words_spec:
  "memset_words m p (memset_pattern v) c = (m1, p1, c1) \<Longrightarrow>
   memset_bytes m1 p1 v c1 = fill_region m p v c"
proof (induction m p "memset_pattern v" c rule: memset_words.induct)
  case (1 m p c)
  show ?case
  proof (cases "8 \<le> c")
    case True
    with 1 show ?thesis
      by (simp add: memset_words.simps[of m p "memset_pattern v" c] store64_pattern fill_region_comp)
  next
    case False
    with 1 show ?thesis by (auto simp: memset_words.simps[of m p _ c] memset_bytes_spec)
  qed
qed

lemma kmemset_fill_region: "kmemset m p v c = (p, fill_region m p (ucast v) c)"
  by (auto simp: kmemset_def memset_words_spec Let_def split: prod.splits)

lemma memcmp_skip_spec:
  "memcmp_skip m p q c = (p', q', c') \<Longrightarrow>
   c' \<le> c \<and> p' = p + (c - c') \<and> q' = q + (c - c') \<and> (c' \<noteq> 0 \<longrightarrow> m p' \<noteq> m q') \<and>
   (\<forall>i < c - c'. m (p + i) = m (q + i))"
proof (induction m p q c rule: memcmp_skip.induct)
  case (1 m p q c)
  show ?case
  proof (cases "c \<noteq> 0 \<and> m p = m q")
    case True
    from True 1 have IH: "c' \<le> c - 1" "p' = p + 1 + (c - 1 - c')" "q' = q + 1 + (c - 1 - c')"
      "c' \<noteq> 0 \<longrightarrow> m p' \<noteq> m q'" "\<forall>i < c - 1 - c'. m (p + 1 + i) = m (q + 1 + i)"
      by (auto simp: memcmp_skip.simps[of m p q c])
    have one: "1 \<le> c" using True by (simp add: word_le_nat_alt unat_gt_0 Suc_le_eq)
    have le: "c' \<le> c" using IH(1) one by (meson order_trans word_sub_le)
    have "m (p + i) = m (q + i)" if "i < c - c'" for i
    proof (cases "i = 0")
      case False
      then have "1 \<le> i" by (simp add: word_le_nat_alt unat_gt_0 Suc_le_eq)
      then have "i - 1 < c - 1 - c'" using word_sub_less_shift[OF one IH(1), of i] that by simp
      then show ?thesis using IH(5)[rule_format, of "i - 1"] by (simp add: algebra_simps)
    qed (use True in simp)
    then show ?thesis using IH le by (auto simp: algebra_simps)
  next
    case False
    with 1 show ?thesis by (auto simp: memcmp_skip.simps[of m p q c])
  qed
qed

lemma kmemcmp_zero_iff: "kmemcmp m l r c = 0 \<longleftrightarrow> (\<forall>i < c. m (l + i) = m (r + i))"
proof -
  obtain p q c' where sk: "memcmp_skip m l r c = (p, q, c')" by (metis prod_cases3)
  note sp = memcmp_skip_spec[OF sk]
  show ?thesis
  proof (cases "c' = 0")
    case True
    with sp sk show ?thesis by (auto simp: kmemcmp_def)
  next
    case False
    then have "c - c' < c" using sp unat_gt_0[of c']
      by (auto simp: word_less_nat_alt word_le_nat_alt unat_sub)
    moreover have "m (l + (c - c')) \<noteq> m (r + (c - c'))" using sp False by auto
    moreover have "uint (m p) \<noteq> uint (m q)" using sp False unsigned_word_eqI[of "m p" "m q"] by blast
    ultimately show ?thesis using sk False by (auto simp: kmemcmp_def)
  qed
qed

lemma kmemcmp_first_diff:
  assumes "k < n" "m (l + k) \<noteq> m (r + k)" "\<forall>i < k. m (l + i) = m (r + i)"
  shows "kmemcmp m l r n = uint (m (l + k)) - uint (m (r + k))"
proof -
  obtain p q c' where sk: "memcmp_skip m l r n = (p, q, c')" by (metis prod_cases3)
  note sp = memcmp_skip_spec[OF sk]
  have "\<not> k < n - c'" using sp assms(2) by blast
  moreover have c0: "c' \<noteq> 0" using sp assms(1,2) by auto
  then have "m (l + (n - c')) \<noteq> m (r + (n - c'))" using sp by auto
  then have "\<not> n - c' < k" using assms(3) by blast
  ultimately have "k = n - c'" by simp
  with sp sk c0 show ?thesis by (simp add: kmemcmp_def)
qed

text \<open>\<open>cstr m s xs\<close>: at \<open>s\<close> the memory holds the zero-terminated string \<open>xs\<close>.\<close>

fun cstr :: "mem \<Rightarrow> u64 \<Rightarrow> bytes \<Rightarrow> bool" where
  "cstr m s [] = (m s = 0)"
| "cstr m s (x # xs) = (m s = x \<and> x \<noteq> 0 \<and> cstr m (s + 1) xs)"

lemma kstrlen_loop_cstr: "cstr m s xs \<Longrightarrow> kstrlen_loop m s n = Some (n + of_nat (length xs))"
  by (induction xs arbitrary: s n) (auto simp: kstrlen_loop.simps algebra_simps)

lemma kstrcmp_cstr:
  "cstr m a xs \<Longrightarrow> cstr m b ys \<Longrightarrow> \<exists>r. kstrcmp m a b = Some r \<and> (r = 0 \<longleftrightarrow> xs = ys)"
proof (induction xs arbitrary: a b ys)
  case Nil
  then show ?case using sint_u8_eq_iff[of 0 "m b"] by (cases ys) (auto simp: kstrcmp.simps)
next
  case (Cons x xs)
  show ?case
  proof (cases ys)
    case Nil
    with Cons.prems show ?thesis using sint_u8_eq_iff[of "m a" 0] by (auto simp: kstrcmp.simps[of m a b])
  next
    case (Cons y ys')
    show ?thesis
    proof (cases "x = y")
      case True
      with Cons Cons.prems show ?thesis using Cons.IH[of "a + 1" "b + 1" ys'] by (auto simp: kstrcmp.simps[of m a b])
    next
      case False
      with Cons Cons.prems show ?thesis using sint_u8_eq_iff[of "m a" "m b"] by (auto simp: kstrcmp.simps[of m a b])
    qed
  qed
qed

definition in_region :: "u64 \<Rightarrow> nat \<Rightarrow> u64 \<Rightarrow> bool" where
  "in_region a n x \<longleftrightarrow> unat (x - a) < n"

lemma in_region_0 [simp]: "\<not> in_region a 0 x"
  by (simp add: in_region_def)

lemma in_region_Suc: "in_region a (Suc n) x \<longleftrightarrow> x = a \<or> in_region (a + 1) n x"
proof (cases "x = a")
  case False
  then have "x - a \<noteq> 0" by simp
  then have "unat (x - a - 1) = unat (x - a) - 1" "0 < unat (x - a)"
    by (simp_all add: unat_minus_one unat_gt_0)
  with False show ?thesis by (auto simp: in_region_def diff_diff_eq)
qed (simp add: in_region_def)

lemma cstr_cong:
  "(\<And>x. in_region s (Suc (length xs)) x \<Longrightarrow> m x = m' x) \<Longrightarrow> cstr m s xs = cstr m' s xs"
proof (induction xs arbitrary: s)
  case (Cons x xs)
  from Cons.prems have "m s = m' s" "\<And>y. in_region (s + 1) (Suc (length xs)) y \<Longrightarrow> m y = m' y"
    by (auto simp: in_region_Suc)
  with Cons.IH[of "s + 1"] show ?case by simp
qed (simp add: in_region_Suc)

lemma strcpy_loop_cstr:
  assumes "cstr m s xs" "\<And>x. in_region d (length xs) x \<Longrightarrow> \<not> in_region s (Suc (length xs)) x"
    "length xs < 2 ^ 64"
  shows "\<exists>m'. strcpy_loop m d s = Some (d + of_nat (length xs), m') \<and> cstr (m'(d + of_nat (length xs) := 0)) d xs \<and>
      (\<forall>x. \<not> in_region d (length xs) x \<longrightarrow> m' x = m x)"
  using assms
proof (induction xs arbitrary: s d m)
  case Nil
  then show ?case by (auto simp: strcpy_loop.simps)
next
  case (Cons x xs)
  let ?m1 = "m(d := x)" and ?n = "length xs"
  have d: "\<not> in_region s (Suc (Suc ?n)) d" using Cons.prems(2)[of d] by (simp add: in_region_Suc)
  have "cstr ?m1 (s + 1) xs"
  proof -
    have "cstr ?m1 (s + 1) xs = cstr m (s + 1) xs"
      by (rule cstr_cong) (use d in \<open>auto simp: in_region_Suc[of s]\<close>)
    with Cons.prems(1) show ?thesis by simp
  qed
  moreover have "\<not> in_region (s + 1) (Suc ?n) y" if "in_region (d + 1) ?n y" for y
    using Cons.prems(2)[of y] that by (simp add: in_region_Suc[of d] in_region_Suc[of s])
  ultimately obtain m' where m': "strcpy_loop ?m1 (d + 1) (s + 1) = Some (d + 1 + of_nat ?n, m')"
    "cstr (m'(d + 1 + of_nat ?n := 0)) (d + 1) xs" "\<forall>y. \<not> in_region (d + 1) ?n y \<longrightarrow> m' y = ?m1 y"
    using Cons.IH[of ?m1 "s + 1" "d + 1"] Cons.prems(3) by fastforce
  have nd: "\<not> in_region (d + 1) ?n d" using Cons.prems(3) by (simp add: in_region_def unsigned_minus_1_eq_mask mask_eq_exp_minus_1)
  have ne: "d \<noteq> d + 1 + of_nat ?n"
  proof
    assume "d = d + 1 + of_nat ?n"
    then have "(of_nat (Suc ?n) :: u64) = 0" by (simp add: algebra_simps)
    moreover have "unat (of_nat (Suc ?n) :: u64) = Suc ?n"
      using Cons.prems(3) by (simp only: unat_of_nat) simp
    ultimately show False by simp
  qed
  have "strcpy_loop m d s = Some (d + of_nat (length (x # xs)), m')"
    using Cons.prems(1) m'(1) by (simp add: strcpy_loop.simps[of m d s] algebra_simps)
  moreover have "cstr (m'(d + of_nat (length (x # xs)) := 0)) d (x # xs)"
    using m'(2,3) nd ne Cons.prems(1) by (simp add: algebra_simps)
  moreover have "\<forall>y. \<not> in_region d (length (x # xs)) y \<longrightarrow> m' y = m y"
    using m'(3) by (simp add: in_region_Suc)
  ultimately show ?case by blast
qed

lemma kstrcpy_cstr:
  assumes "cstr m s xs" "\<And>x. in_region d (Suc (length xs)) x \<Longrightarrow> \<not> in_region s (Suc (length xs)) x"
    "length xs < 2 ^ 64"
  shows "\<exists>m'. kstrcpy m d s = Some (d, m') \<and> cstr m' d xs \<and> cstr m' s xs \<and>
    (\<forall>x. \<not> in_region d (Suc (length xs)) x \<longrightarrow> m' x = m x)"
proof -
  have sub: "in_region d (length xs) x \<Longrightarrow> in_region d (Suc (length xs)) x" for x
    by (simp add: in_region_def)
  obtain m1 where m1: "strcpy_loop m d s = Some (d + of_nat (length xs), m1)"
    "cstr (m1(d + of_nat (length xs) := 0)) d xs" "\<forall>x. \<not> in_region d (length xs) x \<longrightarrow> m1 x = m x"
    using strcpy_loop_cstr[OF assms(1) _ assms(3), of d] assms(2) sub by blast
  let ?m' = "m1(d + of_nat (length xs) := 0)"
  have "in_region d (Suc (length xs)) (d + of_nat (length xs))"
    using assms(3) by (simp add: in_region_def unat_of_nat)
  then have fr: "\<forall>x. \<not> in_region d (Suc (length xs)) x \<longrightarrow> ?m' x = m x" 
    using m1(3) sub by auto
  have "cstr ?m' s xs = cstr m s xs"
    by (rule cstr_cong) (use fr assms(2) in blast)
  then show ?thesis using m1 fr assms(1) by (auto simp: kstrcpy_def)
qed

lemma in_region_word: "n < 2 ^ 64 \<Longrightarrow> in_region a n x \<longleftrightarrow> x - a < of_nat n"
  by (simp add: in_region_def word_less_nat_alt unat_of_nat)

lemma cstr_memcpy:
  assumes "cstr m s xs" "\<And>i. i \<le> length xs \<Longrightarrow> m' (d + of_nat i) = m (s + of_nat i)"
  shows "cstr m' d xs"
  using assms
proof (induction xs arbitrary: s d)
  case Nil
  then show ?case using Nil.prems(2)[of 0] by simp
next
  case (Cons x xs)
  have "m' (d + 1 + of_nat i) = m (s + 1 + of_nat i)" if "i \<le> length xs" for i
    using Cons.prems(2)[of "Suc i"] that by (simp add: algebra_simps)
  with Cons.IH[of "s + 1" "d + 1"] Cons.prems show ?case
    using Cons.prems(2)[of 0] by simp
qed

subsection \<open>The contract of a memory copy\<close>

text \<open>What the rest of the kernel relies on when it copies a buffer: the destination pointer
  is handed back, the bytes arrive, and nothing else changes.  The facts that clients use are
  proved from this contract and hold of \<^verbatim>\<open>kmemcpy\<close> through the interpretation below.\<close>

locale byte_copy =
  fixes cpy :: "mem \<Rightarrow> u64 \<Rightarrow> u64 \<Rightarrow> u64 \<Rightarrow> u64 \<times> mem"
  assumes cpy_dest: "regions_disjoint d s c \<Longrightarrow> fst (cpy m d s c) = d"
    and cpy_byte: "regions_disjoint d s c \<Longrightarrow> i < c \<Longrightarrow> snd (cpy m d s c) (d + i) = m (s + i)"
    and cpy_frame: "regions_disjoint d s c \<Longrightarrow> \<not> x - d < c \<Longrightarrow> snd (cpy m d s c) x = m x"
begin

lemma cpy_source:
  assumes "regions_disjoint d s c" "i < c"
  shows "snd (cpy m d s c) (s + i) = m (s + i)"
  using assms regions_disjointD[OF assms(1), of "s + i"] by (auto intro: cpy_frame)

lemma cpy_same: "regions_disjoint d s c \<Longrightarrow> kmemcmp (snd (cpy m d s c)) d s c = 0"
  by (simp add: kmemcmp_zero_iff cpy_byte cpy_source)

lemma cpy_string:
  assumes "regions_disjoint d s c" "cstr m s xs" "length xs < unat c"
  shows "cstr (snd (cpy m d s c)) d xs" "cstr (snd (cpy m d s c)) s xs"
proof -
  have lt: "of_nat i < c" if "i \<le> length xs" for i
    using that assms(3) unsigned_less[of c] by (simp add: word_less_nat_alt unat_of_nat)
  show "cstr (snd (cpy m d s c)) d xs"
    by (rule cstr_memcpy[OF assms(2)]) (simp add: cpy_byte assms(1) lt)
  show "cstr (snd (cpy m d s c)) s xs"
    by (rule cstr_memcpy[OF assms(2)]) (simp add: cpy_source assms(1) lt)
qed

end

interpretation kcpy: byte_copy kmemcpy
  by unfold_locales (simp_all add: kmemcpy_copy_region copy_region_def)

subsection \<open>Properties\<close>

text \<open>C31: \<^verbatim>\<open>kmemcpy\<close>, which moves eight bytes at a time and then the rest byte by byte, returns
  the destination pointer and is the plain copy of \<open>c\<close> bytes between regions that do not
  overlap: every byte arrives and no byte outside the destination changes.  Addresses may wrap.\<close>

theorem kmemcpy_correct:
  assumes "regions_disjoint dest src c"
  shows "fst (kmemcpy m dest src c) = dest
    \<and> (\<forall>i. i < c \<longrightarrow> snd (kmemcpy m dest src c) (dest + i) = m (src + i))
    \<and> (\<forall>x. \<not> x - dest < c \<longrightarrow> snd (kmemcpy m dest src c) x = m x)"
  using assms by (auto simp: kcpy.cpy_dest kcpy.cpy_byte kcpy.cpy_frame)

theorem kmemcpy_correct_witness:
  "regions_disjoint 0xFFFFFFFFFFFFFFFC 32 19 \<and>
   snd (kmemcpy (\<lambda>x. ucast x) 0xFFFFFFFFFFFFFFFC 32 19) (0xFFFFFFFFFFFFFFFC + 18) = 50"
proof -
  have d: "regions_disjoint 0xFFFFFFFFFFFFFFFC 32 19" by (simp add: regions_disjoint_def)
  have "(18 :: u64) < 19" by simp
  then show ?thesis using kmemcpy_correct[OF d, of "\<lambda>x. ucast x"] d by fastforce
qed

text \<open>\<^verbatim>\<open>kmemset\<close> fills exactly the \<open>c\<close> bytes from \<open>ptr\<close> with the low byte of its argument,
  through the replicated 64-bit pattern, and leaves the rest of memory alone; \<^verbatim>\<open>kmemcmp\<close> returns
  zero exactly when the two regions hold the same bytes, for every length, and otherwise the
  difference of the first two bytes that differ.\<close>

lemma kmemset_kmemcmp_correct:
  "kmemset m ptr v c = (ptr, \<lambda>x. if x - ptr < c then ucast v else m x)
   \<and> (kmemcmp m l r n = 0 \<longleftrightarrow> (\<forall>i < n. m (l + i) = m (r + i)))
   \<and> (\<forall>k < n. m (l + k) \<noteq> m (r + k) \<longrightarrow> (\<forall>i < k. m (l + i) = m (r + i)) \<longrightarrow>
        kmemcmp m l r n = uint (m (l + k)) - uint (m (r + k)))"
  by (simp add: kmemset_fill_region fill_region_def kmemcmp_zero_iff kmemcmp_first_diff)

text \<open>On a zero-terminated string \<open>xs\<close> and a destination that does not overlap it,
  \<^verbatim>\<open>kstrcpy\<close> returns, gives back the destination, leaves there the string with its terminator,
  keeps the source, and writes nothing beyond the \<open>length + 1\<close> bytes; \<^verbatim>\<open>kstrlen\<close> of the copy is
  the length and \<^verbatim>\<open>kstrcmp\<close> finds the copy equal.\<close>

lemma kstrcpy_correct:
  assumes "cstr m src xs" "Suc (length xs) < 2 ^ 64"
    "regions_disjoint dest src (of_nat (Suc (length xs)))"
  shows "\<exists>m'. kstrcpy m dest src = Some (dest, m') \<and> cstr m' dest xs \<and> cstr m' src xs
    \<and> (\<forall>x. \<not> x - dest < of_nat (Suc (length xs)) \<longrightarrow> m' x = m x)
    \<and> kstrlen m' dest = Some (of_nat (length xs)) \<and> kstrcmp m' dest src = Some 0"
proof -
  have "\<not> in_region src (Suc (length xs)) x" if "in_region dest (Suc (length xs)) x" for x
    using that regions_disjointD[OF assms(3)] by (auto simp only: in_region_word[OF assms(2)])
  then obtain m' where m': "kstrcpy m dest src = Some (dest, m')" "cstr m' dest xs" "cstr m' src xs"
    "\<forall>x. \<not> in_region dest (Suc (length xs)) x \<longrightarrow> m' x = m x"
    using kstrcpy_cstr[OF assms(1), of dest] assms(2) by auto
  moreover have "kstrlen m' dest = Some (of_nat (length xs))"
    using kstrlen_loop_cstr[OF m'(2), of 0] by (simp add: kstrlen_def)
  moreover have "kstrcmp m' dest src = Some 0" using kstrcmp_cstr[OF m'(2,3)] by auto
  ultimately show ?thesis unfolding in_region_word[OF assms(2)] by blast
qed

end
