(* ===== verification/Hash.thy ===== *)
theory Hash
  imports KMem
begin

section \<open>Hashes and checksums (kernel/lib/hash.c)\<close>

text \<open>
  The byte-sum checksum of the ACPI tables, the CRC-32 of the GPT headers and the FNV-1a
  hash under which the VFS files its open nodes.  The routines read memory through a pointer
  and a length; \<open>bytes_at\<close> names the message they read, and each is shown to be a fold of its
  byte step over that message.  What the callers rely on is that a change of the message
  changes the result: for CRC-32 any change confined to four consecutive bytes, for FNV-1a and
  the byte sum any change of one byte.
\<close>

definition CRC32_ANSI_C0 :: u32 where "CRC32_ANSI_C0 = 0xFFFFFFFF"
definition CRC32_ANSI_C1 :: u32 where "CRC32_ANSI_C1 = 0xEDB88320"
definition FNV64_1A_C0 :: u64 where "FNV64_1A_C0 = 0xcbf29ce484222325"
definition FNV64_1A_C1 :: u64 where "FNV64_1A_C1 = 0x100000001b3"

function byte_sum_loop :: "mem \<Rightarrow> u64 \<Rightarrow> u64 \<Rightarrow> u8 \<Rightarrow> u8" where
  "byte_sum_loop m p c acc = (if 0 < c then byte_sum_loop m (p + 1) (c - 1) (acc + m p) else acc)"
  by pat_completeness auto
termination
  by (relation "measure (\<lambda>(m, p, c, s). unat c)") (auto simp: unat_minus_one unat_gt_0 word_neq_0_conv)

definition hash_byte_sum :: "mem \<Rightarrow> u64 \<Rightarrow> u64 \<Rightarrow> u8" where
  "hash_byte_sum m ptr c = byte_sum_loop m ptr c 0"

definition crc_bit :: "u32 \<Rightarrow> u32" where
  "crc_bit crc = (if crc AND 1 \<noteq> 0 then drop_bit 1 crc XOR CRC32_ANSI_C1 else drop_bit 1 crc)"

definition crc_byte :: "u32 \<Rightarrow> u8 \<Rightarrow> u32" where
  "crc_byte crc b = (crc_bit ^^ 8) (crc XOR ucast b)"

function crc_loop :: "mem \<Rightarrow> u64 \<Rightarrow> u64 \<Rightarrow> u32 \<Rightarrow> u32" where
  "crc_loop m p len crc =
     (if len \<noteq> 0 then crc_loop m (p + 1) (len - 1) (crc_byte crc (m p)) else crc)"
  by pat_completeness auto
termination
  by (relation "measure (\<lambda>(m, p, c, s). unat c)") (auto simp: unat_minus_one unat_gt_0)

definition crc32_ansi :: "mem \<Rightarrow> u64 \<Rightarrow> u64 \<Rightarrow> u32" where
  "crc32_ansi m p len = crc_loop m p len CRC32_ANSI_C0 XOR CRC32_ANSI_C0"

definition fnv_byte :: "u64 \<Rightarrow> u8 \<Rightarrow> u64" where
  "fnv_byte fnv64 b = (fnv64 XOR ucast b) * FNV64_1A_C1"

function fnv_loop :: "mem \<Rightarrow> u64 \<Rightarrow> u64 \<Rightarrow> u64 \<Rightarrow> u64 \<Rightarrow> u64" where
  "fnv_loop m bytes i len fnv64 =
     (if i < len then fnv_loop m (bytes + 1) (i + 1) len (fnv_byte fnv64 (m bytes)) else fnv64)"
  by pat_completeness auto
termination
  by (relation "measure (\<lambda>(m, p, i, n, s). unat n - unat i)")
    (auto simp: unat_succ_less word_less_nat_alt)

definition fnv64_1a :: "mem \<Rightarrow> u64 \<Rightarrow> u64 \<Rightarrow> u64" where
  "fnv64_1a m data len = fnv_loop m data 0 len FNV64_1A_C0"

declare byte_sum_loop.simps [simp del] crc_loop.simps [simp del] fnv_loop.simps [simp del]

subsection \<open>The message and the fold\<close>

definition bytes_at :: "mem \<Rightarrow> u64 \<Rightarrow> nat \<Rightarrow> bytes" where
  "bytes_at m p n = map (\<lambda>i. m (p + of_nat i)) [0..<n]"

lemma bytes_at_0 [simp]: "bytes_at m p 0 = []"
  by (simp add: bytes_at_def)

lemma bytes_at_Suc: "bytes_at m p (Suc n) = m p # bytes_at m (p + 1) n"
  by (simp add: bytes_at_def upt_conv_Cons map_Suc_upt[symmetric] algebra_simps del: upt_Suc)

lemma length_bytes_at [simp]: "length (bytes_at m p n) = n"
  by (simp add: bytes_at_def)

lemma bytes_at_step: "(c :: u64) \<noteq> 0 \<Longrightarrow> bytes_at m p (unat c) = m p # bytes_at m (p + 1) (unat (c - 1))"
  using bytes_at_Suc[of m p "unat (c - 1)"] by (simp add: unat_minus_one unat_gt_0)

lemma byte_sum_loop_fold: "byte_sum_loop m p c a = foldl (+) a (bytes_at m p (unat c))"
proof (induction m p c a rule: byte_sum_loop.induct)
  case (1 m p c a)
  then show ?case
    by (cases "c = 0") (simp_all add: byte_sum_loop.simps[of m p] bytes_at_step word_neq_0_conv)
qed

lemma crc_loop_fold: "crc_loop m p c a = foldl crc_byte a (bytes_at m p (unat c))"
proof (induction m p c a rule: crc_loop.induct)
  case (1 m p c a)
  then show ?case
    by (cases "c = 0") (simp_all add: crc_loop.simps[of m p] bytes_at_step)
qed

lemma fnv_loop_fold:
  "i \<le> n \<Longrightarrow> fnv_loop m p i n a = foldl fnv_byte a (bytes_at m p (unat (n - i)))"
proof (induction m p i n a rule: fnv_loop.induct)
  case (1 m p i n a)
  show ?case
  proof (cases "i < n")
    case True
    then have "i + 1 \<le> n" by (rule inc_le)
    moreover have "n - i \<noteq> 0" using True by auto
    ultimately show ?thesis using True 1
      by (simp add: fnv_loop.simps[of m p i n a] bytes_at_step[of "n - i"] diff_diff_eq)
  next
    case False
    with 1(2) have "n = i" by simp
    then show ?thesis by (simp add: fnv_loop.simps[of m p])
  qed
qed

text \<open>The FNV-1a hash of a message given as bytes.\<close>

definition fnv64_bytes :: "bytes \<Rightarrow> u64" where
  "fnv64_bytes xs = foldl fnv_byte FNV64_1A_C0 xs"

lemma fnv64_1a_bytes: "fnv64_1a m p len = fnv64_bytes (bytes_at m p (unat len))"
  by (simp add: fnv64_1a_def fnv64_bytes_def fnv_loop_fold)

subsection \<open>Byte hashes that detect changes\<close>

text \<open>A byte hash whose step loses nothing: it is injective in the state for a fixed byte and
  in the byte for a fixed state.\<close>

locale byte_hash =
  fixes step :: "'s \<Rightarrow> u8 \<Rightarrow> 's"
  assumes step_state: "step s b = step t b \<Longrightarrow> s = t"
    and step_byte: "step s b = step s c \<Longrightarrow> b = c"
begin

lemma fold_state: "foldl step s xs = foldl step t xs \<Longrightarrow> s = t"
  by (induction xs arbitrary: s t) (auto dest: step_state)

lemma fold_change: "b \<noteq> c \<Longrightarrow> foldl step s (xs @ b # ys) \<noteq> foldl step s (xs @ c # ys)"
  using fold_state step_byte by fastforce

end

lemma crc_bit_alt: "crc_bit a = drop_bit 1 a XOR (if bit a 0 then CRC32_ANSI_C1 else 0)"
  by (simp add: crc_bit_def and_one_bit)

lemma bit_crc_bit_31: "bit (crc_bit a) 31 = bit a 0"
  by (simp add: crc_bit_alt CRC32_ANSI_C1_def bit_simps bit_beyond)

lemma crc_bit_inj: 
  assumes "crc_bit a = crc_bit b"
  shows "a = b"
proof -
  have 0: "bit a 0 = bit b 0" using assms bit_crc_bit_31 by metis
  with assms have "drop_bit 1 a = drop_bit 1 b" by (auto simp: crc_bit_alt split: if_splits)
  then have "bit a (Suc n) = bit b (Suc n)" for n
    by (metis bit_drop_bit_eq plus_1_eq_Suc comp_apply)
  with 0 show ?thesis by (intro bit_eqI) (metis not0_implies_Suc)
qed

lemma crc_bit_xor: "crc_bit (a XOR b) = crc_bit a XOR crc_bit b"
  by (auto simp: crc_bit_alt bit_xor_iff xor.assoc xor.left_commute xor.commute)

lemma crc_bit_0 [simp]: "crc_bit 0 = 0"
  by (simp add: crc_bit_alt)

lemma crc_bits_0 [simp]: "(crc_bit ^^ n) 0 = 0"
  by (induction n) simp_all

lemma crc_bits_inj: "(crc_bit ^^ n) a = (crc_bit ^^ n) b \<Longrightarrow> a = b"
  by (induction n) (auto dest: crc_bit_inj)

lemma crc_bits_xor: "(crc_bit ^^ n) (a XOR b) = (crc_bit ^^ n) a XOR (crc_bit ^^ n) b"
  by (induction n) (simp_all add: crc_bit_xor)

lemma crc_byte_xor: "crc_byte (s XOR t) (b XOR c) = crc_byte s b XOR crc_byte t c"
proof -
  have eq: "(s XOR t) XOR ucast (b XOR c) = (s XOR ucast b) XOR (t XOR ucast c)"
    by (simp add: unsigned_xor_eq xor.assoc xor.left_commute xor.commute)
  show ?thesis unfolding crc_byte_def eq by (rule crc_bits_xor)
qed

lemma crc_bits_back:
  assumes "(crc_bit ^^ n) a = r" "\<forall>i \<ge> 32 - n. \<not> bit r i" "n \<le> 32"
  shows "a = push_bit n r"
  using assms
proof (induction n arbitrary: r)
  case (Suc n)
  let ?q = "(crc_bit ^^ n) a"
  from Suc.prems have r: "crc_bit ?q = r" "\<not> bit r 31" by simp_all
  then have "\<not> bit ?q 0" using bit_crc_bit_31 by metis
  then have dr: "r = drop_bit 1 ?q" using r(1) by (simp add: crc_bit_alt)
  have "take_bit 1 ?q = 0" using \<open>\<not> bit ?q 0\<close> by (simp add: bit_0 take_bit_Suc mod_2_eq_odd)
  then have q: "?q = push_bit 1 r" using bits_ident[of 1 ?q] by (simp add: dr)
  have "\<not> bit ?q i" if "32 - n \<le> i" for i
    using Suc.prems(2,3) that unfolding q bit_push_bit_iff by auto
  with Suc.IH[of ?q] Suc.prems(3) have "a = push_bit n ?q" by simp
  then show ?case by (simp add: q)
qed simp

lemma crc_byte_back:
  assumes "crc_byte s b = r" "\<forall>i \<ge> 24. \<not> bit r i"
  shows "s = push_bit 8 r XOR ucast b"
proof -
  have "s XOR ucast b = push_bit 8 r"
    using crc_bits_back[of 8 "s XOR ucast b" r] assms by (simp add: crc_byte_def)
  then show ?thesis by (metis xor.assoc xor_self_eq xor.right_neutral)
qed

lemma crc_four_zero:
  assumes "crc_byte (crc_byte (crc_byte (crc_byte 0 a) b) c) d = 0"
  shows "a = 0 \<and> b = 0 \<and> c = 0 \<and> d = 0"
proof -
  have 3: "crc_byte (crc_byte (crc_byte 0 a) b) c = ucast d"
    using crc_byte_back[OF assms] by simp
  have 2: "crc_byte (crc_byte 0 a) b = push_bit 8 (ucast d) XOR ucast c"
    by (rule crc_byte_back[OF 3]) (simp add: bit_simps bit_beyond)
  have 1: "crc_byte 0 a = push_bit 8 (push_bit 8 (ucast d) XOR ucast c) XOR ucast b"
    by (rule crc_byte_back[OF 2]) (simp add: bit_simps bit_beyond)
  have 0: "0 = push_bit 8 (push_bit 8 (push_bit 8 (ucast d) XOR ucast c) XOR ucast b) XOR (ucast a :: u32)"
    by (rule crc_byte_back[OF 1]) (simp add: bit_simps bit_beyond)
  then have "bit (0 :: u32) i = bit (push_bit 8 (push_bit 8 (push_bit 8 (ucast d) XOR ucast c) XOR ucast b) XOR (ucast a :: u32)) i" for i
    by simp
  note bits = this[unfolded bit_simps]
  have "\<not> bit a i" "\<not> bit b i" "\<not> bit c i" "\<not> bit d i" if "i < 8" for i
    using that bits[of i] bits[of "i + 8"] bits[of "i + 16"] bits[of "i + 24"]
    by (auto simp: bit_beyond)
  then show ?thesis by (auto intro!: bit_eqI)
qed

interpretation crc: byte_hash crc_byte
proof
  fix s t :: u32 and b c :: u8
  show "crc_byte s b = crc_byte t b \<Longrightarrow> s = t"
    by (auto simp: crc_byte_def dest: crc_bits_inj)
  show "crc_byte s b = crc_byte s c \<Longrightarrow> b = c"
    by (auto simp: crc_byte_def xor.commute[of s] dest!: crc_bits_inj)
qed

lemma fnv_prime_inverse: "FNV64_1A_C1 * 0xCE965057AFF6957B = 1"
  by (simp add: FNV64_1A_C1_def)

lemma fnv_mult_inj: "x * FNV64_1A_C1 = y * FNV64_1A_C1 \<Longrightarrow> x = y"
proof -
  assume "x * FNV64_1A_C1 = y * FNV64_1A_C1"
  then have "x * (FNV64_1A_C1 * 0xCE965057AFF6957B) = y * (FNV64_1A_C1 * 0xCE965057AFF6957B)"
    by (simp only: mult.assoc[symmetric])
  then show ?thesis by (simp only: fnv_prime_inverse mult_1_right)
qed

interpretation fnv: byte_hash fnv_byte
proof
  fix s t :: u64 and b c :: u8
  show "fnv_byte s b = fnv_byte t b \<Longrightarrow> s = t"
    by (auto simp: fnv_byte_def dest: fnv_mult_inj)
  show "fnv_byte s b = fnv_byte s c \<Longrightarrow> b = c"
    by (auto simp: fnv_byte_def xor.commute[of s] dest!: fnv_mult_inj)
qed

interpretation bsum: byte_hash "(+) :: u8 \<Rightarrow> u8 \<Rightarrow> u8"
  by unfold_locales simp_all

lemma crc_fold_four:
  assumes "length u = 4" "length v = 4" "foldl crc_byte s u = foldl crc_byte s v"
  shows "u = v"
proof -
  obtain a b c d where u: "u = [a, b, c, d]"
    using assms(1) by (auto simp: length_Suc_conv numeral_eq_Suc)
  obtain a' b' c' d' where v: "v = [a', b', c', d']"
    using assms(2) by (auto simp: length_Suc_conv numeral_eq_Suc)
  have "crc_byte (crc_byte (crc_byte (crc_byte (s XOR s) (a XOR a')) (b XOR b')) (c XOR c')) (d XOR d') = 0"
    unfolding crc_byte_xor using assms(3) by (simp add: u v)
  from crc_four_zero[OF this[unfolded xor_self_eq]] show ?thesis
    by (simp add: u v)
qed

lemma crc32_burst:
  assumes "bytes_at m p (unat len) = pre @ u @ suf" "bytes_at m' p' (unat len) = pre @ v @ suf"
    "length u = 4" "length v = 4" "u \<noteq> v"
  shows "crc32_ansi m p len \<noteq> crc32_ansi m' p' len"
proof
  assume "crc32_ansi m p len = crc32_ansi m' p' len"
  then have "foldl crc_byte (foldl crc_byte CRC32_ANSI_C0 pre) u
      = foldl crc_byte (foldl crc_byte CRC32_ANSI_C0 pre) v"
    using assms(1,2) by (auto simp: crc32_ansi_def crc_loop_fold intro: crc.fold_state)
  with assms(3,4,5) show False using crc_fold_four by blast
qed

subsection \<open>Properties\<close>

text \<open>\<^verbatim>\<open>crc32_ansi\<close>, which the GPT driver trusts to accept a header and a partition array,
  detects every corruption of a message that is confined to four consecutive bytes: two
  messages of the same length which differ there, and nowhere else, have different CRCs.\<close>

lemma crc32_ansi_detects_burst:
  assumes "bytes_at m p (unat len) = pre @ u @ suf" "bytes_at m' p' (unat len) = pre @ v @ suf"
    "length u = 4" "length v = 4" "u \<noteq> v"
  shows "crc32_ansi m p len \<noteq> crc32_ansi m' p' len"
  by (rule crc32_burst[OF assms])

text \<open>\<^verbatim>\<open>fnv64_1a\<close>, which names an open file by its path, and the ACPI byte sum
  \<^verbatim>\<open>hash_byte_sum\<close> tell apart any two messages of the same length that differ in one byte.\<close>

lemma fnv64_1a_byte_sum_detect_byte:
  assumes "bytes_at m p (unat len) = pre @ b # suf" "bytes_at m' p' (unat len) = pre @ c # suf" "b \<noteq> c"
  shows "fnv64_1a m p len \<noteq> fnv64_1a m' p' len \<and> hash_byte_sum m p len \<noteq> hash_byte_sum m' p' len"
  using fnv.fold_change[OF assms(3)] bsum.fold_change[OF assms(3)]
  by (simp add: fnv64_1a_def hash_byte_sum_def fnv_loop_fold byte_sum_loop_fold assms(1,2) del: foldl_append)

end
