(* ===== verification/Heap.thy ===== *)
theory Heap
  imports Prelude
begin

section \<open>The kernel heap (kernel/core/alloc.c)\<close>

text \<open>The size arithmetic of \<^verbatim>\<open>kmalloc\<close>, with its wrap-around.\<close>

definition ARENA_SIZE :: u64 where "ARENA_SIZE = 0x200000"
definition ALLOC_ALIGN :: u64 where "ALLOC_ALIGN = 16"
definition SIZEOF_HEADER :: u64 where "SIZEOF_HEADER = 32"
definition SIZEOF_ARENA :: u64 where "SIZEOF_ARENA = 32"
definition INIT_BLOCK_SIZE :: u64 where "INIT_BLOCK_SIZE = ARENA_SIZE - SIZEOF_ARENA"

definition adjusted_size :: "u64 \<Rightarrow> u64" where
  "adjusted_size sz =
     (let a = sz + SIZEOF_HEADER
      in if a mod ALLOC_ALIGN \<noteq> 0 then a + (ALLOC_ALIGN - a mod ALLOC_ALIGN) else a)"

text \<open>What an allocation of an array of \<open>n\<close> pointers comes to for the code that then fills it.
  A request that does not fit an empty arena panics.  When the product or the added header
  wraps around, the block is smaller than the array and filling it leaves the block.\<close>

definition kmalloc_array :: "u64 \<Rightarrow> unit outcome" where
  "kmalloc_array n =
     (if INIT_BLOCK_SIZE < adjusted_size (8 * n) then Inl (Panic PANIC_NO_MEM)
      else if unat (adjusted_size (8 * n)) < 8 * unat n + unat SIZEOF_HEADER then Inl Undefined
      else Inr ())"

lemma kmalloc_array_ok_bound:
  assumes "kmalloc_array n = Inr ()"
  shows "unat n < 0x40000"
proof -
  have "unat (adjusted_size (8 * n)) \<le> unat INIT_BLOCK_SIZE"
    "8 * unat n + unat SIZEOF_HEADER \<le> unat (adjusted_size (8 * n))"
    using assms by (auto simp: kmalloc_array_def word_less_nat_alt split: if_splits)
  moreover have "unat INIT_BLOCK_SIZE = 0x1FFFE0" "unat SIZEOF_HEADER = 32"
    by (simp_all add: INIT_BLOCK_SIZE_def ARENA_SIZE_def SIZEOF_ARENA_def SIZEOF_HEADER_def)
  ultimately show ?thesis by simp
qed

lemma round_up_16: "0 < r \<Longrightarrow> r < 16 \<Longrightarrow> (16 * q + r + 47) div 16 = q + (3 :: nat)"
  by (intro div_nat_eqI) auto

lemma adjusted_size_ok_range:
  assumes "unat sz \<le> 2 ^ 64 - 48"
  shows "unat (adjusted_size sz) = (unat sz + 47) div 16 * 16"
proof -
  let ?a = "sz + SIZEOF_HEADER"
  have a: "unat ?a = unat sz + 32" using assms
    by (simp add: SIZEOF_HEADER_def unat_word_ariths(1))
  have m: "unat (?a mod ALLOC_ALIGN) = unat sz mod 16"
    using a mod_mult_self2[of "unat sz" 16 2] by (simp add: ALLOC_ALIGN_def unat_mod)
  show ?thesis
  proof (cases "unat sz mod 16 = 0")
    case True
    then have "?a mod ALLOC_ALIGN = 0" using m by (simp add: unat_eq_0)
    then show ?thesis using True a mod_mult_div_eq[of "unat sz" 16] div_nat_eqI[of 16 "unat sz div 16 + 2" "unat sz + 47"]
      by (simp add: adjusted_size_def Let_def algebra_simps)
  next
    case False
    then have "?a mod ALLOC_ALIGN \<noteq> 0" using m by (metis unat_0)
    moreover have "unat (ALLOC_ALIGN - ?a mod ALLOC_ALIGN) = 16 - unat sz mod 16"
      using m by (subst unat_sub) (simp_all add: word_le_nat_alt ALLOC_ALIGN_def less_imp_le)
    moreover have "unat sz + 32 + (16 - unat sz mod 16) < 2 ^ 64" using assms False by linarith
    ultimately have "unat (adjusted_size sz) = unat sz + 32 + (16 - unat sz mod 16)"
      using a by (simp add: adjusted_size_def Let_def unat_word_ariths(1)[of ?a])
    moreover have "(unat sz + 47) div 16 = unat sz div 16 + 3"
      using round_up_16[of "unat sz mod 16" "unat sz div 16"] False by simp
    ultimately show ?thesis
      using mod_mult_div_eq[of "unat sz" 16] mod_less_divisor[of 16 "unat sz"] by linarith
  qed
qed

lemma adjusted_size_small: "unat sz < 2 ^ 63 \<Longrightarrow> unat (adjusted_size sz) = (unat sz + 47) div 16 * 16"
  by (rule adjusted_size_ok_range) simp

lemma kmalloc_array_small:
  assumes "unat n < 0x3FFF0"
  shows "kmalloc_array n = Inr ()"
proof -
  have "unat (8 * n) = 8 * unat n" using assms by (simp add: unat_word_ariths(2))
  then have "unat (adjusted_size (8 * n)) = (8 * unat n + 47) div 16 * 16"
    using adjusted_size_small[of "8 * n"] assms by simp
  then show ?thesis using assms
    by (auto simp: kmalloc_array_def word_less_nat_alt INIT_BLOCK_SIZE_def ARENA_SIZE_def
        SIZEOF_ARENA_def SIZEOF_HEADER_def)
qed

lemma kmalloc_array_no_wrap:
  assumes "unat n < 2 ^ 59"
  shows "kmalloc_array n = Inr () \<or> kmalloc_array n = Inl (Panic PANIC_NO_MEM)"
proof -
  have 8: "unat (8 * n) = 8 * unat n" using assms by (simp add: unat_word_ariths(2))
  then have "unat (adjusted_size (8 * n)) = (8 * unat n + 47) div 16 * 16"
    using adjusted_size_small[of "8 * n"] assms by simp
  then show ?thesis by (auto simp: kmalloc_array_def SIZEOF_HEADER_def)
qed

text \<open>C32: the size computation of \<^verbatim>\<open>kmalloc\<close>, exactly.  Up to 48 below the largest size a request becomes the next multiple of
  16 that holds it and a header; above, the sum wraps around and the block asked for is at most the bare header.\<close>

theorem adjusted_size_bounds:
  "(unat sz \<le> 2 ^ 64 - 48 \<longrightarrow> unat (adjusted_size sz) = (unat sz + 47) div 16 * 16 \<and> unat sz + 32 \<le> unat (adjusted_size sz)
      \<and> unat (adjusted_size sz) < unat sz + 48)
   \<and> (2 ^ 64 - 48 < unat sz \<longrightarrow> unat (adjusted_size sz) \<le> 32)"
proof (intro conjI impI)
  assume r: "unat sz \<le> 2 ^ 64 - 48"
  show e: "unat (adjusted_size sz) = (unat sz + 47) div 16 * 16" by (rule adjusted_size_ok_range[OF r])
  show "unat sz + 32 \<le> unat (adjusted_size sz)" "unat (adjusted_size sz) < unat sz + 48"
    unfolding e using div_mult_mod_eq[of "unat sz + 47" 16] mod_less_divisor[of 16 "unat sz + 47"] by linarith+
next
  assume "2 ^ 64 - 48 < unat sz"
  moreover have "unat sz < 2 ^ LENGTH(64)" by (rule unsigned_less)
  ultimately obtain k where k: "unat sz = 2 ^ 64 - 48 + k" "0 < k" "k < 48"
    using that[of "unat sz - (2 ^ 64 - 48)"] by simp
  have "sz = of_nat (unat sz)" by simp
  then have "sz = of_nat (2 ^ 64 - 48 + k)" unfolding k(1) .
  then have sz: "sz = of_nat k - 48" by simp
  have "\<forall>k \<in> {1 ..< 48}. unat (adjusted_size (of_nat k - 48)) \<le> 32" by code_simp
  then show "unat (adjusted_size sz) \<le> 32" using k sz by auto
qed

theorem adjusted_size_bounds_witness:
  "unat (100 :: u64) \<le> 2 ^ 64 - 48 \<and> unat (adjusted_size 100) = 144 \<and> 2 ^ 64 - 48 < unat (- 1 :: u64) \<and> unat (adjusted_size (- 1)) \<le> 32"
  using adjusted_size_bounds[of 100] adjusted_size_bounds[of "- 1"] by (simp add: unsigned_minus_1_eq_mask mask_eq_exp_minus_1)

end
