(* ===== verification/HashTable.thy ===== *)
theory HashTable
  imports Heap
begin

section \<open>Hash tables (kernel/lib/hash_table.c)\<close>

text \<open>
  The chained hash table with which the kernel keeps its file descriptors by path hash, the
  children of a process and the nodes of the file systems.  A chain of \<^verbatim>\<open>struct node_t\<close> is the
  list of its (key, value) pairs; a \<^verbatim>\<open>struct node_t**\<close> into a chain is a position in that list,
  the length of the list standing for the null link at its end.  \<^verbatim>\<open>kmalloc\<close> never returns null
  (it panics, see \<open>Heap\<close>), so the allocation of a node always succeeds here; that of the bucket
  array may be refused.  A callback
  (\<^verbatim>\<open>free_func\<close>, \<^verbatim>\<open>dup_func\<close>, \<^verbatim>\<open>cond\<close>) is an argument; those with effects thread a state of the
  caller.  A table of zero buckets divides by zero, and the operations which reduce a key
  modulo the number of buckets are then \<open>Inl Undefined\<close>.

  The table is shown to implement a finite map under the invariant \<open>ht_wf\<close>: chains hold the keys
  of their residue only, no key twice, and the element count is exact modulo \<open>2\<^sup>6\<^sup>4\<close>.
\<close>

type_synonym 'v node_t = "u64 \<times> 'v"

record 'v hash_table_t =
  num_buckets :: u64
  num_elems :: u64
  buckets :: "'v node_t list list"

definition bucket_index :: "'v hash_table_t \<Rightarrow> u64 \<Rightarrow> nat outcome" where
  "bucket_index table key =
     (if num_buckets table = 0 then Inl Undefined else Inr (unat (key mod num_buckets table)))"

fun find_node :: "'v node_t list \<Rightarrow> u64 \<Rightarrow> nat" where
  "find_node [] key = 0"
| "find_node (n # ns) key = (if fst n = key then 0 else Suc (find_node ns key))"

definition hash_table_alloc :: "u64 \<Rightarrow> 'v hash_table_t outcome" where
  "hash_table_alloc n =
     (case kmalloc_array n of Inl e \<Rightarrow> Inl e
      | Inr _ \<Rightarrow> Inr \<lparr>num_buckets = n, num_elems = 0, buckets = replicate (unat n) []\<rparr>)"

definition hash_table_insert :: "'v hash_table_t \<Rightarrow> u64 \<Rightarrow> 'v \<Rightarrow> ('v \<times> 'v hash_table_t) outcome" where
  "hash_table_insert table key value =
     (case bucket_index table key of Inl e \<Rightarrow> Inl e | Inr index \<Rightarrow>
        let b = buckets table ! index; i = find_node b key
        in if i = length b
           then Inr (value, table\<lparr>buckets := (buckets table)[index := (key, value) # b],
                                  num_elems := num_elems table + 1\<rparr>)
           else Inr (snd (b ! i), table\<lparr>buckets := (buckets table)[index := b[i := (fst (b ! i), value)]]\<rparr>))"

text \<open>\<open>Inr None\<close> is the return value 0, after which \<^verbatim>\<open>*out\<close> is unchanged.\<close>

definition hash_table_get :: "'v hash_table_t \<Rightarrow> u64 \<Rightarrow> 'v option outcome" where
  "hash_table_get table key =
     (case bucket_index table key of Inl e \<Rightarrow> Inl e | Inr index \<Rightarrow>
        let b = buckets table ! index; i = find_node b key
        in Inr (if i = length b then None else Some (snd (b ! i))))"

definition hash_table_remove :: "'v hash_table_t \<Rightarrow> u64 \<Rightarrow> ('v option \<times> 'v hash_table_t) outcome" where
  "hash_table_remove table key =
     (case bucket_index table key of Inl e \<Rightarrow> Inl e | Inr index \<Rightarrow>
        let b = buckets table ! index; i = find_node b key
        in if i = length b then Inr (None, table)
           else Inr (Some (snd (b ! i)),
                     table\<lparr>buckets := (buckets table)[index := take i b @ drop (Suc i) b],
                           num_elems := num_elems table - 1\<rparr>))"

fun clear_chain :: "('v \<Rightarrow> 's \<Rightarrow> 's) option \<Rightarrow> 'v node_t list \<Rightarrow> 's \<Rightarrow> 's" where
  "clear_chain free_func [] s = s"
| "clear_chain free_func (n # ns) s =
     clear_chain free_func ns (case free_func of None \<Rightarrow> s | Some f \<Rightarrow> f (snd n) s)"

definition hash_table_clear ::
  "'v hash_table_t \<Rightarrow> ('v \<Rightarrow> 's \<Rightarrow> 's) option \<Rightarrow> 's \<Rightarrow> 'v hash_table_t \<times> 's" where
  "hash_table_clear table free_func s =
     (table\<lparr>buckets := map (\<lambda>_. []) (buckets table), num_elems := 0\<rparr>,
      fold (clear_chain free_func) (buckets table) s)"

definition hash_table_free :: "'v hash_table_t \<Rightarrow> ('v \<Rightarrow> 's \<Rightarrow> 's) option \<Rightarrow> 's \<Rightarrow> 's" where
  "hash_table_free table free_func s = snd (hash_table_clear table free_func s)"

fun copy_chain :: "('v \<Rightarrow> 's \<Rightarrow> 'v \<times> 's) \<Rightarrow> 'v node_t list \<Rightarrow> 'v hash_table_t \<times> 's
    \<Rightarrow> ('v hash_table_t \<times> 's) outcome" where
  "copy_chain dup_func [] (copy, s) = Inr (copy, s)"
| "copy_chain dup_func (n # ns) (copy, s) =
     (let (v, s') = dup_func (snd n) s
      in case hash_table_insert copy (fst n) v of
           Inl e \<Rightarrow> Inl e | Inr (_, copy') \<Rightarrow> copy_chain dup_func ns (copy', s'))"

fun copy_chains :: "('v \<Rightarrow> 's \<Rightarrow> 'v \<times> 's) \<Rightarrow> 'v node_t list list \<Rightarrow> 'v hash_table_t \<times> 's
    \<Rightarrow> ('v hash_table_t \<times> 's) outcome" where
  "copy_chains dup_func [] cs = Inr cs"
| "copy_chains dup_func (b # bs) cs =
     (case copy_chain dup_func b cs of Inl e \<Rightarrow> Inl e | Inr cs' \<Rightarrow> copy_chains dup_func bs cs')"

definition hash_table_copy :: "'v hash_table_t \<Rightarrow> 'v hash_table_t \<Rightarrow> ('v \<Rightarrow> 's \<Rightarrow> 'v \<times> 's) \<Rightarrow> 's
    \<Rightarrow> ('v hash_table_t \<times> 's) outcome" where
  "hash_table_copy table copy dup_func s = copy_chains dup_func (buckets table) (copy, s)"

definition dup_value :: "'v \<Rightarrow> 's \<Rightarrow> 'v \<times> 's" where
  "dup_value v s = (v, s)"

definition hash_table_resize :: "'v hash_table_t \<Rightarrow> u64 \<Rightarrow> 'v hash_table_t outcome" where
  "hash_table_resize table n =
     (case kmalloc_array n of Inl e \<Rightarrow> Inl e
      | Inr _ \<Rightarrow>
          (case hash_table_copy table
              (table\<lparr>num_buckets := n, num_elems := 0, buckets := replicate (unat n) []\<rparr>) dup_value () of
             Inl e \<Rightarrow> Inl e | Inr (t, _) \<Rightarrow> Inr t))"

definition hash_table_count :: "'v hash_table_t \<Rightarrow> u64" where
  "hash_table_count table = num_elems table"

fun first_chain :: "'v node_t list list \<Rightarrow> u64 option" where
  "first_chain [] = None"
| "first_chain ([] # bs) = first_chain bs"
| "first_chain ((n # ns) # bs) = Some (fst n)"

definition hash_table_get_any :: "'v hash_table_t \<Rightarrow> (u64 \<times> 'v) option outcome" where
  "hash_table_get_any table =
     (case first_chain (buckets table) of None \<Rightarrow> Inr None
      | Some k \<Rightarrow> (case hash_table_get table k of Inl e \<Rightarrow> Inl e
          | Inr None \<Rightarrow> Inr None | Inr (Some v) \<Rightarrow> Inr (Some (k, v))))"

fun find_in_chain :: "('v \<Rightarrow> bool) \<Rightarrow> 'v node_t list \<Rightarrow> (u64 \<times> 'v) option" where
  "find_in_chain cond [] = None"
| "find_in_chain cond (n # ns) = (if cond (snd n) then Some n else find_in_chain cond ns)"

fun find_in_chains :: "('v \<Rightarrow> bool) \<Rightarrow> 'v node_t list list \<Rightarrow> (u64 \<times> 'v) option" where
  "find_in_chains cond [] = None"
| "find_in_chains cond (b # bs) =
     (case find_in_chain cond b of Some r \<Rightarrow> Some r | None \<Rightarrow> find_in_chains cond bs)"

definition hash_table_find :: "'v hash_table_t \<Rightarrow> ('v \<Rightarrow> bool) \<Rightarrow> (u64 \<times> 'v) option" where
  "hash_table_find table cond = find_in_chains cond (buckets table)"

subsection \<open>The table as a map\<close>

definition ht_entries :: "'v hash_table_t \<Rightarrow> 'v node_t list" where
  "ht_entries t = concat (buckets t)"

definition ht_map :: "'v hash_table_t \<Rightarrow> u64 \<Rightarrow> 'v option" where
  "ht_map t = map_of (ht_entries t)"

definition chain_ok :: "nat \<Rightarrow> nat \<Rightarrow> 'v node_t list \<Rightarrow> bool" where
  "chain_ok n i b \<longleftrightarrow> distinct (map fst b) \<and> (\<forall>k \<in> fst ` set b. unat k mod n = i)"

definition ht_wf :: "'v hash_table_t \<Rightarrow> bool" where
  "ht_wf t \<longleftrightarrow> num_buckets t \<noteq> 0 \<and> length (buckets t) = unat (num_buckets t)
     \<and> (\<forall>i < length (buckets t). chain_ok (length (buckets t)) i (buckets t ! i))
     \<and> num_elems t = of_nat (length (ht_entries t))"

lemma find_node_le: "find_node b k \<le> length b"
  by (induction b) auto

lemma find_node_map_of:
  "map_of b k = (if find_node b k = length b then None else Some (snd (b ! find_node b k)))"
  by (induction b) (auto simp: le_imp_less_Suc find_node_le)

lemma find_node_key: "find_node b k < length b \<Longrightarrow> fst (b ! find_node b k) = k"
  by (induction b) auto

lemma map_of_replace:
  "find_node b k < length b \<Longrightarrow>
   map_of (b[find_node b k := (k, v)]) = (map_of b)(k \<mapsto> v)"
  by (induction b) (auto simp: fun_eq_iff)

lemma map_of_delete:
  "distinct (map fst b) \<Longrightarrow> find_node b k < length b \<Longrightarrow>
   map_of (take (find_node b k) b @ drop (Suc (find_node b k)) b) = (map_of b)(k := None)"
  by (induction b) (auto simp: fun_eq_iff map_of_eq_None_iff[THEN iffD2] simp del: map_of_append)

lemma map_of_concat:
  assumes "j < length bs" "\<And>i. i < length bs \<Longrightarrow> i \<noteq> j \<Longrightarrow> k \<notin> fst ` set (bs ! i)"
  shows "map_of (concat bs) k = map_of (bs ! j) k"
  using assms
proof (induction bs arbitrary: j)
  case (Cons b bs)
  show ?case
  proof (cases j)
    case 0
    have "k \<notin> fst ` set c" if "c \<in> set bs" for c
      using Cons.prems(2)[of "Suc i" for i] 0 that by (auto simp: in_set_conv_nth)
    then have "k \<notin> fst ` set (concat bs)" by auto
    then have "map_of (concat bs) k = None" by (simp add: map_of_eq_None_iff)
    then show ?thesis using 0 by (simp add: map_add_def split: option.split)
  next
    case (Suc j')
    have "k \<notin> fst ` set (bs ! i)" if "i < length bs" "i \<noteq> j'" for i
      using Cons.prems(2)[of "Suc i"] that Suc by simp
    then have "map_of (concat bs) k = map_of (bs ! j') k"
      using Cons.prems(1) Suc by (intro Cons.IH) auto
    moreover have "map_of b k = None"
      using Cons.prems(2)[of 0] Suc by (simp add: map_of_eq_None_iff)
    ultimately show ?thesis using Suc by (auto simp: map_add_def split: option.splits)
  qed
qed simp

lemma ht_wfD:
  assumes "ht_wf t"
  shows "bucket_index t k = Inr (unat k mod length (buckets t))"
    "unat k mod length (buckets t) < length (buckets t)"
    "i < length (buckets t) \<Longrightarrow> chain_ok (length (buckets t)) i (buckets t ! i)"
  using assms unat_gt_0[of "num_buckets t"] by (auto simp: ht_wf_def bucket_index_def unat_mod)

lemma chains_lookup:
  assumes "\<And>i. i < length bs \<Longrightarrow> chain_ok (length bs) i (bs ! i)" "bs \<noteq> []"
  shows "map_of (concat bs) k = map_of (bs ! (unat k mod length bs)) k"
  using assms by (intro map_of_concat) (force simp: chain_ok_def)+

lemma ht_map_chain:
  "ht_wf t \<Longrightarrow> ht_map t k = map_of (buckets t ! (unat k mod length (buckets t))) k"
  unfolding ht_map_def ht_entries_def by (rule chains_lookup) (auto dest: ht_wfD(2,3))

lemma length_concat_update:
  "i < length bs \<Longrightarrow> length (bs ! i) \<le> length (concat bs) \<and>
   length (concat (bs[i := b])) = length (concat bs) - length (bs ! i) + length b"
proof (induction bs arbitrary: i)
  case (Cons c bs)
  then show ?case
  proof (cases i)
    case (Suc j)
    with Cons.IH[of j] Cons.prems show ?thesis by (auto simp: length_concat)
  qed auto
qed simp

text \<open>Replacing one chain by a good chain keeps the invariant and updates the map there.\<close>

lemma ht_update_chain:
  assumes wf: "ht_wf t" and j: "j = unat k mod length (buckets t)"
    and ok: "chain_ok (length (buckets t)) j b"
    and m: "map_of b = (map_of (buckets t ! j))(k := v)"
    and t': "t' = t\<lparr>buckets := (buckets t)[j := b], num_elems := n\<rparr>"
    and n: "n = of_nat (length (ht_entries t) - length (buckets t ! j) + length b)"
  shows "ht_wf t' \<and> ht_map t' = (ht_map t)(k := v)"
proof -
  let ?bs = "(buckets t)[j := b]"
  have jl: "j < length (buckets t)" using ht_wfD(2)[OF wf] j by simp
  have oks: "chain_ok (length (buckets t)) i (?bs ! i)" if "i < length (buckets t)" for i
    using ht_wfD(3)[OF wf that] ok that by (cases "i = j") simp_all
  have wf': "ht_wf t'"
    using wf oks n length_concat_update[OF jl, of b] by (simp add: ht_wf_def t' ht_entries_def)
  moreover have "ht_map t' x = ((ht_map t)(k := v)) x" for x
    using ht_map_chain[OF wf', of x] ht_map_chain[OF wf, of x] jl j m
    by (cases "unat x mod length (buckets t) = j") (auto simp: t')
  ultimately show ?thesis by auto
qed

subsection \<open>Every operation against the map\<close>

lemma hash_table_get_map: "ht_wf t \<Longrightarrow> hash_table_get t k = Inr (ht_map t k)"
  by (simp add: hash_table_get_def ht_wfD(1) ht_map_chain find_node_map_of Let_def)

lemma hash_table_alloc_ok:
  "n \<noteq> 0 \<Longrightarrow> hash_table_alloc n = Inr t \<Longrightarrow> ht_wf t \<and> ht_map t = Map.empty"
  by (auto simp: hash_table_alloc_def ht_wf_def ht_map_def ht_entries_def chain_ok_def split: sum.splits)

lemma hash_table_insert_ok:
  assumes "ht_wf t"
  shows "\<exists>t'. hash_table_insert t k v = Inr (case ht_map t k of None \<Rightarrow> v | Some old \<Rightarrow> old, t')
    \<and> ht_wf t' \<and> ht_map t' = (ht_map t)(k \<mapsto> v)"
proof -
  define j where "j = unat k mod length (buckets t)"
  define b where "b = buckets t ! j"
  let ?i = "find_node b k"
  have jl: "j < length (buckets t)" and ok: "chain_ok (length (buckets t)) j b"
    using ht_wfD(2,3)[OF assms] by (auto simp: j_def b_def)
  have mk: "ht_map t k = map_of b k" using ht_map_chain[OF assms] by (simp add: j_def b_def)
  have len: "length b \<le> length (ht_entries t)"
    using length_concat_update[OF jl, of b] by (simp add: ht_entries_def b_def)
  show ?thesis
  proof (cases "?i = length b")
    case True
    then have none: "map_of b k = None" by (simp add: find_node_map_of)
    have ok': "chain_ok (length (buckets t)) j ((k, v) # b)"
      using ok none by (auto simp: chain_ok_def j_def map_of_eq_None_iff)
    have "ht_wf t' \<and> ht_map t' = (ht_map t)(k \<mapsto> v)"
      if "t' = t\<lparr>buckets := (buckets t)[j := (k, v) # b], num_elems := num_elems t + 1\<rparr>" for t'
      by (rule ht_update_chain[OF assms j_def ok' _ that])
        (use assms len in \<open>auto simp: ht_wf_def b_def\<close>)
    then show ?thesis using True none mk ht_wfD(1)[OF assms, of k]
      by (simp add: hash_table_insert_def Let_def flip: j_def b_def)
  next
    case False
    then have lt: "?i < length b" using find_node_le[of b k] by simp
    have "map fst (b[?i := (k, v)]) = map fst b"
      using find_node_key[OF lt] by (metis fst_conv list_update_id map_update)
    then have ok': "chain_ok (length (buckets t)) j (b[?i := (k, v)])"
      using ok unfolding chain_ok_def set_map[symmetric] by simp
    have "ht_wf t' \<and> ht_map t' = (ht_map t)(k \<mapsto> v)"
      if "t' = t\<lparr>buckets := (buckets t)[j := b[?i := (k, v)]], num_elems := num_elems t\<rparr>" for t'
      by (rule ht_update_chain[OF assms j_def ok' _ that])
        (use assms len lt in \<open>auto simp: ht_wf_def b_def map_of_replace\<close>)
    then show ?thesis using False mk ht_wfD(1)[OF assms, of k] find_node_key[OF lt]
      by (simp add: hash_table_insert_def Let_def find_node_map_of flip: j_def b_def)
  qed
qed

lemma hash_table_remove_ok:
  assumes "ht_wf t"
  shows "\<exists>t'. hash_table_remove t k = Inr (ht_map t k, t') \<and> ht_wf t' \<and> ht_map t' = (ht_map t)(k := None)"
proof -
  define j where "j = unat k mod length (buckets t)"
  define b where "b = buckets t ! j"
  let ?i = "find_node b k" let ?b = "take ?i b @ drop (Suc ?i) b"
  have jl: "j < length (buckets t)" and ok: "chain_ok (length (buckets t)) j b"
    using ht_wfD(2,3)[OF assms] by (auto simp: j_def b_def)
  have mk: "ht_map t k = map_of b k" using ht_map_chain[OF assms] by (simp add: j_def b_def)
  have len: "length b \<le> length (ht_entries t)"
    using length_concat_update[OF jl, of b] by (simp add: ht_entries_def b_def)
  show ?thesis
  proof (cases "?i = length b")
    case True
    then have "ht_map t k = None" by (simp add: find_node_map_of mk)
    then show ?thesis using True assms ht_wfD(1)[OF assms, of k]
      by (simp add: hash_table_remove_def Let_def fun_upd_idem flip: j_def b_def)
  next
    case False
    then have lt: "?i < length b" using find_node_le[of b k] by simp
    have "distinct (map fst (take ?i b @ b ! ?i # drop (Suc ?i) b))"
      using ok id_take_nth_drop[OF lt] by (simp add: chain_ok_def)
    then have "distinct (map fst ?b)" by auto
    then have ok': "chain_ok (length (buckets t)) j ?b"
      using ok by (auto simp: chain_ok_def dest!: in_set_takeD in_set_dropD)
    have "ht_wf t' \<and> ht_map t' = (ht_map t)(k := None)"
      if "t' = t\<lparr>buckets := (buckets t)[j := ?b], num_elems := num_elems t - 1\<rparr>" for t'
      by (rule ht_update_chain[OF assms j_def ok' _ that])
        (use assms len lt ok in \<open>auto simp: ht_wf_def b_def map_of_delete chain_ok_def Suc_leI simp del: map_of_append\<close>)
    then show ?thesis using False mk ht_wfD(1)[OF assms, of k]
      by (simp add: hash_table_remove_def Let_def find_node_map_of flip: j_def b_def)
  qed
qed

lemma distinct_concat_chains:
  assumes "\<And>i. i < length bs \<Longrightarrow> distinct (map fst (bs ! i)) \<and> (\<forall>k \<in> fst ` set (bs ! i). h k = i + d)"
  shows "distinct (map fst (concat bs))"
  using assms
proof (induction bs arbitrary: d)
  case (Cons b bs)
  have "distinct (map fst (bs ! i)) \<and> (\<forall>k \<in> fst ` set (bs ! i). h k = i + Suc d)" if "i < length bs" for i
    using Cons.prems[of "Suc i"] that by simp
  note IH = Cons.IH[OF this] and tl = this
  have "k \<notin> fst ` set (concat bs)" if "k \<in> fst ` set b" for k
  proof
    assume "k \<in> fst ` set (concat bs)"
    then obtain c where "c \<in> set bs" "k \<in> fst ` set c" by auto
    then obtain i where "i < length bs" "k \<in> fst ` set (bs ! i)" by (metis in_set_conv_nth)
    then have "h k = i + Suc d" using tl[of i] by blast
    moreover have "h k = 0 + d" using Cons.prems[of 0] that by auto
    ultimately show False by simp
  qed
  moreover have "distinct (map fst b)" using Cons.prems[of 0] by simp
  ultimately show ?case using IH by auto
qed simp

lemma ht_entries_distinct: "ht_wf t \<Longrightarrow> distinct (map fst (ht_entries t))"
  unfolding ht_entries_def
  by (rule distinct_concat_chains[where h = "\<lambda>k. unat k mod length (buckets t)" and d = 0])
    (use ht_wfD(3) in \<open>auto simp: chain_ok_def\<close>)

lemma ht_map_dom: "dom (ht_map t) = fst ` set (ht_entries t)"
  by (simp add: ht_map_def dom_map_of_conv_image_fst)

lemma hash_table_count_card: "ht_wf t \<Longrightarrow> hash_table_count t = of_nat (card (dom (ht_map t)))"
  using distinct_card[OF ht_entries_distinct, of t]
  by (auto simp: hash_table_count_def ht_map_dom ht_wf_def)

lemma copy_chain_append:
  "copy_chain f (xs @ ys) cs = (case copy_chain f xs cs of Inl e \<Rightarrow> Inl e | Inr cs' \<Rightarrow> copy_chain f ys cs')"
  by (induction f xs cs rule: copy_chain.induct) (auto split: prod.splits sum.splits)

lemma copy_chains_concat: "copy_chains f bs cs = copy_chain f (concat bs) cs"
  by (induction f bs cs rule: copy_chains.induct)
    (auto simp: copy_chain_append split: sum.splits prod.splits)

lemma hash_table_insert_buckets:
  "hash_table_insert t k v = Inr (r, t') \<Longrightarrow> num_buckets t' = num_buckets t"
  by (auto simp: hash_table_insert_def Let_def split: sum.splits if_splits)

lemma copy_chain_buckets:
  "copy_chain f ns (t, s) = Inr (t', s') \<Longrightarrow> num_buckets t' = num_buckets t"
  by (induction f ns "(t, s)" arbitrary: t s rule: copy_chain.induct)
    (auto simp: hash_table_insert_buckets split: prod.splits sum.splits)

lemma copy_chain_dup_value:
  assumes "ht_wf t" "distinct (map fst ns)"
  shows "\<exists>t'. copy_chain dup_value ns (t, s) = Inr (t', s) \<and> ht_wf t' \<and> ht_map t' = ht_map t ++ map_of ns"
  using assms
proof (induction ns arbitrary: t)
  case (Cons n ns)
  obtain t1 r where t1: "hash_table_insert t (fst n) (snd n) = Inr (r, t1)" "ht_wf t1"
    "ht_map t1 = (ht_map t)(fst n \<mapsto> snd n)"
    using hash_table_insert_ok[OF Cons.prems(1)] by blast
  obtain t' where t': "copy_chain dup_value ns (t1, s) = Inr (t', s)" "ht_wf t'"
    "ht_map t' = ht_map t1 ++ map_of ns"
    using Cons.IH[OF t1(2)] Cons.prems(2) by auto
  have "copy_chain dup_value (n # ns) (t, s) = copy_chain dup_value ns (t1, s)"
    using t1(1) by (simp add: dup_value_def)
  moreover have "fst n \<notin> dom (map_of ns)"
    using Cons.prems(2) by (auto simp: dom_map_of_conv_image_fst)
  then have "ht_map t1 ++ map_of ns = ht_map t ++ map_of (n # ns)"
    by (simp add: map_add_upd_left t1(3))
  ultimately show ?case using t' by metis
qed simp

lemma hash_table_copy_dup_value:
  assumes "ht_wf table" "ht_wf copy"
  shows "\<exists>t'. hash_table_copy table copy dup_value s = Inr (t', s) \<and> ht_wf t'
    \<and> ht_map t' = ht_map copy ++ ht_map table"
  using copy_chain_dup_value[OF assms(2) ht_entries_distinct[OF assms(1)], of s]
  by (simp add: hash_table_copy_def copy_chains_concat ht_map_def ht_entries_def)

lemma hash_table_resize_ok:
  assumes "ht_wf t" "n \<noteq> 0" "kmalloc_array n = Inr ()"
  shows "\<exists>t'. hash_table_resize t n = Inr t' \<and> ht_wf t' \<and> ht_map t' = ht_map t \<and> num_buckets t' = n"
proof -
  let ?e = "t\<lparr>num_buckets := n, num_elems := 0, buckets := replicate (unat n) []\<rparr>"
  have e: "ht_wf ?e" "ht_map ?e = Map.empty"
    using assms(2) by (simp_all add: ht_wf_def ht_map_def ht_entries_def chain_ok_def)
  obtain t' where t': "hash_table_copy t ?e dup_value () = Inr (t', ())" "ht_wf t'"
    "ht_map t' = ht_map ?e ++ ht_map t"
    using hash_table_copy_dup_value[OF assms(1) e(1), of "()"] by (elim exE conjE) (rule that)
  have "num_buckets t' = n"
    using copy_chain_buckets[of dup_value "concat (buckets t)" ?e "()"] t'(1)
    by (simp add: hash_table_copy_def copy_chains_concat)
  with t' show ?thesis by (simp add: hash_table_resize_def assms(3) e(2))
qed

lemma first_chain_None: "first_chain bs = None \<longleftrightarrow> concat bs = []"
  by (induction bs rule: first_chain.induct) auto

lemma first_chain_Some: "first_chain bs = Some k \<Longrightarrow> k \<in> fst ` set (concat bs)"
  by (induction bs rule: first_chain.induct) auto

lemma find_in_chain_find: "find_in_chain c ns = find (\<lambda>n. c (snd n)) ns"
  by (induction ns) auto

lemma find_append: "find P (xs @ ys) = (case find P xs of None \<Rightarrow> find P ys | Some x \<Rightarrow> Some x)"
  by (induction xs) auto

lemma find_in_chains_find: "find_in_chains c bs = find (\<lambda>n. c (snd n)) (concat bs)"
  by (induction bs) (auto simp: find_append find_in_chain_find split: option.splits)

lemma concat_map_Nil [simp]: "concat (map (\<lambda>_. []) xs) = []"
  by (induction xs) simp_all

lemma clear_chain_fold:
  "clear_chain f ns s = (case f of None \<Rightarrow> s | Some g \<Rightarrow> fold g (map snd ns) s)"
  by (induction ns arbitrary: s) (auto split: option.splits)

lemma fold_clear_chain:
  "fold (clear_chain f) bs s = (case f of None \<Rightarrow> s | Some g \<Rightarrow> fold g (map snd (concat bs)) s)"
  by (induction bs arbitrary: s) (auto simp: clear_chain_fold split: option.splits)

subsection \<open>The contract of a keyed store\<close>

text \<open>What the users of the table rely on.  From these laws alone a whole run of insertions and
  removals is computed on the map, and no operation of the run faults.\<close>

datatype 'v store_op = Put u64 'v | Del u64

fun run_store :: "('t \<Rightarrow> u64 \<Rightarrow> 'v \<Rightarrow> ('v \<times> 't) outcome) \<Rightarrow> ('t \<Rightarrow> u64 \<Rightarrow> ('v option \<times> 't) outcome)
    \<Rightarrow> 'v store_op list \<Rightarrow> 't \<Rightarrow> 't outcome" where
  "run_store upd del [] t = Inr t"
| "run_store upd del (Put k v # ops) t =
     (case upd t k v of Inl e \<Rightarrow> Inl e | Inr (_, t') \<Rightarrow> run_store upd del ops t')"
| "run_store upd del (Del k # ops) t =
     (case del t k of Inl e \<Rightarrow> Inl e | Inr (_, t') \<Rightarrow> run_store upd del ops t')"

fun run_map :: "'v store_op list \<Rightarrow> (u64 \<Rightarrow> 'v option) \<Rightarrow> u64 \<Rightarrow> 'v option" where
  "run_map [] m = m"
| "run_map (Put k v # ops) m = run_map ops (m(k \<mapsto> v))"
| "run_map (Del k # ops) m = run_map ops (m(k := None))"

locale keyed_store =
  fixes inv :: "'t \<Rightarrow> bool" and contents :: "'t \<Rightarrow> u64 \<Rightarrow> 'v option"
    and get :: "'t \<Rightarrow> u64 \<Rightarrow> 'v option outcome"
    and upd :: "'t \<Rightarrow> u64 \<Rightarrow> 'v \<Rightarrow> ('v \<times> 't) outcome"
    and del :: "'t \<Rightarrow> u64 \<Rightarrow> ('v option \<times> 't) outcome"
  assumes get_contents: "inv t \<Longrightarrow> get t k = Inr (contents t k)"
    and upd_contents: "inv t \<Longrightarrow> \<exists>t'. upd t k v = Inr (case contents t k of None \<Rightarrow> v | Some w \<Rightarrow> w, t')
          \<and> inv t' \<and> contents t' = (contents t)(k \<mapsto> v)"
    and del_contents: "inv t \<Longrightarrow> \<exists>t'. del t k = Inr (contents t k, t')
          \<and> inv t' \<and> contents t' = (contents t)(k := None)"
begin

lemma run_store_contents:
  "inv t \<Longrightarrow> \<exists>t'. run_store upd del ops t = Inr t' \<and> inv t' \<and> contents t' = run_map ops (contents t)"
proof (induction ops arbitrary: t)
  case (Cons op ops)
  show ?case
  proof (cases op)
    case (Put k v)
    then show ?thesis using upd_contents[OF Cons.prems, of k v] Cons.IH by fastforce
  next
    case (Del k)
    then show ?thesis using del_contents[OF Cons.prems, of k] Cons.IH by fastforce
  qed
qed simp

lemma run_store_get:
  "inv t \<Longrightarrow> \<exists>t'. run_store upd del ops t = Inr t' \<and> inv t' \<and> (\<forall>k. get t' k = Inr (run_map ops (contents t) k))"
  using run_store_contents[of t ops] by (auto simp: get_contents)

end

interpretation ht: keyed_store ht_wf ht_map hash_table_get hash_table_insert hash_table_remove
  by unfold_locales (simp_all add: hash_table_get_map hash_table_insert_ok hash_table_remove_ok)

subsection \<open>Properties\<close>

text \<open>C18: starting from a fresh table, every sequence of \<^verbatim>\<open>hash_table_insert\<close> and
  \<^verbatim>\<open>hash_table_remove\<close> runs without fault and implements the map: afterwards \<^verbatim>\<open>hash_table_get\<close>
  finds for each key exactly the value last inserted and not removed since, and
  \<^verbatim>\<open>hash_table_count\<close> is the number of keys.\<close>

theorem hash_table_refines_map:
  assumes "n \<noteq> 0" "hash_table_alloc n = Inr t"
  shows "\<exists>t'. run_store hash_table_insert hash_table_remove ops t = Inr t'
    \<and> (\<forall>k. hash_table_get t' k = Inr (run_map ops Map.empty k))
    \<and> hash_table_count t' = of_nat (card (dom (run_map ops Map.empty)))"
  using hash_table_alloc_ok[OF assms] ht.run_store_contents[of t ops] hash_table_count_card
  by (metis hash_table_get_map)

theorem hash_table_refines_map_witness:
  "\<exists>t t'. hash_table_alloc 2 = Inr t
    \<and> run_store hash_table_insert hash_table_remove [Put 1 (10 :: nat), Put 3 30, Put 1 11, Del 3, Put 5 50] t = Inr t'
    \<and> hash_table_get t' 1 = Inr (Some 11) \<and> hash_table_get t' 3 = Inr None"
proof -
  have "kmalloc_array 2 = Inr ()" by (simp add: kmalloc_array_small)
  then obtain t where t: "hash_table_alloc 2 = Inr (t :: nat hash_table_t)"
    by (simp add: hash_table_alloc_def)
  show ?thesis
    using hash_table_refines_map[OF _ t, of "[Put 1 10, Put 3 30, Put 1 11, Del 3, Put 5 50]"] t by auto
qed

text \<open>\<^verbatim>\<open>hash_table_resize\<close> to any nonzero number of buckets whose array fits the heap rehashes
  every element: the map is unchanged and the invariant holds for the new number of buckets.\<close>

lemma hash_table_resize_preserves:
  assumes "ht_wf t" "n \<noteq> 0" "kmalloc_array n = Inr ()"
  shows "\<exists>t'. hash_table_resize t n = Inr t' \<and> ht_wf t' \<and> num_buckets t' = n
    \<and> (\<forall>k. hash_table_get t' k = hash_table_get t k) \<and> hash_table_count t' = hash_table_count t"
proof -
  obtain t' where "hash_table_resize t n = Inr t'" "ht_wf t'" "ht_map t' = ht_map t" "num_buckets t' = n"
    using hash_table_resize_ok[OF assms] by blast
  then show ?thesis
    by (auto simp: hash_table_get_map assms(1) hash_table_count_card)
qed

text \<open>\<^verbatim>\<open>hash_table_find\<close> returns an entry of the table that satisfies the condition whenever there
  is one and nothing otherwise; \<^verbatim>\<open>hash_table_get_any\<close> returns an entry exactly when the table is not
  empty; \<^verbatim>\<open>hash_table_clear\<close> empties the table and calls \<^verbatim>\<open>free_func\<close> once for the value of each
  entry, in the order of the chains.\<close>

lemma hash_table_iteration:
  assumes "ht_wf t"
  shows "(case hash_table_find t c of Some (k, v) \<Rightarrow> ht_map t k = Some v \<and> c v
          | None \<Rightarrow> \<forall>v \<in> ran (ht_map t). \<not> c v)
    \<and> (case hash_table_get_any t of Inr (Some (k, v)) \<Rightarrow> ht_map t k = Some v
          | Inr None \<Rightarrow> ht_map t = Map.empty | Inl _ \<Rightarrow> False)
    \<and> (\<exists>t'. hash_table_clear t (Some f) s = (t', fold f (map snd (ht_entries t)) s)
          \<and> ht_wf t' \<and> ht_map t' = Map.empty)"
proof (intro conjI)
  have mem: "ht_map t k = Some v \<longleftrightarrow> (k, v) \<in> set (ht_entries t)" for k v
    using ht_entries_distinct[OF assms] by (simp add: ht_map_def)
  show "case hash_table_find t c of Some (k, v) \<Rightarrow> ht_map t k = Some v \<and> c v
      | None \<Rightarrow> \<forall>v \<in> ran (ht_map t). \<not> c v"
  proof (cases "hash_table_find t c")
    case None
    then have "\<forall>e \<in> set (ht_entries t). \<not> c (snd e)"
      by (auto simp: hash_table_find_def find_in_chains_find find_None_iff simp flip: ht_entries_def)
    with None show ?thesis using mem by (auto simp: ran_def)
  next
    case (Some e)
    then have "e \<in> set (ht_entries t)" "c (snd e)"
      by (auto simp: hash_table_find_def find_in_chains_find find_Some_iff simp flip: ht_entries_def)
    with Some mem show ?thesis by (cases e) simp
  qed
  show "case hash_table_get_any t of Inr (Some (k, v)) \<Rightarrow> ht_map t k = Some v
      | Inr None \<Rightarrow> ht_map t = Map.empty | Inl _ \<Rightarrow> False"
  proof (cases "first_chain (buckets t)")
    case None
    then show ?thesis using first_chain_None[of "buckets t"]
      by (simp add: hash_table_get_any_def ht_map_def ht_entries_def)
  next
    case (Some k)
    then have "k \<in> dom (ht_map t)" using first_chain_Some by (auto simp: ht_map_dom ht_entries_def)
    with Some show ?thesis by (auto simp: hash_table_get_any_def hash_table_get_map assms)
  qed
  show "\<exists>t'. hash_table_clear t (Some f) s = (t', fold f (map snd (ht_entries t)) s)
      \<and> ht_wf t' \<and> ht_map t' = Map.empty"
    using assms by (auto simp: hash_table_clear_def fold_clear_chain ht_wf_def ht_map_def ht_entries_def
        chain_ok_def)
qed

end
