(* ===== verification/ArrayList.thy ===== *)
theory ArrayList
  imports Heap
begin

section \<open>Array lists (kernel/lib/array_list.c)\<close>

text \<open>
  The growing array that holds the file descriptors of a process: a slot holds the value
  \<^verbatim>\<open>null\<close> when it is free, \<^verbatim>\<open>push\<close> takes the first free slot at or after \<^verbatim>\<open>hint\<close>.  Indices
  and capacities are 64-bit words and wrap; growing allocates a new buffer through
  \<open>kmalloc_array\<close> and may panic.  The search of \<^verbatim>\<open>array_list_push\<close> grows the list as it goes
  and does not end when the growth is zero, so it is a partial function.
\<close>

record 'v array_list_t =
  buffer :: "'v list"
  null :: 'v
  cap :: u64
  growth :: u64
  count :: u64
  hint :: u64

definition extend :: "'v array_list_t \<Rightarrow> u64 \<Rightarrow> 'v array_list_t outcome" where
  "extend list g =
     (case kmalloc_array (cap list + g) of Inl e \<Rightarrow> Inl e
      | Inr _ \<Rightarrow> if cap list + g < cap list then Inl Undefined else Inr (list\<lparr>buffer := take (unat (cap list)) (buffer list)
                                @ replicate (unat (cap list + g) - unat (cap list)) (null list),
                          cap := cap list + g\<rparr>))"

definition get_increase :: "'v array_list_t \<Rightarrow> u64 \<Rightarrow> ('v \<times> 'v array_list_t) outcome" where
  "get_increase list index =
     (if index < cap list then Inr (buffer list ! unat index, list)
      else case extend list (growth list) of Inl e \<Rightarrow> Inl e | Inr list' \<Rightarrow> Inr (null list', list'))"

definition array_list_alloc :: "u64 \<Rightarrow> u64 \<Rightarrow> 'v \<Rightarrow> 'v array_list_t outcome" where
  "array_list_alloc init_cap g nil =
     (case kmalloc_array init_cap of Inl e \<Rightarrow> Inl e
      | Inr _ \<Rightarrow> Inr \<lparr>buffer = replicate (unat init_cap) nil, null = nil, cap = init_cap, growth = g,
                      count = 0, hint = 0\<rparr>)"

partial_function (option) push_search :: "'v array_list_t \<Rightarrow> 'v array_list_t outcome option" where
  "push_search list =
     (case get_increase list (hint list) of Inl e \<Rightarrow> Some (Inl e)
      | Inr (x, list') \<Rightarrow>
          if x \<noteq> null list' then push_search (list'\<lparr>hint := hint list' + 1\<rparr>) else Some (Inr list'))"

definition array_list_push :: "'v array_list_t \<Rightarrow> 'v \<Rightarrow> (u64 \<times> 'v array_list_t) outcome option" where
  "array_list_push list value =
     (case push_search list of None \<Rightarrow> None | Some (Inl e) \<Rightarrow> Some (Inl e)
      | Some (Inr l) \<Rightarrow>
          if unat (hint l) < length (buffer l)
          then Some (Inr (hint l, l\<lparr>buffer := (buffer l)[unat (hint l) := value],
                                    count := count l + 1, hint := hint l + 1\<rparr>))
          else Some (Inl Undefined))"

definition array_list_get :: "'v array_list_t \<Rightarrow> u64 \<Rightarrow> 'v" where
  "array_list_get list index = (if cap list \<le> index then null list else buffer list ! unat index)"

definition array_list_set :: "'v array_list_t \<Rightarrow> u64 \<Rightarrow> 'v \<Rightarrow> ('v \<times> 'v array_list_t) outcome" where
  "array_list_set list index value =
     (case (if cap list \<le> index then extend list (index - cap list + 1) else Inr list) of
        Inl e \<Rightarrow> Inl e
      | Inr l \<Rightarrow> if unat index < length (buffer l)
                then Inr (buffer l ! unat index, l\<lparr>buffer := (buffer l)[unat index := value]\<rparr>)
                else Inl Undefined)"

definition array_list_remove :: "'v array_list_t \<Rightarrow> u64 \<Rightarrow> 'v \<times> 'v array_list_t" where
  "array_list_remove list index =
     (if cap list \<le> index then (null list, list)
      else (buffer list ! unat index,
            list\<lparr>buffer := (buffer list)[unat index := null list], count := count list - 1,
                 hint := if index < hint list then index else hint list\<rparr>))"

fun clear_slots :: "'v \<Rightarrow> ('v \<Rightarrow> 's \<Rightarrow> 's) option \<Rightarrow> 'v list \<Rightarrow> 's \<Rightarrow> 'v list \<times> 's" where
  "clear_slots nil free_func [] s = ([], s)"
| "clear_slots nil free_func (x # xs) s =
     (if x \<noteq> nil
      then let (ys, s') = clear_slots nil free_func xs (case free_func of None \<Rightarrow> s | Some f \<Rightarrow> f x s)
           in (nil # ys, s')
      else let (ys, s') = clear_slots nil free_func xs s in (x # ys, s'))"

definition array_list_clear ::
  "'v array_list_t \<Rightarrow> ('v \<Rightarrow> 's \<Rightarrow> 's) option \<Rightarrow> 's \<Rightarrow> 'v array_list_t \<times> 's" where
  "array_list_clear list free_func s =
     (let (b, s') = clear_slots (null list) free_func (buffer list) s
      in (list\<lparr>buffer := b, count := 0, hint := 0\<rparr>, s'))"

definition array_list_free :: "'v array_list_t \<Rightarrow> ('v \<Rightarrow> 's \<Rightarrow> 's) option \<Rightarrow> 's \<Rightarrow> 's" where
  "array_list_free list free_func s = snd (array_list_clear list free_func s)"

fun dup_slots :: "'v \<Rightarrow> ('v \<Rightarrow> 's \<Rightarrow> 'v \<times> 's) \<Rightarrow> 'v list \<Rightarrow> 's \<Rightarrow> 'v list \<times> 's" where
  "dup_slots nil dup_func [] s = ([], s)"
| "dup_slots nil dup_func (x # xs) s =
     (if x = nil then let (ys, s') = dup_slots nil dup_func xs s in (nil # ys, s')
      else let (y, s1) = dup_func x s; (ys, s') = dup_slots nil dup_func xs s1 in (y # ys, s'))"

definition array_list_dup ::
  "'v array_list_t \<Rightarrow> ('v \<Rightarrow> 's \<Rightarrow> 'v \<times> 's) \<Rightarrow> 's \<Rightarrow> ('v array_list_t \<times> 's) outcome" where
  "array_list_dup list dup_func s =
     (case kmalloc_array (cap list) of Inl e \<Rightarrow> Inl e
      | Inr _ \<Rightarrow> let (b, s') = dup_slots (null list) dup_func (buffer list) s
                in Inr (\<lparr>buffer = b, null = null list, cap = cap list, growth = growth list,
                         count = count list, hint = hint list\<rparr>, s'))"

definition array_list_count :: "'v array_list_t \<Rightarrow> u64" where
  "array_list_count list = count list"

subsection \<open>Invariant\<close>

definition first_free :: "'v array_list_t \<Rightarrow> nat" where
  "first_free l = length (takeWhile (\<lambda>x. x \<noteq> null l) (buffer l))"

text \<open>The buffer is as long as its capacity, and no slot below the hint is free.\<close>

definition al_wf :: "'v array_list_t \<Rightarrow> bool" where
  "al_wf l \<longleftrightarrow> length (buffer l) = unat (cap l) \<and> unat (cap l) < 0x40000
     \<and> 0 < growth l \<and> unat (growth l) < 2 ^ 32
     \<and> hint l \<le> cap l \<and> (\<forall>i < unat (hint l). buffer l ! i \<noteq> null l)"

lemma first_free_le: "first_free l \<le> length (buffer l)"
  by (simp add: first_free_def length_takeWhile_le)

lemma first_free_below: "i < first_free l \<Longrightarrow> buffer l ! i \<noteq> null l"
  using nth_mem[of i "takeWhile (\<lambda>x. x \<noteq> null l) (buffer l)"]
  by (auto simp: first_free_def takeWhile_nth dest: set_takeWhileD)

lemma first_free_null: "first_free l < length (buffer l) \<Longrightarrow> buffer l ! first_free l = null l"
  using nth_length_takeWhile[of "\<lambda>x. x \<noteq> null l" "buffer l"] by (simp add: first_free_def)

lemma first_free_eqI:
  assumes "n \<le> length (buffer l)" "\<And>i. i < n \<Longrightarrow> buffer l ! i \<noteq> null l"
    "n < length (buffer l) \<Longrightarrow> buffer l ! n = null l"
  shows "first_free l = n"
  by (metis assms first_free_below first_free_le first_free_null le_neq_implies_less linorder_neqE_nat)

lemma hint_le_first_free: "al_wf l \<Longrightarrow> unat (hint l) \<le> first_free l"
  using first_free_null[of l] first_free_le[of l]
  by (auto simp: al_wf_def word_le_nat_alt) (metis le_less_linear order_less_le_trans)

lemma push_search_found:
  assumes "al_wf l" "first_free l < length (buffer l)"
  shows "push_search l = Some (Inr (l\<lparr>hint := of_nat (first_free l)\<rparr>))"
  using assms
proof (induction "first_free l - unat (hint l)" arbitrary: l)
  case 0
  then have "first_free l = unat (hint l)" using hint_le_first_free[of l] by simp
  then show ?case using 0 first_free_null[of l]
    by (subst push_search.simps) (simp add: get_increase_def al_wf_def word_less_nat_alt)
next
  case (Suc n)
  let ?l = "l\<lparr>hint := hint l + 1\<rparr>"
  have lt: "unat (hint l) < first_free l" using Suc(2) by simp
  then have hc: "hint l < cap l" using Suc.prems by (simp add: al_wf_def word_less_nat_alt)
  then have h: "unat (hint l + 1) = Suc (unat (hint l))" by (rule unat_succ_less)
  have ne: "buffer l ! unat (hint l) \<noteq> null l" using first_free_below[OF lt] .
  have ff: "first_free ?l = first_free l" by (simp add: first_free_def)
  have "al_wf ?l" using Suc.prems(1) ne hc
    by (auto simp: al_wf_def h inc_le less_Suc_eq)
  then have "push_search ?l = Some (Inr (?l\<lparr>hint := of_nat (first_free ?l)\<rparr>))"
    using Suc(1)[of ?l] Suc(2) Suc.prems(2) ff h by simp
  then show ?case using hc ne ff
    by (subst push_search.simps) (simp add: get_increase_def)
qed

lemma push_search_full:
  assumes "al_wf l" "first_free l = length (buffer l)"
  shows "push_search l = (case extend l (growth l) of Inl e \<Rightarrow> Some (Inl e)
    | Inr l' \<Rightarrow> Some (Inr (l'\<lparr>hint := cap l\<rparr>)))"
  using assms
proof (induction "unat (cap l) - unat (hint l)" arbitrary: l)
  case 0
  then have "cap l \<le> hint l" by (simp add: word_le_nat_alt)
  with 0 have "hint l = cap l" by (simp add: al_wf_def)
  then show ?case
    by (subst push_search.simps) (auto simp: get_increase_def extend_def split: sum.splits)
next
  case (Suc n)
  let ?l = "l\<lparr>hint := hint l + 1\<rparr>"
  have hc: "hint l < cap l" using Suc(2) by (simp add: word_less_nat_alt)
  then have h: "unat (hint l + 1) = Suc (unat (hint l))" by (rule unat_succ_less)
  have ne: "buffer l ! unat (hint l) \<noteq> null l"
    using hc Suc.prems by (intro first_free_below) (simp add: al_wf_def word_less_nat_alt)
  have ff: "first_free ?l = first_free l" by (simp add: first_free_def)
  have "al_wf ?l" using Suc.prems(1) ne hc
    by (auto simp: al_wf_def h inc_le less_Suc_eq)
  then have "push_search ?l = (case extend ?l (growth l) of Inl e \<Rightarrow> Some (Inl e)
      | Inr l' \<Rightarrow> Some (Inr (l'\<lparr>hint := cap l\<rparr>)))"
    using Suc(1)[of ?l] Suc(2) Suc.prems(2) ff h by (simp split: sum.splits)
  moreover have "push_search l = push_search ?l" using hc ne
    by (subst push_search.simps) (simp add: get_increase_def)
  ultimately show ?case by (auto simp: extend_def split: sum.splits)
qed

subsection \<open>Every operation on a well-formed list\<close>

lemma extend_ok:
  assumes "al_wf l" "extend l g = Inr l'"
  shows "al_wf l' \<and> cap l' = cap l + g \<and> cap l \<le> cap l' \<and> null l' = null l \<and> hint l' = hint l
    \<and> (\<forall>i. array_list_get l' i = array_list_get l i)"
proof -
  have k: "kmalloc_array (cap l + g) = Inr ()" "cap l \<le> cap l + g"
    and l': "l' = l\<lparr>buffer := buffer l @ replicate (unat (cap l + g) - unat (cap l)) (null l), cap := cap l + g\<rparr>"
    using assms by (auto simp: extend_def al_wf_def not_less split: sum.splits if_splits)
  have len: "length (buffer l') = unat (cap l + g)" "length (buffer l) = unat (cap l)"
    using assms(1) k(2) by (simp_all add: l' al_wf_def word_le_nat_alt)
  have nth: "buffer l' ! i = (if i < unat (cap l) then buffer l ! i else null l)" if "i < unat (cap l + g)" for i
    using that len by (auto simp: l' nth_append)
  have "al_wf l'"
    using assms(1) k kmalloc_array_ok_bound[OF k(1)] nth len
    by (auto simp: al_wf_def l' word_le_nat_alt nth_append)
  moreover have "array_list_get l' i = array_list_get l i" for i
    using nth[of "unat i"] k(2) by (auto simp: array_list_get_def l' word_le_nat_alt)
  ultimately show ?thesis using k(2) by (simp add: l')
qed

lemma extend_count: "extend l g = Inr l' \<Longrightarrow> count l' = count l"
  by (auto simp: extend_def split: sum.splits if_splits)

lemma extend_fail:
  assumes "al_wf l" "unat g < 2 ^ 32" "extend l g = Inl e"
  shows "e = Panic PANIC_NO_MEM"
proof -
  have u: "unat (cap l + g) = unat (cap l) + unat g"
    using assms(1,2) by (simp add: al_wf_def unat_word_ariths(1))
  then have "cap l \<le> cap l + g" by (simp add: word_le_nat_alt)
  then show ?thesis using assms u kmalloc_array_no_wrap[of "cap l + g"]
    by (auto simp: extend_def al_wf_def split: sum.splits if_splits)
qed

text \<open>What \<^verbatim>\<open>push\<close> does: either the heap refuses to grow a full list, or the first free slot of the
  (possibly grown) list is taken.\<close>

lemma array_list_push_cases:
  assumes "al_wf l"
  obtains (fail) "array_list_push l v = Some (Inl (Panic PANIC_NO_MEM))" "first_free l = unat (cap l)"
      "extend l (growth l) = Inl (Panic PANIC_NO_MEM)"
  | (ok) l' where "al_wf l'" "null l' = null l" "\<forall>i. array_list_get l' i = array_list_get l i"
      "first_free l < length (buffer l')" "first_free l' = first_free l" "count l' = count l"
      "array_list_push l v = Some (Inr (of_nat (first_free l),
         l'\<lparr>buffer := (buffer l')[first_free l := v], count := count l + 1, hint := of_nat (first_free l) + 1\<rparr>))"
proof (cases "first_free l < length (buffer l)")
  case True
  then have "unat (of_nat (first_free l) :: u64) = first_free l"
    using assms by (simp add: al_wf_def unat_of_nat)
  then have "array_list_push l v = Some (Inr (of_nat (first_free l),
       l\<lparr>buffer := (buffer l)[first_free l := v], count := count l + 1, hint := of_nat (first_free l) + 1\<rparr>))"
    using push_search_found[OF assms True] True by (simp add: array_list_push_def)
  with True assms show ?thesis by (intro ok[of l]) auto
next
  case False
  then have ff: "first_free l = length (buffer l)" using first_free_le[of l] by simp
  then have fc: "first_free l = unat (cap l)" using assms by (simp add: al_wf_def)
  show ?thesis
  proof (cases "extend l (growth l)")
    case (Inl e)
    then have "e = Panic PANIC_NO_MEM" using extend_fail[OF assms _ Inl] assms by (simp add: al_wf_def)
    with Inl show ?thesis using push_search_full[OF assms ff] fc
      by (intro fail) (simp_all add: array_list_push_def)
  next
    case (Inr l')
    note e = extend_ok[OF assms Inr]
    have u: "unat (cap l + growth l) = unat (cap l) + unat (growth l)" "0 < unat (growth l)"
      using assms by (simp_all add: al_wf_def unat_word_ariths(1) word_less_nat_alt)
    then have lt: "unat (cap l) < length (buffer l')" using e by (simp add: al_wf_def)
    have "first_free l' = unat (cap l)"
    proof (rule first_free_eqI)
      have g: "buffer l' ! i = array_list_get l (of_nat i)" if "i \<le> unat (cap l)" for i
      proof -
        have "unat (of_nat i :: u64) = i" using that assms by (simp add: al_wf_def unat_of_nat)
        moreover have "array_list_get l' (of_nat i) = array_list_get l (of_nat i)" using e by blast
        ultimately show ?thesis using that lt e by (simp add: array_list_get_def al_wf_def word_le_nat_alt)
      qed
      show "buffer l' ! i \<noteq> null l'" if "i < unat (cap l)" for i
        using g[of i] that first_free_below[of i l] fc e assms
        by (simp add: array_list_get_def al_wf_def word_le_nat_alt unat_of_nat)
      show "buffer l' ! unat (cap l) = null l'" using g[of "unat (cap l)"] e by (simp add: array_list_get_def)
    qed (use lt in simp)
    moreover have "count l' = count l" using Inr by (rule extend_count)
    ultimately show ?thesis using e lt push_search_full[OF assms ff] Inr fc
      by (intro ok[of l']) (simp_all add: array_list_push_def unat_of_nat)
  qed
qed

lemma array_list_get_update:
  assumes "al_wf l" "j < length (buffer l)"
  shows "array_list_get (l\<lparr>buffer := (buffer l)[j := v], count := c, hint := h\<rparr>) i
    = (if unat i = j then v else array_list_get l i)"
  using assms by (auto simp: array_list_get_def al_wf_def word_le_nat_alt nth_list_update)

lemma al_wf_push:
  assumes "al_wf l" "first_free l < length (buffer l)" "v \<noteq> null l"
  shows "al_wf (l\<lparr>buffer := (buffer l)[first_free l := v], count := c, hint := of_nat (first_free l) + 1\<rparr>)"
proof -
  let ?h = "of_nat (first_free l) :: u64"
  have h: "unat ?h = first_free l" using assms by (simp add: al_wf_def unat_of_nat)
  then have lt: "?h < cap l" using assms by (simp add: al_wf_def word_less_nat_alt)
  then have "unat (?h + 1) = Suc (first_free l)" using unat_succ_less h by metis
  with assms lt show ?thesis
    by (auto simp: al_wf_def inc_le nth_list_update less_Suc_eq first_free_below)
qed

lemma array_list_push_ok:
  assumes "al_wf l" "v \<noteq> null l" "array_list_push l v = Some (Inr (i, l'))"
  shows "al_wf l' \<and> null l' = null l \<and> array_list_get l i = null l
    \<and> (\<forall>j < i. array_list_get l j \<noteq> null l)
    \<and> (\<forall>j. array_list_get l' j = (if j = i then v else array_list_get l j))
    \<and> count l' = count l + 1"
  using assms(1)
proof (cases rule: array_list_push_cases[where v = v])
  case (ok l1)
  let ?n = "first_free l"
  have i: "unat (of_nat ?n :: u64) = ?n" using ok by (simp add: al_wf_def unat_of_nat)
  have i': "i = of_nat ?n" and l': "l' = l1\<lparr>buffer := (buffer l1)[?n := v], count := count l + 1, hint := of_nat ?n + 1\<rparr>"
    using assms(3) ok by auto
  have eq: "unat j = ?n \<longleftrightarrow> j = i" for j using i i' by (metis unat_inject)
  have "array_list_get l i = array_list_get l1 i" using ok by simp
  also have "\<dots> = null l" using first_free_null[of l1] ok(2,4,5) i i'
    by (simp add: array_list_get_def)
  finally have "array_list_get l i = null l" .
  moreover have "array_list_get l j \<noteq> null l" if "j < i" for j
  proof -
    have "unat j < ?n" using that i i' by (simp add: word_less_nat_alt)
    then have "unat j < first_free l1" "unat j < unat (cap l1)" using ok by (auto simp: al_wf_def)
    then have "array_list_get l1 j \<noteq> null l1"
      using first_free_below[of "unat j" l1] by (simp add: array_list_get_def word_le_nat_alt)
    then show ?thesis using ok by simp
  qed
  moreover have "al_wf l'" using al_wf_push[of l1 v] ok assms(2) by (simp add: l')
  moreover have "array_list_get l' j = (if j = i then v else array_list_get l j)" for j
    using array_list_get_update[of l1 ?n, where v = v] ok eq by (simp add: l')
  ultimately show ?thesis using ok by (simp add: l')
qed (use assms(3) in simp)

lemma array_list_set_ok:
  assumes "al_wf l" "v \<noteq> null l" "array_list_set l i v = Inr (old, l')"
  shows "al_wf l' \<and> null l' = null l \<and> old = array_list_get l i
    \<and> (\<forall>j. array_list_get l' j = (if j = i then v else array_list_get l j))
    \<and> cap l' = (if cap l \<le> i then i + 1 else cap l) \<and> count l' = count l"
proof -
  define l1 where "l1 = (if cap l \<le> i then projr (extend l (i - cap l + 1)) else l)"
  have ext: "(if cap l \<le> i then extend l (i - cap l + 1) else Inr l) = Inr l1"
    using assms(3) by (auto simp: array_list_set_def l1_def split: sum.splits if_splits)
  then have l1: "al_wf l1" "null l1 = null l" "\<forall>j. array_list_get l1 j = array_list_get l j"
    "cap l1 = (if cap l \<le> i then i + 1 else cap l)" "count l1 = count l" "hint l1 = hint l"
    using assms(1) extend_ok[OF assms(1), of "i - cap l + 1" l1] extend_count[of l "i - cap l + 1" l1]
    by (simp_all split: if_splits)
  have lt: "unat i < length (buffer l1)" and r: "old = buffer l1 ! unat i" "l' = l1\<lparr>buffer := (buffer l1)[unat i := v]\<rparr>"
    using assms(3) ext by (auto simp: array_list_set_def split: if_splits)
  have "old = array_list_get l1 i" using lt l1(1) r by (simp add: array_list_get_def al_wf_def word_le_nat_alt)
  moreover have "al_wf l'" using l1 assms(2) lt by (auto simp: al_wf_def r nth_list_update)
  moreover have "array_list_get l' j = (if j = i then v else array_list_get l j)" for j
  proof -
    show ?thesis
      using array_list_get_update[OF l1(1) lt, where v = v and c = "count l1" and h = "hint l1" and i = j] l1(3) by (simp add: r)
  qed
  ultimately show ?thesis using l1 by (simp add: r)
qed

lemma array_list_remove_ok:
  assumes "al_wf l" "array_list_remove l i = (old, l')"
  shows "al_wf l' \<and> null l' = null l \<and> old = array_list_get l i
    \<and> (\<forall>j. array_list_get l' j = (if j = i then null l else array_list_get l j))"
proof (cases "cap l \<le> i")
  case True
  with assms show ?thesis by (auto simp: array_list_remove_def array_list_get_def)
next
  case False
  then have lt: "unat i < length (buffer l)" using assms(1) by (simp add: al_wf_def word_le_nat_alt)
  let ?h = "if i < hint l then i else hint l"
  have l': "l' = l\<lparr>buffer := (buffer l)[unat i := null l], count := count l - 1, hint := ?h\<rparr>"
    "old = array_list_get l i"
    using assms(2) False by (auto simp: array_list_remove_def array_list_get_def)
  have "al_wf l'" using assms(1) False lt
    by (auto simp: al_wf_def l' nth_list_update word_less_nat_alt word_le_nat_alt)
  moreover have "array_list_get l' j = (if j = i then null l else array_list_get l j)" for j
  proof -
    show ?thesis using array_list_get_update[OF assms(1) lt, where v = "null l" and h = ?h and i = j] by (simp add: l')
  qed
  ultimately show ?thesis by (simp add: l')
qed

lemma array_list_alloc_ok:
  assumes "array_list_alloc n g nil = Inr l" "0 < g" "unat g < 2 ^ 32"
  shows "al_wf l \<and> null l = nil \<and> (\<forall>i. array_list_get l i = nil) \<and> count l = 0"
proof -
  have k: "kmalloc_array n = Inr ()"
    and l: "l = \<lparr>buffer = replicate (unat n) nil, null = nil, cap = n, growth = g, count = 0, hint = 0\<rparr>"
    using assms(1) by (auto simp: array_list_alloc_def split: sum.splits)
  show ?thesis using kmalloc_array_ok_bound[OF k] assms(2,3)
    by (auto simp: l al_wf_def array_list_get_def word_le_nat_alt)
qed

subsection \<open>The contract of a handle table\<close>

text \<open>What the process code relies on when it keeps descriptors: a new handle is the lowest free
  one, a handle keeps its value until it is set or dropped, and dropping frees it.\<close>

locale handle_table =
  fixes inv :: "'t \<Rightarrow> bool" and nil :: "'t \<Rightarrow> 'v" and get :: "'t \<Rightarrow> u64 \<Rightarrow> 'v"
    and new :: "'t \<Rightarrow> 'v \<Rightarrow> (u64 \<times> 't) outcome option" and drp :: "'t \<Rightarrow> u64 \<Rightarrow> 'v \<times> 't"
  assumes new_ok: "inv t \<Longrightarrow> v \<noteq> nil t \<Longrightarrow> new t v = Some (Inr (i, t')) \<Longrightarrow>
      inv t' \<and> nil t' = nil t \<and> get t i = nil t \<and> (\<forall>j < i. get t j \<noteq> nil t)
      \<and> (\<forall>j. get t' j = (if j = i then v else get t j))"
    and drp_ok: "inv t \<Longrightarrow> drp t i = (old, t') \<Longrightarrow>
      inv t' \<and> nil t' = nil t \<and> old = get t i \<and> (\<forall>j. get t' j = (if j = i then nil t else get t j))"
begin

lemma new_distinct:
  assumes "inv t" "v \<noteq> nil t" "w \<noteq> nil t" "new t v = Some (Inr (i, t1))" "new t1 w = Some (Inr (j, t2))"
  shows "i < j \<and> get t2 i = v \<and> get t2 j = w"
proof -
  note 1 = new_ok[OF assms(1,2,4)]
  have 2: "inv t2 \<and> get t1 j = nil t1 \<and> (\<forall>k < j. get t1 k \<noteq> nil t1)
      \<and> (\<forall>k. get t2 k = (if k = j then w else get t1 k))"
    using new_ok[of t1 w j t2] 1 assms by auto
  have "j \<noteq> i" using 1 2 assms(2) by auto
  moreover have "\<not> j < i"
  proof
    assume "j < i"
    then have "get t1 j \<noteq> nil t" using 1 by auto
    then show False using 1 2 by simp
  qed
  ultimately show ?thesis using 1 2 by auto
qed

lemma drp_new_reuses:
  assumes "inv t" "\<forall>j < i. get t j \<noteq> nil t" "drp t i = (old, t1)" "v \<noteq> nil t" "new t1 v = Some (Inr (k, t2))"
  shows "k = i \<and> get t2 i = v \<and> (\<forall>j. j \<noteq> i \<longrightarrow> get t2 j = get t j)"
proof -
  note 1 = drp_ok[OF assms(1,3)]
  have 2: "get t1 k = nil t" "\<forall>j < k. get t1 j \<noteq> nil t" "\<forall>j. get t2 j = (if j = k then v else get t1 j)"
    using new_ok[of t1 v k t2] 1 assms by auto
  have "\<not> i < k" using 1 2(2) by auto
  moreover have "\<not> k < i" using 1 2(1) assms(2) by (metis less_irrefl)
  ultimately have "k = i" by simp
  with 1 2 show ?thesis by auto
qed

end

interpretation al: handle_table al_wf null array_list_get array_list_push array_list_remove
proof
  fix l l' :: "'a array_list_t" and v i
  assume "al_wf l" "v \<noteq> null l" "array_list_push l v = Some (Inr (i, l'))"
  from array_list_push_ok[OF this] show "al_wf l' \<and> null l' = null l \<and> array_list_get l i = null l
      \<and> (\<forall>j < i. array_list_get l j \<noteq> null l) \<and> (\<forall>j. array_list_get l' j = (if j = i then v else array_list_get l j))"
    by blast
next
  fix l l' :: "'a array_list_t" and old i
  assume "al_wf l" "array_list_remove l i = (old, l')"
  from array_list_remove_ok[OF this] show "al_wf l' \<and> null l' = null l \<and> old = array_list_get l i
      \<and> (\<forall>j. array_list_get l' j = (if j = i then null l else array_list_get l j))" .
qed

subsection \<open>Properties\<close>

text \<open>On a well-formed list \<^verbatim>\<open>array_list_push\<close> terminates.  It either panics for lack of heap,
  and then the list was full, or it returns the lowest free index of the list, stores the value
  there, changes no other slot and keeps the list well-formed.\<close>

lemma array_list_push_lowest:
  assumes "al_wf l" "v \<noteq> null l"
  shows "(array_list_push l v = Some (Inl (Panic PANIC_NO_MEM)) \<and> (\<forall>i < cap l. array_list_get l i \<noteq> null l))
    \<or> (\<exists>i l'. array_list_push l v = Some (Inr (i, l')) \<and> al_wf l' \<and> array_list_get l i = null l
         \<and> (\<forall>j < i. array_list_get l j \<noteq> null l)
         \<and> (\<forall>j. array_list_get l' j = (if j = i then v else array_list_get l j))
         \<and> array_list_count l' = array_list_count l + 1)"
  using assms(1)
proof (cases rule: array_list_push_cases[where v = v])
  case fail
  then show ?thesis using first_free_below[of _ l]
    by (auto simp: array_list_get_def word_less_nat_alt word_le_nat_alt)
next
  case (ok l')
  from array_list_push_ok[OF assms ok(7)] show ?thesis
    using ok(7) by (simp add: array_list_count_def)
qed

text \<open>\<^verbatim>\<open>array_list_set\<close> and \<^verbatim>\<open>array_list_remove\<close> change exactly the slot they name and report
  the value it had; a set beyond the capacity grows the list just far enough, and the list stays
  well-formed, so that the next push still finds the lowest free slot.\<close>

lemma array_list_set_remove_get:
  assumes "al_wf l" "v \<noteq> null l" "array_list_set l i v = Inr (old, l')" "array_list_remove l' j = (x, l'')"
  shows "old = array_list_get l i \<and> array_list_get l' i = v \<and> (\<forall>k. k \<noteq> i \<longrightarrow> array_list_get l' k = array_list_get l k)
    \<and> cap l' = (if cap l \<le> i then i + 1 else cap l) \<and> al_wf l'
    \<and> x = array_list_get l' j \<and> array_list_get l'' j = null l
    \<and> (\<forall>k. k \<noteq> j \<longrightarrow> array_list_get l'' k = array_list_get l' k) \<and> al_wf l''"
  using array_list_set_ok[OF assms(1-3)] array_list_remove_ok[OF _ assms(4)] by auto

end
