(* ===== verification/MM.thy ===== *)
theory MM
  imports Prelude
begin

section \<open>The page allocator (kernel/core/mm.c)\<close>

text \<open>
  Physical and virtual memory are each a doubly linked list of free regions between two guard
  nodes whose base is zero.  The chain is modelled as the list of its nodes, guards included:
  \<^verbatim>\<open>begin\<close> is its head, \<^verbatim>\<open>end\<close> its last element, \<^verbatim>\<open>node->prev\<close> and \<^verbatim>\<open>node->next\<close> the neighbours in
  the list.  Base addresses and sizes are 64-bit words and their sums wrap as in the source.
  Node storage is recycled through \<^verbatim>\<open>reuse_nodes\<close>; the model counts the nodes there and those
  taken from \<^verbatim>\<open>kmalloc\<close>.

  The theorems relate the list to the set of free addresses: under \<open>mm_wf\<close> (regions aligned,
  sorted, apart from each other) an allocation takes exactly the region it returns out of the
  set and a release of memory that is not free puts exactly that region back, merging
  neighbours so that the invariant holds again.
\<close>

definition PAGE_SIZE_4K :: u64 where "PAGE_SIZE_4K = 0x1000"
definition CANON_HIGH :: u64 where "CANON_HIGH = 0xFFFF800000000000"
definition IDENT_BASE :: u64 where "IDENT_BASE = 0xFFFFFF0000000000"
definition VIRTUAL_LIMIT :: u64 where "VIRTUAL_LIMIT = IDENT_BASE"
definition MAX_INIT_NODES :: nat where "MAX_INIT_NODES = 64"

record mm_list_node_t =
  base :: u64
  nsize :: u64

abbreviation node_end :: "mm_list_node_t \<Rightarrow> u64" where
  "node_end n \<equiv> base n + nsize n"

abbreviation guard_node :: mm_list_node_t where
  "guard_node \<equiv> \<lparr>base = 0, nsize = 0\<rparr>"

subsection \<open>Node storage\<close>

record node_pool =
  reuse_nodes :: nat
  node_mallocs :: nat

definition free_node :: "node_pool \<Rightarrow> node_pool" where
  "free_node p = p\<lparr>reuse_nodes := reuse_nodes p + 1\<rparr>"

definition alloc_node :: "node_pool \<Rightarrow> node_pool" where
  "alloc_node p =
     (if reuse_nodes p \<noteq> 0 then p\<lparr>reuse_nodes := reuse_nodes p - 1\<rparr>
      else p\<lparr>node_mallocs := node_mallocs p + 1\<rparr>)"

subsection \<open>Releasing a region\<close>

text \<open>The position of \<^verbatim>\<open>insert\<close>: the first node after \<^verbatim>\<open>begin\<close> that is a guard or does not lie
  below the new node.\<close>

definition below :: "u64 \<Rightarrow> mm_list_node_t \<Rightarrow> bool" where
  "below b n \<longleftrightarrow> base n \<noteq> 0 \<and> base n < b"

definition insert_pos :: "u64 \<Rightarrow> mm_list_node_t list \<Rightarrow> nat" where
  "insert_pos b xs = Suc (length (takeWhile (below b) (tl xs)))"

text \<open>\<open>Inr (1, \<dots>)\<close> is the rejected double free.  An overlap with the node before is only logged.
  Merging with the end guard would follow its null \<^verbatim>\<open>next\<close>.\<close>

definition insert_node :: "mm_list_node_t \<Rightarrow> node_pool \<times> mm_list_node_t list
    \<Rightarrow> (u8 \<times> node_pool \<times> mm_list_node_t list) outcome" where
  "insert_node node st =
     (let (pool, xs) = st;
          i = insert_pos (base node) xs;
          l = take i xs; r = drop i xs;
          insert = hd r; prev = last l
      in if base insert \<noteq> 0 \<and> node_end node > base insert then Inr (1, pool, xs)
         else
           let (l1, n1, pool1) =
                 (if node_end prev = base node
                  then (butlast l, prev\<lparr>nsize := nsize prev + nsize node\<rparr>, free_node pool)
                  else (l, node, pool))
           in if node_end n1 = base (hd r)
              then if tl r = [] then Inl Undefined
                   else Inr (0, free_node pool1, l1 @ n1\<lparr>nsize := nsize n1 + nsize (hd r)\<rparr> # tl r)
              else Inr (0, pool1, l1 @ n1 # r))"

text \<open>Rounding a size up to whole pages, with the wrap-around of the source.\<close>

definition page_round :: "u64 \<Rightarrow> u64" where
  "page_round sz =
     (let rem = sz mod PAGE_SIZE_4K in if rem \<noteq> 0 then sz + (PAGE_SIZE_4K - rem) else sz)"

definition mm_free :: "u64 \<Rightarrow> u64 \<Rightarrow> node_pool \<times> mm_list_node_t list
    \<Rightarrow> (node_pool \<times> mm_list_node_t list) outcome" where
  "mm_free b sz st =
     (case insert_node \<lparr>base = b, nsize = page_round sz\<rparr> (alloc_node (fst st), snd st) of
        Inl e \<Rightarrow> Inl e
      | Inr (_, pool, xs) \<Rightarrow> Inr (pool, xs))"

subsection \<open>Taking a region\<close>

definition fits :: "u64 \<Rightarrow> u64 \<Rightarrow> mm_list_node_t \<Rightarrow> bool" where
  "fits limit sz n \<longleftrightarrow> node_end n < limit \<and> nsize n \<ge> sz"

text \<open>The search runs from \<^verbatim>\<open>end->prev\<close> towards \<^verbatim>\<open>begin\<close> and stops at a guard or at a region that fits;
  \<open>rest\<close> is the part of the list up to the node where it stops, reversed.  The result is the
  returned address, 0 for failure.  With an alignment the node \<^verbatim>\<open>extra\<close> is taken from the pool
  before the checks, so the early returns do not give it back.\<close>

definition mm_alloc_max :: "u64 \<Rightarrow> u64 \<Rightarrow> u64 \<Rightarrow> node_pool \<times> mm_list_node_t list
    \<Rightarrow> u64 \<times> node_pool \<times> mm_list_node_t list" where
  "mm_alloc_max sz align limit st =
     (let (pool0, xs) = st;
          pool = (if align \<noteq> 0 then alloc_node pool0 else pool0)
      in if sz = 0 then (0, pool, xs)
         else if align mod PAGE_SIZE_4K \<noteq> 0 then (0, pool, xs)
         else
           let asize = page_round sz;
               rest = dropWhile (\<lambda>n. base n \<noteq> 0 \<and> \<not> fits limit (asize + align) n) (rev (butlast xs));
               node = hd rest; l = rev (tl rest); r = drop (length rest) xs
           in if base node = 0 then (0, pool, xs)
              else
                let adj = (if align \<noteq> 0 then align - base node mod align else 0);
                    (l1, n1) = (if adj \<noteq> 0
                                then (l @ [\<lparr>base = base node, nsize = adj\<rparr>],
                                      \<lparr>base = base node + adj, nsize = nsize node - adj\<rparr>)
                                else (l, node));
                    pool1 = (if align \<noteq> 0 \<and> adj = 0 then free_node pool else pool);
                    n2 = n1\<lparr>nsize := nsize n1 - asize\<rparr>
                in if nsize n2 \<noteq> 0
                   then (base n2, pool1, l1 @ n2\<lparr>base := base n2 + asize\<rparr> # r)
                   else (base n2, free_node pool1, l1 @ r))"

subsection \<open>The two address spaces and the pending releases\<close>

datatype mm_trans_type = MM_TRANS_VIRT | MM_TRANS_IDNT

record free_transaction =
  tbase :: u64
  tsize :: u64
  ttype :: mm_trans_type

record disarm_t =
  disarm_id :: u8
  disarm_state :: bool

record mm_state =
  p_list :: "mm_list_node_t list"
  v_list :: "mm_list_node_t list"
  pool :: node_pool
  pending_free :: "free_transaction list"
  transaction_list :: "free_transaction list"
  disarm_list :: "disarm_t list"

definition alloc_from_p :: "u64 \<Rightarrow> u64 \<Rightarrow> u64 \<Rightarrow> mm_state \<Rightarrow> u64 \<times> mm_state" where
  "alloc_from_p sz align limit s =
     (let (r, po, xs) = mm_alloc_max sz align limit (pool s, p_list s) in (r, s\<lparr>pool := po, p_list := xs\<rparr>))"

definition alloc_from_v :: "u64 \<Rightarrow> u64 \<Rightarrow> u64 \<Rightarrow> mm_state \<Rightarrow> u64 \<times> mm_state" where
  "alloc_from_v sz align limit s =
     (let (r, po, xs) = mm_alloc_max sz align limit (pool s, v_list s) in (r, s\<lparr>pool := po, v_list := xs\<rparr>))"

definition mm_alloc_p :: "u64 \<Rightarrow> mm_state \<Rightarrow> u64 \<times> mm_state" where
  "mm_alloc_p sz = alloc_from_p sz 0 (NOT 0)"

definition mm_alloc_v :: "u64 \<Rightarrow> mm_state \<Rightarrow> u64 \<times> mm_state" where
  "mm_alloc_v sz = alloc_from_v sz 0 (NOT 0)"

definition mm_alloc_palign :: "u64 \<Rightarrow> u64 \<Rightarrow> mm_state \<Rightarrow> u64 \<times> mm_state" where
  "mm_alloc_palign sz align = alloc_from_p sz align (NOT 0)"

definition mm_alloc_valign :: "u64 \<Rightarrow> u64 \<Rightarrow> mm_state \<Rightarrow> u64 \<times> mm_state" where
  "mm_alloc_valign sz align = alloc_from_v sz align (NOT 0)"

definition mm_alloc_pmax :: "u64 \<Rightarrow> u64 \<Rightarrow> u64 \<Rightarrow> mm_state \<Rightarrow> u64 \<times> mm_state" where
  "mm_alloc_pmax = alloc_from_p"

definition mm_alloc_vmax :: "u64 \<Rightarrow> u64 \<Rightarrow> u64 \<Rightarrow> mm_state \<Rightarrow> u64 \<times> mm_state" where
  "mm_alloc_vmax = alloc_from_v"

definition free_to_p :: "u64 \<Rightarrow> u64 \<Rightarrow> mm_state \<Rightarrow> mm_state outcome" where
  "free_to_p b sz s =
     (case mm_free b sz (pool s, p_list s) of Inl e \<Rightarrow> Inl e | Inr (po, xs) \<Rightarrow> Inr (s\<lparr>pool := po, p_list := xs\<rparr>))"

definition free_to_v :: "u64 \<Rightarrow> u64 \<Rightarrow> mm_state \<Rightarrow> mm_state outcome" where
  "free_to_v b sz s =
     (case mm_free b sz (pool s, v_list s) of Inl e \<Rightarrow> Inl e | Inr (po, xs) \<Rightarrow> Inr (s\<lparr>pool := po, v_list := xs\<rparr>))"

definition mm_free_p :: "u64 \<Rightarrow> u64 \<Rightarrow> mm_state \<Rightarrow> mm_state outcome" where
  "mm_free_p = free_to_p"

definition paging_ident :: "u64 \<Rightarrow> u64" where "paging_ident paddr = paddr + IDENT_BASE"
definition paging_unident :: "u64 \<Rightarrow> u64" where "paging_unident vaddr = vaddr - IDENT_BASE"

definition mm_free_p_ident :: "u64 \<Rightarrow> u64 \<Rightarrow> mm_state \<Rightarrow> mm_state" where
  "mm_free_p_ident b sz s =
     s\<lparr>pending_free := \<lparr>tbase = paging_ident b, tsize = sz, ttype = MM_TRANS_IDNT\<rparr> # pending_free s\<rparr>"

definition mm_free_v :: "u64 \<Rightarrow> u64 \<Rightarrow> mm_state \<Rightarrow> mm_state" where
  "mm_free_v b sz s =
     s\<lparr>pending_free := \<lparr>tbase = b, tsize = sz, ttype = MM_TRANS_VIRT\<rparr> # pending_free s\<rparr>"

text \<open>The collector process \<^verbatim>\<open>free_all_pending\<close> works in rounds.  It takes over the pending list and
  arms the barrier of every registered processor; it waits until no barrier is armed; then it
  releases the transactions in order.\<close>

definition free_all_pending_take :: "mm_state \<Rightarrow> mm_state" where
  "free_all_pending_take s =
     s\<lparr>transaction_list := pending_free s, pending_free := [],
       disarm_list := map (\<lambda>d. d\<lparr>disarm_state := True\<rparr>) (disarm_list s)\<rparr>"

definition barriers_armed :: "mm_state \<Rightarrow> bool" where
  "barriers_armed s \<longleftrightarrow> (\<exists>d \<in> set (disarm_list s). disarm_state d)"

definition release_transaction :: "free_transaction \<Rightarrow> mm_state \<Rightarrow> mm_state outcome" where
  "release_transaction t s =
     (case ttype t of
        MM_TRANS_VIRT \<Rightarrow> free_to_v (tbase t) (tsize t) s
      | MM_TRANS_IDNT \<Rightarrow> free_to_p (paging_unident (tbase t)) (tsize t) s)"

fun release_transactions :: "free_transaction list \<Rightarrow> mm_state \<Rightarrow> mm_state outcome" where
  "release_transactions [] s = Inr (s\<lparr>transaction_list := []\<rparr>)"
| "release_transactions (t # ts) s =
     (case release_transaction t s of Inl e \<Rightarrow> Inl e | Inr s' \<Rightarrow> release_transactions ts s')"

definition mm_get_shootdown_list :: "mm_state \<Rightarrow> free_transaction list" where
  "mm_get_shootdown_list s = transaction_list s"

definition mm_register_barrier :: "u8 \<Rightarrow> mm_state \<Rightarrow> mm_state" where
  "mm_register_barrier pid s = s\<lparr>disarm_list := \<lparr>disarm_id = pid, disarm_state = False\<rparr> # disarm_list s\<rparr>"

fun disarm_first :: "u8 \<Rightarrow> disarm_t list \<Rightarrow> disarm_t list" where
  "disarm_first pid [] = []"
| "disarm_first pid (d # ds) =
     (if pid = disarm_id d then d\<lparr>disarm_state := False\<rparr> # ds else d # disarm_first pid ds)"

definition mm_barrier_disarm :: "u8 \<Rightarrow> mm_state \<Rightarrow> mm_state" where
  "mm_barrier_disarm pid s = s\<lparr>disarm_list := disarm_first pid (disarm_list s)\<rparr>"

subsection \<open>Initialisation from the memory map\<close>

datatype mem_type = MEM_AVL | MEM_CLM | MEM_PRS

record mem_segment_t =
  seg_base :: u64
  seg_size :: u64
  seg_type :: mem_type

function skip_kernel :: "u64 \<Rightarrow> u64 \<Rightarrow> u64 \<Rightarrow> u64 \<times> u64" where
  "skip_kernel kernel_limit b sz =
     (if PAGE_SIZE_4K < sz \<and> b < kernel_limit
      then skip_kernel kernel_limit (b + PAGE_SIZE_4K) (sz - PAGE_SIZE_4K) else (b, sz))"
  by pat_completeness auto
termination
  by (relation "measure (\<lambda>(k, b, s). unat s)")
    (auto simp: unat_sub word_less_nat_alt word_le_nat_alt PAGE_SIZE_4K_def)

declare skip_kernel.simps [simp del]

text \<open>The part of a segment that becomes free memory, if any: above the kernel image, cut to
  whole pages.\<close>

definition trim_segment :: "u64 \<Rightarrow> mem_segment_t \<Rightarrow> mm_list_node_t option" where
  "trim_segment kernel_limit seg =
     (if seg_type seg \<noteq> MEM_AVL then None
      else
        let (b, sz) = skip_kernel kernel_limit (seg_base seg) (seg_size seg)
        in if sz < PAGE_SIZE_4K \<or> b < kernel_limit then None
           else
             let adj = b mod PAGE_SIZE_4K;
                 (b1, sz1) = (if adj \<noteq> 0 then (b + (PAGE_SIZE_4K - adj), sz - (PAGE_SIZE_4K - adj)) else (b, sz))
             in if sz1 < PAGE_SIZE_4K then None
                else
                  let sz2 = sz1 - sz1 mod PAGE_SIZE_4K
                  in if sz2 < PAGE_SIZE_4K then None else Some \<lparr>base = b1, nsize = sz2\<rparr>)"

fun mm_init_segments :: "u64 \<Rightarrow> mem_segment_t list \<Rightarrow> nat \<Rightarrow> node_pool \<times> mm_list_node_t list
    \<Rightarrow> (node_pool \<times> mm_list_node_t list) outcome" where
  "mm_init_segments kernel_limit [] init_node_i st = Inr st"
| "mm_init_segments kernel_limit (seg # segs) init_node_i st =
     (if seg_size seg = 0 \<and> seg_base seg = 0 then Inr st
      else case trim_segment kernel_limit seg of
        None \<Rightarrow> mm_init_segments kernel_limit segs init_node_i st
      | Some node \<Rightarrow>
          if init_node_i = MAX_INIT_NODES then mm_init_segments kernel_limit segs init_node_i st
          else (case insert_node node st of
              Inl e \<Rightarrow> Inl e
            | Inr (rc, st') \<Rightarrow>
                if rc \<noteq> 0 then Inl (Panic PANIC_STATE)
                else mm_init_segments kernel_limit segs (Suc init_node_i) st'))"

definition mm_init :: "u64 \<Rightarrow> mem_segment_t list \<Rightarrow> mm_state outcome" where
  "mm_init kernel_limit segs =
     (case mm_init_segments kernel_limit segs 0
         (\<lparr>reuse_nodes = 0, node_mallocs = 0\<rparr>, [guard_node, guard_node]) of
        Inl e \<Rightarrow> Inl e
      | Inr (po, ps) \<Rightarrow>
          Inr \<lparr>p_list = ps,
               v_list = [guard_node, \<lparr>base = CANON_HIGH, nsize = VIRTUAL_LIMIT - CANON_HIGH\<rparr>, guard_node],
               pool = po, pending_free = [], transaction_list = [], disarm_list = []\<rparr>)"

subsection \<open>The set of free addresses\<close>

definition rbase :: "mm_list_node_t \<Rightarrow> nat" where "rbase n = unat (base n)"
definition rend :: "mm_list_node_t \<Rightarrow> nat" where "rend n = unat (base n) + unat (nsize n)"
definition region :: "mm_list_node_t \<Rightarrow> nat set" where "region n = {rbase n ..< rend n}"

definition free_set :: "mm_list_node_t list \<Rightarrow> nat set" where
  "free_set xs = (\<Union>n \<in> set xs. region n)"

definition node_ok :: "mm_list_node_t \<Rightarrow> bool" where
  "node_ok n \<longleftrightarrow> base n \<noteq> 0 \<and> nsize n \<noteq> 0 \<and> rbase n mod 4096 = 0 \<and> unat (nsize n) mod 4096 = 0 \<and> rend n < 2 ^ 64"

fun free_ok :: "nat \<Rightarrow> mm_list_node_t list \<Rightarrow> bool" where
  "free_ok lo [] = True"
| "free_ok lo (n # ns) = (lo < rbase n \<and> node_ok n \<and> free_ok (rend n) ns)"

definition mm_wf :: "mm_list_node_t list \<Rightarrow> bool" where
  "mm_wf xs \<longleftrightarrow> 2 \<le> length xs \<and> hd xs = guard_node \<and> last xs = guard_node \<and> free_ok 0 (butlast (tl xs))"

definition last_end :: "nat \<Rightarrow> mm_list_node_t list \<Rightarrow> nat" where
  "last_end lo ns = (if ns = [] then lo else rend (last ns))"

lemma last_end_simps [simp]:
  "last_end lo [] = lo" "last_end lo (ns @ [n]) = rend n" "last_end lo (n # ns) = last_end (rend n) ns"
  by (simp_all add: last_end_def)

lemma mm_wf_list: "mm_wf (guard_node # ns @ [guard_node]) \<longleftrightarrow> free_ok 0 ns"
  by (simp add: mm_wf_def)

lemma mm_wfE:
  assumes "mm_wf xs"
  obtains ns where "xs = guard_node # ns @ [guard_node]" "free_ok 0 ns"
proof -
  from assms obtain x ys where xs: "xs = x # ys" "ys \<noteq> []"
    by (cases xs; cases "tl xs") (auto simp: mm_wf_def)
  then have "xs = guard_node # butlast ys @ [guard_node]"
    using assms append_butlast_last_id[of ys] by (auto simp: mm_wf_def)
  with assms xs show ?thesis by (intro that[of "butlast ys"]) (auto simp: mm_wf_def)
qed

lemma region_guard [simp]: "region guard_node = {}"
  by (simp add: region_def rbase_def rend_def)

lemma free_set_simps [simp]:
  "free_set [] = {}" "free_set (n # ns) = region n \<union> free_set ns"
  "free_set (as @ bs) = free_set as \<union> free_set bs"
  by (auto simp: free_set_def)

lemma free_ok_append: "free_ok lo (as @ bs) \<longleftrightarrow> free_ok lo as \<and> free_ok (last_end lo as) bs"
  by (induction as arbitrary: lo) auto

lemma free_ok_mono: "free_ok lo ns \<Longrightarrow> lo' \<le> lo \<Longrightarrow> free_ok lo' ns"
  by (cases ns) auto

lemma node_ok_end: "node_ok n \<Longrightarrow> unat (node_end n) = rend n"
  by (simp add: node_ok_def rend_def unat_word_ariths(1))

lemma node_ok_less: "node_ok n \<Longrightarrow> rbase n < rend n"
  by (simp add: node_ok_def rend_def rbase_def unat_gt_0)

lemma free_ok_nodes: "free_ok lo ns \<Longrightarrow> n \<in> set ns \<Longrightarrow> node_ok n \<and> lo < rbase n"
proof (induction ns arbitrary: lo)
  case (Cons m ns)
  then show ?case using node_ok_less[of m] by fastforce
qed simp

lemma free_ok_last_end: "free_ok lo ns \<Longrightarrow> lo \<le> last_end lo ns"
proof (induction ns arbitrary: lo)
  case (Cons m ns)
  then show ?case using node_ok_less[of m] by fastforce
qed simp

lemma free_set_bounds:
  "free_ok lo ns \<Longrightarrow> x \<in> free_set ns \<Longrightarrow> lo < x \<and> x < last_end lo ns"
proof (induction ns arbitrary: lo)
  case (Cons m ns)
  then have "free_ok (rend m) ns" "lo < rbase m" "node_ok m" by auto
  with Cons node_ok_less[of m] free_ok_last_end[of "rend m" ns] show ?case
    by (force simp: region_def)
qed simp

text \<open>Growing a node over the node that follows it.\<close>

lemma node_merge:
  assumes "node_ok a" "node_ok n" "rend a = rbase n"
  shows "node_ok (a\<lparr>nsize := nsize a + nsize n\<rparr>)" "rend (a\<lparr>nsize := nsize a + nsize n\<rparr>) = rend n"
    "region (a\<lparr>nsize := nsize a + nsize n\<rparr>) = region a \<union> region n"
proof -
  have u: "unat (nsize a + nsize n) = unat (nsize a) + unat (nsize n)"
    using assms by (simp add: node_ok_def rend_def rbase_def unat_word_ariths(1))
  show e: "rend (a\<lparr>nsize := nsize a + nsize n\<rparr>) = rend n"
    using assms(3) u by (simp add: rend_def rbase_def)
  show "node_ok (a\<lparr>nsize := nsize a + nsize n\<rparr>)"
    using assms u e unat_gt_0[of "nsize a"] unat_gt_0[of "nsize a + nsize n"]
    by (auto simp: node_ok_def rbase_def mod_add_eq[symmetric])
  show "region (a\<lparr>nsize := nsize a + nsize n\<rparr>) = region a \<union> region n"
    using assms e node_ok_less[OF assms(1)] node_ok_less[OF assms(2)]
    by (auto simp: region_def rbase_def)
qed

lemma insert_split:
  shows "insert_pos b (guard_node # ns @ [guard_node]) = Suc (length (takeWhile (below b) ns))"
    "take (Suc (length (takeWhile (below b) ns))) (guard_node # ns @ [guard_node]) = guard_node # takeWhile (below b) ns"
    "drop (Suc (length (takeWhile (below b) ns))) (guard_node # ns @ [guard_node]) = dropWhile (below b) ns @ [guard_node]"
proof -
  have "takeWhile (below b) (ns @ [guard_node]) = takeWhile (below b) ns"
    by (induction ns) (auto simp: below_def)
  then show "insert_pos b (guard_node # ns @ [guard_node]) = Suc (length (takeWhile (below b) ns))"
    by (simp add: insert_pos_def)
  have "ns @ [guard_node] = takeWhile (below b) ns @ dropWhile (below b) ns @ [guard_node]"
    by simp
  then show "take (Suc (length (takeWhile (below b) ns))) (guard_node # ns @ [guard_node]) = guard_node # takeWhile (below b) ns"
    "drop (Suc (length (takeWhile (below b) ns))) (guard_node # ns @ [guard_node]) = dropWhile (below b) ns @ [guard_node]"
    by (metis append_eq_conv_conj append_Cons length_Cons)+
qed

text \<open>The merge with the region before and the merge with the region after, on the list without
  its guards.\<close>

definition join_prev :: "mm_list_node_t list \<Rightarrow> mm_list_node_t \<Rightarrow> mm_list_node_t list \<times> mm_list_node_t" where
  "join_prev as n =
     (if as \<noteq> [] \<and> node_end (last as) = base n
      then (butlast as, (last as)\<lparr>nsize := nsize (last as) + nsize n\<rparr>) else (as, n))"

definition join_next :: "mm_list_node_t \<Rightarrow> mm_list_node_t list \<Rightarrow> mm_list_node_t list" where
  "join_next n bs =
     (if bs \<noteq> [] \<and> node_end n = base (hd bs) then n\<lparr>nsize := nsize n + nsize (hd bs)\<rparr> # tl bs else n # bs)"

lemma join_prev_ok:
  assumes "free_ok lo as" "node_ok n" "last_end lo as \<le> rbase n" "lo < rbase n" "join_prev as n = (as', n')"
  shows "free_ok lo as' \<and> last_end lo as' < rbase n' \<and> node_ok n' \<and> rend n' = rend n
    \<and> free_set as' \<union> region n' = free_set as \<union> region n"
proof (cases "as \<noteq> [] \<and> node_end (last as) = base n")
  case True
  then obtain bs a where as: "as = bs @ [a]" by (metis append_butlast_last_id)
  have a: "node_ok a" "last_end lo bs < rbase a" "free_ok lo bs"
    using assms(1) by (auto simp: as free_ok_append)
  have "rend a = rbase n" using True node_ok_end[OF a(1)] by (simp add: as rbase_def)
  from node_merge[OF a(1) assms(2) this] a True assms(5) show ?thesis
    by (auto simp: join_prev_def as rbase_def)
next
  case nomerge: False
  have "last_end lo as < rbase n"
  proof (cases "as = []")
    case False
    then have "node_ok (last as)" using free_ok_nodes[OF assms(1)] by simp
    then have "rend (last as) \<noteq> rbase n" using False nomerge node_ok_end[of "last as"] by (metis rbase_def unat_inject)
    then show ?thesis using assms(3) False by (simp add: last_end_def)
  qed (use assms(4) in simp)
  with nomerge assms show ?thesis by (auto simp: join_prev_def)
qed

lemma join_next_ok:
  assumes "node_ok n" "free_ok (rend n - 1) bs" "lo < rbase n"
  shows "free_ok lo (join_next n bs) \<and> free_set (join_next n bs) = region n \<union> free_set bs"
proof (cases "bs \<noteq> [] \<and> node_end n = base (hd bs)")
  case True
  then obtain c cs where bs: "bs = c # cs" by (cases bs) auto
  have c: "node_ok c" "free_ok (rend c) cs" using assms(2) by (auto simp: bs)
  have "rend n = rbase c" using True node_ok_end[OF assms(1)] by (simp add: bs rbase_def)
  from node_merge[OF assms(1) c(1) this] c True assms(3) show ?thesis
    by (auto simp: join_next_def bs rbase_def)
next
  case False
  have "free_ok (rend n) bs"
  proof (cases bs)
    case (Cons c cs)
    then have "rend n \<noteq> rbase c" using False node_ok_end[OF assms(1)] by (metis list.discI list.sel(1) rbase_def unat_inject)
    then show ?thesis using assms(2) Cons by auto
  qed simp
  with False assms show ?thesis by (auto simp: join_next_def)
qed

lemma insert_node_eval:
  "insert_node node (po, guard_node # ns @ [guard_node]) =
    (let as = takeWhile (below (base node)) ns; bs = dropWhile (below (base node)) ns;
         r = bs @ [guard_node]
     in if base (hd r) \<noteq> 0 \<and> node_end node > base (hd r) then Inr (1, po, guard_node # ns @ [guard_node])
        else
          let (l1, n1, po1) =
                (if node_end (last (guard_node # as)) = base node
                 then (butlast (guard_node # as),
                       (last (guard_node # as))\<lparr>nsize := nsize (last (guard_node # as)) + nsize node\<rparr>, free_node po)
                 else (guard_node # as, node, po))
          in if node_end n1 = base (hd r)
             then if tl r = [] then Inl Undefined
                  else Inr (0, free_node po1, l1 @ n1\<lparr>nsize := nsize n1 + nsize (hd r)\<rparr> # tl r)
             else Inr (0, po1, l1 @ n1 # r))"
  unfolding insert_node_def insert_split Let_def split_conv ..

lemma insert_node_join:
  assumes "node_ok node" "as = takeWhile (below (base node)) ns" "bs = dropWhile (below (base node)) ns"
    "join_prev as node = (as', n')" "bs \<noteq> [] \<Longrightarrow> rend node \<le> rbase (hd bs)" "node_ok n'"
  shows "\<exists>po'. insert_node node (po, guard_node # ns @ [guard_node])
    = Inr (0, po', guard_node # (as' @ join_next n' bs) @ [guard_node])"
proof -
  have nz: "base node \<noteq> 0" using assms(1) by (simp add: node_ok_def)
  have ne: "\<not> (base (hd (bs @ [guard_node])) \<noteq> 0 \<and> node_end node > base (hd (bs @ [guard_node])))"
    using assms(5) node_ok_end[OF assms(1)] by (cases bs) (auto simp: word_less_nat_alt rbase_def)
  have n0: "node_end n' \<noteq> 0"
    using node_ok_end[OF assms(6)] node_ok_less[OF assms(6)] by (metis less_zeroE unat_0)
  define b where "b \<longleftrightarrow> as \<noteq> [] \<and> node_end (last as) = base node"
  have prev: "node_end (last (guard_node # as)) = base node \<longleftrightarrow> b" using nz by (auto simp: b_def)
  have l1: "(if b then (butlast (guard_node # as),
          (last (guard_node # as))\<lparr>nsize := nsize (last (guard_node # as)) + nsize node\<rparr>, free_node po)
        else (guard_node # as, node, po)) = (guard_node # as', n', if b then free_node po else po)"
    using assms(4) by (auto simp: join_prev_def b_def split: if_splits)
  show ?thesis
    unfolding insert_node_eval Let_def assms(2,3)[symmetric] prev l1 if_not_P[OF ne] split_conv
    using n0 by (cases bs) (auto simp: join_next_def)
qed

lemma insert_node_ok:
  assumes "mm_wf xs" "node_ok node" "region node \<inter> free_set xs = {}"
  shows "\<exists>po' xs'. insert_node node (po, xs) = Inr (0, po', xs') \<and> mm_wf xs'
    \<and> free_set xs' = free_set xs \<union> region node"
proof -
  obtain ns where xs: "xs = guard_node # ns @ [guard_node]" and ok: "free_ok 0 ns"
    using assms(1) by (rule mm_wfE)
  define as bs where "as = takeWhile (below (base node)) ns" and "bs = dropWhile (below (base node)) ns"
  have ns: "ns = as @ bs" by (simp add: as_def bs_def)
  have okab: "free_ok 0 as" "free_ok (last_end 0 as) bs" using ok by (simp_all add: ns free_ok_append)
  have dis: "x \<in> region node \<Longrightarrow> n \<in> set ns \<Longrightarrow> x \<notin> region n" for x n
    using assms(3) by (auto simp: xs free_set_def)
  have nodes: "node_ok n" if "n \<in> set ns" for n using free_ok_nodes[OF ok that] by simp
  have A: "rend a \<le> rbase node" if "a \<in> set as" for a
  proof -
    have "rbase a < rbase node"
      using that set_takeWhileD[of a "below (base node)" ns] by (simp add: as_def below_def rbase_def word_less_nat_alt)
    moreover have "rbase node \<in> region node" using node_ok_less[OF assms(2)] by (simp add: region_def)
    ultimately show ?thesis using dis[of "rbase node" a] that ns by (auto simp: region_def)
  qed
  have B: "rend node \<le> rbase (hd bs)" if "bs \<noteq> []"
  proof -
    have c: "hd bs \<in> set ns" "node_ok (hd bs)" using that nodes[of "hd bs"] by (simp_all add: ns)
    have "\<not> below (base node) (hd bs)" using that hd_dropWhile[of "below (base node)" ns] by (simp add: bs_def)
    then have "rbase node \<le> rbase (hd bs)"
      using c(2) by (auto simp: below_def rbase_def word_le_nat_alt node_ok_def word_less_nat_alt)
    moreover have "rbase (hd bs) \<in> region (hd bs)" using node_ok_less[OF c(2)] by (simp add: region_def)
    ultimately show ?thesis using dis[of "rbase (hd bs)" "hd bs"] c(1) by (intro leI notI) (auto simp: region_def)
  qed
  obtain as' n' where j: "join_prev as node = (as', n')" by (cases "join_prev as node")
  have z: "0 < rbase node" using assms(2) by (simp add: node_ok_def rbase_def unat_gt_0)
  have "last_end 0 as \<le> rbase node" using A z by (auto simp: last_end_def)
  note J = join_prev_ok[OF okab(1) assms(2) this z j]
  have "free_ok (rend node - 1) bs"
    using okab(2) B node_ok_less[OF assms(2)] by (cases bs) auto
  then have K: "free_ok (last_end 0 as') (join_next n' bs)" "free_set (join_next n' bs) = region n' \<union> free_set bs"
    using join_next_ok[of n' bs "last_end 0 as'"] J by auto
  obtain po' where "insert_node node (po, xs) = Inr (0, po', guard_node # (as' @ join_next n' bs) @ [guard_node])"
    using insert_node_join[OF assms(2) as_def bs_def j B] J unfolding xs by blast
  moreover have "mm_wf (guard_node # (as' @ join_next n' bs) @ [guard_node])"
    unfolding mm_wf_list using J K(1) by (simp add: free_ok_append)
  moreover have "free_set (guard_node # (as' @ join_next n' bs) @ [guard_node]) = free_set xs \<union> region node"
    using J K(2) by (auto simp: xs ns)
  ultimately show ?thesis by blast
qed

subsection \<open>Allocation\<close>

lemma round_up_page:
  "r < 4096 \<Longrightarrow> (4096 * q + r + 4095) div 4096 = (if r = 0 then q else q + (1 :: nat))"
  by (auto intro!: div_nat_eqI)

lemma next_page: "r + 4096 * q = n \<Longrightarrow> r < 4096 \<Longrightarrow> n + (4096 - r) = (q + 1) * (4096 :: nat)"
  by simp

lemma page_round_unat:
  assumes "unat sz \<le> 2 ^ 64 - 4096"
  shows "unat (page_round sz) = (unat sz + 4095) div 4096 * 4096"
proof -
  let ?r = "unat sz mod 4096" and ?q = "unat sz div 4096"
  have d: "?r + 4096 * ?q = unat sz" by (rule mod_mult_div_eq)
  have m: "unat (sz mod PAGE_SIZE_4K) = ?r" by (simp add: PAGE_SIZE_4K_def unat_mod)
  show ?thesis
  proof (cases "?r = 0")
    case True
    then have "sz mod PAGE_SIZE_4K = 0" using m by (metis unat_0 unat_inject)
    moreover have "(unat sz + 4095) div 4096 = ?q"
      using round_up_page[of ?r ?q] True d by (metis add.commute zero_less_numeral)
    ultimately show ?thesis using True d by (simp add: page_round_def Let_def mult.commute)
  next
    case False
    have rl: "?r < 4096" by simp
    have "sz mod PAGE_SIZE_4K \<noteq> 0" using False m by (metis unat_0)
    moreover have "unat (PAGE_SIZE_4K - sz mod PAGE_SIZE_4K) = 4096 - ?r"
      using m rl by (subst unat_sub) (simp_all add: word_le_nat_alt PAGE_SIZE_4K_def)
    moreover have "unat sz + (4096 - ?r) < 2 ^ 64" using assms False by linarith
    ultimately have p: "unat (page_round sz) = unat sz + (4096 - ?r)"
      by (simp add: page_round_def Let_def unat_word_ariths(1))
    have q: "(unat sz + 4095) div 4096 = ?q + 1"
      using round_up_page[of ?r ?q] False rl by simp
    show ?thesis unfolding p q by (rule next_page[OF d rl])
  qed
qed

lemma alloc_search:
  assumes "\<forall>n \<in> set ns. base n \<noteq> 0"
  shows "(\<exists>as n bs. ns = as @ n # bs \<and> fits limit sz n \<and>
       dropWhile (\<lambda>n. base n \<noteq> 0 \<and> \<not> fits limit sz n) (rev (guard_node # ns)) = n # rev (guard_node # as))
    \<or> (\<forall>n \<in> set ns. \<not> fits limit sz n) \<and>
       dropWhile (\<lambda>n. base n \<noteq> 0 \<and> \<not> fits limit sz n) (rev (guard_node # ns)) = [guard_node]"
  using assms
proof (induction ns rule: rev_induct)
  case (snoc m ns)
  show ?case
  proof (cases "fits limit sz m")
    case True
    then show ?thesis by (intro disjI1 exI[of _ ns] exI[of _ m] exI[of _ "[]"]) simp
  next
    case False
    then have d: "dropWhile (\<lambda>n. base n \<noteq> 0 \<and> \<not> fits limit sz n) (rev (guard_node # ns @ [m]))
        = dropWhile (\<lambda>n. base n \<noteq> 0 \<and> \<not> fits limit sz n) (rev (guard_node # ns))"
      using snoc.prems by simp
    consider as n bs where "ns = as @ n # bs" "fits limit sz n"
        "dropWhile (\<lambda>n. base n \<noteq> 0 \<and> \<not> fits limit sz n) (rev (guard_node # ns)) = n # rev (guard_node # as)"
      | "\<forall>n \<in> set ns. \<not> fits limit sz n"
        "dropWhile (\<lambda>n. base n \<noteq> 0 \<and> \<not> fits limit sz n) (rev (guard_node # ns)) = [guard_node]"
      using snoc.IH snoc.prems by auto
    then show ?thesis
    proof cases
      case (1 as n bs)
      show ?thesis unfolding d 1(3)
        by (intro disjI1 exI[of _ as] exI[of _ n] exI[of _ "bs @ [m]"]) (simp add: 1)
    next
      case 2
      show ?thesis unfolding d using 2 False by simp
    qed
  qed
qed simp

text \<open>Cutting a hole of \<open>a\<close> bytes out of a region, \<open>k\<close> bytes after its start.\<close>

definition carve :: "mm_list_node_t \<Rightarrow> u64 \<Rightarrow> u64 \<Rightarrow> mm_list_node_t list" where
  "carve n k a = (if k \<noteq> 0 then [\<lparr>base = base n, nsize = k\<rparr>] else [])
     @ (if nsize n - k - a \<noteq> 0 then [\<lparr>base = base n + k + a, nsize = nsize n - k - a\<rparr>] else [])"

lemma carve_ok:
  assumes n: "node_ok n" and le: "unat k + unat a \<le> unat (nsize n)" and k: "unat k mod 4096 = 0"
    and a: "unat a mod 4096 = 0" "a \<noteq> 0" and lo: "lo < rbase n" and bs: "free_ok (rend n) bs"
  shows "free_ok lo (carve n k a @ bs)"
    "free_set (carve n k a) = region n - {unat (base n + k) ..< unat (base n + k) + unat a}"
    "unat (base n + k) = rbase n + unat k"
proof -
  let ?s = "nsize n - k - a"
  have kn: "k \<le> nsize n" "a \<le> nsize n - k" using le by (simp_all add: word_le_nat_alt unat_sub)
  have s: "unat ?s = unat (nsize n) - unat k - unat a" using kn by (simp add: unat_sub)
  show u: "unat (base n + k) = rbase n + unat k"
    using n le by (simp add: node_ok_def rend_def rbase_def unat_word_ariths(1))
  have u2: "unat (base n + k + a) = rbase n + unat k + unat a"
    using n le u by (simp add: node_ok_def rend_def rbase_def unat_word_ariths(1))
  have apos: "0 < unat a" using a by (simp add: unat_gt_0)
  have nn: "node_ok \<lparr>base = base n + k + a, nsize = ?s\<rparr>" "rend \<lparr>base = base n + k + a, nsize = ?s\<rparr> = rend n" if "?s \<noteq> 0"
  proof -
    have "(rbase n + unat k + unat a) mod 4096 = 0" "unat ?s mod 4096 = 0"
      using n k a s le by (simp_all add: node_ok_def mod_0_imp_dvd)
    then show "node_ok \<lparr>base = base n + k + a, nsize = ?s\<rparr>" "rend \<lparr>base = base n + k + a, nsize = ?s\<rparr> = rend n"
      using that n u2 s le apos by (auto simp: node_ok_def rend_def rbase_def)
  qed
  have e: "node_ok \<lparr>base = base n, nsize = k\<rparr>" if "k \<noteq> 0"
    using that n k le by (auto simp: node_ok_def rend_def rbase_def)
  have emp: "rend n = rbase n + unat k + unat a" if "?s = 0"
    using that s le by (simp add: rend_def rbase_def) 
  have bs': "free_ok x bs" if "x \<le> rend n" for x using free_ok_mono[OF bs that] .
  have "free_ok (unat (base n) + unat k + unat a + unat ?s) bs" using bs s le by (simp add: rend_def)
  then show "free_ok lo (carve n k a @ bs)"
    using e nn lo bs bs'[of "rbase n + unat k"] bs'[of lo] apos u2 le node_ok_less[OF n]
    by (auto simp: carve_def rend_def rbase_def)
  show "free_set (carve n k a) = region n - {unat (base n + k) ..< unat (base n + k) + unat a}"
    using nn(2) emp u u2 le by (auto simp: carve_def region_def rend_def rbase_def)
qed

lemma align_adj:
  assumes "align \<noteq> 0" "unat align mod 4096 = 0" "unat b mod 4096 = 0"
  defines "adj \<equiv> align - b mod align"
  shows "adj \<noteq> 0" "unat adj \<le> unat align" "unat adj mod 4096 = 0" "(unat b + unat adj) mod unat align = 0"
proof -
  let ?m = "unat b mod unat align"
  have ap: "0 < unat align" using assms(1) by (simp add: unat_gt_0)
  have lt: "?m < unat align" using ap by simp
  have u: "unat adj = unat align - ?m"
    using lt unfolding adj_def by (subst unat_sub) (simp_all add: word_le_nat_alt unat_mod)
  then show "adj \<noteq> 0" "unat adj \<le> unat align" using lt by (auto simp: unat_gt_0[symmetric])
  have "4096 dvd ?m" using assms(2,3) by (simp add: dvd_mod mod_0_imp_dvd)
  then show "unat adj mod 4096 = 0" using u assms(2) by (simp add: mod_0_imp_dvd)
  have "(unat b + unat adj) = unat b div unat align * unat align + unat align"
    using u lt div_mult_mod_eq[of "unat b" "unat align"] by linarith
  then show "(unat b + unat adj) mod unat align = 0" by simp
qed

text \<open>The evaluation of \<^verbatim>\<open>mm_alloc_max\<close> on a well-formed list.\<close>

lemma mm_alloc_max_eval:
  assumes ok: "free_ok 0 ns" and sz: "sz \<noteq> 0" and al: "align mod PAGE_SIZE_4K = 0"
  shows "(\<exists>as n bs k po'. ns = as @ n # bs \<and> fits limit (page_round sz + align) n
        \<and> k = (if align \<noteq> 0 then align - base n mod align else 0)
        \<and> mm_alloc_max sz align limit (po, guard_node # ns @ [guard_node])
            = (base n + k, po', guard_node # (as @ carve n k (page_round sz) @ bs) @ [guard_node]))
    \<or> (\<forall>n \<in> set ns. \<not> fits limit (page_round sz + align) n) \<and> (\<exists>po'.
        mm_alloc_max sz align limit (po, guard_node # ns @ [guard_node])
            = (0, po', guard_node # ns @ [guard_node]))"
proof -
  let ?A = "page_round sz"
  have nz: "\<forall>n \<in> set ns. base n \<noteq> 0" using free_ok_nodes[OF ok] by (auto simp: node_ok_def)
  have bl: "butlast (guard_node # ns @ [guard_node]) = guard_node # ns" by (simp add: butlast_append)
  consider as n bs where "ns = as @ n # bs" "fits limit (?A + align) n"
      "dropWhile (\<lambda>n. base n \<noteq> 0 \<and> \<not> fits limit (?A + align) n) (rev (guard_node # ns)) = n # rev (guard_node # as)"
    | "\<forall>n \<in> set ns. \<not> fits limit (?A + align) n"
      "dropWhile (\<lambda>n. base n \<noteq> 0 \<and> \<not> fits limit (?A + align) n) (rev (guard_node # ns)) = [guard_node]"
    using alloc_search[OF nz, of limit "?A + align"] by blast
  then show ?thesis
  proof cases
    case (1 as n bs)
    have n: "base n \<noteq> 0" using nz 1 by simp
    have r: "drop (length (n # rev (guard_node # as))) (guard_node # ns @ [guard_node]) = bs @ [guard_node]"
      by (simp add: 1)
    define k where "k = (if align \<noteq> 0 then align - base n mod align else 0)"
    have "\<exists>po'. mm_alloc_max sz align limit (po, guard_node # ns @ [guard_node])
        = (base n + k, po', guard_node # (as @ carve n k ?A @ bs) @ [guard_node])"
      using sz al n
      unfolding mm_alloc_max_def Let_def split_conv bl 1(3) list.sel r k_def[symmetric]
      by (auto simp: carve_def)
    with 1 k_def show ?thesis by blast
  next
    case 2
    have "\<exists>po'. mm_alloc_max sz align limit (po, guard_node # ns @ [guard_node])
        = (0, po', guard_node # ns @ [guard_node])"
      using sz al unfolding mm_alloc_max_def Let_def split_conv bl 2(2) by simp
    with 2 show ?thesis by blast
  qed
qed

definition page_up :: "nat \<Rightarrow> nat" where
  "page_up n = (n + 4095) div 4096 * 4096"

lemma mm_alloc_max_ok:
  assumes "mm_wf xs" "sz \<noteq> 0" "align mod PAGE_SIZE_4K = 0" "page_up (unat sz) + unat align < 2 ^ 64"
    "mm_alloc_max sz align limit (po, xs) = (ret, po', xs')"
  shows "(ret = 0 \<longrightarrow> xs' = xs) \<and>
    (ret \<noteq> 0 \<longrightarrow> mm_wf xs' \<and> unat ret mod 4096 = 0 \<and> (align \<noteq> 0 \<longrightarrow> unat ret mod unat align = 0)
      \<and> unat ret + page_up (unat sz) < unat limit
      \<and> {unat ret ..< unat ret + page_up (unat sz)} \<subseteq> free_set xs
      \<and> free_set xs' = free_set xs - {unat ret ..< unat ret + page_up (unat sz)})"
proof -
  obtain ns where xs: "xs = guard_node # ns @ [guard_node]" and ok: "free_ok 0 ns"
    using assms(1) by (rule mm_wfE)
  have "unat sz \<le> page_up (unat sz)" unfolding page_up_def
    using div_mult_mod_eq[of "unat sz + 4095" 4096] mod_less_divisor[of 4096 "unat sz + 4095"] by linarith
  moreover have "page_up (unat sz) mod 4096 = 0" by (simp add: page_up_def)
  then have "page_up (unat sz) \<le> 2 ^ 64 - 4096" using assms(4) by (auto simp: mod_eq_0_iff_dvd)
  ultimately have A: "unat (page_round sz) = page_up (unat sz)"
    unfolding page_up_def by (intro page_round_unat) simp
  have apos: "page_round sz \<noteq> 0" "0 < page_up (unat sz)"
    using \<open>unat sz \<le> page_up (unat sz)\<close> assms(2) A by (auto simp: unat_gt_0[symmetric])
  have Aal: "unat (page_round sz + align) = page_up (unat sz) + unat align"
    using A assms(4) by (simp add: unat_word_ariths(1))
  have am: "unat align mod 4096 = 0"
    using arg_cong[OF assms(3), of unat] by (simp add: PAGE_SIZE_4K_def unat_mod)
  consider as n bs k where "ns = as @ n # bs" "fits limit (page_round sz + align) n"
      "k = (if align \<noteq> 0 then align - base n mod align else 0)" "ret = base n + k"
      "xs' = guard_node # (as @ carve n k (page_round sz) @ bs) @ [guard_node]"
    | "ret = 0" "xs' = xs"
    using mm_alloc_max_eval[OF ok assms(2,3), of limit po] assms(5) by (auto simp: xs)
  then show ?thesis
  proof cases
    case (1 as n bs k)
    have n: "node_ok n" "last_end 0 as < rbase n" "free_ok (rend n) bs" "free_ok 0 as"
      using ok by (auto simp: 1 free_ok_append)
    have nb: "unat (base n) mod 4096 = 0" using n(1) by (simp add: node_ok_def rbase_def)
    have k: "unat k \<le> unat align" "unat k mod 4096 = 0" "align \<noteq> 0 \<longrightarrow> (unat (base n) + unat k) mod unat align = 0"
      using align_adj[OF _ am nb] by (auto simp: 1(3))
    have le: "unat k + unat (page_round sz) \<le> unat (nsize n)"
      using 1(2) k(1) A Aal by (simp add: fits_def word_le_nat_alt)
    note C = carve_ok[OF n(1) le k(2) _ apos(1) n(2,3)]
    have c: "free_ok (last_end 0 as) (carve n k (page_round sz) @ bs)"
      "free_set (carve n k (page_round sz)) = region n - {unat ret ..< unat ret + page_up (unat sz)}"
      "unat ret = rbase n + unat k"
      using C A by (simp_all add: 1(4) page_up_def)
    have sub: "{unat ret ..< unat ret + page_up (unat sz)} \<subseteq> region n"
      using c(3) le A by (auto simp: region_def rend_def rbase_def)
    have "rend n < unat limit" using 1(2) node_ok_end[OF n(1)] by (simp add: fits_def word_less_nat_alt)
    moreover have "unat ret + page_up (unat sz) \<le> rend n" using c(3) le A by (simp add: rend_def rbase_def)
    moreover have "mm_wf xs'" unfolding 1(5) mm_wf_list using n c(1) by (simp add: free_ok_append)
    moreover have "free_set as \<inter> region n = {}" "free_set bs \<inter> region n = {}"
      using free_set_bounds[OF n(4)] free_set_bounds[OF n(3)] n(2) by (fastforce simp: region_def)+
    then have "free_set xs' = free_set xs - {unat ret ..< unat ret + page_up (unat sz)}"
      using c(2) sub by (auto simp: xs 1(1,5))
    moreover have "{unat ret ..< unat ret + page_up (unat sz)} \<subseteq> free_set xs"
      using sub by (auto simp: xs 1(1))
    moreover have "unat ret mod 4096 = 0" using c(3) nb k(2) by (simp add: rbase_def mod_0_imp_dvd)
    moreover have "ret \<noteq> 0" using c(3) n(2) by auto
    ultimately show ?thesis using k(3) c(3) by (simp add: rbase_def)
  next
    case 2
    then show ?thesis by simp
  qed
qed

subsection \<open>Release\<close>

lemma page_up_ge: "n \<le> page_up n" "page_up n mod 4096 = 0"
  unfolding page_up_def
  using div_mult_mod_eq[of "n + 4095" 4096] mod_less_divisor[of 4096 "n + 4095"] by linarith simp

lemma page_round_page_up:
  assumes "page_up (unat sz) < 2 ^ 64"
  shows "unat (page_round sz) = page_up (unat sz)"
proof -
  have "page_up (unat sz) \<le> 2 ^ 64 - 4096"
    using assms page_up_ge(2)[of "unat sz"] by (auto simp: mod_eq_0_iff_dvd)
  with page_up_ge(1)[of "unat sz"] show ?thesis
    unfolding page_up_def by (intro page_round_unat) simp
qed

lemma mm_free_ok:
  assumes "mm_wf xs" "b \<noteq> 0" "unat b mod 4096 = 0" "sz \<noteq> 0" "unat b + page_up (unat sz) < 2 ^ 64"
    "{unat b ..< unat b + page_up (unat sz)} \<inter> free_set xs = {}"
  shows "\<exists>po' xs'. mm_free b sz (po, xs) = Inr (po', xs') \<and> mm_wf xs'
    \<and> free_set xs' = free_set xs \<union> {unat b ..< unat b + page_up (unat sz)}"
proof -
  let ?n = "\<lparr>base = b, nsize = page_round sz\<rparr>"
  have u: "unat (page_round sz) = page_up (unat sz)" using assms(5) by (intro page_round_page_up) simp
  moreover have "0 < page_up (unat sz)" using page_up_ge(1)[of "unat sz"] assms(4) by (simp add: unat_gt_0[symmetric])
  ultimately have "page_round sz \<noteq> 0" by auto
  then have n: "node_ok ?n" using u assms page_up_ge(2) by (simp add: node_ok_def rbase_def rend_def)
  have r: "region ?n = {unat b ..< unat b + page_up (unat sz)}" using u by (simp add: region_def rbase_def rend_def)
  show ?thesis
    using insert_node_ok[OF assms(1) n, of "alloc_node po"] assms(6) r by (auto simp: mm_free_def)
qed

subsection \<open>The contract of a region allocator\<close>

text \<open>What the heap and the page tables rely on.  A successful allocation hands out a region that was
  free and no longer is; a release of a region that is not free makes it free again.  Two
  regions in use never overlap, and giving a region back restores the free memory.\<close>

locale region_allocator =
  fixes inv :: "'s \<Rightarrow> bool" and free :: "'s \<Rightarrow> nat set" and rounded :: "u64 \<Rightarrow> nat"
    and request :: "u64 \<Rightarrow> bool"
    and take_region :: "u64 \<Rightarrow> 's \<Rightarrow> u64 \<times> 's" and put_region :: "u64 \<Rightarrow> u64 \<Rightarrow> 's \<Rightarrow> 's outcome"
  assumes take_ok: "inv s \<Longrightarrow> request sz \<Longrightarrow> take_region sz s = (r, s') \<Longrightarrow>
      (r = 0 \<longrightarrow> inv s' \<and> free s' = free s) \<and>
      (r \<noteq> 0 \<longrightarrow> inv s' \<and> unat r mod 4096 = 0 \<and> unat r + rounded sz < 2 ^ 64
        \<and> {unat r ..< unat r + rounded sz} \<subseteq> free s \<and> free s' = free s - {unat r ..< unat r + rounded sz})"
    and put_ok: "inv s \<Longrightarrow> request sz \<Longrightarrow> r \<noteq> 0 \<Longrightarrow> unat r mod 4096 = 0 \<Longrightarrow> unat r + rounded sz < 2 ^ 64 \<Longrightarrow>
      {unat r ..< unat r + rounded sz} \<inter> free s = {} \<Longrightarrow>
      \<exists>s'. put_region r sz s = Inr s' \<and> inv s' \<and> free s' = free s \<union> {unat r ..< unat r + rounded sz}"
begin

lemma take_disjoint:
  assumes "inv s" "request n" "request m" "take_region n s = (r, s1)" "r \<noteq> 0" "take_region m s1 = (q, s2)" "q \<noteq> 0"
  shows "{unat r ..< unat r + rounded n} \<inter> {unat q ..< unat q + rounded m} = {}"
  using take_ok[OF assms(1,2,4)] take_ok[OF _ assms(3,6)] assms(5,7) by blast

lemma take_put:
  assumes "inv s" "request n" "take_region n s = (r, s1)" "r \<noteq> 0"
  shows "\<exists>s2. put_region r n s1 = Inr s2 \<and> inv s2 \<and> free s2 = free s"
proof -
  note t = take_ok[OF assms(1-3)]
  have "{unat r ..< unat r + rounded n} \<inter> free s1 = {}" using t assms(4) by blast
  then obtain s2 where "put_region r n s1 = Inr s2" "inv s2" "free s2 = free s1 \<union> {unat r ..< unat r + rounded n}"
    using put_ok[of s1 n r] assms(2,4) t by (elim conjE) auto
  then show ?thesis using t assms(4) by auto
qed

lemma take_in_use:
  assumes "inv s" "request n" "take_region n s = (r, s1)" "x \<notin> free s" "r \<noteq> 0"
  shows "x \<notin> {unat r ..< unat r + rounded n}" "x \<notin> free s1"
  using take_ok[OF assms(1-3)] assms(4,5) by auto

end

definition mm_request :: "u64 \<Rightarrow> bool" where
  "mm_request sz \<longleftrightarrow> sz \<noteq> 0 \<and> page_up (unat sz) < 2 ^ 64"

lemma mm_alloc_p_ok:
  assumes "mm_wf (p_list s)" "mm_request sz" "mm_alloc_p sz s = (r, s')"
  shows "(r = 0 \<longrightarrow> mm_wf (p_list s') \<and> free_set (p_list s') = free_set (p_list s)) \<and>
    (r \<noteq> 0 \<longrightarrow> mm_wf (p_list s') \<and> unat r mod 4096 = 0 \<and> unat r + page_up (unat sz) < 2 ^ 64
      \<and> {unat r ..< unat r + page_up (unat sz)} \<subseteq> free_set (p_list s)
      \<and> free_set (p_list s') = free_set (p_list s) - {unat r ..< unat r + page_up (unat sz)})"
proof -
  obtain po xs where m: "mm_alloc_max sz 0 (NOT 0) (pool s, p_list s) = (r, po, xs)" "s' = s\<lparr>pool := po, p_list := xs\<rparr>"
    using assms(3) by (auto simp: mm_alloc_p_def alloc_from_p_def split: prod.splits)
  have "unat (NOT 0 :: u64) < 2 ^ LENGTH(64)" by (rule unsigned_less)
  then have "unat (NOT 0 :: u64) < 2 ^ 64" by simp
  then show ?thesis
    using mm_alloc_max_ok[OF assms(1) _ _ _ m(1)] assms(1,2) m(2) by (auto simp: mm_request_def)
qed

lemma mm_free_p_ok:
  assumes "mm_wf (p_list s)" "mm_request sz" "r \<noteq> 0" "unat r mod 4096 = 0" "unat r + page_up (unat sz) < 2 ^ 64"
    "{unat r ..< unat r + page_up (unat sz)} \<inter> free_set (p_list s) = {}"
  shows "\<exists>s'. mm_free_p r sz s = Inr s' \<and> mm_wf (p_list s')
    \<and> free_set (p_list s') = free_set (p_list s) \<union> {unat r ..< unat r + page_up (unat sz)}"
  using mm_free_ok[OF assms(1,3,4) _ assms(5,6), of "pool s"] assms(2)
  by (auto simp: mm_free_p_def free_to_p_def mm_request_def)

interpretation phys: region_allocator "\<lambda>s. mm_wf (p_list s)" "\<lambda>s. free_set (p_list s)"
  "\<lambda>sz. page_up (unat sz)" mm_request mm_alloc_p mm_free_p
  by unfold_locales (fact mm_alloc_p_ok, fact mm_free_p_ok)

subsection \<open>The memory map\<close>

lemma skip_kernel_ok:
  "unat b + unat sz < 2 ^ 64 \<Longrightarrow> skip_kernel kl b sz = (b', sz') \<Longrightarrow>
   unat b \<le> unat b' \<and> unat b' + unat sz' = unat b + unat sz"
proof (induction kl b sz rule: skip_kernel.induct)
  case (1 kl b sz)
  show ?case
  proof (cases "PAGE_SIZE_4K < sz \<and> b < kl")
    case True
    then have s: "unat (sz - PAGE_SIZE_4K) = unat sz - 4096" "4096 < unat sz"
      by (simp_all add: unat_sub PAGE_SIZE_4K_def word_less_nat_alt word_le_nat_alt)
    then have b: "unat (b + PAGE_SIZE_4K) = unat b + 4096"
      using 1(2) by (simp add: PAGE_SIZE_4K_def unat_word_ariths(1))
    have "skip_kernel kl (b + PAGE_SIZE_4K) (sz - PAGE_SIZE_4K) = (b', sz')"
      using 1(3) True by (simp add: skip_kernel.simps[of kl b sz])
    with 1(1)[OF True] 1(2) s b show ?thesis by simp
  next
    case False
    with 1(3) show ?thesis by (simp add: skip_kernel.simps[of kl b sz] split: if_splits)
  qed
qed

definition seg_range :: "mem_segment_t \<Rightarrow> nat set" where
  "seg_range seg = (if seg_type seg = MEM_AVL
     then {unat (seg_base seg) ..< unat (seg_base seg) + unat (seg_size seg)} else {})"

lemma page_align_up:
  assumes "unat b mod 4096 \<noteq> 0" "unat b + 4096 < 2 ^ 64"
  defines "k \<equiv> PAGE_SIZE_4K - b mod PAGE_SIZE_4K"
  shows "unat k < 4096" "unat (b + k) = unat b + unat k" "unat (b + k) mod 4096 = 0"
proof -
  have m: "unat (b mod PAGE_SIZE_4K) = unat b mod 4096" by (simp add: PAGE_SIZE_4K_def unat_mod)
  have k: "unat k = 4096 - unat b mod 4096" unfolding k_def
    using m by (subst unat_sub) (simp_all add: word_le_nat_alt PAGE_SIZE_4K_def less_imp_le)
  then show "unat k < 4096" using assms(1) by simp
  then show u: "unat (b + k) = unat b + unat k" using assms(2) by (simp add: unat_word_ariths(1))
  have "unat b + unat k = (unat b div 4096 + 1) * 4096"
    unfolding k by (rule next_page[OF mod_mult_div_eq]) simp
  then show "unat (b + k) mod 4096 = 0" unfolding u by simp
qed

lemma trim_segment_ok:
  assumes "trim_segment kl seg = Some n" "kl \<noteq> 0" "unat (seg_base seg) + unat (seg_size seg) < 2 ^ 64"
  shows "node_ok n \<and> region n \<subseteq> seg_range seg \<and> unat kl \<le> rbase n"
proof -
  obtain b sz where sk: "skip_kernel kl (seg_base seg) (seg_size seg) = (b, sz)" by (meson surj_pair)
  note S = skip_kernel_ok[OF assms(3) sk]
  have avl: "seg_type seg = MEM_AVL" "\<not> sz < PAGE_SIZE_4K" "\<not> b < kl"
    using assms(1) by (auto simp: trim_segment_def sk Let_def split: if_splits)
  define k where "k = (if b mod PAGE_SIZE_4K \<noteq> 0 then PAGE_SIZE_4K - b mod PAGE_SIZE_4K else 0)"
  define sz1 where "sz1 = sz - k"
  have n: "\<not> sz1 < PAGE_SIZE_4K" "n = \<lparr>base = b + k, nsize = sz1 - sz1 mod PAGE_SIZE_4K\<rparr>"
    "\<not> sz1 - sz1 mod PAGE_SIZE_4K < PAGE_SIZE_4K"
    using assms(1) avl by (auto simp: trim_segment_def sk Let_def k_def sz1_def split: if_splits)
  have szl: "4096 \<le> unat sz" using avl(2) by (simp add: PAGE_SIZE_4K_def word_less_nat_alt)
  have mz: "b mod PAGE_SIZE_4K = 0 \<longleftrightarrow> unat b mod 4096 = 0"
    using unat_inject[of "b mod PAGE_SIZE_4K" 0] by (simp add: PAGE_SIZE_4K_def unat_mod del: unat_inject)
  have k: "unat k < 4096" "unat (b + k) = unat b + unat k" "unat (b + k) mod 4096 = 0"
    using page_align_up[of b] S szl assms(3) mz by (auto simp: k_def)
  have s1: "unat sz1 = unat sz - unat k" using k(1) szl by (simp add: sz1_def unat_sub word_le_nat_alt)
  let ?m = "sz1 mod PAGE_SIZE_4K"
  have m: "unat ?m = unat sz1 mod 4096" by (simp add: PAGE_SIZE_4K_def unat_mod)
  then have s2: "unat (sz1 - ?m) = unat sz1 - unat sz1 mod 4096"
    by (subst unat_sub) (simp_all add: word_le_nat_alt)
  have "(unat sz1 - unat sz1 mod 4096) mod 4096 = 0" by (simp add: minus_mod_eq_mult_div)
  moreover have "rend n \<le> unat (seg_base seg) + unat (seg_size seg)"
    using S k s1 s2 szl by (simp add: n(2) rend_def)
  moreover have "unat (seg_base seg) \<le> rbase n" "unat kl \<le> rbase n" "0 < unat kl"
    using S k avl(3) assms(2) by (auto simp: n(2) rbase_def word_less_nat_alt unat_gt_0)
  moreover have "nsize n \<noteq> 0" using n by (auto simp: PAGE_SIZE_4K_def)
  moreover have "base n \<noteq> 0" using \<open>unat kl \<le> rbase n\<close> \<open>0 < unat kl\<close> by (auto simp: rbase_def)
  ultimately show ?thesis using k(3) s2 assms(3) avl(1)
    by (auto simp: node_ok_def rbase_def n(2) region_def seg_range_def)
qed

fun segs_ok :: "mem_segment_t list \<Rightarrow> bool" where
  "segs_ok [] = True"
| "segs_ok (s # ss) = (unat (seg_base s) + unat (seg_size s) < 2 ^ 64
     \<and> (\<forall>t \<in> set ss. seg_range s \<inter> seg_range t = {}) \<and> segs_ok ss)"

lemma mm_init_segments_ok:
  assumes "segs_ok segs" "mm_wf xs" "\<forall>s \<in> set segs. seg_range s \<inter> free_set xs = {}" "kl \<noteq> 0"
  shows "\<exists>po' xs'. mm_init_segments kl segs i (po, xs) = Inr (po', xs') \<and> mm_wf xs'
    \<and> free_set xs \<subseteq> free_set xs' \<and> free_set xs' \<subseteq> free_set xs \<union> ((\<Union>s \<in> set segs. seg_range s) \<inter> {unat kl ..})"
  using assms
proof (induction segs arbitrary: xs po i)
  case (Cons seg segs)
  have IH: "\<exists>po' xs'. mm_init_segments kl segs j (po, xs) = Inr (po', xs') \<and> mm_wf xs'
      \<and> free_set xs \<subseteq> free_set xs' \<and> free_set xs' \<subseteq> free_set xs \<union> ((\<Union>s \<in> set segs. seg_range s) \<inter> {unat kl ..})"
    for j using Cons.IH[of xs j po] Cons.prems by auto
  consider "seg_size seg = 0" "seg_base seg = 0" | "\<not> (seg_size seg = 0 \<and> seg_base seg = 0)" by blast
  then show ?case
  proof cases
    case 1
    then show ?thesis using Cons.prems by auto
  next
    case nz: 2
    show ?thesis
    proof (cases "trim_segment kl seg")
      case None
      then show ?thesis using IH[of i] nz by (simp del: not_gr_zero) blast
    next
      case (Some n)
      have T: "node_ok n" "region n \<subseteq> seg_range seg" "unat kl \<le> rbase n"
        using trim_segment_ok[OF Some Cons.prems(4)] Cons.prems(1) by auto
      show ?thesis
      proof (cases "i = MAX_INIT_NODES")
        case True
        then show ?thesis using IH[of i] nz Some by (simp del: not_gr_zero) blast
      next
        case False
        have "region n \<inter> free_set xs = {}" using T(2) Cons.prems(3) by auto
        then obtain po1 xs1 where i1: "insert_node n (po, xs) = Inr (0, po1, xs1)" "mm_wf xs1"
          "free_set xs1 = free_set xs \<union> region n"
          using insert_node_ok[OF Cons.prems(2) T(1)] by blast
        have "\<forall>s \<in> set segs. seg_range s \<inter> free_set xs1 = {}"
          using i1(3) T(2) Cons.prems(1,3) by fastforce
        then obtain po' xs' where r: "mm_init_segments kl segs (Suc i) (po1, xs1) = Inr (po', xs')" "mm_wf xs'"
          "free_set xs1 \<subseteq> free_set xs'"
          "free_set xs' \<subseteq> free_set xs1 \<union> ((\<Union>s \<in> set segs. seg_range s) \<inter> {unat kl ..})"
          using Cons.IH[of xs1 "Suc i" po1] Cons.prems(1,4) i1(2) by auto
        have "region n \<subseteq> {unat kl ..}" using T(3) by (auto simp: region_def)
        then show ?thesis using r i1 False nz Some T(2) by auto
      qed
    qed
  qed
qed auto

subsection \<open>Pending releases and the processors' barriers\<close>

text \<open>The interleaving of the collector with the rest of the kernel.  \<open>Idle\<close> and \<open>Waiting\<close> are the two
  places of \<^verbatim>\<open>free_all_pending\<close> between which other processors run.\<close>

datatype collector = Idle | Waiting

datatype mm_event = EvFreeV u64 u64 | EvFreeP u64 u64 | EvAllocP u64 | EvAllocV u64
  | EvRegister u8 | EvDisarm u8 | EvTake | EvRelease

inductive mm_step :: "collector \<times> mm_state \<Rightarrow> mm_event \<Rightarrow> collector \<times> mm_state \<Rightarrow> bool" where
  step_free_v: "mm_step (c, s) (EvFreeV b sz) (c, mm_free_v b sz s)"
| step_free_p: "mm_step (c, s) (EvFreeP b sz) (c, mm_free_p_ident b sz s)"
| step_alloc_p: "mm_step (c, s) (EvAllocP sz) (c, snd (mm_alloc_p sz s))"
| step_alloc_v: "mm_step (c, s) (EvAllocV sz) (c, snd (mm_alloc_v sz s))"
| step_register: "mm_step (c, s) (EvRegister i) (c, mm_register_barrier i s)"
| step_disarm: "mm_step (c, s) (EvDisarm i) (c, mm_barrier_disarm i s)"
| step_take: "pending_free s \<noteq> [] \<Longrightarrow> mm_step (Idle, s) EvTake (Waiting, free_all_pending_take s)"
| step_release: "\<not> barriers_armed s \<Longrightarrow> release_transactions (transaction_list s) s = Inr s' \<Longrightarrow>
    mm_step (Waiting, s) EvRelease (Idle, s')"

inductive mm_run :: "collector \<times> mm_state \<Rightarrow> mm_event list \<Rightarrow> collector \<times> mm_state \<Rightarrow> bool" where
  run_nil: "mm_run st [] st"
| run_snoc: "mm_run st evs st1 \<Longrightarrow> mm_step st1 e st2 \<Longrightarrow> mm_run st (evs @ [e]) st2"

inductive_cases mm_stepE: "mm_step st e st'"
inductive_cases mm_run_snocE: "mm_run st (evs @ [e]) st'"

definition registered :: "mm_state \<Rightarrow> mm_event list \<Rightarrow> u8 set" where
  "registered s evs = disarm_id ` set (disarm_list s) \<union> {i. EvRegister i \<in> set evs}"

lemma disarm_first_ids: "disarm_id ` set (disarm_first i ds) = disarm_id ` set ds"
  by (induction ds) auto

lemma disarm_first_other:
  "d \<in> set ds \<Longrightarrow> disarm_id d \<noteq> i \<Longrightarrow> d \<in> set (disarm_first i ds)"
  by (induction ds) auto

lemma alloc_disarm_list [frame_simps]:
  "disarm_list (snd (mm_alloc_p sz s)) = disarm_list s" "disarm_list (snd (mm_alloc_v sz s)) = disarm_list s"
  by (simp_all add: mm_alloc_p_def mm_alloc_v_def alloc_from_p_def alloc_from_v_def split: prod.splits)

lemma release_disarm_list [frame_simps]:
  "release_transactions ts s = Inr s' \<Longrightarrow> disarm_list s' = disarm_list s"
  by (induction ts arbitrary: s)
    (auto simp: release_transaction_def free_to_p_def free_to_v_def split: sum.splits mm_trans_type.splits)

definition armed :: "mm_state \<Rightarrow> u8 \<Rightarrow> bool" where
  "armed s i \<longleftrightarrow> (\<exists>d \<in> set (disarm_list s). disarm_id d = i \<and> disarm_state d)"

lemma mm_step_registered:
  assumes "mm_step st e st'"
  shows "disarm_id ` set (disarm_list (snd st')) = disarm_id ` set (disarm_list (snd st)) \<union> {i. e = EvRegister i}"
  using assms
  by cases (auto simp: mm_free_v_def mm_free_p_ident_def mm_register_barrier_def mm_barrier_disarm_def
      disarm_first_ids free_all_pending_take_def frame_simps image_image)

lemma mm_run_registered:
  "mm_run (c, s0) evs st \<Longrightarrow> disarm_id ` set (disarm_list (snd st)) = registered s0 evs"
proof (induction "(c, s0)" evs st rule: mm_run.induct)
  case (run_snoc evs st1 e st2)
  then show ?case using mm_step_registered[OF run_snoc(3)] by (auto simp: registered_def)
qed (simp add: registered_def)

lemma mm_step_armed:
  assumes "mm_step (Waiting, s) e (Waiting, s')" "armed s i" "e \<noteq> EvDisarm i"
  shows "armed s' i"
  using assms
  by (auto simp: armed_def mm_free_v_def mm_free_p_ident_def mm_register_barrier_def
      mm_barrier_disarm_def frame_simps elim!: mm_stepE) (metis disarm_first_other)

text \<open>While the collector waits, each processor registered before it armed the barriers is still
  armed or has disarmed since.\<close>

lemma collector_invariant:
  assumes "mm_run (Idle, s0) evs (Waiting, s)"
  shows "\<exists>pre post. evs = pre @ EvTake # post \<and> EvTake \<notin> set post \<and> EvRelease \<notin> set post
    \<and> (\<forall>i \<in> registered s0 pre. EvDisarm i \<in> set post \<or> armed s i)"
  using assms
proof (induction "(Idle, s0)" evs "(Waiting, s)" arbitrary: s rule: mm_run.induct)
  case (run_snoc evs st1 e)
  obtain c1 s1 where st1: "st1 = (c1, s1)" by (cases st1)
  show ?case
  proof (cases "c1 = Waiting")
    case True
    with run_snoc(2) st1 obtain pre post where p: "evs = pre @ EvTake # post" "EvTake \<notin> set post"
      "EvRelease \<notin> set post" "\<forall>i \<in> registered s0 pre. EvDisarm i \<in> set post \<or> armed s1 i" by auto
    have e: "e \<noteq> EvTake" "e \<noteq> EvRelease" using run_snoc(3) st1 True by (auto elim: mm_stepE)
    have "\<forall>i \<in> registered s0 pre. EvDisarm i \<in> set (post @ [e]) \<or> armed s i"
      using p(4) mm_step_armed[of s1 e s] run_snoc(3) st1 True by auto
    with p e show ?thesis by (intro exI[of _ pre] exI[of _ "post @ [e]"]) auto
  next
    case False
    then have e: "e = EvTake" "s = free_all_pending_take s1"
      using run_snoc(3) st1 by (auto elim: mm_stepE)
    have "registered s0 evs = disarm_id ` set (disarm_list s1)"
      using mm_run_registered[OF run_snoc(1)] st1 by simp
    then have "\<forall>i \<in> registered s0 evs. armed s i"
      by (auto simp: armed_def e(2) free_all_pending_take_def)
    with e(1) show ?thesis by (intro exI[of _ evs] exI[of _ "[]"]) auto
  qed
qed

subsection \<open>Properties\<close>





text \<open>Two physical allocations in a row never overlap, and freeing what
  \<^verbatim>\<open>mm_alloc_p\<close> returned, with the size that was asked for, gives back the same free memory.\<close>

lemma mm_alloc_p_disjoint_roundtrip:
  assumes "mm_wf (p_list s)" "mm_request n" "mm_request m"
    "mm_alloc_p n s = (r, s1)" "r \<noteq> 0" "mm_alloc_p m s1 = (q, s2)" "q \<noteq> 0"
  shows "{unat r ..< unat r + page_up (unat n)} \<inter> {unat q ..< unat q + page_up (unat m)} = {}
    \<and> (\<exists>s3. mm_free_p r n s1 = Inr s3 \<and> mm_wf (p_list s3) \<and> free_set (p_list s3) = free_set (p_list s))"
  using phys.take_disjoint[OF assms] phys.take_put[OF assms(1,2,4,5)] by blast

text \<open>\<^verbatim>\<open>mm_init\<close> on a memory map whose segments do not overlap does not panic and leaves a
  well-formed list of free physical memory which lies inside the segments marked available and
  wholly above the end of the kernel image.\<close>

lemma mm_init_free_memory:
  assumes "segs_ok segs" "kernel_limit \<noteq> 0"
  shows "\<exists>s. mm_init kernel_limit segs = Inr s \<and> mm_wf (p_list s) \<and> mm_wf (v_list s)
    \<and> free_set (p_list s) \<subseteq> (\<Union>seg \<in> set segs. seg_range seg) \<inter> {unat kernel_limit ..}
    \<and> free_set (v_list s) = {unat CANON_HIGH ..< unat VIRTUAL_LIMIT}"
proof -
  have g: "mm_wf [guard_node, guard_node]" by (simp add: mm_wf_def)
  obtain po ps where p: "mm_init_segments kernel_limit segs 0 (\<lparr>reuse_nodes = 0, node_mallocs = 0\<rparr>, [guard_node, guard_node]) = Inr (po, ps)"
    "mm_wf ps" "free_set ps \<subseteq> (\<Union>s \<in> set segs. seg_range s) \<inter> {unat kernel_limit ..}"
    using mm_init_segments_ok[OF assms(1) g _ assms(2), where i = 0 and po = "\<lparr>reuse_nodes = 0, node_mallocs = 0\<rparr>"] by auto
  have "mm_wf [guard_node, \<lparr>base = CANON_HIGH, nsize = VIRTUAL_LIMIT - CANON_HIGH\<rparr>, guard_node]"
    "free_set [guard_node, \<lparr>base = CANON_HIGH, nsize = VIRTUAL_LIMIT - CANON_HIGH\<rparr>, guard_node]
      = {unat CANON_HIGH ..< unat VIRTUAL_LIMIT}"
    by (simp_all add: mm_wf_def node_ok_def rbase_def rend_def region_def CANON_HIGH_def VIRTUAL_LIMIT_def IDENT_BASE_def)
  with p show ?thesis by (simp add: mm_init_def)
qed



text \<open>A release that overlaps the free region before it is only logged, not refused
  (\<^verbatim>\<open>insert_node\<close> returns 0 after the warning).  After freeing the second of two free pages once more,
  one page is handed out twice: the first and the third of three allocations are the same page.\<close>

lemma double_free_of_later_page_reallocates:
  "\<exists>s1 s2 s3 s4. mm_free_p 0x2000 0x1000
       \<lparr>p_list = [guard_node, \<lparr>base = 0x1000, nsize = 0x2000\<rparr>, guard_node], v_list = [],
        pool = \<lparr>reuse_nodes = 0, node_mallocs = 0\<rparr>, pending_free = [], transaction_list = [], disarm_list = []\<rparr> = Inr s1
    \<and> mm_alloc_p 0x1000 s1 = (0x2000, s2) \<and> mm_alloc_p 0x1000 s2 = (0x1000, s3) \<and> mm_alloc_p 0x1000 s3 = (0x2000, s4)"
  by (simp add: mm_free_p_def free_to_p_def mm_free_def insert_node_def insert_pos_def below_def page_round_def
      PAGE_SIZE_4K_def Let_def mm_alloc_p_def alloc_from_p_def mm_alloc_max_def fits_def)

end
