(* ===== verification/Alloc.thy ===== *)
theory Alloc
  imports Heap MM
begin

section \<open>The kernel heap (kernel/core/alloc.c)\<close>

text \<open>
  Memory is cut into arenas of two megabytes, an arena into blocks, each behind a header.  \<open>headers\<close> and
  \<open>arenas\<close> are the memory of the two structures by address; a null pointer is 0.  The member \<^verbatim>\<open>next_free\<close> is a
  union: the next free block of a free block, the arena of a used one.  Headers of one arena are linked in two ways, by
  position (the size leads to the next block, \<^verbatim>\<open>prev\<close> to the previous) and by the doubly linked list of free blocks.

  The loops of \<^verbatim>\<open>kmalloc\<close> follow pointers and end only on lists that end, so they are partial functions; they are
  shown to end on every well-formed heap.  The heap is shown to implement a set of used blocks: \<^verbatim>\<open>kmalloc\<close> adds one
  that overlaps no other, \<^verbatim>\<open>kfree\<close> takes one away, and two free blocks are never neighbours.
\<close>

record alloc_header_t =
  hsize :: u64
  hprev :: u64
  hnext :: u64
  hprev_free :: u64

record alloc_arena_t =
  afree :: u64
  anext :: u64

record heap =
  headers :: "u64 \<Rightarrow> alloc_header_t"
  arenas :: "u64 \<Rightarrow> alloc_arena_t"
  arena_head :: u64
  pages :: mm_state

definition TYPE_HEADER_FREE :: u64 where "TYPE_HEADER_FREE = 1"
definition TYPE_HEADER_LAST :: u64 where "TYPE_HEADER_LAST = 2"
definition IS_FREE :: "u64 \<Rightarrow> bool" where "IS_FREE x \<longleftrightarrow> x AND 1 = TYPE_HEADER_FREE"
definition IS_USED :: "u64 \<Rightarrow> bool" where "IS_USED x \<longleftrightarrow> x AND 1 = 0"
definition IS_LAST :: "u64 \<Rightarrow> bool" where "IS_LAST x \<longleftrightarrow> x AND 2 = TYPE_HEADER_LAST"
definition GET_SIZE :: "u64 \<Rightarrow> u64" where "GET_SIZE x = x AND NOT 0xF"

type_synonym hmem = "u64 \<Rightarrow> alloc_header_t"

definition set_hsize :: "u64 \<Rightarrow> u64 \<Rightarrow> hmem \<Rightarrow> hmem" where "set_hsize a v H = H(a := (H a)\<lparr>hsize := v\<rparr>)"
definition set_hprev :: "u64 \<Rightarrow> u64 \<Rightarrow> hmem \<Rightarrow> hmem" where "set_hprev a v H = H(a := (H a)\<lparr>hprev := v\<rparr>)"
definition set_hnext :: "u64 \<Rightarrow> u64 \<Rightarrow> hmem \<Rightarrow> hmem" where "set_hnext a v H = H(a := (H a)\<lparr>hnext := v\<rparr>)"
definition set_hpfree :: "u64 \<Rightarrow> u64 \<Rightarrow> hmem \<Rightarrow> hmem" where "set_hpfree a v H = H(a := (H a)\<lparr>hprev_free := v\<rparr>)"

definition get_next :: "u64 \<Rightarrow> hmem \<Rightarrow> u64" where
  "get_next header H = (if IS_LAST (hsize (H header)) then 0 else header + GET_SIZE (hsize (H header)))"

definition alloc_init :: "heap \<Rightarrow> heap" where
  "alloc_init h = h\<lparr>arena_head := 0\<rparr>"

text \<open>\<^verbatim>\<open>patch_list\<close> returns the headers and the arena's new list head.\<close>

definition patch_list :: "u64 \<Rightarrow> u64 \<Rightarrow> hmem \<Rightarrow> hmem \<times> u64" where
  "patch_list fr header H =
     (let n = hnext (H header); p = hprev_free (H header)
      in if p \<noteq> 0
         then let H1 = set_hnext p n H in (if n \<noteq> 0 then set_hpfree n p H1 else H1, fr)
         else (if n \<noteq> 0 then set_hpfree n 0 H else H, n))"

text \<open>\<^verbatim>\<open>alloc\<close> on the headers; \<open>fr\<close> is \<^verbatim>\<open>arena->free\<close>.\<close>

definition split_block :: "u64 \<Rightarrow> u64 \<Rightarrow> hmem \<Rightarrow> hmem" where
  "split_block header sz H =
     (let split = header + sz;
          H1 = set_hsize split ((GET_SIZE (hsize (H header)) - sz) OR TYPE_HEADER_FREE) (set_hprev split header H);
          H2 = (if IS_LAST (hsize (H1 header))
                then set_hsize header (hsize (H1 header) AND NOT TYPE_HEADER_LAST)
                       (set_hsize split (hsize (H1 split) OR TYPE_HEADER_LAST) H1)
                else set_hprev (get_next header H1) split H1);
          H3 = set_hpfree split header (set_hnext split (hnext (H2 header)) H2);
          H4 = (if hnext (H3 header) \<noteq> 0 then set_hpfree (hnext (H3 header)) split H3 else H3)
      in set_hsize header sz (set_hnext header split H4))"

definition alloc :: "u64 \<Rightarrow> u64 \<Rightarrow> u64 \<Rightarrow> u64 \<Rightarrow> hmem \<Rightarrow> (hmem \<times> u64) outcome" where
  "alloc arena fr header sz H =
     (if IS_USED (hsize (H header)) then Inl (Panic PANIC_STATE)
      else if GET_SIZE (hsize (H header)) < sz then Inl (Panic PANIC_NO_MEM)
      else
        let H1 = (if SIZEOF_HEADER < GET_SIZE (hsize (H header)) - sz then split_block header sz H else H);
            H2 = set_hsize header (GET_SIZE (hsize (H1 header)) OR (hsize (H1 header) AND 2)) H1;
            (H3, fr') = patch_list fr header H2
        in Inr (set_hnext header arena H3, fr'))"

partial_function (option) find_fit :: "u64 \<Rightarrow> u64 \<Rightarrow> hmem \<Rightarrow> u64 option" where
  "find_fit header sz H =
     (if header = 0 then Some 0
      else if sz \<le> GET_SIZE (hsize (H header)) then Some header
      else find_fit (hnext (H header)) sz H)"

text \<open>The search over the arenas: \<open>Some (0, 0)\<close> when no arena has a block that is large enough.\<close>

partial_function (option) find_arena :: "u64 \<Rightarrow> u64 \<Rightarrow> heap \<Rightarrow> (u64 \<times> u64) option" where
  "find_arena i sz h =
     (if i = 0 then Some (0, 0)
      else case find_fit (afree (arenas h i)) sz (headers h) of
             None \<Rightarrow> None
           | Some b \<Rightarrow> if b \<noteq> 0 then Some (i, b) else find_arena (anext (arenas h i)) sz h)"

definition new_arena :: "u64 \<Rightarrow> u64 \<Rightarrow> heap \<Rightarrow> (u64 \<times> heap) outcome" where
  "new_arena sz p h =
     (let i = paging_ident p; fr = i + SIZEOF_ARENA;
          H = (headers h)(fr := \<lparr>hsize = INIT_BLOCK_SIZE OR TYPE_HEADER_FREE OR TYPE_HEADER_LAST, hprev = 0, hnext = 0,
                                  hprev_free = 0\<rparr>)
      in case alloc i fr fr sz H of
           Inl e \<Rightarrow> Inl e
         | Inr (H', fr') \<Rightarrow>
             Inr (fr + SIZEOF_HEADER,
                  h\<lparr>headers := H', arenas := (arenas h)(i := \<lparr>afree = fr', anext = arena_head h\<rparr>), arena_head := i\<rparr>))"

definition kmalloc :: "u64 \<Rightarrow> heap \<Rightarrow> (u64 \<times> heap) outcome option" where
  "kmalloc sz h =
     (let a = adjusted_size sz
      in case find_arena (arena_head h) a h of
           None \<Rightarrow> None
         | Some (i, b) \<Rightarrow>
             if b \<noteq> 0
             then (case alloc i (afree (arenas h i)) b a (headers h) of
                     Inl e \<Rightarrow> Some (Inl e)
                   | Inr (H', fr') \<Rightarrow>
                       Some (Inr (b + SIZEOF_HEADER,
                         h\<lparr>headers := H', arenas := (arenas h)(i := (arenas h i)\<lparr>afree := fr'\<rparr>)\<rparr>)))
             else
               let (p, m) = mm_alloc_p ARENA_SIZE (pages h)
               in if p = 0 then Some (Inl (Panic PANIC_NO_MEM)) else Some (new_arena a p (h\<lparr>pages := m\<rparr>)))"

text \<open>\<^verbatim>\<open>kfree\<close>.  \<open>merge_prev\<close> and \<open>merge_next\<close> are its two coalescing steps; the first returns the header that now holds the
  block.\<close>

definition merge_prev :: "u64 \<Rightarrow> u64 \<Rightarrow> u64 \<Rightarrow> hmem \<Rightarrow> u64 \<times> hmem \<times> u64" where
  "merge_prev fr header nxt H =
     (let p = hprev (H header)
      in if p \<noteq> 0 \<and> IS_FREE (hsize (H p))
         then let H1 = set_hsize p ((GET_SIZE (hsize (H p)) + GET_SIZE (hsize (H header))) OR TYPE_HEADER_FREE OR (hsize (H header) AND 2)) H
              in (p, if nxt \<noteq> 0 then set_hprev nxt p H1 else H1, fr)
         else let H1 = set_hpfree header 0 (set_hnext header fr H)
              in (header, if fr \<noteq> 0 then set_hpfree fr header H1 else H1, header))"

definition merge_next :: "u64 \<Rightarrow> u64 \<Rightarrow> u64 \<Rightarrow> hmem \<Rightarrow> hmem \<times> u64" where
  "merge_next fr header nxt H =
     (if nxt \<noteq> 0 \<and> IS_FREE (hsize (H nxt))
      then let H1 = set_hsize header ((GET_SIZE (hsize (H header)) + GET_SIZE (hsize (H nxt))) OR TYPE_HEADER_FREE OR (hsize (H nxt) AND 2)) H;
               (H2, fr') = patch_list fr nxt H1;
               n = get_next nxt H2
           in (if n \<noteq> 0 then set_hprev n header H2 else H2, fr')
      else (H, fr))"

definition kfree :: "u64 \<Rightarrow> heap \<Rightarrow> heap" where
  "kfree ptr h =
     (if ptr = 0 then h
      else
        let header = ptr - SIZEOF_HEADER; H = headers h
        in if IS_FREE (hsize (H header)) then h
           else
             let i = hnext (H header);
                 H1 = set_hsize header (GET_SIZE (hsize (H header)) OR TYPE_HEADER_FREE OR (hsize (H header) AND 2)) H;
                 nxt = get_next header H1;
                 (header', H2, fr) = merge_prev (afree (arenas h i)) header nxt H1;
                 (H3, fr') = merge_next fr header' nxt H2
             in h\<lparr>headers := H3, arenas := (arenas h)(i := (arenas h i)\<lparr>afree := fr'\<rparr>)\<rparr>)"

subsection \<open>Sizes with flags\<close>

definition enc :: "nat \<Rightarrow> bool \<Rightarrow> bool \<Rightarrow> u64" where
  "enc n used lst = of_nat n OR (if used then 0 else 1) OR (if lst then 2 else 0)"

lemma low_bits:
  assumes "16 dvd n" "n < 2 ^ 64" "bit (of_nat n :: u64) i"
  shows "4 \<le> i"
proof -
  obtain k where k: "n = 16 * k" using assms(1) by blast
  have "(of_nat n :: u64) = push_bit 4 (of_nat k)" unfolding k by (simp add: push_bit_eq_mult)
  then have "bit (push_bit 4 (of_nat k :: u64)) i" using assms(3) by metis
  then show ?thesis by (simp only: bit_push_bit_iff)
qed

lemma bit_F: "bit (0xF :: u64) i \<longleftrightarrow> i < 4"
proof -
  have "(0xF :: u64) = mask 4" by (simp add: mask_eq_exp_minus_1)
  moreover have "bit (mask 4 :: u64) i \<longleftrightarrow> i < 4" by (auto simp: bit_mask_iff)
  ultimately show ?thesis by metis
qed

lemma bit_2: "bit (2 :: u64) i \<longleftrightarrow> i = 1"
proof -
  have "(2 :: u64) = push_bit 1 1" by (simp add: push_bit_eq_mult)
  moreover have "bit (push_bit 1 (1 :: u64)) i \<longleftrightarrow> i = 1" by (simp only: bit_push_bit_iff bit_1_iff) auto
  ultimately show ?thesis by metis
qed

lemma bit_one: "bit (1 :: u64) i \<longleftrightarrow> i = 0"
  by (simp add: bit_1_iff)

lemma bit_enc:
  assumes "16 dvd n" "n < 2 ^ 64"
  shows "bit (enc n u l) i \<longleftrightarrow> bit (of_nat n :: u64) i \<or> (\<not> u \<and> i = 0) \<or> (l \<and> i = 1)"
proof -
  have "bit (if l then 2 else 0 :: u64) i \<longleftrightarrow> l \<and> i = 1" "bit (if u then 0 else 1 :: u64) i \<longleftrightarrow> \<not> u \<and> i = 0"
    using bit_2[of i] by (simp_all add: bit_one)
  then show ?thesis unfolding enc_def bit_or_iff by blast
qed

lemma enc_simps:
  assumes "16 dvd n" "n < 2 ^ 64"
  shows "GET_SIZE (enc n u l) = of_nat n" "IS_FREE (enc n u l) \<longleftrightarrow> \<not> u" "IS_USED (enc n u l) \<longleftrightarrow> u" "IS_LAST (enc n u l) \<longleftrightarrow> l"
    "enc n u l AND 2 = (if l then 2 else 0)"
proof -
  note b = bit_enc[OF assms] and lo = low_bits[OF assms]
  have len: "bit (w :: u64) i \<Longrightarrow> i < 64" for w i using bit_imp_le_length[of w i] by simp
  show "GET_SIZE (enc n u l) = of_nat n" unfolding GET_SIZE_def
  proof (rule bit_eqI)
    fix i
    show "bit (enc n u l AND NOT 0xF) i = bit (of_nat n :: u64) i"
      unfolding bit_and_iff bit_not_iff b bit_F possible_bit_def using lo[of i] len[of "of_nat n" i] by auto
  qed
  have one: "enc n u l AND 1 = of_bool (\<not> u)" using lo[of 0] by (auto simp: and_one_bit b)
  then show "IS_FREE (enc n u l) \<longleftrightarrow> \<not> u" "IS_USED (enc n u l) \<longleftrightarrow> u" by (auto simp: IS_FREE_def IS_USED_def TYPE_HEADER_FREE_def)
  show two: "enc n u l AND 2 = (if l then 2 else 0)"
  proof (rule bit_eqI)
    fix i
    have "bit (if l then 2 else 0 :: u64) i \<longleftrightarrow> l \<and> i = 1" using bit_2[of i] by simp
    then show "bit (enc n u l AND 2) i = bit (if l then 2 else 0 :: u64) i"
      unfolding bit_and_iff b bit_2 using lo[of 1] by auto
  qed
  then show "IS_LAST (enc n u l) \<longleftrightarrow> l" by (simp add: IS_LAST_def TYPE_HEADER_LAST_def)
qed

lemma enc_alts:
  "of_nat n OR 1 = enc n False False" "of_nat n OR 1 OR 2 = enc n False True" "of_nat n OR 2 = enc n True True" "of_nat n = enc n True False"
  by (simp_all add: enc_def)

subsection \<open>Linked lists\<close>

definition nxt :: "u64 list \<Rightarrow> u64 \<Rightarrow> u64" where
  "nxt xs n = (case xs of [] \<Rightarrow> n | x # _ \<Rightarrow> x)"

fun dll :: "(u64 \<Rightarrow> u64) \<Rightarrow> (u64 \<Rightarrow> u64) \<Rightarrow> u64 \<Rightarrow> u64 list \<Rightarrow> u64 \<Rightarrow> bool" where
  "dll N P p [] n = True"
| "dll N P p (x # xs) n \<longleftrightarrow> P x = p \<and> N x = nxt xs n \<and> dll N P x xs n"

lemma nxt_simps [simp]: "nxt [] n = n" "nxt (x # xs) n = x"
  by (simp_all add: nxt_def)

lemma nxt_append: "nxt (xs @ ys) n = nxt xs (nxt ys n)"
  by (cases xs) simp_all

lemma dll_append: "dll N P p (xs @ ys) n \<longleftrightarrow> dll N P p xs (nxt ys n) \<and> dll N P (if xs = [] then p else last xs) ys n"
  by (induction xs arbitrary: p) (auto simp: nxt_append)

lemma dll_cong: "(\<And>x. x \<in> set xs \<Longrightarrow> N' x = N x \<and> P' x = P x) \<Longrightarrow> dll N' P' p xs n = dll N P p xs n"
  by (induction xs arbitrary: p) auto

text \<open>The next link of the last element and the previous link of the first may be set at will.\<close>

lemma dll_set_end:
  assumes "dll N P p xs n" "distinct xs" "xs \<noteq> []"
  shows "dll (N(last xs := n')) P p xs n'"
  using assms
proof (induction xs arbitrary: p)
  case (Cons x xs)
  show ?case
  proof (cases xs)
    case (Cons y ys)
    then have "x \<noteq> last xs" using Cons.prems(2) last_in_set[of xs] by auto
    then show ?thesis using Cons.IH[of x] Cons.prems Cons by simp
  qed (use Cons.prems in simp)
qed simp

lemma dll_set_start:
  assumes "dll N P p xs n" "distinct xs" "xs \<noteq> []"
  shows "dll N (P(hd xs := p')) p' xs n"
proof (cases xs)
  case (Cons y ys)
  then have "dll N (P(y := p')) y ys n = dll N P y ys n" using assms(2) by (intro dll_cong) auto
  then show ?thesis using assms(1) Cons by simp
qed (use assms in simp)

lemma dll_set_end':
  assumes "dll N P p xs n" "distinct xs" "q = (if xs = [] then 0 else last xs)" "0 \<notin> set xs"
  shows "dll (if q \<noteq> 0 then N(q := n') else N) P p xs n'"
proof (cases "xs = []")
  case False
  then have "q = last xs" "q \<noteq> 0" using assms(3,4) last_in_set[of xs] by metis+
  then show ?thesis using dll_set_end[OF assms(1,2) False, of n'] by simp
qed simp

lemma dll_set_start':
  assumes "dll N P p xs 0" "distinct xs" "q = nxt xs 0" "0 \<notin> set xs"
  shows "dll N (if q \<noteq> 0 then P(q := p') else P) p' xs 0"
proof (cases "xs = []")
  case False
  then have "q = hd xs" "q \<noteq> 0" using assms(3,4) by (cases xs; auto)+
  then show ?thesis using dll_set_start[OF assms(1,2) False, of p'] by simp
qed simp

lemma dll_remove:
  assumes "dll N P 0 (xs @ x # ys) 0" "distinct (xs @ x # ys)" "0 \<notin> set (xs @ x # ys)"
  defines "N' \<equiv> (if P x \<noteq> 0 then N(P x := N x) else N)" and "P' \<equiv> (if N x \<noteq> 0 then P(N x := P x) else P)"
  shows "dll N' P' 0 (xs @ ys) 0" "nxt (xs @ ys) 0 = (if P x \<noteq> 0 then nxt (xs @ x # ys) 0 else N x)"
proof -
  have d: "dll N P 0 xs x" "P x = (if xs = [] then 0 else last xs)" "N x = nxt ys 0" "dll N P x ys 0"
    using assms(1) by (auto simp: dll_append)
  have "set xs \<inter> set ys = {}" using assms(2) by auto
  then have lst: "xs \<noteq> [] \<Longrightarrow> last xs \<notin> set ys" using last_in_set[of xs] by blast
  have "dll N' P 0 xs (nxt ys 0)" unfolding N'_def d(3)
    by (rule dll_set_end'[OF d(1)]) (use assms(2,3) d(2) in auto)
  moreover have "dll N' P' 0 xs (nxt ys 0) = dll N' P 0 xs (nxt ys 0)"
    by (rule dll_cong) (use assms(2) d(3) in \<open>cases ys; auto simp: P'_def\<close>)
  moreover have "dll N P' (P x) ys 0" unfolding P'_def
    by (rule dll_set_start'[OF d(4)]) (use assms(2,3) d(3) in auto)
  moreover have "dll N' P' (P x) ys 0 = dll N P' (P x) ys 0"
    by (rule dll_cong) (use assms(3) d(2) lst in \<open>auto simp: N'_def\<close>)
  ultimately show "dll N' P' 0 (xs @ ys) 0" using d(2) by (simp add: dll_append)
  show "nxt (xs @ ys) 0 = (if P x \<noteq> 0 then nxt (xs @ x # ys) 0 else N x)"
  proof (cases xs)
    case (Cons a list)
    then have "P x \<noteq> 0" using d(2) assms(3) last_in_set[of xs] by auto
    then show ?thesis using Cons by simp
  qed (use d(2,3) in simp)
qed

lemma dll_insert:
  assumes "dll N P 0 (xs @ x # ys) 0" "distinct (xs @ x # ys)" "0 \<notin> set (xs @ x # ys)" "z \<notin> set (xs @ x # ys)" "z \<noteq> 0"
  defines "N' \<equiv> N(z := N x, x := z)" and "P' \<equiv> (if N x \<noteq> 0 then P(z := x, N x := z) else P(z := x))"
  shows "dll N' P' 0 (xs @ x # z # ys) 0"
proof -
  have d: "dll N P 0 xs x" "P x = (if xs = [] then 0 else last xs)" "N x = nxt ys 0" "dll N P x ys 0"
    using assms(1) by (auto simp: dll_append)
  have nz: "N x \<noteq> z" using d(3) assms(4,5) by (cases ys) auto
  have "dll N' P' 0 xs x = dll N P 0 xs x"
    by (rule dll_cong) (use assms(2,4) d(3) in \<open>cases ys; auto simp: N'_def P'_def\<close>)
  moreover have "dll N (if N x \<noteq> 0 then P(N x := z) else P) z ys 0"
    by (rule dll_set_start'[OF d(4)]) (use assms(2,3) d(3) in auto)
  moreover have "dll N' P' z ys 0 = dll N (if N x \<noteq> 0 then P(N x := z) else P) z ys 0"
    by (rule dll_cong) (use assms(2,4) nz in \<open>auto simp: N'_def P'_def\<close>)
  moreover have "P' x = P x" "P' z = x" "N' x = z" "N' z = nxt ys 0"
    using d(3) assms(2,4) nz by (cases ys; auto simp: P'_def N'_def)+
  ultimately show ?thesis using d(1,2) by (simp add: dll_append)
qed

lemma dll_push:
  assumes "dll N P 0 xs 0" "distinct xs" "0 \<notin> set xs" "z \<notin> set xs" "fr = nxt xs 0"
  shows "dll (N(z := fr)) (if fr \<noteq> 0 then P(z := 0, fr := z) else P(z := 0)) 0 (z # xs) 0"
proof -
  have "dll N (if fr \<noteq> 0 then P(fr := z) else P) z xs 0" by (rule dll_set_start'[OF assms(1,2,5,3)])
  moreover have "dll (N(z := fr)) (if fr \<noteq> 0 then P(z := 0, fr := z) else P(z := 0)) z xs 0
      = dll N (if fr \<noteq> 0 then P(fr := z) else P) z xs 0"
    by (rule dll_cong) (use assms(4) in auto)
  ultimately show ?thesis using assms(3-5) by (cases xs) auto
qed

subsection \<open>Blocks\<close>

text \<open>A block is its offset in the arena, its size and whether it is used.\<close>

type_synonym blk = "nat \<times> nat \<times> bool"

fun lay :: "nat \<Rightarrow> blk list \<Rightarrow> nat \<Rightarrow> bool" where
  "lay o' [] e \<longleftrightarrow> o' = e"
| "lay o' ((x, s, u) # bs) e \<longleftrightarrow> x = o' \<and> 32 \<le> s \<and> 16 dvd s \<and> lay (o' + s) bs e"

fun coalesced :: "blk list \<Rightarrow> bool" where
  "coalesced ((x, s, u) # (y, t, v) # bs) \<longleftrightarrow> (u \<or> v) \<and> coalesced ((y, t, v) # bs)"
| "coalesced bs = True"

text \<open>Size words \<open>S\<close> and previous links \<open>P\<close> of a run of blocks after the block at \<open>p\<close>; \<open>l\<close> when the run ends the arena.\<close>

fun hdrs :: "(u64 \<Rightarrow> u64) \<Rightarrow> (u64 \<Rightarrow> u64) \<Rightarrow> u64 \<Rightarrow> u64 \<Rightarrow> blk list \<Rightarrow> bool \<Rightarrow> bool" where
  "hdrs S P ar p [] l = True"
| "hdrs S P ar p ((x, s, u) # bs) l \<longleftrightarrow>
     S (ar + of_nat x) = enc s u (bs = [] \<and> l) \<and> P (ar + of_nat x) = p \<and> hdrs S P ar (ar + of_nat x) bs l"

definition last_addr :: "u64 \<Rightarrow> u64 \<Rightarrow> blk list \<Rightarrow> u64" where
  "last_addr ar p bs = (if bs = [] then p else ar + of_nat (fst (last bs)))"

lemma lay_append: "lay o' (as @ bs) e \<longleftrightarrow> (\<exists>m. lay o' as m \<and> lay m bs e)"
  by (induction as arbitrary: o') auto

lemma lay_bounds: "lay o' bs e \<Longrightarrow> o' \<le> e \<and> (\<forall>(x, s, u) \<in> set bs. o' \<le> x \<and> x + s \<le> e \<and> 32 \<le> s \<and> 16 dvd s)"
  by (induction bs arbitrary: o') fastforce+

lemma lay_less: "lay o' bs e \<Longrightarrow> (x, s, u) \<in> set bs \<Longrightarrow> o' \<le> x \<and> x < e"
  using lay_bounds[of o' bs e] by fastforce

lemma lay_distinct: "lay o' bs e \<Longrightarrow> distinct (map fst bs)"
proof (induction bs arbitrary: o')
  case (Cons b bs)
  obtain x s u where b: "b = (x, s, u)" by (cases b)
  have "x \<notin> fst ` set bs" using Cons.prems lay_bounds[of "o' + s" bs e] by (auto simp: b)
  then show ?case using Cons by (auto simp: b)
qed simp

lemma hdrs_append:
  "hdrs S P ar p (as @ bs) l \<longleftrightarrow> hdrs S P ar p as (bs = [] \<and> l) \<and> hdrs S P ar (last_addr ar p as) bs l"
  by (induction as arbitrary: p) (auto simp: last_addr_def)

lemma hdrs_cong:
  assumes "\<And>x s u. (x, s, u) \<in> set bs \<Longrightarrow> S' (ar + of_nat x) = S (ar + of_nat x) \<and> P' (ar + of_nat x) = P (ar + of_nat x)"
  shows "hdrs S' P' ar p bs l = hdrs S P ar p bs l"
  using assms by (induction bs arbitrary: p) (auto, (metis list.set_intros)+)

lemma hdrs_set_prev:
  assumes "hdrs S P ar p bs l" "distinct (map fst bs)" "\<forall>b \<in> set bs. fst b < 2 ^ 64" "bs \<noteq> []"
  shows "hdrs S (P(ar + of_nat (fst (hd bs)) := p')) ar p' bs l"
proof (cases bs)
  case (Cons b cs)
  obtain x s u where b: "b = (x, s, u)" by (cases b)
  have "hdrs S (P(ar + of_nat x := p')) ar (ar + of_nat x) cs l = hdrs S P ar (ar + of_nat x) cs l"
  proof (rule hdrs_cong)
    fix y t v assume y: "(y, t, v) \<in> set cs"
    then have "y \<in> fst ` set cs" by force
    then have "y \<noteq> x" "y < 2 ^ 64" "x < 2 ^ 64" using assms(2,3) Cons b y by auto
    then have "(of_nat y :: u64) \<noteq> of_nat x" by (simp add: word_of_nat_eq_iff take_bit_nat_eq_self)
    then show "S (ar + of_nat y) = S (ar + of_nat y) \<and> (P(ar + of_nat x := p')) (ar + of_nat y) = P (ar + of_nat y)" by simp
  qed
  then show ?thesis using assms(1) Cons b by simp
qed (use assms in simp)

text \<open>A whole arena: \<open>H\<close> the headers, \<open>fr\<close> the head of the free list, \<open>bs\<close> the blocks, \<open>fl\<close> the offsets in the free
  list.\<close>

abbreviation addr :: "u64 \<Rightarrow> nat \<Rightarrow> u64" where
  "addr ar x \<equiv> ar + of_nat x"

definition arena_shape :: "hmem \<Rightarrow> u64 \<Rightarrow> u64 \<Rightarrow> blk list \<Rightarrow> nat list \<Rightarrow> bool" where
  "arena_shape H fr ar bs fl \<longleftrightarrow> lay 32 bs 0x200000
     \<and> hdrs (\<lambda>a. hsize (H a)) (\<lambda>a. hprev (H a)) ar 0 bs True
     \<and> (\<forall>x s. (x, s, True) \<in> set bs \<longrightarrow> hnext (H (addr ar x)) = ar)
     \<and> dll (\<lambda>a. hnext (H a)) (\<lambda>a. hprev_free (H a)) 0 (map (addr ar) fl) 0 \<and> fr = nxt (map (addr ar) fl) 0
     \<and> distinct fl \<and> set fl = {x. \<exists>s. (x, s, False) \<in> set bs}
     \<and> (\<forall>x < 0x200000. addr ar x \<noteq> 0)"

definition arena_rep :: "hmem \<Rightarrow> u64 \<Rightarrow> u64 \<Rightarrow> blk list \<Rightarrow> nat list \<Rightarrow> bool" where
  "arena_rep H fr ar bs fl \<longleftrightarrow> arena_shape H fr ar bs fl \<and> coalesced bs"

lemma addr_inj: "x < 2 ^ 64 \<Longrightarrow> y < 2 ^ 64 \<Longrightarrow> addr ar x = addr ar y \<longleftrightarrow> x = y"
  by (simp add: word_of_nat_eq_iff take_bit_nat_eq_self)

lemma addr_inj_on: "inj_on (addr ar) {..< 0x200000}"
  by (rule inj_onI) (use addr_inj in auto)

lemmas set_defs = set_hsize_def set_hprev_def set_hnext_def set_hpfree_def

lemma set_fields [simp]:
  "hsize (set_hsize a v H b) = (if b = a then v else hsize (H b))" "hprev (set_hsize a v H b) = hprev (H b)"
  "hnext (set_hsize a v H b) = hnext (H b)" "hprev_free (set_hsize a v H b) = hprev_free (H b)"
  "hsize (set_hprev a v H b) = hsize (H b)" "hprev (set_hprev a v H b) = (if b = a then v else hprev (H b))"
  "hnext (set_hprev a v H b) = hnext (H b)" "hprev_free (set_hprev a v H b) = hprev_free (H b)"
  "hsize (set_hnext a v H b) = hsize (H b)" "hprev (set_hnext a v H b) = hprev (H b)"
  "hnext (set_hnext a v H b) = (if b = a then v else hnext (H b))" "hprev_free (set_hnext a v H b) = hprev_free (H b)"
  "hsize (set_hpfree a v H b) = hsize (H b)" "hprev (set_hpfree a v H b) = hprev (H b)"
  "hnext (set_hpfree a v H b) = hnext (H b)" "hprev_free (set_hpfree a v H b) = (if b = a then v else hprev_free (H b))"
  by (simp_all add: set_defs)

lemma split_fields:
  fixes H :: hmem
  assumes "header + sz \<noteq> header"
  defines "H' \<equiv> split_block header sz H" and "S \<equiv> GET_SIZE (hsize (H header))" and "l \<equiv> IS_LAST (hsize (H header))"
    and "n \<equiv> hnext (H header)" and "sp \<equiv> header + sz"
  shows "hsize (H' a) = (if a = header then sz else if a = sp then (S - sz) OR 1 OR (if l then 2 else 0) else hsize (H a))"
    "hprev (H' a) = (if \<not> l \<and> a = header + S then sp else if a = sp then header else hprev (H a))"
    "hnext (H' a) = (if a = header then sp else if a = sp then n else hnext (H a))"
    "hprev_free (H' a) = (if n \<noteq> 0 \<and> a = n then sp else if a = sp then header else hprev_free (H a))"
proof -
  define m1 where "m1 = set_hsize sp ((S - sz) OR 1) (set_hprev sp header H)"
  define m2 where "m2 = (if l then set_hsize header (hsize (H header) AND NOT 2) (set_hsize sp ((S - sz) OR 1 OR 2) m1)
    else set_hprev (header + S) sp m1)"
  define m3 where "m3 = set_hpfree sp header (set_hnext sp n m2)"
  define m4 where "m4 = (if n \<noteq> 0 then set_hpfree n sp m3 else m3)"
  have sp: "sp \<noteq> header" using assms(1) by (simp add: sp_def)
  have 1: "hsize (m1 a) = (if a = sp then (S - sz) OR 1 else hsize (H a))" "hprev (m1 a) = (if a = sp then header else hprev (H a))"
    "hnext (m1 a) = hnext (H a)" "hprev_free (m1 a) = hprev_free (H a)" for a
    by (simp_all add: m1_def)
  have 2: "hsize (m2 a) = (if a = sp then (S - sz) OR 1 OR (if l then 2 else 0) else if l \<and> a = header then hsize (H a) AND NOT 2 else hsize (H a))"
    "hprev (m2 a) = (if \<not> l \<and> a = header + S then sp else hprev (m1 a))" "hnext (m2 a) = hnext (H a)" "hprev_free (m2 a) = hprev_free (H a)" for a
    using sp by (simp_all add: m2_def 1)
  have 3: "hsize (m4 a) = hsize (m2 a)" "hprev (m4 a) = hprev (m2 a)" "hnext (m4 a) = (if a = sp then n else hnext (H a))"
    "hprev_free (m4 a) = (if n \<noteq> 0 \<and> a = n then sp else if a = sp then header else hprev_free (H a))" for a
    by (simp_all add: m3_def m4_def 2)
  have "hnext (m2 header) = n" "hnext (m3 header) = n" using sp by (simp_all add: n_def m3_def 2)
  moreover have "hsize (m1 header) = hsize (H header)" "hsize (m1 sp) = (S - sz) OR 1" using sp 1(1) by simp_all
  moreover have "\<not> l \<Longrightarrow> get_next header m1 = header + S" using sp 1(1) by (simp add: get_next_def l_def S_def)
  ultimately have m: "H' = set_hsize header sz (set_hnext header sp m4)"
    unfolding H'_def split_block_def Let_def sp_def[symmetric] S_def[symmetric] TYPE_HEADER_FREE_def TYPE_HEADER_LAST_def m1_def[symmetric]
    by (cases l) (simp_all add: l_def[symmetric] m2_def m3_def m4_def or.assoc)
  show "hsize (H' a) = (if a = header then sz else if a = sp then (S - sz) OR 1 OR (if l then 2 else 0) else hsize (H a))"
    "hprev (H' a) = (if \<not> l \<and> a = header + S then sp else if a = sp then header else hprev (H a))"
    "hnext (H' a) = (if a = header then sp else if a = sp then n else hnext (H a))"
    "hprev_free (H' a) = (if n \<noteq> 0 \<and> a = n then sp else if a = sp then header else hprev_free (H a))"
    unfolding m using sp by (simp_all add: 1 2 3)
qed

lemma patch_fields:
  assumes "patch_list fr header H = (H', fr')"
  defines "n \<equiv> hnext (H header)" and "p \<equiv> hprev_free (H header)"
  shows "hsize (H' a) = hsize (H a)" "hprev (H' a) = hprev (H a)" "hnext (H' a) = (if p \<noteq> 0 \<and> a = p then n else hnext (H a))"
    "hprev_free (H' a) = (if n \<noteq> 0 \<and> a = n then p else hprev_free (H a))" "fr' = (if p \<noteq> 0 then fr else n)"
  using assms(1) unfolding n_def p_def
  by (auto simp: patch_list_def Let_def split: if_splits)

text \<open>Taking the block at offset \<open>x\<close> out of the free list.\<close>

lemma patch_dll:
  assumes "dll (\<lambda>a. hnext (H a)) (\<lambda>a. hprev_free (H a)) 0 (map (addr ar) (f1 @ x # f2)) 0" "distinct (f1 @ x # f2)"
    "\<forall>y \<in> set (f1 @ x # f2). y < 0x200000" "\<forall>y < 0x200000. addr ar y \<noteq> 0"
    "patch_list (nxt (map (addr ar) (f1 @ x # f2)) 0) (addr ar x) H = (H', fr')"
  shows "dll (\<lambda>a. hnext (H' a)) (\<lambda>a. hprev_free (H' a)) 0 (map (addr ar) (f1 @ f2)) 0"
    "fr' = nxt (map (addr ar) (f1 @ f2)) 0"
    "a \<notin> addr ar ` set (f1 @ f2) \<Longrightarrow> H' a = H a" "hsize (H' a) = hsize (H a)" "hprev (H' a) = hprev (H a)"
proof -
  let ?N = "\<lambda>a. hnext (H a)" and ?P = "\<lambda>a. hprev_free (H a)" and ?x = "addr ar x"
  note F = patch_fields[OF assms(5)]
  have inj: "inj_on (addr ar) (set (f1 @ x # f2))"
    by (rule inj_on_subset[OF addr_inj_on]) (use assms(3) in auto)
  have d: "distinct (map (addr ar) f1 @ ?x # map (addr ar) f2)"
    using distinct_map[of "addr ar" "f1 @ x # f2"] assms(2) inj by simp
  have nz: "0 \<notin> set (map (addr ar) f1 @ ?x # map (addr ar) f2)" using assms(3,4) by auto
  have dl: "dll ?N ?P 0 (map (addr ar) f1 @ ?x # map (addr ar) f2) 0" using assms(1) by simp
  have N': "(\<lambda>a. hnext (H' a)) = (if ?P ?x \<noteq> 0 then ?N(?P ?x := ?N ?x) else ?N)"
    "(\<lambda>a. hprev_free (H' a)) = (if ?N ?x \<noteq> 0 then ?P(?N ?x := ?P ?x) else ?P)"
    using F(3,4) by auto
  show "dll (\<lambda>a. hnext (H' a)) (\<lambda>a. hprev_free (H' a)) 0 (map (addr ar) (f1 @ f2)) 0"
    unfolding N' using dll_remove(1)[OF dl d nz] by simp
  show "fr' = nxt (map (addr ar) (f1 @ f2)) 0" using F(5) dll_remove(2)[OF dl d nz] by simp
  have "?P ?x \<noteq> 0 \<Longrightarrow> ?P ?x \<in> addr ar ` set f1" "?N ?x \<noteq> 0 \<Longrightarrow> ?N ?x \<in> addr ar ` set f2"
    using dl by (auto simp: dll_append last_map split: if_splits) (cases f2; simp)+
  then show "a \<notin> addr ar ` set (f1 @ f2) \<Longrightarrow> H' a = H a"
    using F(1-4)[of a] by (intro alloc_header_t.equality) auto
  show "hsize (H' a) = hsize (H a)" "hprev (H' a) = hprev (H a)" using F by auto
qed

subsection \<open>Replacing blocks\<close>

lemma hdrs_replace:
  assumes "hdrs S P ar p (bs1 @ ms @ bs2) l" "ms \<noteq> []" "ms' \<noteq> []" "hdrs S' P' ar (last_addr ar p bs1) ms' (bs2 = [] \<and> l)"
    "\<forall>(y, t, v) \<in> set bs1 \<union> set bs2. S' (addr ar y) = S (addr ar y)"
    "\<forall>(y, t, v) \<in> set bs1 \<union> set (tl bs2). P' (addr ar y) = P (addr ar y)"
    "bs2 \<noteq> [] \<longrightarrow> P' (addr ar (fst (hd bs2))) = last_addr ar p ms'"
  shows "hdrs S' P' ar p (bs1 @ ms' @ bs2) l"
proof -
  have "hdrs S' P' ar p bs1 False = hdrs S P ar p bs1 False" by (rule hdrs_cong) (use assms(5,6) in auto)
  then have 1: "hdrs S' P' ar p bs1 False" using assms(1,2) by (simp add: hdrs_append)
  have 2: "hdrs S' P' ar (last_addr ar p ms') bs2 l"
  proof (cases bs2)
    case (Cons b cs)
    obtain y t v where b: "b = (y, t, v)" by (cases b)
    have "hdrs S' P' ar (addr ar y) cs l = hdrs S P ar (addr ar y) cs l" by (rule hdrs_cong) (use assms(5,6) Cons in auto)
    then show ?thesis using assms(1,5,7) Cons b by (simp add: hdrs_append)
  qed simp
  have "last_addr ar (last_addr ar p bs1) ms' = last_addr ar p ms'" using assms(3) by (simp add: last_addr_def)
  then show ?thesis using 1 2 assms(3,4) by (simp add: hdrs_append)
qed

lemma arena_offsets:
  assumes "arena_shape H fr ar bs fl"
  shows "distinct (map fst bs)" "\<forall>y \<in> fst ` set bs. y < 0x200000" "\<forall>y \<in> set fl. y < 0x200000" "inj_on (addr ar) (fst ` set bs)"
    "\<forall>y < 0x200000. addr ar y \<noteq> 0"
proof -
  have l: "lay 32 bs 0x200000" using assms by (simp add: arena_shape_def)
  show "distinct (map fst bs)" by (rule lay_distinct[OF l])
  show b: "\<forall>y \<in> fst ` set bs. y < 0x200000" using lay_less[OF l] by auto
  have "set fl \<subseteq> fst ` set bs" using assms by (force simp: arena_shape_def)
  then show "\<forall>y \<in> set fl. y < 0x200000" using b by blast
  show "inj_on (addr ar) (fst ` set bs)" by (rule inj_on_subset[OF addr_inj_on]) (use b in blast)
  show "\<forall>y < 0x200000. addr ar y \<noteq> 0" using assms by (simp add: arena_shape_def)
qed

text \<open>An operation that replaces the blocks \<open>ms\<close> by \<open>ms'\<close> and leaves the headers of the others, but for the previous
  link of the block that follows.\<close>

lemma arena_replace:
  assumes rep: "arena_shape H fr ar (bs1 @ ms @ bs2) fl" and ne: "ms \<noteq> []" "ms' \<noteq> []"
    and lay: "\<forall>a b. lay a ms b \<longrightarrow> lay a ms' b"
    and new: "hdrs (\<lambda>a. hsize (H' a)) (\<lambda>a. hprev (H' a)) ar (last_addr ar 0 bs1) ms' (bs2 = [])"
    and same: "\<forall>(y, t, v) \<in> set bs1 \<union> set bs2. hsize (H' (addr ar y)) = hsize (H (addr ar y)) \<and> (v \<longrightarrow> hnext (H' (addr ar y)) = hnext (H (addr ar y)))"
    and prev: "\<forall>(y, t, v) \<in> set bs1 \<union> set (tl bs2). hprev (H' (addr ar y)) = hprev (H (addr ar y))"
      "bs2 \<noteq> [] \<longrightarrow> hprev (H' (addr ar (fst (hd bs2)))) = last_addr ar 0 ms'"
    and used: "\<forall>(y, t, v) \<in> set ms'. v \<longrightarrow> hnext (H' (addr ar y)) = ar"
    and fl: "dll (\<lambda>a. hnext (H' a)) (\<lambda>a. hprev_free (H' a)) 0 (map (addr ar) fl') 0" "fr' = nxt (map (addr ar) fl') 0" "distinct fl'"
      "set fl' = {x. \<exists>s. (x, s, False) \<in> set (bs1 @ ms' @ bs2)}"
  shows "arena_shape H' fr' ar (bs1 @ ms' @ bs2) fl'"
proof -
  have r: "lay 32 (bs1 @ ms @ bs2) 0x200000" "hdrs (\<lambda>a. hsize (H a)) (\<lambda>a. hprev (H a)) ar 0 (bs1 @ ms @ bs2) True"
    "\<forall>x s. (x, s, True) \<in> set (bs1 @ ms @ bs2) \<longrightarrow> hnext (H (addr ar x)) = ar" "\<forall>x < 0x200000. addr ar x \<noteq> 0"
    using rep by (simp_all add: arena_shape_def)
  have "lay 32 (bs1 @ ms' @ bs2) 0x200000" using r(1) lay unfolding lay_append by blast
  moreover have "hdrs (\<lambda>a. hsize (H' a)) (\<lambda>a. hprev (H' a)) ar 0 (bs1 @ ms' @ bs2) True"
    by (rule hdrs_replace[OF r(2) ne]) (use new same prev in auto)
  moreover have "hnext (H' (addr ar x)) = ar" if m: "(x, s, True) \<in> set (bs1 @ ms' @ bs2)" for x s
  proof (cases "(x, s, True) \<in> set ms'")
    case True then show ?thesis using used by auto
  next
    case False
    then have i: "(x, s, True) \<in> set bs1 \<union> set bs2" using m by auto
    then have "hnext (H' (addr ar x)) = hnext (H (addr ar x))" using same by fastforce
    moreover have "hnext (H (addr ar x)) = ar" using r(3) i by auto
    ultimately show ?thesis by simp
  qed
  ultimately show ?thesis unfolding arena_shape_def using fl r(4) by auto
qed

subsection \<open>Allocation from a free block\<close>

lemma coalesced_append:
  "coalesced (as @ bs) \<longleftrightarrow> coalesced as \<and> coalesced bs \<and> (as \<noteq> [] \<longrightarrow> bs \<noteq> [] \<longrightarrow> snd (snd (last as)) \<or> snd (snd (hd bs)))"
proof (induction as)
  case (Cons a as)
  then show ?case by (cases a; cases as; cases bs) auto
qed simp

text \<open>What an arena gives about one of its blocks.\<close>

lemma arena_block:
  assumes "arena_shape H fr ar (bs1 @ (x, s, u) # bs2) fl"
  shows "hsize (H (addr ar x)) = enc s u (bs2 = [])" "hprev (H (addr ar x)) = last_addr ar 0 bs1"
    "bs2 \<noteq> [] \<longrightarrow> fst (hd bs2) = x + s" "32 \<le> s" "16 dvd s" "32 \<le> x" "x + s \<le> 0x200000" "x \<notin> fst ` set (bs1 @ bs2)"
    "\<forall>y \<in> fst ` set (bs1 @ bs2). y < x \<or> x + s \<le> y" "\<forall>y \<in> fst ` (set bs1 \<union> set (tl bs2)). y < x \<or> x + s < y"
    "bs2 \<noteq> [] \<longrightarrow> hprev (H (addr ar (x + s))) = addr ar x" "bs2 \<noteq> [] \<longrightarrow> x + s < 0x200000"
proof -
  let ?bs = "bs1 @ (x, s, u) # bs2"
  have l: "lay 32 ?bs 0x200000" using assms by (simp add: arena_shape_def)
  then obtain m where m: "lay 32 bs1 m" "lay m ((x, s, u) # bs2) 0x200000" unfolding lay_append by blast
  show "hsize (H (addr ar x)) = enc s u (bs2 = [])" "hprev (H (addr ar x)) = last_addr ar 0 bs1"
    using assms by (simp_all add: arena_shape_def hdrs_append)
  show n: "bs2 \<noteq> [] \<longrightarrow> fst (hd bs2) = x + s" using m(2) by (cases bs2) auto
  show "32 \<le> s" "16 dvd s" "32 \<le> x" "x + s \<le> 0x200000" using lay_bounds[OF l] by auto
  show "x \<notin> fst ` set (bs1 @ bs2)" using arena_offsets(1)[OF assms] by auto
  have "y < x" if "y \<in> fst ` set bs1" for y using lay_less[OF m(1)] m(2) that by auto
  moreover have "x + s \<le> y" if "y \<in> fst ` set bs2" for y using lay_less[of "x + s" bs2] m(2) that by auto
  moreover have "x + s < y" if "y \<in> fst ` set (tl bs2)" for y
  proof (cases bs2)
    case (Cons b cs)
    then show ?thesis using lay_less[of "x + s + fst (snd b)" cs "0x200000" y] m(2) that by (cases b) fastforce
  qed (use that in simp)
  ultimately show "\<forall>y \<in> fst ` set (bs1 @ bs2). y < x \<or> x + s \<le> y"
    "\<forall>y \<in> fst ` (set bs1 \<union> set (tl bs2)). y < x \<or> x + s < y" unfolding set_append image_Un by blast+
  have "bs2 \<noteq> [] \<longrightarrow> hprev (H (addr ar (fst (hd bs2)))) = addr ar x"
    using assms by (cases bs2) (auto simp: arena_shape_def hdrs_append)
  then show "bs2 \<noteq> [] \<longrightarrow> hprev (H (addr ar (x + s))) = addr ar x" using n by simp
  have "bs2 \<noteq> [] \<longrightarrow> fst (hd bs2) < 0x200000" using arena_offsets(2)[OF assms] by auto
  then show "bs2 \<noteq> [] \<longrightarrow> x + s < 0x200000" using n by simp
qed

lemma other_addr:
  assumes "arena_shape H fr ar (bs1 @ (x, s, u) # bs2) fl" "(y, t, v) \<in> set (bs1 @ bs2)"
  shows "addr ar y \<noteq> addr ar x"
proof -
  have "y \<in> fst ` set (bs1 @ bs2)" using assms(2) by force
  then have "y \<noteq> x" "y < 0x200000" "x < 0x200000" using arena_block(8)[OF assms(1)] arena_offsets(2)[OF assms(1)] by auto
  then show ?thesis using addr_inj[of y x ar] by auto
qed

lemma tl_addr:
  assumes "arena_shape H fr ar (bs1 @ (x, s, u) # bs2) fl" "(y, t, v) \<in> set bs1 \<union> set (tl bs2)"
  shows "addr ar y \<noteq> addr ar (x + s)"
proof -
  note B = arena_block[OF assms(1)]
  have "y \<in> fst ` (set bs1 \<union> set (tl bs2))" "y \<in> fst ` set (bs1 @ (x, s, u) # bs2)"
    using assms(2) list.set_sel(2)[of bs2] by (cases bs2; force)+
  then have "y \<noteq> x + s" "y < 0x200000" "x + s \<le> 0x200000" using bspec[OF B(10), of y] B(7) bspec[OF arena_offsets(2)[OF assms(1)], of y] by auto
  then show ?thesis using addr_inj[of y "x + s" ar] by (simp del: of_nat_add)
qed

lemma free_block:
  assumes "arena_shape H fr ar (bs1 @ (x, s, False) # bs2) fl"
  shows "x \<in> set fl" "dll (\<lambda>a. hnext (H a)) (\<lambda>a. hprev_free (H a)) 0 (map (addr ar) fl) 0" "fr = nxt (map (addr ar) fl) 0" "distinct fl"
    "set fl = insert x {y. \<exists>t. (y, t, False) \<in> set (bs1 @ bs2)}" "x \<notin> {y. \<exists>t. (y, t, False) \<in> set (bs1 @ bs2)}"
proof -
  show "x \<notin> {y. \<exists>t. (y, t, False) \<in> set (bs1 @ bs2)}" using arena_block(8)[OF assms] by force
qed (use assms in \<open>auto simp: arena_shape_def\<close>)

lemma used_not_listed:
  assumes "arena_shape H fr ar bs fl" "(y, t, True) \<in> set bs"
  shows "addr ar y \<notin> addr ar ` set fl"
proof -
  note O = arena_offsets[OF assms(1)]
  have fl: "set fl = {x. \<exists>s. (x, s, False) \<in> set bs}" using assms(1) by (simp add: arena_shape_def)
  have "y \<notin> set fl"
  proof
    assume "y \<in> set fl"
    then obtain s where "(y, s, False) \<in> set bs" using fl by blast
    then show False using assms(2) O(1) by (force simp: distinct_map inj_on_def)
  qed
  moreover have "y < 0x200000" "set fl \<subseteq> {..< 0x200000}" using O(2,3) assms(2) by force+
  ultimately show ?thesis using inj_on_image_mem_iff[OF addr_inj_on, of y "set fl" ar] by blast
qed

lemma alloc_whole:
  assumes rep: "arena_shape H fr ar (bs1 @ (x, s, False) # bs2) fl" and n: "16 dvd n" "n \<le> s" "s - n \<le> 32"
  obtains H' fr' fl' where "alloc ar fr (addr ar x) (of_nat n) H = Inr (H', fr')"
    "arena_shape H' fr' ar (bs1 @ (x, s, True) # bs2) fl'" "\<forall>a. a \<notin> addr ar ` {..< 0x200000} \<longrightarrow> H' a = H a"
proof -
  note B = arena_block[OF rep] and L = free_block[OF rep] and O = arena_offsets[OF rep]
  obtain f1 f2 where fl: "fl = f1 @ x # f2" using L(1) by (meson split_list)
  let ?h = "addr ar x" and ?l = "bs2 = []"
  define H2 where "H2 = set_hsize ?h (enc s True ?l) H"
  obtain H3 fr' where p: "patch_list fr ?h H2 = (H3, fr')" by fastforce
  define H' where "H' = set_hnext ?h ar H3"
  have E: "GET_SIZE (enc s False ?l) = of_nat s" "enc s False ?l AND 2 = (if ?l then 2 else 0)" "\<not> IS_USED (enc s False ?l)"
    using enc_simps[OF B(5), of False ?l] B(7) by auto
  have un: "unat (of_nat s :: u64) = s" "unat (of_nat n :: u64) = n" using B(7) n by (simp_all add: unat_of_nat take_bit_nat_eq_self)
  then have "\<not> (of_nat s :: u64) < of_nat n" "unat (of_nat s - of_nat n :: u64) = s - n" using n(2)
    by (simp_all add: word_less_nat_alt unat_sub word_le_nat_alt)
  moreover then have "\<not> SIZEOF_HEADER < (of_nat s - of_nat n :: u64)" using n(3)
    by (simp add: word_less_nat_alt SIZEOF_HEADER_def)
  moreover have "of_nat s OR (if ?l then 2 else 0) = enc s True ?l" by (simp add: enc_def)
  ultimately have al: "alloc ar fr ?h (of_nat n) H = Inr (H', fr')"
    using B(1) E p by (simp add: alloc_def Let_def H2_def H'_def)
  have d2: "dll (\<lambda>a. hnext (H2 a)) (\<lambda>a. hprev_free (H2 a)) 0 (map (addr ar) (f1 @ x # f2)) 0"
    using L(2) by (simp add: H2_def fl)
  have dist: "distinct (f1 @ x # f2)" "\<forall>y \<in> set (f1 @ x # f2). y < 0x200000" using L(4) O(3) fl by auto
  note D = patch_dll[OF d2 dist O(5) p[unfolded L(3) fl]]
  have xl: "?h \<notin> set (map (addr ar) (f1 @ f2))" using dist inj_on_image_mem_iff[OF addr_inj_on, of x "set (f1 @ f2)" ar] by auto
  have out: "H' a = H a" if "a \<notin> addr ar ` set (f1 @ f2)" "a \<noteq> ?h" for a
    using D(3)[OF that(1)] that(2) by (simp add: H'_def H2_def set_defs)
  have "set fl \<subseteq> {..< 0x200000}" "x < 0x200000" using O(3) L(1) by auto
  then have frame: "\<forall>a. a \<notin> addr ar ` {..< 0x200000} \<longrightarrow> H' a = H a" using out fl by fastforce
  note ot = other_addr[OF rep]
  have us: "addr ar y \<notin> addr ar ` set (f1 @ f2)" if "(y, t, True) \<in> set (bs1 @ bs2)" for y t
    using used_not_listed[OF rep, of y t] that fl by auto
  have S: "hsize (H' a) = (if a = ?h then enc s True ?l else hsize (H a))" "hprev (H' a) = hprev (H a)" for a
    using D(4,5)[of a] by (simp_all add: H'_def H2_def)
  have "arena_shape H' fr' ar (bs1 @ [(x, s, True)] @ bs2) (f1 @ f2)"
  proof (rule arena_replace[where H = H and fr = fr and ms = "[(x, s, False)]" and fl = fl])
    show "arena_shape H fr ar (bs1 @ [(x, s, False)] @ bs2) fl" using rep by simp
    show "hdrs (\<lambda>a. hsize (H' a)) (\<lambda>a. hprev (H' a)) ar (last_addr ar 0 bs1) [(x, s, True)] (bs2 = [])"
      using S B(2) by simp
    show "\<forall>(y, t, v) \<in> set bs1 \<union> set bs2. hsize (H' (addr ar y)) = hsize (H (addr ar y)) \<and> (v \<longrightarrow> hnext (H' (addr ar y)) = hnext (H (addr ar y)))"
    proof (clarify, intro conjI impI)
      fix y t v assume m: "(y, t, v) \<in> set bs1 \<union> set bs2"
      then show "hsize (H' (addr ar y)) = hsize (H (addr ar y))" using S(1) ot[of y t v] by simp
      assume v then show "hnext (H' (addr ar y)) = hnext (H (addr ar y))" using m out us[of y t] ot[of y t True] by auto
    qed
    show "\<forall>(y, t, v) \<in> set bs1 \<union> set (tl bs2). hprev (H' (addr ar y)) = hprev (H (addr ar y))" using S(2) by simp
    show "bs2 \<noteq> [] \<longrightarrow> hprev (H' (addr ar (fst (hd bs2)))) = last_addr ar 0 [(x, s, True)]"
      using S(2) rep by (cases bs2) (auto simp: arena_shape_def hdrs_append last_addr_def)
    show "\<forall>(y, t, v) \<in> set [(x, s, True)]. v \<longrightarrow> hnext (H' (addr ar y)) = ar" by (simp add: H'_def)
    have "dll (\<lambda>a. hnext (H' a)) (\<lambda>a. hprev_free (H' a)) 0 (map (addr ar) (f1 @ f2)) 0 = dll (\<lambda>a. hnext (H3 a)) (\<lambda>a. hprev_free (H3 a)) 0 (map (addr ar) (f1 @ f2)) 0"
      by (rule dll_cong) (use xl in \<open>auto simp: H'_def\<close>)
    then show "dll (\<lambda>a. hnext (H' a)) (\<lambda>a. hprev_free (H' a)) 0 (map (addr ar) (f1 @ f2)) 0" using D(1) by simp
    show "fr' = nxt (map (addr ar) (f1 @ f2)) 0" by (rule D(2))
    show "distinct (f1 @ f2)" using dist(1) by simp
    have "x \<notin> set (f1 @ f2)" "set (f1 @ f2) \<union> {x} = {x} \<union> {y. \<exists>t. (y, t, False) \<in> set (bs1 @ bs2)}" using dist(1) L(5) fl by auto
    moreover have "x \<notin> {y. \<exists>t. (y, t, False) \<in> set (bs1 @ bs2)}" using B(8) by force
    ultimately show "set (f1 @ f2) = {y. \<exists>t. (y, t, False) \<in> set (bs1 @ [(x, s, True)] @ bs2)}" by auto
  qed simp_all
  then show thesis using that al frame by simp
qed

text \<open>The memory after \<^verbatim>\<open>alloc\<close> has split a block: its fields by address and its free list.\<close>

lemma alloc_split_fields:
  assumes rep: "arena_shape H fr ar (bs1 @ (x, s, False) # bs2) fl" and n: "16 dvd n" "32 \<le> n" "n + 32 < s"
  obtains H' fr' f1 f2 where "alloc ar fr (addr ar x) (of_nat n) H = Inr (H', fr')" "fl = f1 @ x # f2"
    "\<forall>a. hsize (H' a) = (if a = addr ar x then of_nat n else if a = addr ar (x + n) then enc (s - n) False (bs2 = []) else hsize (H a))"
    "\<forall>a. hprev (H' a) = (if bs2 \<noteq> [] \<and> a = addr ar (x + s) then addr ar (x + n) else if a = addr ar (x + n) then addr ar x else hprev (H a))"
    "\<forall>a. a \<notin> addr ar ` ({x, x + n} \<union> set fl) \<longrightarrow> hnext (H' a) = hnext (H a) \<and> hprev_free (H' a) = hprev_free (H a)"
    "hnext (H' (addr ar x)) = ar" "distinct (f1 @ (x + n) # f2)"
    "dll (\<lambda>a. hnext (H' a)) (\<lambda>a. hprev_free (H' a)) 0 (map (addr ar) (f1 @ (x + n) # f2)) 0" "fr' = nxt (map (addr ar) (f1 @ (x + n) # f2)) 0"
proof -
  note B = arena_block[OF rep] and L = free_block[OF rep] and O = arena_offsets[OF rep]
  obtain f1 f2 where fl: "fl = f1 @ x # f2" using L(1) by (meson split_list)
  let ?h = "addr ar x" and ?l = "bs2 = []" and ?sp = "addr ar (x + n)" and ?f = "f1 @ x # (x + n) # f2"
  have s16: "16 dvd s - n" using B(5) n(1) by simp
  have un: "unat (of_nat s :: u64) = s" "unat (of_nat n :: u64) = n" using B(7) n by (simp_all add: unat_of_nat take_bit_nat_eq_self)
  have sub: "(of_nat s - of_nat n :: u64) = of_nat (s - n)" using n by simp
  have E: "GET_SIZE (enc s False ?l) = of_nat s" "IS_LAST (enc s False ?l) = ?l" "\<not> IS_USED (enc s False ?l)"
    using enc_simps[OF B(5), of False ?l] B(7) by auto
  have En: "GET_SIZE (of_nat n) = of_nat n" "of_nat n AND 2 = (0 :: u64)"
    using enc_simps[OF n(1), of True False] B(7) n by (simp_all add: enc_def)
  have sp: "?sp = ?h + of_nat n" "?h + of_nat s = addr ar (x + s)" by (simp_all add: ac_simps)
  have ne: "?h + of_nat n \<noteq> ?h" using un n(2) by auto
  define H1 where "H1 = split_block ?h (of_nat n) H"
  note F = split_fields[OF ne, of H, folded H1_def sp(1), unfolded B(1) E sub sp(2)]
  define H2 where "H2 = set_hsize ?h (of_nat n) H1"
  obtain H3 fr' where p: "patch_list fr ?h H2 = (H3, fr')" by fastforce
  define H' where "H' = set_hnext ?h ar H3"
  have "\<not> (of_nat s :: u64) < of_nat n" "SIZEOF_HEADER < (of_nat s - of_nat n :: u64)" using n B(7)
    by (simp_all add: word_less_nat_alt unat_of_nat take_bit_nat_eq_self sub SIZEOF_HEADER_def del: of_nat_diff)
  then have al: "alloc ar fr ?h (of_nat n) H = Inr (H', fr')"
    using B(1) E En F(1)[of ?h] p by (simp add: alloc_def Let_def H1_def H2_def H'_def)
  have xn: "x + n \<notin> fst ` set (bs1 @ bs2)" "x + n < 0x200000" "x < 0x200000" "x + n \<noteq> x"
    using B(7) n bspec[OF B(9), of "x + n"] by linarith+
  have nf: "x + n \<notin> set fl" using L(5) xn by (force simp: image_iff)
  have dist: "distinct ?f" "\<forall>y \<in> set ?f. y < 0x200000" "distinct (f1 @ x # f2)" using L(4) O(3) fl nf xn by auto
  have inj: "inj_on (addr ar) (set ?f)" by (rule inj_on_subset[OF addr_inj_on]) (use dist(2) in auto)
  then have dd: "distinct (map (addr ar) ?f)" using dist(1) distinct_map[of "addr ar" ?f] by blast
  have "dll (\<lambda>a. hnext (H1 a)) (\<lambda>a. hprev_free (H1 a)) 0 (map (addr ar) f1 @ ?h # ?sp # map (addr ar) f2) 0"
  proof -
    let ?N = "\<lambda>a. hnext (H a)" and ?P = "\<lambda>a. hprev_free (H a)"
    have N: "(\<lambda>a. hnext (H1 a)) = ?N(?sp := ?N ?h, ?h := ?sp)" "(\<lambda>a. hprev_free (H1 a)) = (if ?N ?h \<noteq> 0 then ?P(?sp := ?h, ?N ?h := ?sp) else ?P(?sp := ?h))"
      using F(3,4) by auto
    show ?thesis unfolding N by (rule dll_insert) (use L(2) fl dd O(5) dist(2) xn in auto)
  qed
  then have d2: "dll (\<lambda>a. hnext (H2 a)) (\<lambda>a. hprev_free (H2 a)) 0 (map (addr ar) ?f) 0" by (simp add: H2_def)
  have "nxt (map (addr ar) ?f) 0 = fr" using L(3) fl by (cases f1) simp_all
  then have "patch_list (nxt (map (addr ar) ?f) 0) ?h H2 = (H3, fr')" using p by simp
  note D = patch_dll[OF d2 dist(1,2) O(5) this]
  have xl: "?h \<notin> set (map (addr ar) (f1 @ (x + n) # f2))" using dd by auto
  have S: "hsize (H' a) = (if a = ?h then of_nat n else if a = ?sp then enc (s - n) False ?l else hsize (H a))"
    "hprev (H' a) = (if bs2 \<noteq> [] \<and> a = addr ar (x + s) then ?sp else if a = ?sp then ?h else hprev (H a))" for a
    using D(4,5)[of a] F(1,2)[of a] by (simp_all add: H'_def H2_def enc_def or.assoc)
  have "hnext (H ?h) = 0 \<or> hnext (H ?h) \<in> addr ar ` set fl" using L(2) by (cases f2) (auto simp: fl dll_append)
  then have out: "hnext (H' a) = hnext (H a) \<and> hprev_free (H' a) = hprev_free (H a)" if "a \<notin> addr ar ` ({x, x + n} \<union> set fl)" for a
  proof -
    have "H3 a = H2 a" by (rule D(3)) (use that fl in auto)
    then show ?thesis using that F(3,4)[of a] \<open>hnext (H ?h) = 0 \<or> _\<close> by (auto simp: H'_def H2_def)
  qed
  have "dll (\<lambda>a. hnext (H' a)) (\<lambda>a. hprev_free (H' a)) 0 (map (addr ar) (f1 @ (x + n) # f2)) 0 = dll (\<lambda>a. hnext (H3 a)) (\<lambda>a. hprev_free (H3 a)) 0 (map (addr ar) (f1 @ (x + n) # f2)) 0"
    by (rule dll_cong) (use xl in \<open>auto simp: H'_def\<close>)
  moreover have "hnext (H' ?h) = ar" "distinct (f1 @ (x + n) # f2)" using dist(1) by (simp_all add: H'_def)
  ultimately show thesis using that[OF al fl] S out D(1,2) by presburger
qed

lemma alloc_split:
  assumes rep: "arena_shape H fr ar (bs1 @ (x, s, False) # bs2) fl" and n: "16 dvd n" "32 \<le> n" "n + 32 < s"
  obtains H' fr' fl' where "alloc ar fr (addr ar x) (of_nat n) H = Inr (H', fr')"
    "arena_shape H' fr' ar (bs1 @ (x, n, True) # (x + n, s - n, False) # bs2) fl'" "\<forall>a. a \<notin> addr ar ` {..< 0x200000} \<longrightarrow> H' a = H a"
proof -
  note B = arena_block[OF rep] and L = free_block[OF rep] and O = arena_offsets[OF rep] and [simp del] = of_nat_add
  obtain H' fr' f1 f2 where al: "alloc ar fr (addr ar x) (of_nat n) H = Inr (H', fr')" and fl: "fl = f1 @ x # f2"
    and S: "\<forall>a. hsize (H' a) = (if a = addr ar x then of_nat n else if a = addr ar (x + n) then enc (s - n) False (bs2 = []) else hsize (H a))"
    "\<forall>a. hprev (H' a) = (if bs2 \<noteq> [] \<and> a = addr ar (x + s) then addr ar (x + n) else if a = addr ar (x + n) then addr ar x else hprev (H a))"
    and out: "\<forall>a. a \<notin> addr ar ` ({x, x + n} \<union> set fl) \<longrightarrow> hnext (H' a) = hnext (H a) \<and> hprev_free (H' a) = hprev_free (H a)"
    and own: "hnext (H' (addr ar x)) = ar"
    and D: "distinct (f1 @ (x + n) # f2)" "dll (\<lambda>a. hnext (H' a)) (\<lambda>a. hprev_free (H' a)) 0 (map (addr ar) (f1 @ (x + n) # f2)) 0"
      "fr' = nxt (map (addr ar) (f1 @ (x + n) # f2)) 0"
    by (rule alloc_split_fields[OF assms])
  have b: "x < 0x200000" "x + n < 0x200000" "bs2 \<noteq> [] \<Longrightarrow> x + s < 0x200000" "x + s \<noteq> x" "x + s \<noteq> x + n"
    using n B(4,7) B(3) O(2) by (linarith, linarith, cases bs2, auto)
  have ot: "y < 0x200000" "y \<noteq> x" "y \<noteq> x + n" if "(y, t, v) \<in> set (bs1 @ bs2)" for y t v
  proof -
    have "y \<in> fst ` set (bs1 @ bs2)" using that by force
    then have "y < x \<or> x + s \<le> y" "y < 0x200000" "y \<noteq> x" using B(8,9) O(2) by auto
    then show "y < 0x200000" "y \<noteq> x" "y \<noteq> x + n" using n by linarith+
  qed
  have eq: "(of_nat y :: u64) = of_nat z \<longleftrightarrow> y = z" if "y \<le> 0x200000" "z \<le> 0x200000" for y z using addr_inj[of y z 0] that by simp
  have sz: "enc n True False = of_nat n" by (simp add: enc_def)
  have frame: "H' a = H a" if "a \<notin> addr ar ` {..< 0x200000}" for a
  proof -
    have n: "a \<noteq> addr ar y" if "y < 0x200000" for y using that \<open>a \<notin> _\<close> by blast
    then have "a \<notin> addr ar ` ({x, x + n} \<union> set fl)" using b O(3) by blast
    then show ?thesis using S out n[OF b(1)] n[OF b(2)] n[OF b(3)] by (intro alloc_header_t.equality) auto
  qed
  have "arena_shape H' fr' ar (bs1 @ [(x, n, True), (x + n, s - n, False)] @ bs2) (f1 @ (x + n) # f2)"
  proof (rule arena_replace[where H = H and fr = fr and ms = "[(x, s, False)]" and fl = fl])
    show "arena_shape H fr ar (bs1 @ [(x, s, False)] @ bs2) fl" using rep by simp
    show "\<forall>a b. lay a [(x, s, False)] b \<longrightarrow> lay a [(x, n, True), (x + n, s - n, False)] b" using n B(5) by auto
    show "hdrs (\<lambda>a. hsize (H' a)) (\<lambda>a. hprev (H' a)) ar (last_addr ar 0 bs1) [(x, n, True), (x + n, s - n, False)] (bs2 = [])"
      using S B(2,7) b n by (simp add: eq sz)
    show "\<forall>(y, t, v) \<in> set bs1 \<union> set bs2. hsize (H' (addr ar y)) = hsize (H (addr ar y)) \<and> (v \<longrightarrow> hnext (H' (addr ar y)) = hnext (H (addr ar y)))"
    proof (clarify, intro conjI impI)
      fix y t v assume m: "(y, t, v) \<in> set bs1 \<union> set bs2"
      then show "hsize (H' (addr ar y)) = hsize (H (addr ar y))" using S(1) ot[of y t v] b by (simp add: eq)
      assume v then have "addr ar y \<notin> addr ar ` ({x, x + n} \<union> set fl)"
        using used_not_listed[OF rep, of y t] m ot[of y t v] b eq[of y] by auto
      then show "hnext (H' (addr ar y)) = hnext (H (addr ar y))" using out by blast
    qed
    show "\<forall>(y, t, v) \<in> set bs1 \<union> set (tl bs2). hprev (H' (addr ar y)) = hprev (H (addr ar y))"
    proof clarify
      fix y t v assume m: "(y, t, v) \<in> set bs1 \<union> set (tl bs2)"
      then have "(y, t, v) \<in> set (bs1 @ bs2)" "y \<in> fst ` (set bs1 \<union> set (tl bs2))" using list.set_sel(2)[of bs2] by (cases bs2; force)+
      then have "y \<noteq> x + s" "y < 0x200000" "y \<noteq> x + n" using bspec[OF B(10), of y] ot[of y t v] by auto
      then show "hprev (H' (addr ar y)) = hprev (H (addr ar y))" using S(2) b B(7) by (simp add: eq)
    qed
    show "bs2 \<noteq> [] \<longrightarrow> hprev (H' (addr ar (fst (hd bs2)))) = last_addr ar 0 [(x, n, True), (x + n, s - n, False)]"
      using S(2) B(3) by (auto simp: last_addr_def)
    show "\<forall>(y, t, v) \<in> set [(x, n, True), (x + n, s - n, False)]. v \<longrightarrow> hnext (H' (addr ar y)) = ar" using own by simp
    show "set (f1 @ (x + n) # f2) = {y. \<exists>t. (y, t, False) \<in> set (bs1 @ [(x, n, True), (x + n, s - n, False)] @ bs2)}" 
    proof -
      let ?F = "{y. \<exists>t. (y, t, False) \<in> set (bs1 @ bs2)}"
      have "x \<notin> ?F" "x \<notin> set (f1 @ f2)" "insert x (set (f1 @ f2)) = insert x ?F" using B(8) L(4,5) fl by (force, simp_all)
      then have "set (f1 @ f2) = ?F" using insert_ident by metis
      then show ?thesis by auto
    qed
  qed (use D in simp_all)
  then show thesis using that al frame by simp
qed

subsection \<open>Freeing a block\<close>

text \<open>The block that follows: \<open>0\<close> at the end of the arena.\<close>

definition next_of :: "u64 \<Rightarrow> blk list \<Rightarrow> u64" where
  "next_of ar bs2 = (if bs2 = [] then 0 else addr ar (fst (hd bs2)))"

lemma next_of_get_next:
  assumes "arena_shape H fr ar (bs1 @ (x, s, u) # bs2) fl" "hsize (H' (addr ar x)) = enc s v (bs2 = [])"
  shows "get_next (addr ar x) H' = next_of ar bs2"
proof -
  note B = arena_block[OF assms(1)]
  have E: "GET_SIZE (enc s v (bs2 = [])) = of_nat s" "IS_LAST (enc s v (bs2 = [])) \<longleftrightarrow> bs2 = []"
    using enc_simps[OF B(5), of v "bs2 = []"] B(7) by auto
  then show "get_next (addr ar x) H' = next_of ar bs2"
    using B(3) by (cases "bs2 = []") (simp_all add: get_next_def assms(2) next_of_def)
qed

lemma next_of_addr:
  assumes "arena_shape H fr ar (bs1 @ (x, s, u) # bs2) fl"
  shows "next_of ar bs2 \<noteq> 0 \<longleftrightarrow> bs2 \<noteq> []" "bs2 \<noteq> [] \<longrightarrow> next_of ar bs2 = addr ar (x + s)"
  using arena_block(3,12)[OF assms] arena_offsets(5)[OF assms] by (auto simp: next_of_def simp del: of_nat_add)

lemma free_push:
  assumes rep: "arena_shape H fr ar (bs1 @ (x, s, True) # bs2) fl" and H1: "H1 = set_hsize (addr ar x) (enc s False (bs2 = [])) H"
    and prev: "\<not> (hprev (H1 (addr ar x)) \<noteq> 0 \<and> IS_FREE (hsize (H1 (hprev (H1 (addr ar x))))))"
  obtains H' where "merge_prev fr (addr ar x) nx H1 = (addr ar x, H', addr ar x)"
    "arena_shape H' (addr ar x) ar (bs1 @ (x, s, False) # bs2) (x # fl)" "\<forall>a. a \<notin> addr ar ` {..< 0x200000} \<longrightarrow> H' a = H a"
proof -
  note B = arena_block[OF rep] and O = arena_offsets[OF rep] and U = used_not_listed[OF rep]
  let ?h = "addr ar x" and ?fl = "map (addr ar) fl"
  have L: "dll (\<lambda>a. hnext (H a)) (\<lambda>a. hprev_free (H a)) 0 ?fl 0" "fr = nxt ?fl 0" "distinct fl"
    "set fl = {y. \<exists>t. (y, t, False) \<in> set (bs1 @ bs2)}" using rep by (auto simp: arena_shape_def)
  define H' where "H' = (let M = set_hpfree ?h 0 (set_hnext ?h fr H1) in if fr \<noteq> 0 then set_hpfree fr ?h M else M)"
  have mp: "merge_prev fr ?h nx H1 = (?h, H', ?h)" unfolding merge_prev_def Let_def H'_def if_not_P[OF prev] by (rule refl)
  have F: "hsize (H' a) = (if a = ?h then enc s False (bs2 = []) else hsize (H a))" "hprev (H' a) = hprev (H a)"
    "hnext (H' a) = (if a = ?h then fr else hnext (H a))" "hprev_free (H' a) = (if fr \<noteq> 0 \<and> a = fr then ?h else if a = ?h then 0 else hprev_free (H a))" for a
    by (simp_all add: H'_def H1 Let_def)
  have hl: "?h \<notin> addr ar ` set fl" using U[of x s] by simp
  have inj: "inj_on (addr ar) (set fl)" by (rule inj_on_subset[OF addr_inj_on]) (use O(3) in auto)
  have N: "(\<lambda>a. hnext (H' a)) = (\<lambda>a. hnext (H a))(?h := fr)"
    "(\<lambda>a. hprev_free (H' a)) = (if fr \<noteq> 0 then (\<lambda>a. hprev_free (H a))(?h := 0, fr := ?h) else (\<lambda>a. hprev_free (H a))(?h := 0))"
    using F(3,4) by auto
  have d: "dll (\<lambda>a. hnext (H' a)) (\<lambda>a. hprev_free (H' a)) 0 (?h # ?fl) 0"
    unfolding N by (rule dll_push[OF L(1) _ _ _ L(2)]) (use L(3) inj O(3,5) hl in \<open>auto simp: distinct_map\<close>)
  have "fr = 0 \<or> fr \<in> addr ar ` set fl" using L(2) by (cases fl) auto
  then have fr: "fr = 0 \<or> (\<exists>y < 0x200000. fr = addr ar y)" using O(3) by auto
  have xb: "x < 0x200000" using O(2) by auto
  have frame: "H' a = H a" if "a \<notin> addr ar ` {..< 0x200000}" for a
  proof -
    have "a \<noteq> ?h" "fr = 0 \<or> a \<noteq> fr" using that xb fr by auto
    then show ?thesis using F[of a] by (intro alloc_header_t.equality) auto
  qed
  note ot = other_addr[OF rep]
  have "arena_shape H' ?h ar (bs1 @ [(x, s, False)] @ bs2) (x # fl)"
  proof (rule arena_replace[where H = H and fr = fr and ms = "[(x, s, True)]" and fl = fl])
    show "arena_shape H fr ar (bs1 @ [(x, s, True)] @ bs2) fl" using rep by simp
    show "hdrs (\<lambda>a. hsize (H' a)) (\<lambda>a. hprev (H' a)) ar (last_addr ar 0 bs1) [(x, s, False)] (bs2 = [])" using F B(2) by simp
    show "\<forall>(y, t, v) \<in> set bs1 \<union> set bs2. hsize (H' (addr ar y)) = hsize (H (addr ar y)) \<and> (v \<longrightarrow> hnext (H' (addr ar y)) = hnext (H (addr ar y)))"
    proof clarify
      fix y t v assume "(y, t, v) \<in> set bs1 \<union> set bs2"
      then have "addr ar y \<noteq> ?h" using ot[of y t v] by simp
      then show "hsize (H' (addr ar y)) = hsize (H (addr ar y)) \<and> (v \<longrightarrow> hnext (H' (addr ar y)) = hnext (H (addr ar y)))"
        using F(1,3) by simp
    qed
    show "\<forall>(y, t, v) \<in> set bs1 \<union> set (tl bs2). hprev (H' (addr ar y)) = hprev (H (addr ar y))" using F(2) by simp
    show "bs2 \<noteq> [] \<longrightarrow> hprev (H' (addr ar (fst (hd bs2)))) = last_addr ar 0 [(x, s, False)]"
      using F(2) B(3,11) by (simp add: last_addr_def)
    show "set (x # fl) = {y. \<exists>t. (y, t, False) \<in> set (bs1 @ [(x, s, False)] @ bs2)}" using L(4) by auto
    show "dll (\<lambda>a. hnext (H' a)) (\<lambda>a. hprev_free (H' a)) 0 (map (addr ar) (x # fl)) 0" using d by simp
    show "distinct (x # fl)" using L(3) hl by auto
  qed simp_all
  then show thesis using that mp frame by simp
qed

lemma free_extend:
  assumes rep: "arena_shape H fr ar (bs1 @ (y, t, False) # (x, s, True) # bs2) fl"
    and H1: "H1 = set_hsize (addr ar x) (enc s False (bs2 = [])) H"
  obtains H' where "merge_prev fr (addr ar x) (next_of ar bs2) H1 = (addr ar y, H', fr)"
    "arena_shape H' fr ar (bs1 @ (y, t + s, False) # bs2) fl" "\<forall>a. a \<notin> addr ar ` {..< 0x200000} \<longrightarrow> H' a = H a"
proof -
  have rep': "arena_shape H fr ar ((bs1 @ [(y, t, False)]) @ (x, s, True) # bs2) fl" using rep by simp
  note B = arena_block[OF rep] and C = arena_block[OF rep'] and O = arena_offsets[OF rep] and [simp del] = of_nat_add
  let ?h = "addr ar x" and ?p = "addr ar y" and ?l = "bs2 = []"
  have b: "y < 0x200000" "x < 0x200000" "x = y + t" "x \<noteq> y" using O(2) B(3,4) by auto
  then have ne: "?p \<noteq> ?h" "?p \<noteq> 0" using addr_inj[of y x ar] O(5) by auto
  have pv: "hprev (H ?h) = ?p" using C(2) by (simp add: last_addr_def)
  have Ex: "GET_SIZE (enc s False ?l) = of_nat s" "enc s False ?l AND 2 = (if ?l then 2 else 0)"
    using enc_simps[OF C(5), of False ?l] C(7) by auto
  have Ey: "GET_SIZE (enc t False False) = of_nat t" "IS_FREE (enc t False False)"
    using enc_simps[OF B(5), of False False] B(7) by auto
  have sz: "(of_nat t + of_nat s) OR 1 OR (if ?l then 2 else 0) = enc (t + s) False ?l" by (simp add: enc_def of_nat_add or.assoc)
  define M where "M = set_hsize ?p (enc (t + s) False ?l) H1"
  define H' where "H' = (if next_of ar bs2 \<noteq> 0 then set_hprev (next_of ar bs2) ?p M else M)"
  have mp: "merge_prev fr ?h (next_of ar bs2) H1 = (?p, H', fr)"
    using ne pv Ex Ey sz B(1) by (simp add: merge_prev_def Let_def H1 M_def H'_def TYPE_HEADER_FREE_def)
  have nx: "next_of ar bs2 \<noteq> 0 \<longleftrightarrow> bs2 \<noteq> []" "bs2 \<noteq> [] \<longrightarrow> next_of ar bs2 = addr ar (x + s)" "x + s \<le> 0x200000" "bs2 \<noteq> [] \<longrightarrow> x + s < 0x200000"
    using next_of_addr[OF rep'] C(7,12) by simp_all
  have F: "hsize (H' a) = (if a = ?p then enc (t + s) False ?l else if a = ?h then enc s False ?l else hsize (H a))"
    "hprev (H' a) = (if bs2 \<noteq> [] \<and> a = addr ar (x + s) then ?p else hprev (H a))"
    "hnext (H' a) = hnext (H a)" "hprev_free (H' a) = hprev_free (H a)" for a
    using nx(1,2) by (simp_all add: H'_def M_def H1)
  have frame: "H' a = H a" if "a \<notin> addr ar ` {..< 0x200000}" for a
  proof -
    have "a \<noteq> ?h" "a \<noteq> ?p" "bs2 \<noteq> [] \<longrightarrow> a \<noteq> addr ar (x + s)" using that b nx(4) by auto
    then show ?thesis using F[of a] by (intro alloc_header_t.equality) auto
  qed
  have "arena_shape H' fr ar (bs1 @ [(y, t + s, False)] @ bs2) fl"
  proof (rule arena_replace[where H = H and fr = fr and ms = "[(y, t, False), (x, s, True)]" and fl = fl])
    show "arena_shape H fr ar (bs1 @ [(y, t, False), (x, s, True)] @ bs2) fl" using rep by simp
    show "hdrs (\<lambda>a. hsize (H' a)) (\<lambda>a. hprev (H' a)) ar (last_addr ar 0 bs1) [(y, t + s, False)] (bs2 = [])"
      using F B(2) b nx addr_inj[of y "x + s" ar] by auto
    show "\<forall>(z, r, v) \<in> set bs1 \<union> set bs2. hsize (H' (addr ar z)) = hsize (H (addr ar z)) \<and> (v \<longrightarrow> hnext (H' (addr ar z)) = hnext (H (addr ar z)))"
    proof clarify
      fix z r v assume "(z, r, v) \<in> set bs1 \<union> set bs2"
      then have "addr ar z \<noteq> ?h" "addr ar z \<noteq> ?p" using other_addr[OF rep, of z r v] other_addr[OF rep', of z r v] by auto
      then show "hsize (H' (addr ar z)) = hsize (H (addr ar z)) \<and> (v \<longrightarrow> hnext (H' (addr ar z)) = hnext (H (addr ar z)))"
        using F(1,3) by simp
    qed
    show "\<forall>(z, r, v) \<in> set bs1 \<union> set (tl bs2). hprev (H' (addr ar z)) = hprev (H (addr ar z))"
      using F(2) tl_addr[OF rep'] by fastforce
    show "bs2 \<noteq> [] \<longrightarrow> hprev (H' (addr ar (fst (hd bs2)))) = last_addr ar 0 [(y, t + s, False)]"
      using F(2) C(3) by (simp add: last_addr_def)
    show "dll (\<lambda>a. hnext (H' a)) (\<lambda>a. hprev_free (H' a)) 0 (map (addr ar) fl) 0" unfolding F(3,4) by (rule free_block(2)[OF rep])
    show "set fl = {z. \<exists>r. (z, r, False) \<in> set (bs1 @ [(y, t + s, False)] @ bs2)}" using free_block(5)[OF rep] by auto
  qed (use b free_block(3,4)[OF rep] in auto)
  then show thesis using that mp frame by simp
qed

lemma free_merge_next:
  assumes rep: "arena_shape H fr ar (bs1 @ (x, s, False) # (y, t, False) # bs2) fl"
  obtains H' fr' fl' where "merge_next fr (addr ar x) (addr ar y) H = (H', fr')"
    "arena_shape H' fr' ar (bs1 @ (x, s + t, False) # bs2) fl'" "\<forall>a. a \<notin> addr ar ` {..< 0x200000} \<longrightarrow> H' a = H a"
proof -
  have rep': "arena_shape H fr ar ((bs1 @ [(x, s, False)]) @ (y, t, False) # bs2) fl" using rep by simp
  note B = arena_block[OF rep] and C = arena_block[OF rep'] and O = arena_offsets[OF rep] and L = free_block[OF rep'] and [simp del] = of_nat_add
  let ?h = "addr ar x" and ?n = "addr ar y" and ?l = "bs2 = []"
  obtain f1 f2 where fl: "fl = f1 @ y # f2" using L(1) by (meson split_list)
  have b: "x < 0x200000" "y < 0x200000" "y = x + s" "x \<noteq> y" using O(2) B(3,4) by auto
  then have ne: "?h \<noteq> ?n" "?n \<noteq> 0" using addr_inj[of x y ar] O(5) by auto
  have Ey: "GET_SIZE (enc t False ?l) = of_nat t" "enc t False ?l AND 2 = (if ?l then 2 else 0)" "IS_FREE (enc t False ?l)"
    using enc_simps[OF C(5), of False ?l] C(7) by auto
  have Ex: "GET_SIZE (enc s False False) = of_nat s" using enc_simps[OF B(5), of False False] B(7) by auto
  have sz: "(of_nat s + of_nat t) OR 1 OR (if ?l then 2 else 0) = enc (s + t) False ?l" by (simp add: enc_def of_nat_add or.assoc)
  define H1 where "H1 = set_hsize ?h (enc (s + t) False ?l) H"
  obtain H2 fr' where p: "patch_list fr ?n H1 = (H2, fr')" by fastforce
  have d1: "dll (\<lambda>a. hnext (H1 a)) (\<lambda>a. hprev_free (H1 a)) 0 (map (addr ar) (f1 @ y # f2)) 0" using L(2) by (simp add: H1_def fl)
  have dist: "distinct (f1 @ y # f2)" "\<forall>z \<in> set (f1 @ y # f2). z < 0x200000" using L(4) O(3) fl by auto
  note D = patch_dll[OF d1 dist O(5) p[unfolded L(3) fl]]
  have nx: "get_next ?n H2 = next_of ar bs2" "next_of ar bs2 \<noteq> 0 \<longleftrightarrow> bs2 \<noteq> []" "bs2 \<noteq> [] \<longrightarrow> next_of ar bs2 = addr ar (y + t)"
    "y + t \<le> 0x200000" "bs2 \<noteq> [] \<longrightarrow> y + t < 0x200000"
    using next_of_get_next[OF rep', of H2 False] next_of_addr[OF rep'] C(1,7,12) D(4)[of ?n] ne by (simp_all add: H1_def)
  define H' where "H' = (if next_of ar bs2 \<noteq> 0 then set_hprev (next_of ar bs2) ?h H2 else H2)"
  have mn: "merge_next fr ?h ?n H = (H', fr')"
    using ne Ex Ey sz B(1) C(1) p nx(1) by (simp add: merge_next_def Let_def H1_def H'_def TYPE_HEADER_FREE_def)
  have F: "hsize (H' a) = (if a = ?h then enc (s + t) False ?l else hsize (H a))"
    "hprev (H' a) = (if bs2 \<noteq> [] \<and> a = addr ar (y + t) then ?h else hprev (H a))"
    "hnext (H' a) = hnext (H2 a)" "hprev_free (H' a) = hprev_free (H2 a)" for a
    using nx(2,3) by (simp_all add: H'_def D(4,5)) (simp_all add: H1_def)
  have out: "hnext (H' a) = hnext (H a) \<and> hprev_free (H' a) = hprev_free (H a)" if "a \<notin> addr ar ` set fl" for a
    using D(3)[of a] F(3,4)[of a] that fl by (auto simp: H1_def)
  have frame: "H' a = H a" if "a \<notin> addr ar ` {..< 0x200000}" for a
  proof -
    have "a \<noteq> ?h" "bs2 \<noteq> [] \<longrightarrow> a \<noteq> addr ar (y + t)" "a \<notin> addr ar ` set fl" using that b nx(5) O(3) by auto
    then show ?thesis using F(1,2)[of a] out[of a] by (intro alloc_header_t.equality) auto
  qed
  have "arena_shape H' fr' ar (bs1 @ [(x, s + t, False)] @ bs2) (f1 @ f2)"
  proof (rule arena_replace[where H = H and fr = fr and ms = "[(x, s, False), (y, t, False)]" and fl = fl])
    show "arena_shape H fr ar (bs1 @ [(x, s, False), (y, t, False)] @ bs2) fl" using rep by simp
    show "hdrs (\<lambda>a. hsize (H' a)) (\<lambda>a. hprev (H' a)) ar (last_addr ar 0 bs1) [(x, s + t, False)] (bs2 = [])"
      using F B(2) b nx(4) C(4) addr_inj[of x "y + t" ar] by auto
    show "\<forall>(z, r, v) \<in> set bs1 \<union> set bs2. hsize (H' (addr ar z)) = hsize (H (addr ar z)) \<and> (v \<longrightarrow> hnext (H' (addr ar z)) = hnext (H (addr ar z)))"
    proof (clarify, intro conjI impI)
      fix z r v assume m: "(z, r, v) \<in> set bs1 \<union> set bs2"
      then have "addr ar z \<noteq> ?h" using other_addr[OF rep, of z r v] by auto
      then show "hsize (H' (addr ar z)) = hsize (H (addr ar z))" using F(1) by simp
      assume v then show "hnext (H' (addr ar z)) = hnext (H (addr ar z))" using out used_not_listed[OF rep, of z r] m by auto
    qed
    show "\<forall>(z, r, v) \<in> set bs1 \<union> set (tl bs2). hprev (H' (addr ar z)) = hprev (H (addr ar z))"
      using F(2) tl_addr[OF rep'] by fastforce
    show "bs2 \<noteq> [] \<longrightarrow> hprev (H' (addr ar (fst (hd bs2)))) = last_addr ar 0 [(x, s + t, False)]"
      using F(2) C(3) by (simp add: last_addr_def)
    show "dll (\<lambda>a. hnext (H' a)) (\<lambda>a. hprev_free (H' a)) 0 (map (addr ar) (f1 @ f2)) 0" unfolding F(3,4) by (rule D(1))
    show "fr' = nxt (map (addr ar) (f1 @ f2)) 0" by (rule D(2))
    have i: "y \<notin> set (f1 @ f2)" "insert y (set (f1 @ f2)) = insert y {z. \<exists>r. (z, r, False) \<in> set ((bs1 @ [(x, s, False)]) @ bs2)}"
      using dist(1) L(5) fl by simp_all
    have "set (f1 @ f2) = {z. \<exists>r. (z, r, False) \<in> set ((bs1 @ [(x, s, False)]) @ bs2)}" by (rule iffD1[OF insert_ident[OF i(1) L(6)] i(2)])
    then show "set (f1 @ f2) = {z. \<exists>r. (z, r, False) \<in> set (bs1 @ [(x, s + t, False)] @ bs2)}" by auto
  qed (use b dist(1) in auto)
  then show thesis using that mn frame by simp
qed

end
