(* ===== verification/AllocHeap.thy ===== *)
theory AllocHeap
  imports Alloc
begin

section \<open>The heap as a set of blocks\<close>

text \<open>
  Arenas together.  A well-formed heap is a chain of arenas that overlap neither each other nor the free physical
  memory; what clients see of it is the set of used blocks, each its first address and its size.  \<^verbatim>\<open>kmalloc\<close> is shown to
  return, and to add one block that is large enough and overlaps no other; \<^verbatim>\<open>kfree\<close> takes exactly that block away.
  A client that keeps to its block never writes a header, since headers lie in the first 32 bytes of the blocks.
\<close>

subsection \<open>One arena\<close>

definition used :: "blk list \<Rightarrow> (nat \<times> nat) set" where
  "used bs = {(x, s). (x, s, True) \<in> set bs}"

lemma used_simps [simp]:
  "used [] = {}" "used ((x, s, u) # bs) = (if u then insert (x, s) (used bs) else used bs)" "used (as @ bs) = used as \<union> used bs"
  by (auto simp: used_def)

lemma coalesced_used: "coalesced (as @ (x, s, False) # bs) \<Longrightarrow> coalesced (as @ (x, t, True) # bs)"
  by (auto simp: coalesced_append) (cases bs; auto)+

lemma alloc_arena:
  assumes rep: "arena_rep H fr ar (bs1 @ (x, s, False) # bs2) fl" and n: "16 dvd n" "32 \<le> n" "n \<le> s"
  obtains H' fr' bs' fl' t where "alloc ar fr (addr ar x) (of_nat n) H = Inr (H', fr')" "arena_rep H' fr' ar bs' fl'"
    "used bs' = insert (x, t) (used (bs1 @ bs2))" "n \<le> t" "t \<le> s" "\<forall>a. a \<notin> addr ar ` {..< 0x200000} \<longrightarrow> H' a = H a"
proof -
  have sh: "arena_shape H fr ar (bs1 @ (x, s, False) # bs2) fl" and co: "coalesced (bs1 @ (x, s, False) # bs2)"
    using rep by (simp_all add: arena_rep_def)
  show thesis
  proof (cases "n + 32 < s")
    case True
    have "coalesced (bs1 @ (x, n, True) # (x + n, s - n, False) # bs2)" using co
      by (auto simp: coalesced_append) (cases bs2; auto)+
    then show thesis using alloc_split[OF sh n(1,2) True] n(3) that[of _ _ "bs1 @ (x, n, True) # (x + n, s - n, False) # bs2" _ n]
      by (auto simp: arena_rep_def)
  next
    case False
    then have "s - n \<le> 32" by simp
    then show thesis using alloc_whole[OF sh n(1,3)] n(3) coalesced_used[OF co] that[of _ _ "bs1 @ (x, s, True) # bs2" _ s]
      by (auto simp: arena_rep_def)
  qed
qed

lemma find_fit_dll:
  "dll (\<lambda>a. hnext (H a)) P p ys 0 \<Longrightarrow> 0 \<notin> set ys \<Longrightarrow>
   find_fit (nxt ys 0) sz H = Some (case find (\<lambda>a. sz \<le> GET_SIZE (hsize (H a))) ys of None \<Rightarrow> 0 | Some a \<Rightarrow> a)"
proof (induction ys arbitrary: p)
  case Nil show ?case by (simp add: find_fit.simps)
next
  case (Cons y ys)
  then show ?case using Cons.IH[of y] by (subst find_fit.simps) auto
qed

lemma find_fit_arena:
  assumes "arena_rep H fr ar bs fl"
  shows "\<exists>b. find_fit fr sz H = Some b \<and> (b = 0 \<longrightarrow> (\<forall>x s. (x, s, False) \<in> set bs \<longrightarrow> s < unat sz))
    \<and> (b \<noteq> 0 \<longrightarrow> (\<exists>bs1 x s bs2. bs = bs1 @ (x, s, False) # bs2 \<and> b = addr ar x \<and> unat sz \<le> s))"
proof -
  have sh: "arena_shape H fr ar bs fl" using assms by (simp add: arena_rep_def)
  note O = arena_offsets[OF sh]
  have L: "dll (\<lambda>a. hnext (H a)) (\<lambda>a. hprev_free (H a)) 0 (map (addr ar) fl) 0" "fr = nxt (map (addr ar) fl) 0"
    "set fl = {x. \<exists>s. (x, s, False) \<in> set bs}" using sh by (simp_all add: arena_shape_def)
  let ?Q = "\<lambda>a. sz \<le> GET_SIZE (hsize (H a))"
  have nz: "0 \<notin> set (map (addr ar) fl)" using O(3,5) by auto
  have sz: "GET_SIZE (hsize (H (addr ar x))) = of_nat s \<and> unat (of_nat s :: u64) = s" if "(x, s, False) \<in> set bs" for x s
  proof -
    obtain bs1 bs2 where b: "bs = bs1 @ (x, s, False) # bs2" using \<open>_ \<in> set bs\<close> by (meson split_list)
    note B = arena_block[OF sh[unfolded b]]
    have "s < 2 ^ 64" using B(7) by simp
    then show ?thesis using B(1) enc_simps(1)[OF B(5)] by (simp add: unat_of_nat take_bit_nat_eq_self)
  qed
  have f: "find_fit fr sz H = Some (case find ?Q (map (addr ar) fl) of None \<Rightarrow> 0 | Some a \<Rightarrow> a)"
    unfolding L(2) by (rule find_fit_dll[OF L(1) nz])
  show ?thesis
  proof (cases "find ?Q (map (addr ar) fl)")
    case None
    then have "s < unat sz" if "(x, s, False) \<in> set bs" for x s
      using sz[OF that] L(3) that by (auto simp: find_None_iff word_le_nat_alt)
    then show ?thesis using f None by auto
  next
    case (Some a)
    then have a: "a \<in> set (map (addr ar) fl)" "?Q a" by (auto simp: find_Some_iff)
    then obtain x s where x: "a = addr ar x" "(x, s, False) \<in> set bs" using L(3) by auto
    then obtain bs1 bs2 where "bs = bs1 @ (x, s, False) # bs2" by (meson split_list)
    moreover have "unat sz \<le> s" using a(2) sz[OF x(2)] x(1) by (simp add: word_le_nat_alt)
    moreover have "a \<noteq> 0" using a(1) nz by metis
    ultimately show ?thesis using f Some x(1) by auto
  qed
qed

text \<open>Releasing a block, with the two merges.\<close>

definition release_block :: "u64 \<Rightarrow> u64 \<Rightarrow> hmem \<Rightarrow> hmem \<times> u64" where
  "release_block fr header H =
     (let H1 = set_hsize header (GET_SIZE (hsize (H header)) OR TYPE_HEADER_FREE OR (hsize (H header) AND 2)) H;
          nx = get_next header H1;
          (header', H2, fr1) = merge_prev fr header nx H1
      in merge_next fr1 header' nx H2)"

lemma release_next:
  assumes sh: "arena_shape H fr ar (bs1 @ (x, s, False) # bs2) fl" and co: "coalesced bs1" "coalesced bs2" "bs1 = [] \<or> snd (snd (last bs1))"
  obtains H' fr' bs' fl' where "merge_next fr (addr ar x) (next_of ar bs2) H = (H', fr')" "arena_rep H' fr' ar bs' fl'"
    "used bs' = used (bs1 @ bs2)" "\<forall>a. a \<notin> addr ar ` {..< 0x200000} \<longrightarrow> H' a = H a"
proof (cases "bs2 = [] \<or> snd (snd (hd bs2))")
  case True
  have "\<not> (next_of ar bs2 \<noteq> 0 \<and> IS_FREE (hsize (H (next_of ar bs2))))"
  proof (cases bs2)
    case (Cons b cs)
    obtain y t where b: "b = (y, t, True)" using True Cons by (cases b) auto
    have "arena_shape H fr ar ((bs1 @ [(x, s, False)]) @ (y, t, True) # cs) fl" using sh Cons b by simp
    note B = arena_block[OF this]
    show ?thesis using B(1) enc_simps(2)[OF B(5)] B(7) Cons b by (simp add: next_of_def)
  qed (simp add: next_of_def)
  then have "merge_next fr (addr ar x) (next_of ar bs2) H = (H, fr)" unfolding merge_next_def by (rule if_not_P)
  moreover have "coalesced (bs1 @ (x, s, False) # bs2)" using co True by (auto simp: coalesced_append) (cases bs2; auto)+
  ultimately show thesis using that[of H fr "bs1 @ (x, s, False) # bs2" fl] sh by (simp add: arena_rep_def)
next
  case False
  then obtain y t cs where bs2: "bs2 = (y, t, False) # cs" by (cases bs2) auto
  have c: "coalesced (bs1 @ (x, s + t, False) # cs)" using co bs2 by (auto simp: coalesced_append) (cases cs; auto)+
  have n: "next_of ar bs2 = addr ar y" by (simp add: bs2 next_of_def)
  show thesis using free_merge_next[OF sh[unfolded bs2]] that[of _ _ "bs1 @ (x, s + t, False) # cs"] c unfolding n
    by (auto simp: arena_rep_def bs2)
qed

lemma release_arena:
  assumes rep: "arena_rep H fr ar (bs1 @ (x, s, True) # bs2) fl"
  obtains H' fr' bs' fl' where "release_block fr (addr ar x) H = (H', fr')" "arena_rep H' fr' ar bs' fl'"
    "used bs' = used (bs1 @ bs2)" "\<forall>a. a \<notin> addr ar ` {..< 0x200000} \<longrightarrow> H' a = H a"
proof -
  have sh: "arena_shape H fr ar (bs1 @ (x, s, True) # bs2) fl" and co: "coalesced (bs1 @ (x, s, True) # bs2)"
    using rep by (simp_all add: arena_rep_def)
  have co': "coalesced bs1" "coalesced bs2" using co by (auto simp: coalesced_append) (cases bs2; auto)
  note B = arena_block[OF sh]
  let ?h = "addr ar x" and ?nx = "next_of ar bs2"
  define H1 where "H1 = set_hsize ?h (enc s False (bs2 = [])) H"
  have E: "GET_SIZE (enc s True (bs2 = [])) = of_nat s" "enc s True (bs2 = []) AND 2 = (if bs2 = [] then 2 else 0)"
    using enc_simps[OF B(5), of True "bs2 = []"] B(7) by auto
  have "of_nat s OR 1 OR (if bs2 = [] then 2 else 0) = enc s False (bs2 = [])" by (simp add: enc_def or.assoc)
  moreover have "get_next ?h H1 = ?nx" by (rule next_of_get_next[OF sh, of H1 False]) (simp add: H1_def)
  ultimately have r: "release_block fr ?h H = (let (h', H2, fr1) = merge_prev fr ?h ?nx H1 in merge_next fr1 h' ?nx H2)"
    using B(1) E by (simp add: release_block_def Let_def H1_def TYPE_HEADER_FREE_def)
  show thesis
  proof (cases "bs1 = [] \<or> snd (snd (last bs1))")
    case True
    have "\<not> (hprev (H1 ?h) \<noteq> 0 \<and> IS_FREE (hsize (H1 (hprev (H1 ?h)))))"
    proof (cases "bs1 = []")
      case False
      then obtain as y t where b: "bs1 = as @ [(y, t, True)]" using True by (cases bs1 rule: rev_cases) auto
      have sh': "arena_shape H fr ar (as @ (y, t, True) # (x, s, True) # bs2) fl" using sh b by simp
      note C = arena_block[OF sh']
      have "addr ar y \<noteq> ?h" using other_addr[OF sh, of y t True] b by simp
      then show ?thesis using B(2) C(1) enc_simps(2)[OF C(5)] C(7) by (simp add: H1_def b last_addr_def)
    qed (use B(2) in \<open>simp add: H1_def last_addr_def\<close>)
    then obtain H2 where 2: "merge_prev fr ?h ?nx H1 = (?h, H2, ?h)" "arena_shape H2 ?h ar (bs1 @ (x, s, False) # bs2) (x # fl)"
      "\<forall>a. a \<notin> addr ar ` {..< 0x200000} \<longrightarrow> H2 a = H a" using free_push[OF sh H1_def] by metis
    obtain H' fr' bs' fl' where "merge_next ?h ?h ?nx H2 = (H', fr')" "arena_rep H' fr' ar bs' fl'"
      "used bs' = used (bs1 @ bs2)" "\<forall>a. a \<notin> addr ar ` {..< 0x200000} \<longrightarrow> H' a = H2 a"
      by (rule release_next[OF 2(2) co' True])
    then show thesis using that[of H' fr' bs' fl'] r 2 by simp
  next
    case False
    then obtain as y t where b: "bs1 = as @ [(y, t, False)]" by (cases bs1 rule: rev_cases) auto
    have sh': "arena_shape H fr ar (as @ (y, t, False) # (x, s, True) # bs2) fl" using sh b by simp
    obtain H2 where 2: "merge_prev fr ?h ?nx H1 = (addr ar y, H2, fr)" "arena_shape H2 fr ar (as @ (y, t + s, False) # bs2) fl"
      "\<forall>a. a \<notin> addr ar ` {..< 0x200000} \<longrightarrow> H2 a = H a" using free_extend[OF sh' H1_def] by metis
    have ca: "coalesced as" "as = [] \<or> snd (snd (last as))" using co' b by (auto simp: coalesced_append)
    obtain H' fr' bs' fl' where "merge_next fr (addr ar y) ?nx H2 = (H', fr')" "arena_rep H' fr' ar bs' fl'"
      "used bs' = used (as @ bs2)" "\<forall>a. a \<notin> addr ar ` {..< 0x200000} \<longrightarrow> H' a = H2 a"
      by (rule release_next[OF 2(2) ca(1) co'(2) ca(2)])
    then show thesis using that[of H' fr' bs' fl'] r 2 b by simp
  qed
qed

subsection \<open>All arenas\<close>

text \<open>An arena with its blocks and its free list.\<close>

type_synonym arena = "u64 \<times> blk list \<times> nat list"

fun chain :: "(u64 \<Rightarrow> u64) \<Rightarrow> u64 \<Rightarrow> u64 list \<Rightarrow> bool" where
  "chain N i [] \<longleftrightarrow> i = 0"
| "chain N i (a # as) \<longleftrightarrow> i = a \<and> a \<noteq> 0 \<and> chain N (N a) as"

definition span :: "u64 \<Rightarrow> nat set" where
  "span ar = {unat ar ..< unat ar + 0x200000}"

definition arena_ok :: "heap \<Rightarrow> arena \<Rightarrow> bool" where
  "arena_ok h A = (case A of (ar, bs, fl) \<Rightarrow>
     arena_rep (headers h) (afree (arenas h ar)) ar bs fl \<and> IDENT_BASE \<le> ar \<and> unat ar + 0x200000 < 2 ^ 64 \<and> 4096 dvd unat ar)"

text \<open>Physical memory fits the identity window of a terabyte at \<^verbatim>\<open>IDENT_BASE\<close>, its last byte apart: the address that
  follows an arena is then not 0.\<close>

definition heap_ok :: "heap \<Rightarrow> arena list \<Rightarrow> bool" where
  "heap_ok h As \<longleftrightarrow> chain (\<lambda>i. anext (arenas h i)) (arena_head h) (map fst As) \<and> (\<forall>A \<in> set As. arena_ok h A)
     \<and> distinct (map fst As) \<and> (\<forall>a \<in> fst ` set As. \<forall>b \<in> fst ` set As. a \<noteq> b \<longrightarrow> span a \<inter> span b = {})
     \<and> mm_wf (p_list (pages h)) \<and> free_set (p_list (pages h)) \<subseteq> {..< 2 ^ 40 - 1}
     \<and> (\<forall>a \<in> fst ` set As. span a \<inter> (\<lambda>x. x + unat IDENT_BASE) ` free_set (p_list (pages h)) = {})"

definition blocks :: "arena list \<Rightarrow> (nat \<times> nat) set" where
  "blocks As = (\<Union>(ar, bs, fl) \<in> set As. (\<lambda>(x, s). (unat ar + x, s)) ` used bs)"

lemma chain_cong: "\<forall>a \<in> set as. N' a = N a \<Longrightarrow> chain N' i as = chain N i as"
  by (induction as arbitrary: i) auto

lemma span_addr:
  assumes "unat ar + 0x200000 < 2 ^ 64" "x < 0x200000"
  shows "unat (addr ar x) = unat ar + x" "unat (addr ar x) \<in> span ar"
proof -
  show "unat (addr ar x) = unat ar + x" using assms by (simp add: unat_word_ariths(1) unat_of_nat take_bit_nat_eq_self)
  then show "unat (addr ar x) \<in> span ar" using assms by (simp add: span_def)
qed

lemma arena_rep_frame:
  assumes "arena_rep H fr ar bs fl" "\<forall>x < 0x200000. H' (addr ar x) = H (addr ar x)"
  shows "arena_rep H' fr ar bs fl"
proof -
  have sh: "arena_shape H fr ar bs fl" using assms(1) by (simp add: arena_rep_def)
  note O = arena_offsets[OF sh]
  have s: "H' (addr ar x) = H (addr ar x)" if "(x, s, u) \<in> set bs" for x s u
  proof -
    have "x \<in> fst ` set bs" using that by force
    then have "x < 0x200000" using O(2) by blast
    then show ?thesis using assms(2) by blast
  qed
  have "hdrs (\<lambda>a. hsize (H' a)) (\<lambda>a. hprev (H' a)) ar 0 bs True = hdrs (\<lambda>a. hsize (H a)) (\<lambda>a. hprev (H a)) ar 0 bs True"
    by (rule hdrs_cong) (use s in metis)
  moreover have "dll (\<lambda>a. hnext (H' a)) (\<lambda>a. hprev_free (H' a)) 0 (map (addr ar) fl) 0 = dll (\<lambda>a. hnext (H a)) (\<lambda>a. hprev_free (H a)) 0 (map (addr ar) fl) 0"
    by (rule dll_cong) (use O(3) assms(2) in auto)
  moreover have "hnext (H' (addr ar x)) = ar" if "(x, t, True) \<in> set bs" for x t
    using sh s[OF that] that by (auto simp: arena_shape_def)
  ultimately show ?thesis using assms(1) by (simp add: arena_rep_def arena_shape_def)
qed

text \<open>A change inside one arena, with a change of the head of its free list.\<close>

lemma heap_update:
  assumes ok: "heap_ok h (As @ (ar, bs, fl) # Bs)" and rep: "arena_rep H' fr' ar bs' fl'"
    and frame: "\<forall>a. a \<notin> addr ar ` {..< 0x200000} \<longrightarrow> H' a = headers h a"
  shows "heap_ok (h\<lparr>headers := H', arenas := (arenas h)(ar := (arenas h ar)\<lparr>afree := fr'\<rparr>)\<rparr>) (As @ (ar, bs', fl') # Bs)" (is "heap_ok ?h _")
proof -
  have c: "chain (\<lambda>i. anext (arenas h i)) (arena_head h) (map fst (As @ (ar, bs, fl) # Bs))"
    and all: "\<forall>A \<in> set (As @ (ar, bs, fl) # Bs). arena_ok h A" and dist: "distinct (map fst (As @ (ar, bs, fl) # Bs))"
    and disj: "\<forall>a \<in> fst ` set (As @ (ar, bs, fl) # Bs). \<forall>b \<in> fst ` set (As @ (ar, bs, fl) # Bs). a \<noteq> b \<longrightarrow> span a \<inter> span b = {}"
    and rest: "mm_wf (p_list (pages h))" "free_set (p_list (pages h)) \<subseteq> {..< 2 ^ 40 - 1}"
      "\<forall>a \<in> fst ` set (As @ (ar, bs, fl) # Bs). span a \<inter> (\<lambda>x. x + unat IDENT_BASE) ` free_set (p_list (pages h)) = {}"
    using ok by (simp_all add: heap_ok_def)
  have ar: "IDENT_BASE \<le> ar" "unat ar + 0x200000 < 2 ^ 64" "4096 dvd unat ar" using all by (auto simp: arena_ok_def)
  have "(\<lambda>i. anext (arenas ?h i)) = (\<lambda>i. anext (arenas h i))" by auto
  then have "chain (\<lambda>i. anext (arenas ?h i)) (arena_head ?h) (map fst (As @ (ar, bs', fl') # Bs))" using c by simp
  moreover have "arena_ok ?h A" if A: "A \<in> set As \<union> set Bs" for A
  proof -
    obtain a cs gl where A': "A = (a, cs, gl)" by (cases A)
    have "arena_ok h A" using all A by auto
    then have ok: "arena_rep (headers h) (afree (arenas h a)) a cs gl" "unat a + 0x200000 < 2 ^ 64" "arena_ok h A"
      by (simp_all add: arena_ok_def A')
    have mem: "a \<in> fst ` set (As @ (ar, bs, fl) # Bs)" "a \<noteq> ar" using A A' dist by force+
    moreover have "ar \<in> fst ` set (As @ (ar, bs, fl) # Bs)" by simp
    ultimately have sp: "span a \<inter> span ar = {}" using disj by blast
    have "addr a x \<notin> addr ar ` {..< 0x200000}" if "x < 0x200000" for x
      using span_addr(2)[OF ok(2) that] span_addr(2)[OF ar(2)] sp by auto
    then have "arena_rep H' (afree (arenas h a)) a cs gl" by (intro arena_rep_frame[OF ok(1)]) (use frame in blast)
    then show ?thesis using ok(3) mem(2) by (simp add: arena_ok_def A')
  qed
  moreover have "arena_ok ?h (ar, bs', fl')" using rep ar by (simp add: arena_ok_def)
  ultimately show ?thesis using dist disj rest unfolding heap_ok_def by simp
qed

lemma find_arena_chain:
  assumes "chain (\<lambda>i. anext (arenas h i)) i (map fst As)" "\<forall>A \<in> set As. arena_ok h A"
  shows "(find_arena i sz h = Some (0, 0) \<and> (\<forall>(ar, bs, fl) \<in> set As. \<forall>x s. (x, s, False) \<in> set bs \<longrightarrow> s < unat sz))
    \<or> (\<exists>A1 ar bs1 x s bs2 fl A2. find_arena i sz h = Some (ar, addr ar x) \<and> As = A1 @ (ar, bs1 @ (x, s, False) # bs2, fl) # A2
        \<and> unat sz \<le> s \<and> addr ar x \<noteq> 0)"
  using assms
proof (induction As arbitrary: i)
  case Nil then show ?case by (simp add: find_arena.simps)
next
  case (Cons A As)
  obtain ar bs fl where A: "A = (ar, bs, fl)" by (cases A)
  have i: "i = ar" "ar \<noteq> 0" "chain (\<lambda>i. anext (arenas h i)) (anext (arenas h ar)) (map fst As)" using Cons.prems(1) A by auto
  have "arena_rep (headers h) (afree (arenas h ar)) ar bs fl" using Cons.prems(2) A by (simp add: arena_ok_def)
  then obtain b where b: "find_fit (afree (arenas h ar)) sz (headers h) = Some b" "b = 0 \<longrightarrow> (\<forall>x s. (x, s, False) \<in> set bs \<longrightarrow> s < unat sz)"
    "b \<noteq> 0 \<longrightarrow> (\<exists>bs1 x s bs2. bs = bs1 @ (x, s, False) # bs2 \<and> b = addr ar x \<and> unat sz \<le> s)" using find_fit_arena by blast
  show ?case
  proof (cases "b = 0")
    case True
    then have s: "find_arena i sz h = find_arena (anext (arenas h ar)) sz h" using i b(1) by (subst find_arena.simps) simp
    have "\<forall>A \<in> set As. arena_ok h A" using Cons.prems(2) by simp
    from Cons.IH[OF i(3) this] show ?thesis
    proof (elim disjE)
      assume "find_arena (anext (arenas h ar)) sz h = Some (0, 0) \<and> (\<forall>(ar, bs, fl) \<in> set As. \<forall>x s. (x, s, False) \<in> set bs \<longrightarrow> s < unat sz)"
      then show ?thesis using s b(2) True A by auto
    next
      assume "\<exists>A1 ar' bs1 x s bs2 fl A2. find_arena (anext (arenas h ar)) sz h = Some (ar', addr ar' x)
        \<and> As = A1 @ (ar', bs1 @ (x, s, False) # bs2, fl) # A2 \<and> unat sz \<le> s \<and> addr ar' x \<noteq> 0"
      then obtain A1 ar' bs1 x t bs2 gl A2 where w: "find_arena (anext (arenas h ar)) sz h = Some (ar', addr ar' x)"
        "As = A1 @ (ar', bs1 @ (x, t, False) # bs2, gl) # A2" "unat sz \<le> t" "addr ar' x \<noteq> 0" by blast
      then have "A # As = (A # A1) @ (ar', bs1 @ (x, t, False) # bs2, gl) # A2" by simp
      with w show ?thesis unfolding s by blast
    qed
  next
    case False
    then obtain bs1 x s bs2 where x: "bs = bs1 @ (x, s, False) # bs2" "b = addr ar x" "unat sz \<le> s" using b(3) by blast
    have "find_arena i sz h = Some (ar, b)" using i b(1) False by (subst find_arena.simps) simp
    moreover have "A # As = [] @ (ar, bs1 @ (x, s, False) # bs2, fl) # As" using x A by simp
    ultimately show ?thesis using x False by blast
  qed
qed

subsection \<open>A new arena\<close>

lemma ident_base: "unat IDENT_BASE + 2 ^ 40 = 2 ^ 64"
  by (simp add: IDENT_BASE_def)

lemma arena_pages:
  assumes "heap_ok h As" "mm_alloc_p ARENA_SIZE (pages h) = (p, m)" "p \<noteq> 0"
  shows "mm_wf (p_list m)" "unat (paging_ident p) = unat p + unat IDENT_BASE" "unat (paging_ident p) + 0x200000 < 2 ^ 64"
    "4096 dvd unat (paging_ident p)" "IDENT_BASE \<le> paging_ident p"
    "span (paging_ident p) \<subseteq> (\<lambda>x. x + unat IDENT_BASE) ` free_set (p_list (pages h))"
    "(\<lambda>x. x + unat IDENT_BASE) ` free_set (p_list m) = (\<lambda>x. x + unat IDENT_BASE) ` free_set (p_list (pages h)) - span (paging_ident p)"
    "free_set (p_list m) \<subseteq> {..< 2 ^ 40 - 1}"
proof -
  have "mm_request ARENA_SIZE" and pu: "page_up (unat ARENA_SIZE) = 0x200000" by (simp_all add: mm_request_def ARENA_SIZE_def page_up_def)
  then have m: "mm_wf (p_list m)" "unat p mod 4096 = 0" "{unat p ..< unat p + 0x200000} \<subseteq> free_set (p_list (pages h))"
    "free_set (p_list m) = free_set (p_list (pages h)) - {unat p ..< unat p + 0x200000}"
    using mm_alloc_p_ok[of "pages h" ARENA_SIZE p m] assms by (auto simp: heap_ok_def)
  have lim: "free_set (p_list (pages h)) \<subseteq> {..< 2 ^ 40 - 1}" using assms(1) by (simp add: heap_ok_def)
  moreover have "unat p + 0x1FFFFF \<in> {unat p ..< unat p + 0x200000}" by simp
  ultimately have "unat p + 0x1FFFFF < 2 ^ 40 - 1" using m(3) by blast
  then have b: "unat p + unat IDENT_BASE + 0x200000 < 2 ^ 64" using ident_base by linarith
  then show u: "unat (paging_ident p) = unat p + unat IDENT_BASE" by (simp add: paging_ident_def unat_word_ariths(1))
  show "mm_wf (p_list m)" by (rule m(1))
  show "unat (paging_ident p) + 0x200000 < 2 ^ 64" using b u by simp
  have "4096 dvd unat IDENT_BASE" by (simp add: IDENT_BASE_def)
  then show "4096 dvd unat (paging_ident p)" using m(2) u by (simp add: mod_eq_0_iff_dvd)
  show "IDENT_BASE \<le> paging_ident p" using u by (simp add: word_le_nat_alt)
  have sp: "span (paging_ident p) = (\<lambda>x. x + unat IDENT_BASE) ` {unat p ..< unat p + 0x200000}"
    by (simp add: span_def u image_add_atLeastLessThan' add.assoc[symmetric] add.commute add.left_commute)
  then show "span (paging_ident p) \<subseteq> (\<lambda>x. x + unat IDENT_BASE) ` free_set (p_list (pages h))" using m(3) by blast
  have "inj (\<lambda>x. x + unat IDENT_BASE)" by (simp add: inj_def)
  then show "(\<lambda>x. x + unat IDENT_BASE) ` free_set (p_list m) = (\<lambda>x. x + unat IDENT_BASE) ` free_set (p_list (pages h)) - span (paging_ident p)"
    unfolding sp m(4) by (rule image_set_diff)
  show "free_set (p_list m) \<subseteq> {..< 2 ^ 40 - 1}" using m(4) lim by blast
qed

lemma first_block:
  assumes "unat ar + 0x200000 < 2 ^ 64" "ar \<noteq> 0"
    "H (ar + SIZEOF_ARENA) = \<lparr>hsize = INIT_BLOCK_SIZE OR TYPE_HEADER_FREE OR TYPE_HEADER_LAST, hprev = 0, hnext = 0, hprev_free = 0\<rparr>"
  shows "arena_rep H (ar + SIZEOF_ARENA) ar [(32, 0x1FFFE0, False)] [32]"
proof -
  have a: "addr ar 32 = ar + SIZEOF_ARENA" by (simp add: SIZEOF_ARENA_def)
  have e: "enc 0x1FFFE0 False True = INIT_BLOCK_SIZE OR TYPE_HEADER_FREE OR TYPE_HEADER_LAST"
    by (simp add: enc_def INIT_BLOCK_SIZE_def ARENA_SIZE_def SIZEOF_ARENA_def TYPE_HEADER_FREE_def TYPE_HEADER_LAST_def)
  have "addr ar x \<noteq> 0" if "x < 0x200000" for x
    using span_addr(1)[OF assms(1) that] assms(2) by (metis add_is_0 unat_0 unat_eq_zero)
  then show ?thesis using assms(3) e unfolding arena_rep_def arena_shape_def
    by (simp del: of_nat_numeral add: a)
qed

lemma new_arena_ok:
  assumes ok: "heap_ok h As" and m: "mm_alloc_p ARENA_SIZE (pages h) = (p, m)" "p \<noteq> 0" and n: "16 dvd n" "32 \<le> n" "n \<le> 0x1FFFE0"
  obtains h' ar bs fl t where "new_arena (of_nat n) p (h\<lparr>pages := m\<rparr>) = Inr (addr ar 64, h')" "heap_ok h' ((ar, bs, fl) # As)"
    "used bs = {(32, t)}" "n \<le> t"
proof -
  note P = arena_pages[OF ok m]
  define ar where "ar = paging_ident p"
  note Q = P[folded ar_def]
  have nz: "ar \<noteq> 0" using Q(2) m(2) by (metis add_is_0 unat_0 unat_eq_zero)
  let ?fr = "ar + SIZEOF_ARENA"
  define H where "H = (headers h)(?fr := \<lparr>hsize = INIT_BLOCK_SIZE OR TYPE_HEADER_FREE OR TYPE_HEADER_LAST, hprev = 0, hnext = 0, hprev_free = 0\<rparr>)"
  have "arena_rep H ?fr ar ([] @ (32, 0x1FFFE0, False) # []) [32]" using first_block[OF Q(3) nz, of H] by (simp add: H_def)
  then obtain H' fr' bs fl t where al: "alloc ar ?fr (addr ar 32) (of_nat n) H = Inr (H', fr')" "arena_rep H' fr' ar bs fl"
    "used bs = insert (32, t) (used ([] @ []))" "n \<le> t" "\<forall>a. a \<notin> addr ar ` {..< 0x200000} \<longrightarrow> H' a = H a"
    by (rule alloc_arena[OF _ n]) blast
  have fr: "?fr = addr ar 32" by (simp add: SIZEOF_ARENA_def)
  then have "?fr \<in> addr ar ` {..< 0x200000}" by (metis imageI lessThan_iff numeral_less_iff rel_simps(28) semiring_norm(68,76,78,80))
  then have frame: "\<forall>a. a \<notin> addr ar ` {..< 0x200000} \<longrightarrow> H' a = headers h a" using al(5) by (auto simp: H_def)
  define h' where "h' = h\<lparr>pages := m, headers := H', arenas := (arenas h)(ar := \<lparr>afree = fr', anext = arena_head h\<rparr>), arena_head := ar\<rparr>"
  have "new_arena (of_nat n) p (h\<lparr>pages := m\<rparr>) = Inr (addr ar 64, h')"
  proof -
    have "?fr + SIZEOF_HEADER = addr ar 64" by (simp add: SIZEOF_HEADER_def SIZEOF_ARENA_def)
    then show ?thesis using al(1)[folded fr, unfolded H_def] by (simp add: new_arena_def Let_def ar_def[symmetric] h'_def)
  qed
  moreover have "heap_ok h' ((ar, bs, fl) # As)"
  proof -
    have K: "\<forall>a \<in> fst ` set As. span a \<inter> (\<lambda>x. x + unat IDENT_BASE) ` free_set (p_list (pages h)) = {}"
      "\<forall>a \<in> fst ` set As. \<forall>b \<in> fst ` set As. a \<noteq> b \<longrightarrow> span a \<inter> span b = {}" using ok by (simp_all add: heap_ok_def)
    have disj: "span a \<inter> span ar = {}" "a \<noteq> ar" if "a \<in> fst ` set As" for a
    proof -
      show d: "span a \<inter> span ar = {}" using bspec[OF K(1) that] Q(6) by blast
      show "a \<noteq> ar" using d by (auto simp: span_def)
    qed
    have c: "chain (\<lambda>i. anext (arenas h' i)) (arena_head h) (map fst As) = chain (\<lambda>i. anext (arenas h i)) (arena_head h) (map fst As)"
      by (rule chain_cong) (use disj(2) in \<open>auto simp: h'_def\<close>)
    have "arena_ok h' A" if A: "A \<in> set As" for A
    proof -
      obtain a cs gl where A': "A = (a, cs, gl)" by (cases A)
      have k: "arena_ok h A" using ok A by (simp add: heap_ok_def)
      then have k': "arena_rep (headers h) (afree (arenas h a)) a cs gl" "unat a + 0x200000 < 2 ^ 64" by (simp_all add: arena_ok_def A')
      have "a \<in> fst ` set As" using A A' by force
      note d = disj[OF this]
      have "addr a x \<notin> addr ar ` {..< 0x200000}" if "x < 0x200000" for x
        using span_addr(2)[OF k'(2) that] span_addr(2)[OF Q(3)] d(1) by auto
      then have "arena_rep H' (afree (arenas h a)) a cs gl" by (intro arena_rep_frame[OF k'(1)]) (use frame in blast)
      then show ?thesis using k d(2) by (simp add: arena_ok_def A' h'_def)
    qed
    moreover have "arena_ok h' (ar, bs, fl)" using al(2) Q by (simp add: arena_ok_def h'_def)
    moreover have "span a \<inter> (\<lambda>x. x + unat IDENT_BASE) ` free_set (p_list m) = {}" if "a \<in> insert ar (fst ` set As)" for a
      using that Q(7) bspec[OF K(1), of a] by blast
    moreover have "\<forall>a \<in> insert ar (fst ` set As). \<forall>b \<in> insert ar (fst ` set As). a \<noteq> b \<longrightarrow> span a \<inter> span b = {}"
      using disj(1) K(2) by blast
    moreover have "distinct (ar # map fst As)" using disj(2) ok by (auto simp: heap_ok_def)
    moreover have "p_list (pages h') = p_list m" "arena_head h' = ar" "anext (arenas h' ar) = arena_head h" by (simp_all add: h'_def)
    ultimately show ?thesis using Q(1,8) c nz ok unfolding heap_ok_def by simp
  qed
  ultimately show thesis using that al(3,4) by simp
qed

subsection \<open>Blocks\<close>

lemma blocks_simps [simp]:
  "blocks [] = {}" "blocks ((ar, bs, fl) # As) = (\<lambda>(x, s). (unat ar + x, s)) ` used bs \<union> blocks As" "blocks (As @ Bs) = blocks As \<union> blocks Bs"
  by (auto simp: blocks_def)

lemma lay_disjoint:
  "lay o' bs e \<Longrightarrow> (x, s, u) \<in> set bs \<Longrightarrow> (y, t, v) \<in> set bs \<Longrightarrow> (x, s, u) \<noteq> (y, t, v) \<Longrightarrow> x + s \<le> y \<or> y + t \<le> x"
proof (induction bs arbitrary: o')
  case (Cons b bs)
  obtain z r w where b: "b = (z, r, w)" by (cases b)
  then show ?case using Cons lay_less[of "o' + r" bs e] by auto
qed simp

lemma lay_aligned: "lay o' bs e \<Longrightarrow> 16 dvd o' \<Longrightarrow> (x, s, u) \<in> set bs \<Longrightarrow> 16 dvd x"
  by (induction bs arbitrary: o') auto

lemma blocks_disjoint:
  assumes ok: "heap_ok h As" and m: "(b, s) \<in> blocks As" "(c, t) \<in> blocks As" "(b, s) \<noteq> (c, t)"
  shows "{b ..< b + s} \<inter> {c ..< c + t} = {}"
proof -
  obtain ar bs fl x where b: "(ar, bs, fl) \<in> set As" "(x, s, True) \<in> set bs" "b = unat ar + x" using m(1) by (auto simp: blocks_def used_def)
  obtain ar' bs' fl' y where c: "(ar', bs', fl') \<in> set As" "(y, t, True) \<in> set bs'" "c = unat ar' + y" using m(2) by (auto simp: blocks_def used_def)
  have l: "lay 32 cs 0x200000" if "(a, cs, gl) \<in> set As" for a cs gl
    using ok that by (fastforce simp: heap_ok_def arena_ok_def arena_rep_def arena_shape_def)
  have dist: "distinct (map fst As)" and disj: "\<forall>a \<in> fst ` set As. \<forall>b \<in> fst ` set As. a \<noteq> b \<longrightarrow> span a \<inter> span b = {}"
    using ok by (simp_all add: heap_ok_def)
  show ?thesis
  proof (cases "ar = ar'")
    case True
    then have "bs' = bs" using dist b(1) c(1) by (metis eq_key_imp_eq_value prod.inject)
    then have "x + s \<le> y \<or> y + t \<le> x" using lay_disjoint[OF l[OF b(1)] b(2), of y t True] c(2) m(3) b(3) c(3) True by auto
    then show ?thesis using b(3) c(3) True by auto
  next
    case False
    have "ar \<in> fst ` set As" "ar' \<in> fst ` set As" using b(1) c(1) by force+
    then have "span ar \<inter> span ar' = {}" using disj False by blast
    moreover have "x + s \<le> 0x200000" "y + t \<le> 0x200000" using lay_bounds[OF l[OF b(1)]] lay_bounds[OF l[OF c(1)]] b(2) c(2) by auto
    then have "{b ..< b + s} \<subseteq> span ar" "{c ..< c + t} \<subseteq> span ar'" using b(3) c(3) by (auto simp: span_def)
    ultimately show ?thesis by blast
  qed
qed

lemma used_arena:
  assumes "heap_ok h As" "(ar, bs, fl) \<in> set As" "(x, s) \<in> used bs"
  shows "unat (addr ar x) = unat ar + x" "unat (addr ar x + SIZEOF_HEADER) = unat ar + x + 32" "16 dvd unat ar + x"
proof -
  have A: "arena_ok h (ar, bs, fl)" using assms(1,2) by (auto simp: heap_ok_def)
  then have l: "lay 32 bs 0x200000" and a: "unat ar + 0x200000 < 2 ^ 64" "4096 dvd unat ar" by (auto simp: arena_ok_def arena_rep_def arena_shape_def)
  have m: "(x, s, True) \<in> set bs" using assms(3) by (simp add: used_def)
  have b: "x + s \<le> 0x200000" "32 \<le> s" using lay_bounds[OF l] m by auto
  then show u: "unat (addr ar x) = unat ar + x" using span_addr(1)[OF a(1)] by simp
  have "unat ar + x + 32 < 2 ^ 64" using a b by linarith
  then show "unat (addr ar x + SIZEOF_HEADER) = unat ar + x + 32" using u by (simp add: unat_word_ariths(1)[of "addr ar x"] SIZEOF_HEADER_def)
  have "16 dvd x" by (rule lay_aligned[OF l _ m]) simp
  moreover have "16 dvd unat ar" by (rule dvd_trans[OF _ a(2)]) simp
  ultimately show "16 dvd unat ar + x" by simp
qed

lemma blocks_span:
  assumes "heap_ok h As" "(c, t) \<in> blocks As"
  obtains ar bs fl x where "(ar, bs, fl) \<in> set As" "(x, t) \<in> used bs" "c = unat ar + x" "c \<in> span ar"
proof -
  obtain ar bs fl x where b: "(ar, bs, fl) \<in> set As" "(x, t, True) \<in> set bs" "c = unat ar + x" using assms(2) by (auto simp: blocks_def used_def)
  have "lay 32 bs 0x200000" using assms(1) b(1) by (fastforce simp: heap_ok_def arena_ok_def arena_rep_def arena_shape_def)
  then have "x < 0x200000" using lay_less b(2) by blast
  then show thesis using that[of ar bs fl x] b by (simp add: span_def used_def)
qed

lemma blocks_iff:
  assumes ok: "heap_ok h As" and m: "(ar, bs, fl) \<in> set As" and x: "x < 0x200000"
  shows "(unat ar + x, t) \<in> blocks As \<longleftrightarrow> (x, t) \<in> used bs"
proof
  assume "(x, t) \<in> used bs" then show "(unat ar + x, t) \<in> blocks As" using m by (force simp: blocks_def)
next
  assume "(unat ar + x, t) \<in> blocks As"
  then obtain a cs gl y where b: "(a, cs, gl) \<in> set As" "(y, t) \<in> used cs" "unat ar + x = unat a + y" "unat ar + x \<in> span a"
    by (rule blocks_span[OF ok])
  have "unat ar + x \<in> span ar" using x by (simp add: span_def)
  then have "span a \<inter> span ar \<noteq> {}" using b(4) by blast
  moreover have "a \<in> fst ` set As" "ar \<in> fst ` set As" using b(1) m by force+
  moreover have "\<forall>a \<in> fst ` set As. \<forall>b \<in> fst ` set As. a \<noteq> b \<longrightarrow> span a \<inter> span b = {}" "distinct (map fst As)"
    using ok by (simp_all add: heap_ok_def)
  ultimately have "a = ar" "cs = bs" using b(1) m by (blast, metis eq_key_imp_eq_value prod.inject)
  then show "(x, t) \<in> used bs" using b(2,3) by simp
qed

subsection \<open>Allocation and release\<close>

lemma heap_ok_member:
  assumes "heap_ok h As" "(ar, bs, fl) \<in> set As"
  shows "arena_rep (headers h) (afree (arenas h ar)) ar bs fl"
  using assms by (auto simp: heap_ok_def arena_ok_def)

lemma kmalloc_found:
  assumes ok: "heap_ok h (A1 @ (ar, bs1 @ (x, s, False) # bs2, fl) # A2)" and n: "16 dvd n" "32 \<le> n" "n \<le> s"
  obtains H' fr' bs' fl' t where "alloc ar (afree (arenas h ar)) (addr ar x) (of_nat n) (headers h) = Inr (H', fr')"
    "heap_ok (h\<lparr>headers := H', arenas := (arenas h)(ar := (arenas h ar)\<lparr>afree := fr'\<rparr>)\<rparr>) (A1 @ (ar, bs', fl') # A2)"
    "used bs' = insert (x, t) (used (bs1 @ bs2))" "(x, t) \<notin> used (bs1 @ bs2)" "n \<le> t"
proof -
  have rep: "arena_rep (headers h) (afree (arenas h ar)) ar (bs1 @ (x, s, False) # bs2) fl" using heap_ok_member[OF ok] by auto
  obtain H' fr' bs' fl' t where al: "alloc ar (afree (arenas h ar)) (addr ar x) (of_nat n) (headers h) = Inr (H', fr')" "arena_rep H' fr' ar bs' fl'"
    "used bs' = insert (x, t) (used (bs1 @ bs2))" "n \<le> t" "\<forall>a. a \<notin> addr ar ` {..< 0x200000} \<longrightarrow> H' a = headers h a"
    by (rule alloc_arena[OF rep n]) blast
  have "arena_shape (headers h) (afree (arenas h ar)) ar (bs1 @ (x, s, False) # bs2) fl" using rep by (simp add: arena_rep_def)
  then have "x \<notin> fst ` set (bs1 @ bs2)" by (rule arena_block(8))
  then have "(x, t) \<notin> used (bs1 @ bs2)" by (force simp: used_def)
  then show thesis using that al heap_update[OF ok al(2,5)] by blast
qed

text \<open>What a successful allocation has to give: a pointer behind the header of a block that is new, large enough and
  disjoint from the blocks there were.\<close>

definition fresh_block :: "u64 \<Rightarrow> u64 \<Rightarrow> heap \<Rightarrow> arena list \<Rightarrow> bool" where
  "fresh_block sz p h' As \<longleftrightarrow> (\<exists>As' s. heap_ok h' As' \<and> blocks As' = insert (unat p - 32, s) (blocks As) \<and> unat sz + 32 \<le> s
     \<and> 32 \<le> unat p \<and> 16 dvd unat p \<and> (\<forall>(b, t) \<in> blocks As. {b ..< b + t} \<inter> {unat p - 32 ..< unat p - 32 + s} = {}))"

lemma fresh_blockI:
  assumes ok: "heap_ok h' As'" and b: "blocks As' = insert (unat ar + x, t) (blocks As)" "(unat ar + x, t) \<notin> blocks As"
    and m: "(ar, bs, fl) \<in> set As'" "(x, t) \<in> used bs" and t: "unat sz + 32 \<le> t" and p: "p = addr ar x + SIZEOF_HEADER"
  shows "fresh_block sz p h' As"
proof -
  note U = used_arena[OF ok m]
  have "{c ..< c + r} \<inter> {unat ar + x ..< unat ar + x + t} = {}" if "(c, r) \<in> blocks As" for c r
    by (rule blocks_disjoint[OF ok]) (use that b in auto)
  moreover have "unat p - 32 = unat ar + x" "16 dvd unat p" "32 \<le> unat p" using U p by auto
  ultimately show ?thesis using ok b(1) t unfolding fresh_block_def by (intro exI[of _ As'] exI[of _ t]) auto
qed

lemma new_arena_large:
  assumes "INIT_BLOCK_SIZE < sz"
  shows "new_arena sz p h = Inl (Panic PANIC_NO_MEM)"
proof -
  have "GET_SIZE (INIT_BLOCK_SIZE OR TYPE_HEADER_FREE OR TYPE_HEADER_LAST) = INIT_BLOCK_SIZE"
    "\<not> IS_USED (INIT_BLOCK_SIZE OR TYPE_HEADER_FREE OR TYPE_HEADER_LAST)"
    by (simp_all add: GET_SIZE_def IS_USED_def INIT_BLOCK_SIZE_def ARENA_SIZE_def SIZEOF_ARENA_def TYPE_HEADER_FREE_def TYPE_HEADER_LAST_def)
  then show ?thesis using assms by (simp add: new_arena_def alloc_def Let_def)
qed

lemma kfree_release:
  assumes "ptr \<noteq> 0" "\<not> IS_FREE (hsize (headers h (ptr - SIZEOF_HEADER)))" "i = hnext (headers h (ptr - SIZEOF_HEADER))"
    "release_block (afree (arenas h i)) (ptr - SIZEOF_HEADER) (headers h) = (H', fr')"
  shows "kfree ptr h = h\<lparr>headers := H', arenas := (arenas h)(i := (arenas h i)\<lparr>afree := fr'\<rparr>)\<rparr>"
  using assms by (auto simp: kfree_def release_block_def Let_def split: prod.splits)

lemma arena_used:
  assumes "arena_rep H fr ar bs fl" "(x, s) \<in> used bs"
  shows "hnext (H (addr ar x)) = ar" "\<not> IS_FREE (hsize (H (addr ar x)))" "addr ar x \<noteq> 0" "x < 0x200000"
proof -
  have sh: "arena_shape H fr ar bs fl" and m: "(x, s, True) \<in> set bs" using assms by (simp_all add: arena_rep_def used_def)
  then obtain bs1 bs2 where b: "bs = bs1 @ (x, s, True) # bs2" by (meson split_list)
  note B = arena_block[OF sh[unfolded b]]
  show "hnext (H (addr ar x)) = ar" using sh m by (auto simp: arena_shape_def)
  show "\<not> IS_FREE (hsize (H (addr ar x)))" using B(1) enc_simps(2)[OF B(5)] B(7) by simp
  show "x < 0x200000" using B(4,7) by linarith
  then show "addr ar x \<noteq> 0" using arena_offsets(5)[OF sh] by blast
qed

lemma adjusted_size_ok:
  assumes "unat sz < 2 ^ 63"
  obtains n where "adjusted_size sz = of_nat n" "unat (adjusted_size sz) = n" "16 dvd n" "32 \<le> n" "unat sz + 32 \<le> n"
proof -
  define n where "n = unat (adjusted_size sz)"
  have "adjusted_size sz = of_nat n" by (simp add: n_def)
  moreover have "16 dvd n" "32 \<le> n" "unat sz + 32 \<le> n"
    using adjusted_size_small[OF assms] div_mult_mod_eq[of "unat sz + 47" 16] mod_less_divisor[of 16 "unat sz + 47"] unfolding n_def by auto
  ultimately show thesis using that n_def by blast
qed

lemma kmalloc_in_arena:
  assumes ok: "heap_ok h As" and sz: "unat sz < 2 ^ 63"
    and f: "find_arena (arena_head h) (adjusted_size sz) h = Some (ar, addr ar x)" "As = A1 @ (ar, bs1 @ (x, s, False) # bs2, fl) # A2"
      "unat (adjusted_size sz) \<le> s" "addr ar x \<noteq> 0"
  shows "\<exists>p h'. kmalloc sz h = Some (Inr (p, h')) \<and> fresh_block sz p h' As"
proof -
  obtain n where n: "adjusted_size sz = of_nat n" "unat (adjusted_size sz) = n" "16 dvd n" "32 \<le> n" "unat sz + 32 \<le> n"
    by (rule adjusted_size_ok[OF sz])
  obtain H' fr' bs' fl' t where a: "alloc ar (afree (arenas h ar)) (addr ar x) (of_nat n) (headers h) = Inr (H', fr')"
    "heap_ok (h\<lparr>headers := H', arenas := (arenas h)(ar := (arenas h ar)\<lparr>afree := fr'\<rparr>)\<rparr>) (A1 @ (ar, bs', fl') # A2)" (is "heap_ok ?h ?As")
    "used bs' = insert (x, t) (used (bs1 @ bs2))" "(x, t) \<notin> used (bs1 @ bs2)" "n \<le> t"
    using kmalloc_found[OF ok[unfolded f(2)] n(3,4)] f(3) n(2) by metis
  have "kmalloc sz h = Some (Inr (addr ar x + SIZEOF_HEADER, ?h))" using f(1,4) a(1) n(1) by (simp add: kmalloc_def Let_def)
  moreover have "fresh_block sz (addr ar x + SIZEOF_HEADER) ?h As"
  proof (rule fresh_blockI[OF a(2) _ _ _ _ _ refl])
    show "blocks ?As = insert (unat ar + x, t) (blocks As)" using a(3) f(2) by auto
    have "arena_shape (headers h) (afree (arenas h ar)) ar (bs1 @ (x, s, False) # bs2) fl"
      using heap_ok_member[OF ok] f(2) by (auto simp: arena_rep_def)
    then have "x < 0x200000" using arena_offsets(2) by fastforce
    then show "(unat ar + x, t) \<notin> blocks As" using blocks_iff[OF ok, of ar "bs1 @ (x, s, False) # bs2" fl x t] a(4) f(2) by simp
    show "(ar, bs', fl') \<in> set ?As" "(x, t) \<in> used bs'" "unat sz + 32 \<le> t" using a(3,5) n(5) by auto
  qed
  ultimately show ?thesis by blast
qed

lemma kmalloc_new_arena:
  assumes ok: "heap_ok h As" and sz: "unat sz < 2 ^ 63" and f: "find_arena (arena_head h) (adjusted_size sz) h = Some (0, 0)"
    and m: "mm_alloc_p ARENA_SIZE (pages h) = (p, m)" "\<not> (p = 0 \<or> INIT_BLOCK_SIZE < adjusted_size sz)"
  shows "\<exists>p h'. kmalloc sz h = Some (Inr (p, h')) \<and> fresh_block sz p h' As"
proof -
  obtain n where n: "adjusted_size sz = of_nat n" "unat (adjusted_size sz) = n" "16 dvd n" "32 \<le> n" "unat sz + 32 \<le> n"
    by (rule adjusted_size_ok[OF sz])
  then have "n \<le> 0x1FFFE0" using m(2) by (simp add: word_less_nat_alt INIT_BLOCK_SIZE_def ARENA_SIZE_def SIZEOF_ARENA_def)
  then obtain h' ar bs fl t where N: "new_arena (of_nat n) p (h\<lparr>pages := m\<rparr>) = Inr (addr ar 64, h')" "heap_ok h' ((ar, bs, fl) # As)"
    "used bs = {(32, t)}" "n \<le> t" using new_arena_ok[OF ok m(1) _ n(3,4)] m(2) by metis
  have "kmalloc sz h = Some (Inr (addr ar 64, h'))" using f m N(1) n(1) by (simp add: kmalloc_def Let_def)
  moreover have "fresh_block sz (addr ar 64) h' As"
  proof (rule fresh_blockI[OF N(2)])
    show "blocks ((ar, bs, fl) # As) = insert (unat ar + 32, t) (blocks As)" using N(3) by auto
    show "(unat ar + 32, t) \<notin> blocks As"
    proof
      assume "(unat ar + 32, t) \<in> blocks As"
      then obtain a where "a \<in> fst ` set As" "unat ar + 32 \<in> span a" by (rule blocks_span[OF ok]) force
      moreover have "unat ar + 32 \<in> span ar" by (simp add: span_def)
      moreover have "ar \<notin> fst ` set As" "\<forall>a \<in> fst ` set As. ar \<noteq> a \<longrightarrow> span ar \<inter> span a = {}" using N(2) by (simp_all add: heap_ok_def)
      ultimately show False by blast
    qed
    show "addr ar 64 = addr ar 32 + SIZEOF_HEADER" by (simp add: SIZEOF_HEADER_def)
  qed (use N(3,4) n(5) in auto)
  ultimately show ?thesis by blast
qed

lemma kmalloc_ok:
  assumes ok: "heap_ok h As" and sz: "unat sz < 2 ^ 63"
  shows "(\<exists>p h'. kmalloc sz h = Some (Inr (p, h')) \<and> fresh_block sz p h' As)
    \<or> (kmalloc sz h = Some (Inl (Panic PANIC_NO_MEM)) \<and> (INIT_BLOCK_SIZE < adjusted_size sz \<or> fst (mm_alloc_p ARENA_SIZE (pages h)) = 0)
        \<and> (\<forall>(ar, bs, fl) \<in> set As. \<forall>x s. (x, s, False) \<in> set bs \<longrightarrow> s < unat (adjusted_size sz)))"
proof -
  have c: "chain (\<lambda>i. anext (arenas h i)) (arena_head h) (map fst As)" "\<forall>A \<in> set As. arena_ok h A" using ok by (simp_all add: heap_ok_def)
  from find_arena_chain[OF c, of "adjusted_size sz"] show ?thesis
  proof (elim disjE exE conjE)
    fix A1 ar bs1 x s bs2 fl A2
    assume "find_arena (arena_head h) (adjusted_size sz) h = Some (ar, addr ar x)" "As = A1 @ (ar, bs1 @ (x, s, False) # bs2, fl) # A2"
      "unat (adjusted_size sz) \<le> s" "addr ar x \<noteq> 0"
    then show ?thesis using kmalloc_in_arena[OF _ sz] ok by blast
  next
    assume f: "find_arena (arena_head h) (adjusted_size sz) h = Some (0, 0)"
      "\<forall>(ar, bs, fl) \<in> set As. \<forall>x s. (x, s, False) \<in> set bs \<longrightarrow> s < unat (adjusted_size sz)"
    obtain p m where m: "mm_alloc_p ARENA_SIZE (pages h) = (p, m)" by fastforce
    show ?thesis
    proof (cases "p = 0 \<or> INIT_BLOCK_SIZE < adjusted_size sz")
      case True
      then have "kmalloc sz h = Some (Inl (Panic PANIC_NO_MEM))" using f(1) m new_arena_large by (auto simp: kmalloc_def Let_def)
      then show ?thesis using True m f(2) by auto
    next
      case False
      then show ?thesis using kmalloc_new_arena[OF ok sz f(1) m] by blast
    qed
  qed
qed

lemma kfree_ok:
  assumes ok: "heap_ok h As" and b: "(b, s) \<in> blocks As"
  shows "\<exists>As'. heap_ok (kfree (of_nat b + SIZEOF_HEADER) h) As' \<and> blocks As' = blocks As - {(b, s)}"
proof -
  obtain ar bs fl x where m: "(ar, bs, fl) \<in> set As" "(x, s) \<in> used bs" "b = unat ar + x" by (rule blocks_span[OF ok b])
  obtain A1 A2 where As: "As = A1 @ (ar, bs, fl) # A2" using m(1) by (meson split_list)
  obtain bs1 bs2 where bs: "bs = bs1 @ (x, s, True) # bs2" using m(2) by (auto simp: used_def dest: split_list)
  have rep: "arena_rep (headers h) (afree (arenas h ar)) ar bs fl" by (rule heap_ok_member[OF ok m(1)])
  note U = used_arena[OF ok m(1,2)] and V = arena_used[OF rep m(2)]
  obtain H' fr' bs' fl' where r: "release_block (afree (arenas h ar)) (addr ar x) (headers h) = (H', fr')" "arena_rep H' fr' ar bs' fl'"
    "used bs' = used (bs1 @ bs2)" "\<forall>a. a \<notin> addr ar ` {..< 0x200000} \<longrightarrow> H' a = headers h a"
    by (rule release_arena[OF rep[unfolded bs]])
  have p: "of_nat b + SIZEOF_HEADER = addr ar x + SIZEOF_HEADER" by (simp add: m(3))
  have "unat (addr ar x + SIZEOF_HEADER) \<noteq> 0" using U(2) by simp
  then have "addr ar x + SIZEOF_HEADER \<noteq> 0" by (simp only: unat_eq_0) simp
  then have k: "kfree (of_nat b + SIZEOF_HEADER) h = h\<lparr>headers := H', arenas := (arenas h)(ar := (arenas h ar)\<lparr>afree := fr'\<rparr>)\<rparr>" (is "_ = ?h")
    unfolding p by (rule kfree_release) (use V r(1) in simp_all)
  let ?As = "A1 @ (ar, bs', fl') # A2"
  have ok': "heap_ok ?h ?As" using heap_update[OF ok[unfolded As] r(2,4)] .
  have "arena_shape (headers h) (afree (arenas h ar)) ar (bs1 @ (x, s, True) # bs2) fl" using rep by (simp add: arena_rep_def bs)
  then have "x \<notin> fst ` set (bs1 @ bs2)" by (rule arena_block(8))
  then have "(x, s) \<notin> used bs'" unfolding r(3) by (force simp: used_def)
  then have "(b, s) \<notin> blocks ?As" using blocks_iff[OF ok', of ar bs' fl' x s] V(4) m(3) by simp
  moreover have "blocks As = insert (b, s) (blocks ?As)" using As bs r(3) m(3) by auto
  ultimately show ?thesis using ok' k by (intro exI[of _ ?As]) auto
qed

subsection \<open>The interface\<close>

text \<open>What a client of the heap relies on: \<open>taken\<close> is the set of blocks in use.\<close>

locale block_heap =
  fixes ok :: "'h \<Rightarrow> 'a \<Rightarrow> bool" and taken :: "'a \<Rightarrow> (nat \<times> nat) set"
    and get :: "u64 \<Rightarrow> 'h \<Rightarrow> (u64 \<times> 'h) outcome option" and put :: "u64 \<Rightarrow> 'h \<Rightarrow> 'h"
  assumes get_ok: "ok h A \<Longrightarrow> unat sz < 2 ^ 63 \<Longrightarrow> get sz h = Some (Inr (p, h')) \<Longrightarrow>
      \<exists>A' s. ok h' A' \<and> taken A' = insert (unat p - 32, s) (taken A) \<and> unat sz + 32 \<le> s \<and> 32 \<le> unat p
        \<and> (\<forall>(b, t) \<in> taken A. {b ..< b + t} \<inter> {unat p - 32 ..< unat p - 32 + s} = {})"
    and put_ok: "ok h A \<Longrightarrow> (b, s) \<in> taken A \<Longrightarrow> \<exists>A'. ok (put (of_nat b + 32) h) A' \<and> taken A' = taken A - {(b, s)}"
begin

text \<open>The bytes a client may use, from the pointer it was given, belong to no block in use before.\<close>

lemma get_payload:
  assumes "ok h A" "unat sz < 2 ^ 63" "get sz h = Some (Inr (p, h'))" "(b, t) \<in> taken A"
  shows "{unat p ..< unat p + unat sz} \<inter> {b ..< b + t} = {}"
proof -
  obtain s where s: "unat sz + 32 \<le> s" "32 \<le> unat p" "{b ..< b + t} \<inter> {unat p - 32 ..< unat p - 32 + s} = {}"
    using get_ok[OF assms(1-3)] assms(4) by blast
  then have "{unat p ..< unat p + unat sz} \<subseteq> {unat p - 32 ..< unat p - 32 + s}" by auto
  then show ?thesis using s(3) by blast
qed

lemma get_put:
  assumes "ok h A" "unat sz < 2 ^ 63" "get sz h = Some (Inr (p, h'))"
  shows "\<exists>A'. ok (put p h') A' \<and> taken A' = taken A"
proof -
  obtain A1 s where a: "ok h' A1" "taken A1 = insert (unat p - 32, s) (taken A)" "unat sz + 32 \<le> s" "32 \<le> unat p"
    "\<forall>(b, t) \<in> taken A. {b ..< b + t} \<inter> {unat p - 32 ..< unat p - 32 + s} = {}"
    using get_ok[OF assms] by blast
  have "(unat p - 32, s) \<notin> taken A"
  proof
    assume "(unat p - 32, s) \<in> taken A"
    then have "{unat p - 32 ..< unat p - 32 + s} \<inter> {unat p - 32 ..< unat p - 32 + s} = {}" using a(5) by blast
    then show False using a(3) by simp
  qed
  moreover have "of_nat (unat p - 32) + 32 = p" using a(4) by (simp add: of_nat_diff)
  ultimately show ?thesis using put_ok[OF a(1), of "unat p - 32" s] a(2) by auto
qed

end

interpretation kheap: block_heap heap_ok blocks kmalloc kfree
proof
  fix h As sz p h'
  assume "heap_ok h As" "unat sz < 2 ^ 63" "kmalloc sz h = Some (Inr (p, h'))"
  then have "fresh_block sz p h' As" using kmalloc_ok[of h As sz] by auto
  then show "\<exists>A' s. heap_ok h' A' \<and> blocks A' = insert (unat p - 32, s) (blocks As) \<and> unat sz + 32 \<le> s \<and> 32 \<le> unat p
      \<and> (\<forall>(b, t) \<in> blocks As. {b ..< b + t} \<inter> {unat p - 32 ..< unat p - 32 + s} = {})"
    unfolding fresh_block_def by blast
next
  fix h As b s
  assume "heap_ok h As" "(b, s) \<in> blocks As"
  then show "\<exists>A'. heap_ok (kfree (of_nat b + 32) h) A' \<and> blocks A' = blocks As - {(b, s)}"
    using kfree_ok[of h As b s] by (simp add: SIZEOF_HEADER_def)
qed

subsection \<open>Properties\<close>

text \<open>C1: \<^verbatim>\<open>kmalloc\<close> on a well-formed heap ends.  It returns a 16-byte aligned pointer behind the header of a block that
  is new, holds the request, and overlaps no block in use, and the heap stays well-formed (no two free blocks are
  neighbours, the links are right); or it panics for want of memory, and then no free block was large enough and either the
  request exceeds what an empty arena holds or no two megabytes of physical memory were left.\<close>

theorem kmalloc_adds_block:
  assumes ok: "heap_ok h As" and sz: "unat sz < 2 ^ 63"
  shows "(\<exists>p h'. kmalloc sz h = Some (Inr (p, h')) \<and> fresh_block sz p h' As)
    \<or> (kmalloc sz h = Some (Inl (Panic PANIC_NO_MEM)) \<and> (INIT_BLOCK_SIZE < adjusted_size sz \<or> fst (mm_alloc_p ARENA_SIZE (pages h)) = 0)
        \<and> (\<forall>(ar, bs, fl) \<in> set As. \<forall>x s. (x, s, False) \<in> set bs \<longrightarrow> s < unat (adjusted_size sz)))"
  by (rule kmalloc_ok[OF assms])

text \<open>C2: \<^verbatim>\<open>kfree\<close> of the pointer of a block in use takes exactly that block out of the blocks in use and keeps the heap
  well-formed; a null pointer changes nothing: the block has been merged with its free neighbours, so that no two free blocks are adjacent, and every
  block in use keeps its place and size.\<close>

theorem kfree_removes_block:
  assumes ok: "heap_ok h As" and b: "(b, s) \<in> blocks As"
  shows "kfree 0 h = h \<and> (\<exists>As'. heap_ok (kfree (of_nat b + SIZEOF_HEADER) h) As' \<and> blocks As' = blocks As - {(b, s)})"
  using kfree_ok[OF assms] by (simp add: kfree_def)

text \<open>A machine with four megabytes of memory and no arena yet.\<close>

definition boot_heap :: heap where
  "boot_heap = \<lparr>headers = (\<lambda>_. \<lparr>hsize = 0, hprev = 0, hnext = 0, hprev_free = 0\<rparr>), arenas = (\<lambda>_. \<lparr>afree = 0, anext = 0\<rparr>), arena_head = 0,
     pages = \<lparr>p_list = [guard_node, \<lparr>base = 0x100000, nsize = 0x400000\<rparr>, guard_node], v_list = [],
       pool = \<lparr>reuse_nodes = 0, node_mallocs = 0\<rparr>, pending_free = [], transaction_list = [], disarm_list = []\<rparr>\<rparr>"

lemma boot_heap_ok: "heap_ok boot_heap []"
  by (auto simp: heap_ok_def boot_heap_def mm_wf_def node_ok_def rbase_def rend_def region_def)

lemma boot_heap_pages: "\<exists>m. mm_alloc_p ARENA_SIZE (pages boot_heap) = (0x100000, m)"
  by (simp add: boot_heap_def ARENA_SIZE_def mm_alloc_p_def alloc_from_p_def mm_alloc_max_def Let_def page_round_def PAGE_SIZE_4K_def fits_def)

lemma boot_heap_kmalloc: "\<exists>p h'. kmalloc 100 boot_heap = Some (Inr (p, h'))"
proof -
  have "\<not> INIT_BLOCK_SIZE < adjusted_size 100"
    by (simp add: adjusted_size_def INIT_BLOCK_SIZE_def ARENA_SIZE_def SIZEOF_ARENA_def SIZEOF_HEADER_def ALLOC_ALIGN_def)
  moreover obtain m where "mm_alloc_p ARENA_SIZE (pages boot_heap) = (0x100000, m)" using boot_heap_pages by blast
  ultimately show ?thesis using kmalloc_ok[OF boot_heap_ok, of 100] by auto
qed

theorem kmalloc_adds_block_witness:
  "heap_ok boot_heap [] \<and> (\<exists>p h'. kmalloc 100 boot_heap = Some (Inr (p, h')) \<and> fresh_block 100 p h' [])"
  using kmalloc_adds_block[OF boot_heap_ok, of 100] boot_heap_ok boot_heap_kmalloc by auto

theorem kfree_removes_block_witness:
  "\<exists>h As b s As'. heap_ok h As \<and> (b, s) \<in> blocks As \<and> heap_ok (kfree (of_nat b + SIZEOF_HEADER) h) As' \<and> blocks As' = {}"
proof -
  obtain m where m: "mm_alloc_p ARENA_SIZE (pages boot_heap) = (0x100000, m)" using boot_heap_pages by blast
  obtain h' ar bs fl t where N: "heap_ok h' [(ar, bs, fl)]" "used bs = {(32, t)}"
    by (rule new_arena_ok[OF boot_heap_ok m, of 64]) auto
  then have "(unat ar + 32, t) \<in> blocks [(ar, bs, fl)]" by simp
  from kfree_removes_block[OF N(1) this] N this show ?thesis by fastforce
qed

text \<open>C3: allocating and freeing leaves the blocks in use as they were, and in between the bytes the client was
  given overlap no other block in use.\<close>

theorem kmalloc_kfree_roundtrip:
  assumes "heap_ok h As" "unat sz < 2 ^ 63" "kmalloc sz h = Some (Inr (p, h'))"
  shows "(\<exists>As'. heap_ok (kfree p h') As' \<and> blocks As' = blocks As)
    \<and> (\<forall>(b, t) \<in> blocks As. {unat p ..< unat p + unat sz} \<inter> {b ..< b + t} = {})"
  using kheap.get_put[OF assms] kheap.get_payload[OF assms] by blast

theorem kmalloc_kfree_roundtrip_witness:
  "\<exists>p h' As'. kmalloc 100 boot_heap = Some (Inr (p, h')) \<and> heap_ok (kfree p h') As' \<and> blocks As' = {}"
proof -
  obtain p h' where k: "kmalloc 100 boot_heap = Some (Inr (p, h'))" using boot_heap_kmalloc by blast
  from kmalloc_kfree_roundtrip[OF boot_heap_ok _ k] k show ?thesis by auto
qed

end
