(* ===== verification/Paging.thy ===== *)
theory Paging
  imports MM
begin

section \<open>Page tables (kernel/core/paging.c)\<close>

text \<open>
  Page tables live in physical memory, which the kernel reads and writes through the identity window at
  \<^verbatim>\<open>IDENT_BASE\<close>; \<open>pmem\<close> is that memory as 64-bit words by physical address, and a pointer \<^verbatim>\<open>access\<close> of the
  source is the physical address behind it.  The new tables come from the page allocator of \<open>MM\<close>.  The lock is held for the whole
  of each operation, so an operation is one step.

  The tables are read against what the processor does with them: \<open>translate\<close> is the four-level walk of the
  processor, written by recursion on the level independently of \<^verbatim>\<open>page_walk\<close>.
\<close>

definition PAGE_PRESENT :: u64 where "PAGE_PRESENT = 0x1"
definition PAGE_RW :: u64 where "PAGE_RW = 0x2"
definition PAGE_US :: u64 where "PAGE_US = 0x4"
definition PAGE_XD :: u64 where "PAGE_XD = 0x8000000000000000"
definition PAGE_PS :: u64 where "PAGE_PS = 0x80"
definition PAGE_ADDR_MASK :: u64 where "PAGE_ADDR_MASK = 0x0000FFFFFFFFF000"
definition AVL_GUARD :: u64 where "AVL_GUARD = 0x800"
definition PAGE_SIZE_2M :: u64 where "PAGE_SIZE_2M = 0x200000"
definition PAGE_SIZE_1G :: u64 where "PAGE_SIZE_1G = 0x40000000"
definition PML4_CONSISTENT_START :: nat where "PML4_CONSISTENT_START = 256"
definition PML4_CONSISTENT_END :: nat where "PML4_CONSISTENT_END = 512"
definition PAGE_KEEP_FLAGS :: u64 where
  "PAGE_KEEP_FLAGS = (PAGE_PRESENT OR PAGE_RW OR PAGE_US OR PAGE_XD OR PAGE_PS)"

definition GET_PT_INDEX :: "u64 \<Rightarrow> u64" where "GET_PT_INDEX addr = drop_bit 12 (addr AND 0x1FF000)"
definition GET_PD_INDEX :: "u64 \<Rightarrow> u64" where "GET_PD_INDEX addr = drop_bit 21 (addr AND 0x3FE00000)"
definition GET_PDPT_INDEX :: "u64 \<Rightarrow> u64" where "GET_PDPT_INDEX addr = drop_bit 30 (addr AND 0x7FC0000000)"
definition GET_PML4_INDEX :: "u64 \<Rightarrow> u64" where "GET_PML4_INDEX addr = drop_bit 39 (addr AND 0xFF8000000000)"

text \<open>\<^verbatim>\<open>enum page_size_t\<close>; \<open>PAGE_512G\<close> is the internal \<^verbatim>\<open>_PAGE_512G\<close>.\<close>

datatype page_size_t = PAGE_4K | PAGE_2M | PAGE_1G | PAGE_512G

fun lvl_num :: "page_size_t \<Rightarrow> nat" where
  "lvl_num PAGE_4K = 0" | "lvl_num PAGE_2M = 1" | "lvl_num PAGE_1G = 2" | "lvl_num PAGE_512G = 3"

type_synonym pmem_t = "u64 \<Rightarrow> u64"

record vm =
  pmem :: pmem_t
  vmm :: mm_state

abbreviation present :: "u64 \<Rightarrow> bool" where "present e \<equiv> e AND PAGE_PRESENT \<noteq> 0"
abbreviation large :: "u64 \<Rightarrow> bool" where "large e \<equiv> e AND PAGE_PS \<noteq> 0"

definition page_walk :: "u64 \<Rightarrow> u64 \<Rightarrow> pmem_t \<Rightarrow> page_size_t \<times> u64" where
  "page_walk vaddr pml4 m =
     (let a3 = pml4 + 8 * GET_PML4_INDEX vaddr
      in if \<not> present (m a3) then (PAGE_512G, a3)
         else let a2 = (m a3 AND PAGE_ADDR_MASK) + 8 * GET_PDPT_INDEX vaddr
         in if \<not> present (m a2) then (PAGE_1G, a2)
         else if large (m a2) then (PAGE_1G, a2)
         else let a1 = (m a2 AND PAGE_ADDR_MASK) + 8 * GET_PD_INDEX vaddr
         in if \<not> present (m a1) then (PAGE_2M, a1)
         else if large (m a1) then (PAGE_2M, a1)
         else (PAGE_4K, (m a1 AND PAGE_ADDR_MASK) + 8 * GET_PT_INDEX vaddr))"

text \<open>\<^verbatim>\<open>kmemset(page, 0, PAGE_SIZE_4K)\<close> and \<^verbatim>\<open>kmemcpy\<close> of whole pages on the words of memory.\<close>

definition zero_page :: "u64 \<Rightarrow> pmem_t \<Rightarrow> pmem_t" where
  "zero_page p m = (\<lambda>a. if a - p < PAGE_SIZE_4K then 0 else m a)"

definition copy_words :: "u64 \<Rightarrow> u64 \<Rightarrow> u64 \<Rightarrow> pmem_t \<Rightarrow> pmem_t" where
  "copy_words d s n m = (\<lambda>a. if a - d < n then m (s + (a - d)) else m a)"

text \<open>One round of the loop of \<^verbatim>\<open>increase_granularity\<close> at level \<open>Suc n\<close>: \<open>None\<close> is a failed allocation.\<close>

definition next_index :: "nat \<Rightarrow> u64 \<Rightarrow> u64" where
  "next_index n vaddr = (if n = 2 then GET_PDPT_INDEX vaddr else if n = 1 then GET_PD_INDEX vaddr else GET_PT_INDEX vaddr)"

definition add_table :: "u64 \<Rightarrow> vm \<Rightarrow> u64 option \<times> vm" where
  "add_table access s =
     (let (a, mm') = mm_alloc_p PAGE_SIZE_4K (vmm s)
      in if a = 0 then (None, \<lparr>pmem = (pmem s)(access := 0), vmm = mm'\<rparr>)
         else let e = a OR (PAGE_PRESENT OR PAGE_RW OR PAGE_US); t = e AND PAGE_ADDR_MASK
              in (Some t, \<lparr>pmem = zero_page t ((pmem s)(access := e)), vmm = mm'\<rparr>))"

fun granularity_loop :: "u64 \<Rightarrow> u64 \<Rightarrow> nat \<Rightarrow> nat \<Rightarrow> vm \<Rightarrow> u64 option \<times> vm" where
  "granularity_loop vaddr access 0 k s = (Some access, s)"
| "granularity_loop vaddr access (Suc n) k s =
     (if Suc n \<le> k then (Some access, s)
      else case add_table access s of
             (None, s1) \<Rightarrow> (None, s1)
           | (Some t, s1) \<Rightarrow> granularity_loop vaddr (t + 8 * next_index n vaddr) n k s1)"

definition increase_granularity :: "u64 \<Rightarrow> u64 \<Rightarrow> page_size_t \<Rightarrow> page_size_t \<Rightarrow> vm \<Rightarrow> u64 option \<times> vm" where
  "increase_granularity vaddr access lvl page_size s = granularity_loop vaddr access (lvl_num lvl) (lvl_num page_size) s"

subsection \<open>Mapping\<close>

definition paging_map_proc :: "u64 \<Rightarrow> u64 \<Rightarrow> u64 \<Rightarrow> page_size_t \<Rightarrow> u64 \<Rightarrow> vm \<Rightarrow> u64 \<times> vm" where
  "paging_map_proc vaddr paddr flg page_size pml4 s =
     (let (lvl, access) = page_walk vaddr pml4 (pmem s)
      in if lvl_num lvl < lvl_num page_size then (pmem s access - IDENT_BASE, s)
         else if present (pmem s access) then (pmem s access, s)
         else case increase_granularity vaddr access lvl page_size s of
                (None, s1) \<Rightarrow> (0, s1)
              | (Some a, s1) \<Rightarrow>
                  let f = (if page_size \<noteq> PAGE_4K then flg OR PAGE_PS else flg)
                  in (paddr, s1\<lparr>pmem := (pmem s1)(a := paddr OR f)\<rparr>))"

definition paging_map :: "u64 \<Rightarrow> u64 \<Rightarrow> u64 \<Rightarrow> u64 \<Rightarrow> page_size_t \<Rightarrow> vm \<Rightarrow> u64 \<times> vm" where
  "paging_map kernel_pml4 vaddr paddr flg page_size s = paging_map_proc vaddr paddr flg page_size kernel_pml4 s"

definition paging_update_perms :: "u64 \<Rightarrow> u64 \<Rightarrow> page_size_t \<Rightarrow> u64 \<Rightarrow> vm \<Rightarrow> u8 \<times> vm" where
  "paging_update_perms vaddr flg page_size pml4 s =
     (let (lvl, access) = page_walk vaddr pml4 (pmem s)
      in if lvl \<noteq> page_size then (1, s)
         else (0, s\<lparr>pmem := (pmem s)(access :=
                 (pmem s access AND NOT (PAGE_PRESENT OR PAGE_RW OR PAGE_US OR PAGE_XD)) OR flg)\<rparr>))"

definition paging_unmap :: "u64 \<Rightarrow> u64 \<Rightarrow> page_size_t \<Rightarrow> vm \<Rightarrow> vm" where
  "paging_unmap kernel_pml4 vaddr page_size s =
     (let (lvl, access) = page_walk vaddr kernel_pml4 (pmem s)
      in if lvl \<noteq> page_size then s else s\<lparr>pmem := (pmem s)(access := 0)\<rparr>)"

subsection \<open>Guard pages\<close>

definition paging_install_guard :: "u64 \<Rightarrow> u64 \<Rightarrow> vm \<Rightarrow> vm" where
  "paging_install_guard kernel_pml4 vaddr s =
     (let (lvl, access) = page_walk vaddr kernel_pml4 (pmem s)
      in if present (pmem s access) then s
         else case increase_granularity vaddr access lvl PAGE_4K s of
                (None, s1) \<Rightarrow> s1
              | (Some a, s1) \<Rightarrow> s1\<lparr>pmem := (pmem s1)(a := pmem s1 a OR AVL_GUARD)\<rparr>)"

definition paging_remove_guard :: "u64 \<Rightarrow> u64 \<Rightarrow> vm \<Rightarrow> vm" where
  "paging_remove_guard kernel_pml4 vaddr s =
     (let (lvl, access) = page_walk vaddr kernel_pml4 (pmem s)
      in if lvl \<noteq> PAGE_4K \<or> pmem s access AND AVL_GUARD = 0 then s
         else s\<lparr>pmem := (pmem s)(access := 0)\<rparr>)"

definition paging_check_guard :: "u64 \<Rightarrow> u64 \<Rightarrow> vm \<Rightarrow> bool" where
  "paging_check_guard kernel_pml4 vaddr s =
     (let (lvl, access) = page_walk vaddr kernel_pml4 (pmem s)
      in lvl = PAGE_4K \<and> pmem s access AND AVL_GUARD \<noteq> 0)"

subsection \<open>Address spaces\<close>

fun ensure_loop :: "u64 \<Rightarrow> nat list \<Rightarrow> vm \<Rightarrow> vm outcome" where
  "ensure_loop kernel_pml4 [] s = Inr s"
| "ensure_loop kernel_pml4 (i # is) s =
     (let a = kernel_pml4 + 8 * of_nat i
      in if present (pmem s a) then ensure_loop kernel_pml4 is s
         else let (p, mm') = mm_alloc_p PAGE_SIZE_4K (vmm s)
              in if p = 0 then Inl (Panic PANIC_NO_MEM)
                 else ensure_loop kernel_pml4 is
                   \<lparr>pmem = zero_page p ((pmem s)(a := p OR (PAGE_PRESENT OR PAGE_RW))), vmm = mm'\<rparr>)"

definition paging_ensure_mapped :: "u64 \<Rightarrow> vm \<Rightarrow> vm outcome" where
  "paging_ensure_mapped kernel_pml4 s = ensure_loop kernel_pml4 [PML4_CONSISTENT_START ..< PML4_CONSISTENT_END] s"

definition paging_create_pml4 :: "u64 \<Rightarrow> vm \<Rightarrow> u64 \<times> vm" where
  "paging_create_pml4 kernel_pml4 s =
     (let (pml4, mm') = mm_alloc_p PAGE_SIZE_4K (vmm s)
      in if pml4 = 0 then (0, s\<lparr>vmm := mm'\<rparr>)
         else (pml4, \<lparr>pmem = fold (\<lambda>i m. m(pml4 + 8 * of_nat i := m (kernel_pml4 + 8 * of_nat i)))
                        [PML4_CONSISTENT_START ..< PML4_CONSISTENT_END] (zero_page pml4 (pmem s)), vmm = mm'\<rparr>))"

definition lvl_size :: "nat \<Rightarrow> u64" where
  "lvl_size n = (if n = 0 then PAGE_SIZE_4K else if n = 1 then PAGE_SIZE_2M else PAGE_SIZE_1G)"

text \<open>\<open>n\<close> is the level of the entries of the table that \<^verbatim>\<open>entry\<close> points to (0 for \<^verbatim>\<open>PAGE_4K\<close>, 2 for \<^verbatim>\<open>PAGE_1G\<close>).\<close>

primrec free_pages :: "nat \<Rightarrow> u64 \<Rightarrow> vm \<Rightarrow> vm" where
  "free_pages 0 = (\<lambda>entry s.
     let t = entry AND PAGE_ADDR_MASK;
         s1 = fold (\<lambda>i s. let e = pmem s (t + 8 * of_nat i)
                in if present e then s\<lparr>vmm := mm_free_p_ident (e AND PAGE_ADDR_MASK) PAGE_SIZE_4K (vmm s)\<rparr> else s) [0 ..< 512] s
     in s1\<lparr>vmm := mm_free_p_ident t PAGE_SIZE_4K (vmm s1)\<rparr>)"
| "free_pages (Suc n) = (\<lambda>entry s.
     let t = entry AND PAGE_ADDR_MASK;
         s1 = fold (\<lambda>i s. let e = pmem s (t + 8 * of_nat i)
                in if present e
                   then if \<not> large e then free_pages n e s
                        else s\<lparr>vmm := mm_free_p_ident (e AND PAGE_ADDR_MASK) (lvl_size (Suc n)) (vmm s)\<rparr>
                   else s) [0 ..< 512] s
     in s1\<lparr>vmm := mm_free_p_ident t PAGE_SIZE_4K (vmm s1)\<rparr>)"

definition paging_free_userspace :: "u64 \<Rightarrow> vm \<Rightarrow> vm" where
  "paging_free_userspace pml4 s =
     (let s1 = fold (\<lambda>i s. let e = pmem s (pml4 + 8 * of_nat i) in if present e then free_pages 2 e s else s)
                 [0 ..< PML4_CONSISTENT_START] s
      in s1\<lparr>vmm := mm_free_p_ident pml4 PAGE_SIZE_4K (vmm s1)\<rparr>)"

definition copy_leaf :: "u64 \<Rightarrow> u64 \<Rightarrow> u64 \<Rightarrow> vm \<Rightarrow> vm" where
  "copy_leaf n e c s =
     (let (p, mm') = mm_alloc_p n (vmm s); e' = (e AND PAGE_KEEP_FLAGS) OR p
      in \<lparr>pmem = copy_words (e' AND PAGE_ADDR_MASK) (e AND PAGE_ADDR_MASK) n ((pmem s)(c := e')), vmm = mm'\<rparr>)"

primrec copy_pages :: "nat \<Rightarrow> u64 \<Rightarrow> u64 \<Rightarrow> vm \<Rightarrow> vm" where
  "copy_pages 0 = (\<lambda>access copy s.
     let t = access AND PAGE_ADDR_MASK; d = copy AND PAGE_ADDR_MASK
     in fold (\<lambda>i s. let e = pmem s (t + 8 * of_nat i)
          in if present e then copy_leaf PAGE_SIZE_4K e (d + 8 * of_nat i) s else s)
          [0 ..< 512] (s\<lparr>pmem := zero_page d (pmem s)\<rparr>))"
| "copy_pages (Suc n) = (\<lambda>access copy s.
     let t = access AND PAGE_ADDR_MASK; d = copy AND PAGE_ADDR_MASK
     in fold (\<lambda>i s. let e = pmem s (t + 8 * of_nat i); c = d + 8 * of_nat i
          in if present e
             then if \<not> large e
                  then let (p, mm') = mm_alloc_p PAGE_SIZE_4K (vmm s); e' = (e AND PAGE_KEEP_FLAGS) OR p
                       in copy_pages n e e' \<lparr>pmem = (pmem s)(c := e'), vmm = mm'\<rparr>
                  else copy_leaf (lvl_size (Suc n)) e c s
             else s) [0 ..< 512] (s\<lparr>pmem := zero_page d (pmem s)\<rparr>))"

definition paging_duplicate_lower :: "u64 \<Rightarrow> u64 \<Rightarrow> vm \<Rightarrow> u64 \<times> vm" where
  "paging_duplicate_lower kernel_pml4 cr3 s =
     (let (new_cr3, s1) = paging_create_pml4 kernel_pml4 s
      in (new_cr3, fold (\<lambda>i s. let e = pmem s (cr3 + 8 * of_nat i)
           in if present e
              then let (p, mm') = mm_alloc_p PAGE_SIZE_4K (vmm s); e' = p OR (e AND PAGE_KEEP_FLAGS)
                   in copy_pages 2 e e' \<lparr>pmem = (pmem s)(new_cr3 + 8 * of_nat i := e'), vmm = mm'\<rparr>
              else s) [0 ..< PML4_CONSISTENT_START] s1))"

subsection \<open>The walk of the processor\<close>

definition idx :: "nat \<Rightarrow> u64 \<Rightarrow> u64" where
  "idx n va = drop_bit (12 + 9 * n) va AND 0x1FF"

text \<open>Entries of the two middle levels may map a large page; \<^verbatim>\<open>PML4\<close> entries may not.\<close>

definition stops :: "nat \<Rightarrow> u64 \<Rightarrow> bool" where
  "stops n e \<longleftrightarrow> \<not> present e \<or> (n < 3 \<and> large e)"

fun walk :: "nat \<Rightarrow> u64 \<Rightarrow> u64 \<Rightarrow> pmem_t \<Rightarrow> nat \<times> u64" where
  "walk 0 t va m = (0, t + 8 * idx 0 va)"
| "walk (Suc n) t va m =
     (let a = t + 8 * idx (Suc n) va
      in if stops (Suc n) (m a) then (Suc n, a) else walk n (m a AND PAGE_ADDR_MASK) va m)"

definition leaf_addr :: "nat \<Rightarrow> u64 \<Rightarrow> u64 \<Rightarrow> u64" where
  "leaf_addr n e va = ((e AND PAGE_ADDR_MASK) AND NOT (mask (12 + 9 * n))) OR (va AND mask (12 + 9 * n))"

definition translate :: "u64 \<Rightarrow> pmem_t \<Rightarrow> u64 \<Rightarrow> u64 option" where
  "translate pml4 m va =
     (case walk 3 pml4 va m of (n, a) \<Rightarrow> if present (m a) then Some (leaf_addr n (m a) va) else None)"

subsection \<open>Kernel stacks (\<^verbatim>\<open>process_create_guarded_stack\<close> of kernel/core/process.c)\<close>

text \<open>Four pages above an unmapped guard page.  The results of \<^verbatim>\<open>paging_map\<close> are ignored; clearing the stack goes
  through the mapping and faults where it failed.\<close>

fun map_stack :: "u64 \<Rightarrow> u64 \<Rightarrow> u64 \<Rightarrow> nat list \<Rightarrow> vm \<Rightarrow> vm" where
  "map_stack kernel_pml4 vaddr paddr [] s = s"
| "map_stack kernel_pml4 vaddr paddr (i # is) s =
     map_stack kernel_pml4 vaddr paddr is
       (snd (paging_map kernel_pml4 (vaddr + of_nat (Suc i) * PAGE_SIZE_4K) (paddr + of_nat i * PAGE_SIZE_4K)
               (PAGE_PRESENT OR PAGE_RW) PAGE_4K s))"

fun clear_stack :: "u64 \<Rightarrow> u64 \<Rightarrow> nat list \<Rightarrow> vm \<Rightarrow> vm outcome" where
  "clear_stack kernel_pml4 vaddr [] s = Inr s"
| "clear_stack kernel_pml4 vaddr (i # is) s =
     (case translate kernel_pml4 (pmem s) (vaddr + of_nat (Suc i) * PAGE_SIZE_4K) of
        None \<Rightarrow> Inl Undefined
      | Some p \<Rightarrow> clear_stack kernel_pml4 vaddr is (s\<lparr>pmem := zero_page p (pmem s)\<rparr>))"

definition process_create_guarded_stack :: "u64 \<Rightarrow> vm \<Rightarrow> ((u64 \<times> u64) option \<times> vm) outcome" where
  "process_create_guarded_stack kernel_pml4 s =
     (let (vaddr, m1) = mm_alloc_v (4 * PAGE_SIZE_4K + PAGE_SIZE_4K) (vmm s)
      in if vaddr = 0 then Inr (None, s\<lparr>vmm := m1\<rparr>)
         else let (paddr, m2) = mm_alloc_p (4 * PAGE_SIZE_4K) m1
              in if paddr = 0 then Inr (None, s\<lparr>vmm := mm_free_v vaddr (4 * PAGE_SIZE_4K + PAGE_SIZE_4K) m2\<rparr>)
                 else (case clear_stack kernel_pml4 vaddr [0 ..< 4]
                              (paging_install_guard kernel_pml4 vaddr (map_stack kernel_pml4 vaddr paddr [0 ..< 4] (s\<lparr>vmm := m2\<rparr>))) of
                         Inl e \<Rightarrow> Inl e
                       | Inr s1 \<Rightarrow> Inr (Some (vaddr, paddr), s1)))"

lemma idx_defs:
  "GET_PT_INDEX va = idx 0 va" "GET_PD_INDEX va = idx 1 va" "GET_PDPT_INDEX va = idx 2 va" "GET_PML4_INDEX va = idx 3 va"
proof -
  have g: "drop_bit k (va AND push_bit k (mask 9)) = drop_bit k va AND 0x1FF" for k
  proof -
    have "(0x1FF :: u64) = mask 9" by (simp add: mask_eq_exp_minus_1)
    moreover have "bit va j \<Longrightarrow> j < 64" for j using bit_imp_le_length[of va j] by simp
    ultimately show ?thesis by (auto intro!: bit_eqI simp: bit_and_iff bit_drop_bit_eq bit_push_bit_iff bit_mask_iff possible_bit_def)
  qed
  have c: "(0x1FF000 :: u64) = push_bit 12 (mask 9)" "(0x3FE00000 :: u64) = push_bit 21 (mask 9)"
    "(0x7FC0000000 :: u64) = push_bit 30 (mask 9)" "(0xFF8000000000 :: u64) = push_bit 39 (mask 9)"
    by (simp_all add: mask_eq_exp_minus_1 push_bit_eq_mult)
  show "GET_PT_INDEX va = idx 0 va" "GET_PD_INDEX va = idx 1 va" "GET_PDPT_INDEX va = idx 2 va" "GET_PML4_INDEX va = idx 3 va"
    unfolding GET_PT_INDEX_def GET_PD_INDEX_def GET_PDPT_INDEX_def GET_PML4_INDEX_def c g by (simp_all add: idx_def)
qed

lemma page_walk_walk:
  "(\<lambda>(l, a). (lvl_num l, a)) (page_walk va pml4 m) = walk 3 pml4 va m"
  by (simp add: page_walk_def idx_defs stops_def Let_def eval_nat_numeral)

subsection \<open>Tables and entries\<close>

definition aligned :: "u64 \<Rightarrow> bool" where
  "aligned t \<longleftrightarrow> unat t mod 4096 = 0"

lemma idx_less: "unat (idx n va) < 512"
proof -
  have "idx n va = take_bit 9 (drop_bit (12 + 9 * n) va)" by (simp add: idx_def take_bit_eq_mask mask_eq_exp_minus_1)
  then have "unat (idx n va) < 2 ^ 9" by (simp only: unsigned_take_bit_eq) (rule take_bit_nat_less_exp)
  then show ?thesis by simp
qed

lemma aligned_mask [simp]: "aligned (e AND PAGE_ADDR_MASK)"
proof -
  have "PAGE_ADDR_MASK = push_bit 12 (mask 36)" by (simp add: PAGE_ADDR_MASK_def mask_eq_exp_minus_1 push_bit_eq_mult)
  moreover have "take_bit 12 (e AND push_bit 12 (mask 36)) = 0"
    by (auto intro!: bit_eqI simp: bit_take_bit_iff bit_and_iff bit_push_bit_iff)
  ultimately have "take_bit 12 (e AND PAGE_ADDR_MASK) = 0" by argo
  then have "unat (take_bit 12 (e AND PAGE_ADDR_MASK)) = 0" by simp
  then show ?thesis unfolding aligned_def by (simp only: unsigned_take_bit_eq) (simp add: take_bit_eq_mod)
qed

lemma unat_entry:
  assumes "aligned t" "unat i < 512"
  shows "unat (t + 8 * i) = unat t + 8 * unat i"
proof -
  have "unat t < 2 ^ LENGTH(64)" by (rule unsigned_less)
  then have "unat t \<le> 2 ^ 64 - 4096" using assms(1) unfolding aligned_def by (auto simp: mod_eq_0_iff_dvd)
  moreover have "unat (8 * i) = 8 * unat i" using assms(2) by (simp add: unat_word_ariths(2))
  ultimately show ?thesis using assms(2) by (simp add: unat_word_ariths(1))
qed

lemma entry_page: "aligned t \<Longrightarrow> unat i < 512 \<Longrightarrow> unat (t + 8 * i) div 4096 = unat t div 4096"
  using unat_entry[of t i] by (auto simp: aligned_def mod_eq_0_iff_dvd)

lemma aligned_eqI: "aligned t \<Longrightarrow> aligned u \<Longrightarrow> unat t div 4096 = unat u div 4096 \<Longrightarrow> t = u"
proof -
  assume "aligned t" "aligned u" "unat t div 4096 = unat u div 4096"
  then have "unat t = unat u"
    using div_mult_mod_eq[of "unat t" 4096] div_mult_mod_eq[of "unat u" 4096] by (simp add: aligned_def)
  then show ?thesis by simp
qed

lemma entry_inj:
  assumes "aligned t" "aligned u" "unat i < 512" "unat j < 512" "t + 8 * i = u + 8 * j"
  shows "t = u \<and> i = j"
proof -
  have u: "unat t + 8 * unat i = unat u + 8 * unat j"
    using arg_cong[OF assms(5), of unat] unfolding unat_entry[OF assms(1,3)] unat_entry[OF assms(2,4)] .
  have "unat t div 4096 = unat u div 4096"
    using entry_page[OF assms(1,3)] entry_page[OF assms(2,4)] assms(5) by simp
  then have "t = u" by (rule aligned_eqI[OF assms(1,2)])
  with u have "unat i = unat j" by simp
  with \<open>t = u\<close> show ?thesis by simp
qed

lemma in_page:
  assumes "aligned p" "aligned t" "unat i < 512"
  shows "(t + 8 * i) - p < PAGE_SIZE_4K \<longleftrightarrow> t = p"
proof
  assume a: "(t + 8 * i) - p < PAGE_SIZE_4K"
  define d where "d = (t + 8 * i) - p"
  have d: "unat d < 4096" using a by (simp add: d_def PAGE_SIZE_4K_def word_less_nat_alt)
  have "unat p < 2 ^ LENGTH(64)" by (rule unsigned_less)
  then have "unat p \<le> 2 ^ 64 - 4096" using assms(1) unfolding aligned_def by (auto simp: mod_eq_0_iff_dvd)
  then have "unat (p + d) = unat p + unat d" using d by (simp add: unat_word_ariths(1))
  moreover have "t + 8 * i = p + d" by (simp add: d_def)
  ultimately have "unat t div 4096 = unat p div 4096"
    using entry_page[OF assms(2,3)] d assms(1) by (auto simp: aligned_def mod_eq_0_iff_dvd)
  then show "t = p" using assms(1,2) by (intro aligned_eqI) auto
next
  assume "t = p"
  then show "(t + 8 * i) - p < PAGE_SIZE_4K" using assms(3)
    by (simp add: PAGE_SIZE_4K_def word_less_nat_alt unat_word_ariths(2))
qed

text \<open>The tables a translation goes through, with their levels.\<close>

fun tabs :: "nat \<Rightarrow> u64 \<Rightarrow> u64 \<Rightarrow> pmem_t \<Rightarrow> (nat \<times> u64) list" where
  "tabs 0 t va m = [(0, t)]"
| "tabs (Suc n) t va m =
     (Suc n, t) # (let e = m (t + 8 * idx (Suc n) va)
                   in if stops (Suc n) e then [] else tabs n (e AND PAGE_ADDR_MASK) va m)"

definition agree :: "nat \<Rightarrow> u64 \<Rightarrow> u64 \<Rightarrow> bool" where
  "agree n va va' \<longleftrightarrow> (\<forall>k. n \<le> k \<and> k \<le> 3 \<longrightarrow> idx k va = idx k va')"

text \<open>No table serves two levels or two different ranges of addresses.\<close>

definition pt_wf :: "u64 \<Rightarrow> pmem_t \<Rightarrow> bool" where
  "pt_wf pml4 m \<longleftrightarrow> aligned pml4 \<and>
     (\<forall>va va' n n' t. (n, t) \<in> set (tabs 3 pml4 va m) \<and> (n', t) \<in> set (tabs 3 pml4 va' m) \<longrightarrow> n = n' \<and> agree (Suc n) va va')"

lemma tabs_aligned: "aligned t0 \<Longrightarrow> (n, t) \<in> set (tabs N t0 va m) \<Longrightarrow> aligned t \<and> n \<le> N"
proof (induction N arbitrary: t0)
  case (Suc N)
  then show ?case by (auto simp: Let_def split: if_splits) (metis Suc.IH aligned_mask le_SucI)+
qed simp

lemma walk_in_tabs: "walk N t0 va m = (n, a) \<Longrightarrow> \<exists>t. (n, t) \<in> set (tabs N t0 va m) \<and> a = t + 8 * idx n va"
  by (induction N arbitrary: t0) (auto simp: Let_def split: if_splits)

lemma walk_level: "walk N t0 va m = (n, a) \<Longrightarrow> n \<le> N"
  by (induction N arbitrary: t0) (auto simp: Let_def le_SucI split: if_splits)

lemma walk_stops: "walk N t0 va m = (n, a) \<Longrightarrow> 0 < n \<Longrightarrow> stops n (m a)"
  by (induction N arbitrary: t0) (auto simp: Let_def split: if_splits)

lemma walk_cong:
  assumes "\<And>n t. (n, t) \<in> set (tabs N t0 va m) \<Longrightarrow> 0 < n \<Longrightarrow> m' (t + 8 * idx n va) = m (t + 8 * idx n va)"
  shows "walk N t0 va m' = walk N t0 va m \<and> tabs N t0 va m' = tabs N t0 va m"
  using assms
proof (induction N arbitrary: t0)
  case (Suc N)
  have h: "m' (t0 + 8 * idx (Suc N) va) = m (t0 + 8 * idx (Suc N) va)" using Suc.prems[of "Suc N" t0] by simp
  show ?case
  proof (cases "stops (Suc N) (m (t0 + 8 * idx (Suc N) va))")
    case False
    then show ?thesis using h Suc.IH[of "m (t0 + 8 * idx (Suc N) va) AND PAGE_ADDR_MASK"] Suc.prems by (simp add: Let_def)
  qed (simp add: h Let_def)
qed simp

lemma walk_prefix:
  assumes "walk N t0 va m = (n, a)" "\<And>k. n \<le> k \<Longrightarrow> k \<le> N \<Longrightarrow> idx k va = idx k va'"
  shows "walk N t0 va' m = (n, a) \<and> tabs N t0 va' m = tabs N t0 va m"
  using assms
proof (induction N arbitrary: t0)
  case (Suc N)
  have i: "idx (Suc N) va = idx (Suc N) va'" using walk_level[OF Suc.prems(1)] Suc.prems(2) by simp
  show ?case
  proof (cases "stops (Suc N) (m (t0 + 8 * idx (Suc N) va))")
    case False
    then show ?thesis using i Suc.IH[of "m (t0 + 8 * idx (Suc N) va) AND PAGE_ADDR_MASK"] Suc.prems by (simp add: Let_def)
  qed (use i Suc.prems(1) in \<open>auto simp: Let_def\<close>)
qed simp

text \<open>In well-formed tables an entry is read only by the addresses that agree down to its level.\<close>

lemma entry_owner:
  assumes "pt_wf pml4 m" "(n, t) \<in> set (tabs 3 pml4 va m)" "(n', t') \<in> set (tabs 3 pml4 va' m)"
    "t' + 8 * idx n' va' = t + 8 * idx n va"
  shows "n' = n \<and> t' = t \<and> agree n va va'"
proof -
  have al: "aligned t" "aligned t'" using tabs_aligned assms(1-3) by (auto simp: pt_wf_def)
  then have e: "t' = t" "idx n' va' = idx n va" using entry_inj[OF al(2,1) idx_less idx_less assms(4)] by auto
  then have "n = n'" "agree (Suc n) va va'" using assms(1-3) unfolding pt_wf_def by blast+
  then show ?thesis using e by (auto simp: agree_def) (metis Suc_leI le_neq_implies_less)
qed

lemma walk_upd:
  assumes "walk N t0 va m = (n, a)" "n = 0 \<or> stops n e"
    "\<And>k t. (k, t) \<in> set (tabs N t0 va m) \<Longrightarrow> t + 8 * idx k va = a \<Longrightarrow> k = n"
  shows "walk N t0 va (m(a := e)) = (n, a) \<and> tabs N t0 va (m(a := e)) = tabs N t0 va m"
  using assms
proof (induction N arbitrary: t0)
  case (Suc N)
  let ?a = "t0 + 8 * idx (Suc N) va"
  show ?case
  proof (cases "stops (Suc N) (m ?a)")
    case True
    then show ?thesis using Suc.prems(1,2) by (auto simp: Let_def)
  next
    case False
    then have w: "walk N (m ?a AND PAGE_ADDR_MASK) va m = (n, a)" using Suc.prems(1) by (simp add: Let_def)
    then have "?a \<noteq> a" using Suc.prems(3)[of "Suc N" t0] walk_level[OF w] by auto
    moreover have sub: "k = n" if "(k, t) \<in> set (tabs N (m ?a AND PAGE_ADDR_MASK) va m)" "t + 8 * idx k va = a" for k t
      using Suc.prems(3)[of k t] that False by (simp add: Let_def)
    ultimately show ?thesis using False Suc.IH[OF w Suc.prems(2) sub] by (simp add: Let_def)
  qed
qed simp

text \<open>Overwriting the entry at which the walk of \<open>va\<close> ends with another entry that ends walks.\<close>

lemma write_end:
  assumes "pt_wf pml4 m" "walk 3 pml4 va m = (n, a)" "n = 0 \<or> stops n e"
  shows "walk 3 pml4 va' (m(a := e)) = walk 3 pml4 va' m" "tabs 3 pml4 va' (m(a := e)) = tabs 3 pml4 va' m"
    "agree n va va' \<Longrightarrow> walk 3 pml4 va' m = (n, a)" "\<not> agree n va va' \<Longrightarrow> walk 3 pml4 va' m = (n', a') \<Longrightarrow> a' \<noteq> a"
proof -
  obtain t where t: "(n, t) \<in> set (tabs 3 pml4 va m)" "a = t + 8 * idx n va" using walk_in_tabs[OF assms(2)] by blast
  note own = entry_owner[OF assms(1) t(1)]
  have p: "walk 3 pml4 va' m = (n, a)" if "agree n va va'"
    using walk_prefix[OF assms(2)] that by (auto simp: agree_def)
  then show "agree n va va' \<Longrightarrow> walk 3 pml4 va' m = (n, a)" .
  show "a' \<noteq> a" if "\<not> agree n va va'" "walk 3 pml4 va' m = (n', a')"
    using walk_in_tabs[OF that(2)] own[of n' _ va'] that(1) t(2) by metis
  have "walk 3 pml4 va' (m(a := e)) = walk 3 pml4 va' m \<and> tabs 3 pml4 va' (m(a := e)) = tabs 3 pml4 va' m"
  proof (cases "agree n va va'")
    case True
    have "k = n" if "(k, u) \<in> set (tabs 3 pml4 va' m)" "u + 8 * idx k va' = a" for k u
      using own[OF that(1)] that(2) t(2) by simp
    then show ?thesis using walk_upd[OF p[OF True] assms(3)] p[OF True] by metis
  next
    case False
    show ?thesis
    proof (rule walk_cong)
      fix k u assume "(k, u) \<in> set (tabs 3 pml4 va' m)"
      then show "(m(a := e)) (u + 8 * idx k va') = m (u + 8 * idx k va')" using own[of k u va'] False t(2) by auto
    qed
  qed
  then show "walk 3 pml4 va' (m(a := e)) = walk 3 pml4 va' m" "tabs 3 pml4 va' (m(a := e)) = tabs 3 pml4 va' m" by auto
qed

lemma write_end_wf:
  assumes "pt_wf pml4 m" "walk 3 pml4 va m = (n, a)" "n = 0 \<or> stops n e"
  shows "pt_wf pml4 (m(a := e))"
  using assms(1) unfolding pt_wf_def write_end(2)[OF assms] .

lemma translate_write_end:
  assumes "pt_wf pml4 m" "walk 3 pml4 va m = (n, a)" "n = 0 \<or> stops n e"
  shows "translate pml4 (m(a := e)) va' =
    (if agree n va va' then if present e then Some (leaf_addr n e va') else None else translate pml4 m va')"
proof (cases "agree n va va'")
  case True
  then show ?thesis using write_end(1,3)[OF assms] by (simp add: translate_def)
next
  case False
  obtain n' a' where w: "walk 3 pml4 va' m = (n', a')" by fastforce
  then show ?thesis using write_end(1)[OF assms, of va'] write_end(4)[OF assms False w] False by (simp add: translate_def)
qed

text \<open>Replacing the absent entry at which the walk of \<open>va\<close> ends by a fresh empty table.\<close>

lemma walk_extend:
  assumes "walk N t0 va m = (Suc n, a)" "m' a = e" "\<not> stops (Suc n) e" "e AND PAGE_ADDR_MASK = p"
    "\<And>k t. (k, t) \<in> set (tabs N t0 va m) \<Longrightarrow> Suc n < k \<Longrightarrow> m' (t + 8 * idx k va) = m (t + 8 * idx k va)"
    "m' (p + 8 * idx n va) = 0"
  shows "walk N t0 va m' = (n, p + 8 * idx n va) \<and> tabs N t0 va m' = tabs N t0 va m @ [(n, p)]"
  using assms
proof (induction N arbitrary: t0)
  case (Suc N)
  let ?a = "t0 + 8 * idx (Suc N) va"
  have z: "stops k 0" for k by (simp add: stops_def)
  show ?case
  proof (cases "stops (Suc N) (m ?a)")
    case True
    then have n: "N = n" "a = ?a" using Suc.prems(1) by (auto simp: Let_def)
    show ?thesis using True n Suc.prems(2-4,6) z by (cases n) (auto simp: Let_def)
  next
    case False
    then have w: "walk N (m ?a AND PAGE_ADDR_MASK) va m = (Suc n, a)" using Suc.prems(1) by (simp add: Let_def)
    have "m' ?a = m ?a" using Suc.prems(5)[of "Suc N" t0] walk_level[OF w] by simp
    then show ?thesis using False Suc.IH[OF w Suc.prems(2-4) _ Suc.prems(6)] Suc.prems(5) by (simp add: Let_def)
  qed
qed simp

lemma add_table_walks:
  assumes "pt_wf pml4 m" "walk 3 pml4 va m = (Suc n, a)" "\<not> present (m a)" "aligned p"
    and fresh: "\<forall>va' k t. (k, t) \<in> set (tabs 3 pml4 va' m) \<longrightarrow> t \<noteq> p"
    and e: "\<not> stops (Suc n) e" "e AND PAGE_ADDR_MASK = p" and m': "m' = zero_page p (m(a := e))"
  shows "agree (Suc n) va va' \<Longrightarrow> walk 3 pml4 va' m' = (n, p + 8 * idx n va') \<and> tabs 3 pml4 va' m' = tabs 3 pml4 va' m @ [(n, p)]"
    "\<not> agree (Suc n) va va' \<Longrightarrow> walk 3 pml4 va' m' = walk 3 pml4 va' m \<and> tabs 3 pml4 va' m' = tabs 3 pml4 va' m"
    "translate pml4 m' va' = translate pml4 m va'" "m' (p + 8 * idx n va) = 0"
proof -
  obtain t where t: "(Suc n, t) \<in> set (tabs 3 pml4 va m)" "a = t + 8 * idx (Suc n) va" using walk_in_tabs[OF assms(2)] by blast
  have al: "aligned u" if "(k, u) \<in> set (tabs 3 pml4 v m)" for k u v
    using tabs_aligned[of pml4 k u 3 v m] that assms(1) by (auto simp: pt_wf_def)
  note own = entry_owner[OF assms(1) t(1)]
  have keep: "m' (u + 8 * idx k v) = (m(a := e)) (u + 8 * idx k v)" if "(k, u) \<in> set (tabs 3 pml4 v m)" for k u v
    using in_page[OF assms(4) al[OF that] idx_less, of k v] fresh[rule_format, OF that] by (simp add: m' zero_page_def)
  have z: "m' (p + 8 * idx k v) = 0" for k v
    using in_page[OF assms(4,4) idx_less, of k v] by (simp add: m' zero_page_def)
  have ma: "m' a = e" using keep[OF t(1)] t(2) by simp
  have A: "walk 3 pml4 va' m' = (n, p + 8 * idx n va') \<and> tabs 3 pml4 va' m' = tabs 3 pml4 va' m @ [(n, p)]"
    if "agree (Suc n) va va'"
  proof -
    have w: "walk 3 pml4 va' m = (Suc n, a)" using walk_prefix[OF assms(2)] that by (auto simp: agree_def)
    have "m' (u + 8 * idx k va') = m (u + 8 * idx k va')" if "(k, u) \<in> set (tabs 3 pml4 va' m)" "Suc n < k" for k u
      using keep[OF that(1)] own[OF that(1)] that(2) t(2) by auto
    then show ?thesis by (rule walk_extend[OF w ma e _ z])
  qed
  then show "agree (Suc n) va va' \<Longrightarrow> walk 3 pml4 va' m' = (n, p + 8 * idx n va') \<and> tabs 3 pml4 va' m' = tabs 3 pml4 va' m @ [(n, p)]" .
  have B: "walk 3 pml4 va' m' = walk 3 pml4 va' m \<and> tabs 3 pml4 va' m' = tabs 3 pml4 va' m" if "\<not> agree (Suc n) va va'"
  proof (rule walk_cong)
    fix k u assume u: "(k, u) \<in> set (tabs 3 pml4 va' m)"
    then show "m' (u + 8 * idx k va') = m (u + 8 * idx k va')" using keep[OF u] own[OF u] that t(2) by auto
  qed
  then show "\<not> agree (Suc n) va va' \<Longrightarrow> walk 3 pml4 va' m' = walk 3 pml4 va' m \<and> tabs 3 pml4 va' m' = tabs 3 pml4 va' m" .
  show "translate pml4 m' va' = translate pml4 m va'"
  proof (cases "agree (Suc n) va va'")
    case True
    then have "walk 3 pml4 va' m = (Suc n, a)" using walk_prefix[OF assms(2)] by (auto simp: agree_def)
    then show ?thesis using A[OF True] assms(3) z by (simp add: translate_def)
  next
    case False
    obtain n' a' where w: "walk 3 pml4 va' m = (n', a')" by fastforce
    then obtain u where u: "(n', u) \<in> set (tabs 3 pml4 va' m)" "a' = u + 8 * idx n' va'" using walk_in_tabs by blast
    have "m' a' = m a'" using keep[OF u(1)] own[OF u(1)] False t(2) u(2) by auto
    then show ?thesis using B[OF False] w by (simp add: translate_def)
  qed
  show "m' (p + 8 * idx n va) = 0" by (rule z)
qed

lemma add_table_wf:
  assumes "pt_wf pml4 m" "walk 3 pml4 va m = (Suc n, a)" "\<not> present (m a)" "aligned p"
    and fresh: "\<forall>va' k t. (k, t) \<in> set (tabs 3 pml4 va' m) \<longrightarrow> t \<noteq> p"
    and e: "\<not> stops (Suc n) e" "e AND PAGE_ADDR_MASK = p" and m': "m' = zero_page p (m(a := e))"
  shows "pt_wf pml4 m'"
proof -
  note W = add_table_walks(1,2)[OF assms(1-4) fresh e m']
  have mem: "(k, t) \<in> set (tabs 3 pml4 v m') \<longleftrightarrow> (k, t) \<in> set (tabs 3 pml4 v m) \<or> (agree (Suc n) va v \<and> k = n \<and> t = p)" for k t v
    using W[where va' = v] by (cases "agree (Suc n) va v") auto
  have ag: "agree (Suc n) v v'" if "agree (Suc n) va v" "agree (Suc n) va v'" for v v'
    using that by (simp add: agree_def)
  show ?thesis unfolding pt_wf_def
  proof (intro conjI allI impI)
    show "aligned pml4" using assms(1) by (simp add: pt_wf_def)
    fix v v' k k' t assume "(k, t) \<in> set (tabs 3 pml4 v m') \<and> (k', t) \<in> set (tabs 3 pml4 v' m')"
    then have "((k, t) \<in> set (tabs 3 pml4 v m) \<and> (k', t) \<in> set (tabs 3 pml4 v' m)) \<or>
        (k = n \<and> k' = n \<and> agree (Suc n) va v \<and> agree (Suc n) va v')"
      unfolding mem using fresh by blast
    then show "k = k'" "agree (Suc k) v v'" using assms(1) ag unfolding pt_wf_def by blast+
  qed
qed

subsection \<open>Operations on well-formed tables\<close>

text \<open>Tables are not free memory, and free memory can be named in an entry.\<close>

definition vm_ok :: "u64 \<Rightarrow> vm \<Rightarrow> bool" where
  "vm_ok pml4 s \<longleftrightarrow> pt_wf pml4 (pmem s) \<and> mm_wf (p_list (vmm s)) \<and> free_set (p_list (vmm s)) \<subseteq> {..< 2 ^ 48}
     \<and> (\<forall>va n t. (n, t) \<in> set (tabs 3 pml4 va (pmem s)) \<longrightarrow> unat t \<notin> free_set (p_list (vmm s)))"

lemma flag_bits: "present e \<longleftrightarrow> bit e 0" "large e \<longleftrightarrow> bit e 7" "e AND AVL_GUARD \<noteq> 0 \<longleftrightarrow> bit e 11"
proof -
  have "PAGE_PRESENT = push_bit 0 1" "PAGE_PS = push_bit 7 1" "AVL_GUARD = push_bit 11 1"
    by (simp_all add: PAGE_PRESENT_def PAGE_PS_def AVL_GUARD_def push_bit_eq_mult)
  then show "present e \<longleftrightarrow> bit e 0" "large e \<longleftrightarrow> bit e 7" "e AND AVL_GUARD \<noteq> 0 \<longleftrightarrow> bit e 11"
    using bit_iff_and_push_bit_not_eq_0[of e] by metis+
qed

lemma PAGE_ADDR_MASK_mask: "PAGE_ADDR_MASK = push_bit 12 (mask 36)"
  by (simp add: PAGE_ADDR_MASK_def mask_eq_exp_minus_1 push_bit_eq_mult)

lemma bit_addr_mask: "bit (e AND PAGE_ADDR_MASK) i \<longleftrightarrow> bit e i \<and> 12 \<le> i \<and> i < 48"
  unfolding PAGE_ADDR_MASK_mask by (auto simp: bit_and_iff bit_push_bit_iff bit_mask_iff)

lemma bit_MASK: "bit PAGE_ADDR_MASK i \<longleftrightarrow> 12 \<le> i \<and> i < 48"
  unfolding PAGE_ADDR_MASK_mask by (auto simp: bit_push_bit_iff bit_mask_iff)

lemma bit_PS: "bit PAGE_PS i \<longleftrightarrow> i = 7"
proof -
  have "PAGE_PS = push_bit 7 1" by (simp add: PAGE_PS_def push_bit_eq_mult)
  moreover have "bit (push_bit 7 (1 :: u64)) i \<longleftrightarrow> i = 7" by (simp only: bit_push_bit_iff bit_1_iff) auto
  ultimately show ?thesis by metis
qed

lemma table_entry:
  assumes "unat p mod 4096 = 0" "unat p < 2 ^ 48"
  shows "(p OR (PAGE_PRESENT OR PAGE_RW OR PAGE_US)) AND PAGE_ADDR_MASK = p" "\<not> stops n (p OR (PAGE_PRESENT OR PAGE_RW OR PAGE_US))"
proof -
  have "take_bit 12 (unat p) = 0" using assms(1) by (simp add: take_bit_eq_mod)
  then have lo: "take_bit 12 p = 0" by (metis unat_eq_0 unsigned_take_bit_eq)
  have hi: "take_bit 48 p = p"
    using assms(2) by (metis take_bit_nat_eq_self unat_inject unsigned_take_bit_eq)
  have b: "bit p i \<Longrightarrow> 12 \<le> i \<and> i < 48" for i
    using arg_cong[OF lo, of "\<lambda>w. bit w i"] arg_cong[OF hi, of "\<lambda>w. bit w i"] by (auto simp: bit_take_bit_iff)
  have f: "(PAGE_PRESENT OR PAGE_RW OR PAGE_US) = (mask 3 :: u64)"
    by (simp add: PAGE_PRESENT_def PAGE_RW_def PAGE_US_def mask_eq_exp_minus_1)
  show "(p OR (PAGE_PRESENT OR PAGE_RW OR PAGE_US)) AND PAGE_ADDR_MASK = p"
    by (rule bit_eqI) (use b in \<open>auto simp: f bit_addr_mask bit_or_iff bit_mask_iff\<close>)
  show "\<not> stops n (p OR (PAGE_PRESENT OR PAGE_RW OR PAGE_US))"
    using b[of 7] by (auto simp: stops_def flag_bits f bit_or_iff bit_mask_iff)
qed

lemma translate_none: "walk 3 pml4 va m = (n, a) \<Longrightarrow> \<not> present (m a) \<Longrightarrow> translate pml4 m va = None"
  by (simp add: translate_def)

lemma add_table_ok:
  assumes "vm_ok pml4 s" "walk 3 pml4 va (pmem s) = (Suc n, a)" "\<not> present (pmem s a)" "add_table a s = (r, s')"
  shows "vm_ok pml4 s' \<and> translate pml4 (pmem s') = translate pml4 (pmem s)
    \<and> (\<forall>t. r = Some t \<longrightarrow> walk 3 pml4 va (pmem s') = (n, t + 8 * idx n va) \<and> pmem s' (t + 8 * idx n va) = 0)"
proof -
  obtain p mm' where p: "mm_alloc_p PAGE_SIZE_4K (vmm s) = (p, mm')" by fastforce
  have w: "pt_wf pml4 (pmem s)" and mw: "mm_wf (p_list (vmm s))" and lim: "free_set (p_list (vmm s)) \<subseteq> {..< 2 ^ 48}"
    and use: "\<And>va n t. (n, t) \<in> set (tabs 3 pml4 va (pmem s)) \<Longrightarrow> unat t \<notin> free_set (p_list (vmm s))"
    using assms(1) by (auto simp: vm_ok_def)
  have rq: "mm_request PAGE_SIZE_4K" "page_up (unat PAGE_SIZE_4K) = 4096"
    by (simp_all add: mm_request_def PAGE_SIZE_4K_def page_up_def)
  note T = phys.take_ok[OF mw rq(1) p, unfolded rq(2)]
  have st: "stops k 0" for k by (simp add: stops_def)
  show ?thesis
  proof (cases "p = 0")
    case True
    then have s': "r = None" "s' = \<lparr>pmem = (pmem s)(a := 0), vmm = mm'\<rparr>" using assms(4) p by (simp_all add: add_table_def)
    note E = write_end(2)[OF w assms(2) disjI2[OF st]] and V = translate_write_end[OF w assms(2) disjI2[OF st]]
    have "translate pml4 ((pmem s)(a := 0)) va' = translate pml4 (pmem s) va'" for va'
      using V[of va'] translate_none[OF write_end(3)[OF w assms(2) disjI2[OF st]] assms(3), of va'] by simp
    then show ?thesis using write_end_wf[OF w assms(2) disjI2[OF st]] True T E mw lim use
      by (auto simp: vm_ok_def s' fun_eq_iff)
  next
    case False
    let ?e = "p OR (PAGE_PRESENT OR PAGE_RW OR PAGE_US)"
    have P: "unat p mod 4096 = 0" "{unat p ..< unat p + 4096} \<subseteq> free_set (p_list (vmm s))" using T False by auto
    then have pf: "unat p \<in> free_set (p_list (vmm s))" by auto
    then have "unat p < 2 ^ 48" using lim by auto
    note te = table_entry[OF P(1) this]
    have s': "r = Some p" "s' = \<lparr>pmem = zero_page p ((pmem s)(a := ?e)), vmm = mm'\<rparr>"
      using assms(4) p False te(1) by (simp_all add: add_table_def Let_def)
    have al: "aligned p" using P(1) by (simp add: aligned_def)
    have fr: "\<forall>va' k t. (k, t) \<in> set (tabs 3 pml4 va' (pmem s)) \<longrightarrow> t \<noteq> p" using use pf by blast
    note A = add_table_walks[OF w assms(2,3) al fr te(2,1) refl]
    have "agree (Suc n) va va" by (simp add: agree_def)
    have mem: "unat t \<notin> free_set (p_list mm')" if "(k, t) \<in> set (tabs 3 pml4 v (pmem s'))" for k t v
    proof -
      have "(k, t) \<in> set (tabs 3 pml4 v (pmem s)) \<or> t = p"
        using that A(1,2)[where va' = v] by (cases "agree (Suc n) va v") (auto simp: s')
      then show ?thesis using use T False by auto
    qed
    have "pt_wf pml4 (pmem s')" unfolding s' vm.simps by (rule add_table_wf[OF w assms(2,3) al fr te(2,1) refl])
    then show ?thesis using A(1)[OF \<open>agree (Suc n) va va\<close>] A(3,4) T False lim mem
      by (auto simp: vm_ok_def s' fun_eq_iff)
  qed
qed

lemma next_index_idx: "n < 3 \<Longrightarrow> next_index n va = idx n va"
  by (auto simp: next_index_def idx_defs less_Suc_eq numeral_3_eq_3 numeral_2_eq_2)

lemma granularity_loop_ok:
  assumes "vm_ok pml4 s" "walk 3 pml4 va (pmem s) = (n, a)" "\<not> present (pmem s a)" "k \<le> n" "granularity_loop va a n k s = (r, s')"
  shows "vm_ok pml4 s' \<and> translate pml4 (pmem s') = translate pml4 (pmem s)
    \<and> (\<forall>a'. r = Some a' \<longrightarrow> walk 3 pml4 va (pmem s') = (k, a') \<and> \<not> present (pmem s' a'))"
  using assms
proof (induction n arbitrary: a s)
  case (Suc n)
  show ?case
  proof (cases "Suc n \<le> k")
    case True
    then show ?thesis using Suc.prems by auto
  next
    case False
    obtain q s1 where q: "add_table a s = (q, s1)" by fastforce
    note A = add_table_ok[OF Suc.prems(1-3) q]
    have n3: "n < 3" using walk_level[OF Suc.prems(2)] by simp
    show ?thesis
    proof (cases q)
      case None
      then show ?thesis using False q A Suc.prems(5) by auto
    next
      case (Some t)
      then have "granularity_loop va (t + 8 * idx n va) n k s1 = (r, s')" using False q Suc.prems(5) next_index_idx[OF n3] by simp
      then show ?thesis using Suc.IH[of s1 "t + 8 * idx n va"] A Some False by auto
    qed
  qed
qed auto

text \<open>Two addresses on the same page of size \<open>4K\<close>, \<open>2M\<close> or \<open>1G\<close>.\<close>

definition same_page :: "page_size_t \<Rightarrow> u64 \<Rightarrow> u64 \<Rightarrow> bool" where
  "same_page sz va va' \<longleftrightarrow> drop_bit (12 + 9 * lvl_num sz) (take_bit 48 va) = drop_bit (12 + 9 * lvl_num sz) (take_bit 48 va')"

definition offset_in :: "page_size_t \<Rightarrow> u64 \<Rightarrow> u64" where
  "offset_in sz va = va AND mask (12 + 9 * lvl_num sz)"

lemma bit_idx: "bit (idx k va) i \<longleftrightarrow> i < 9 \<and> bit va (12 + 9 * k + i)"
proof -
  have "idx k va = take_bit 9 (drop_bit (12 + 9 * k) va)" by (simp add: idx_def take_bit_eq_mask mask_eq_exp_minus_1)
  then show ?thesis by (simp add: bit_take_bit_iff bit_drop_bit_eq)
qed

lemma agree_same_page: "lvl_num sz \<le> 3 \<Longrightarrow> agree (lvl_num sz) va va' \<longleftrightarrow> same_page sz va va'"
proof
  let ?n = "lvl_num sz"
  assume "?n \<le> 3" and ag: "agree ?n va va'"
  show "same_page sz va va'" unfolding same_page_def
  proof (rule bit_eqI)
    fix i
    have "bit va (12 + 9 * ?n + i) = bit va' (12 + 9 * ?n + i)" if "12 + 9 * ?n + i < 48"
    proof -
      have d: "i = 9 * (i div 9) + i mod 9" by simp
      have k: "?n + i div 9 \<le> 3" using that by simp
      then have "idx (?n + i div 9) va = idx (?n + i div 9) va'" using ag by (simp add: agree_def)
      then have "bit (idx (?n + i div 9) va) (i mod 9) = bit (idx (?n + i div 9) va') (i mod 9)" by simp
      moreover have "12 + 9 * (?n + i div 9) + i mod 9 = 12 + 9 * ?n + i" using d by simp
      ultimately show ?thesis unfolding bit_idx by (metis mod_less_divisor zero_less_numeral)
    qed
    then show "bit (drop_bit (12 + 9 * ?n) (take_bit 48 va)) i = bit (drop_bit (12 + 9 * ?n) (take_bit 48 va')) i"
      by (auto simp: bit_drop_bit_eq bit_take_bit_iff)
  qed
next
  let ?n = "lvl_num sz"
  assume sp: "same_page sz va va'"
  show "agree ?n va va'" unfolding agree_def
  proof (intro allI impI bit_eqI)
    fix k i assume k: "?n \<le> k \<and> k \<le> 3"
    obtain d where "k = ?n + d" using k le_Suc_ex by blast
    then have e: "12 + 9 * ?n + (9 * (k - ?n) + i) = 12 + 9 * k + i" by simp
    have "bit (drop_bit (12 + 9 * ?n) (take_bit 48 va)) (9 * (k - ?n) + i) = bit (drop_bit (12 + 9 * ?n) (take_bit 48 va')) (9 * (k - ?n) + i)"
      using sp by (simp only: same_page_def)
    then have "i < 9 \<Longrightarrow> bit va (12 + 9 * k + i) = bit va' (12 + 9 * k + i)"
      using k unfolding bit_drop_bit_eq comp_def bit_take_bit_iff e by auto
    then show "bit (idx k va) i = bit (idx k va') i" by (auto simp: bit_idx)
  qed
qed

text \<open>A frame address and flags as \<^verbatim>\<open>paging_map\<close> is meant to be given them.\<close>

definition frame_ok :: "page_size_t \<Rightarrow> u64 \<Rightarrow> u64 \<Rightarrow> bool" where
  "frame_ok sz paddr flg \<longleftrightarrow> sz \<noteq> PAGE_512G \<and> take_bit (12 + 9 * lvl_num sz) paddr = 0 \<and> take_bit 48 paddr = paddr
     \<and> flg AND PAGE_ADDR_MASK AND NOT (mask (12 + 9 * lvl_num sz)) = 0 \<and> present flg"

lemma leaf_addr_frame:
  assumes "frame_ok sz paddr flg" "f = flg \<or> f = flg OR PAGE_PS"
  shows "leaf_addr (lvl_num sz) (paddr OR f) va = paddr OR offset_in sz va"
proof (rule bit_eqI)
  fix i
  let ?w = "12 + 9 * lvl_num sz"
  have 1: "bit paddr i \<Longrightarrow> \<not> i < ?w \<and> i < 48"
    using assms(1) bit_take_bit_iff[of ?w paddr i] bit_take_bit_iff[of 48 paddr i] by (auto simp: frame_ok_def)
  have "bit (flg AND PAGE_ADDR_MASK AND NOT (mask ?w)) i = bit (0 :: u64) i" using assms(1) unfolding frame_ok_def by metis
  then have 2: "bit flg i \<Longrightarrow> 12 \<le> i \<Longrightarrow> i < 48 \<Longrightarrow> i < ?w"
    by (auto simp: bit_and_iff bit_not_iff bit_mask_iff bit_MASK)
  assume "possible_bit TYPE(u64) i"
  then show "bit (leaf_addr (lvl_num sz) (paddr OR f) va) i = bit (paddr OR offset_in sz va) i"
    using 1 2 assms(2)
    by (auto simp: leaf_addr_def offset_in_def bit_or_iff bit_MASK bit_PS bit_and_iff bit_not_iff bit_mask_iff possible_bit_def)
qed

lemma page_walk_cases:
  obtains l a where "page_walk va pml4 m = (l, a)" "walk 3 pml4 va m = (lvl_num l, a)"
  using page_walk_walk[of va pml4 m] by (cases "page_walk va pml4 m") auto

lemma paging_map_proc_ok:
  assumes "vm_ok pml4 s" "frame_ok sz paddr flg" "paging_map_proc vaddr paddr flg sz pml4 s = (r, s')"
    "page_walk vaddr pml4 (pmem s) = (l, a)"
  shows "vm_ok pml4 s' \<and>
    (if lvl_num l < lvl_num sz \<or> present (pmem s a) then s' = s
     else if fst (increase_granularity vaddr a l sz s) = None then r = 0 \<and> translate pml4 (pmem s') = translate pml4 (pmem s)
     else r = paddr \<and> (\<exists>b. walk 3 pml4 vaddr (pmem s') = (lvl_num sz, b)) \<and>
     (\<forall>va. same_page sz vaddr va \<longrightarrow> translate pml4 (pmem s) va = None) \<and>
     (\<forall>va. translate pml4 (pmem s') va =
        (if same_page sz vaddr va then Some (paddr OR offset_in sz va) else translate pml4 (pmem s) va)))"
proof -
  have w: "page_walk vaddr pml4 (pmem s) = (l, a)" "walk 3 pml4 vaddr (pmem s) = (lvl_num l, a)"
    using assms(4) page_walk_walk[of vaddr pml4 "pmem s"] by auto
  show ?thesis
  proof (cases "lvl_num l < lvl_num sz \<or> present (pmem s a)")
    case True
    then have "s' = s" using assms(3) w(1) by (auto simp: paging_map_proc_def split: if_splits)
    then show ?thesis using assms(1) True by auto
  next
    case False
    obtain q s1 where q: "granularity_loop vaddr a (lvl_num l) (lvl_num sz) s = (q, s1)" by fastforce
    have G: "vm_ok pml4 s1" "translate pml4 (pmem s1) = translate pml4 (pmem s)"
      "\<And>b. q = Some b \<Longrightarrow> walk 3 pml4 vaddr (pmem s1) = (lvl_num sz, b) \<and> \<not> present (pmem s1 b)"
      using granularity_loop_ok[OF assms(1) w(2) _ _ q] False by auto
    show ?thesis
    proof (cases q)
      case None
      then show ?thesis using G assms(3) w(1) q False by (auto simp: paging_map_proc_def increase_granularity_def)
    next
      case (Some b)
      define f where "f = (if sz \<noteq> PAGE_4K then flg OR PAGE_PS else flg)"
      have s': "r = paddr" "s' = s1\<lparr>pmem := (pmem s1)(b := paddr OR f)\<rparr>"
        using Some assms(3) w(1) q False unfolding f_def
        by (auto simp: paging_map_proc_def increase_granularity_def Let_def)
      have b: "walk 3 pml4 vaddr (pmem s1) = (lvl_num sz, b)" "\<not> present (pmem s1 b)" using G(3)[OF Some] by auto
      have wf: "pt_wf pml4 (pmem s1)" using G(1) by (simp add: vm_ok_def)
      have pres: "present (paddr OR f)" using assms(2) by (auto simp: frame_ok_def flag_bits f_def bit_or_iff)
      have e: "lvl_num sz = 0 \<or> stops (lvl_num sz) (paddr OR f)"
        using assms(2) by (cases sz) (auto simp: stops_def f_def frame_ok_def flag_bits bit_or_iff bit_PS)
      have lf: "leaf_addr (lvl_num sz) (paddr OR f) va = paddr OR offset_in sz va" for va
        by (rule leaf_addr_frame[OF assms(2)]) (simp add: f_def)
      have ag: "agree (lvl_num sz) vaddr va \<longleftrightarrow> same_page sz vaddr va" for va by (rule agree_same_page) (cases sz; simp)
      have "translate pml4 (pmem s') va = (if same_page sz vaddr va then Some (paddr OR offset_in sz va) else translate pml4 (pmem s) va)" for va
        using translate_write_end[OF wf b(1) e, of va] pres by (simp add: s' lf ag G(2))
      moreover have "vm_ok pml4 s'"
        using G(1) write_end_wf[OF wf b(1) e] write_end(2)[OF wf b(1) e] by (simp add: vm_ok_def s')
      moreover have "translate pml4 (pmem s) va = None" if "same_page sz vaddr va" for va
        using translate_none[of pml4 va "pmem s1", OF write_end(3)[OF wf b(1) e] b(2)] that G(2) ag by simp
      moreover have "walk 3 pml4 vaddr (pmem s') = (lvl_num sz, b)" using write_end(1)[OF wf b(1) e] b(1) by (simp add: s')
      ultimately show ?thesis using s'(1) False Some q by (simp add: increase_granularity_def)
    qed
  qed
qed

lemma same_page_refl [simp]: "same_page sz va va"
  by (simp add: same_page_def)

lemma lvl_num_inj [simp]: "lvl_num l = lvl_num sz \<longleftrightarrow> l = sz"
  by (cases l; cases sz) auto

lemma paging_unmap_ok:
  assumes "vm_ok pml4 s" "walk 3 pml4 vaddr (pmem s) = (lvl_num sz, a)"
  shows "vm_ok pml4 (paging_unmap pml4 vaddr sz s)"
    "translate pml4 (pmem (paging_unmap pml4 vaddr sz s)) va = (if same_page sz vaddr va then None else translate pml4 (pmem s) va)"
proof -
  obtain l a' where "page_walk vaddr pml4 (pmem s) = (l, a')" "walk 3 pml4 vaddr (pmem s) = (lvl_num l, a')" by (rule page_walk_cases)
  then have w: "page_walk vaddr pml4 (pmem s) = (sz, a)" using assms(2) by simp
  have wf: "pt_wf pml4 (pmem s)" using assms(1) by (simp add: vm_ok_def)
  have e: "lvl_num sz = 0 \<or> stops (lvl_num sz) 0" by (simp add: stops_def)
  have ag: "agree (lvl_num sz) vaddr va \<longleftrightarrow> same_page sz vaddr va" by (rule agree_same_page) (cases sz; simp)
  show "vm_ok pml4 (paging_unmap pml4 vaddr sz s)"
    using assms(1) write_end_wf[OF wf assms(2) e] write_end(2)[OF wf assms(2) e] by (simp add: paging_unmap_def w vm_ok_def)
  show "translate pml4 (pmem (paging_unmap pml4 vaddr sz s)) va = (if same_page sz vaddr va then None else translate pml4 (pmem s) va)"
    using translate_write_end[OF wf assms(2) e, of va] by (simp add: paging_unmap_def w ag)
qed

text \<open>Empty tables at \<open>0x1000\<close> with free memory from \<open>0x10000\<close> on.\<close>

definition blank_mm :: mm_state where
  "blank_mm = \<lparr>p_list = [guard_node, \<lparr>base = 0x10000, nsize = 0x8000\<rparr>, guard_node], v_list = [],
     pool = \<lparr>reuse_nodes = 0, node_mallocs = 0\<rparr>, pending_free = [], transaction_list = [], disarm_list = []\<rparr>"

definition blank_vm :: vm where
  "blank_vm = \<lparr>pmem = (\<lambda>_. 0), vmm = blank_mm\<rparr>"

lemma blank_vm_ok: "vm_ok 0x1000 blank_vm"
proof -
  have t: "tabs 3 0x1000 va (\<lambda>_. 0) = [(3, 0x1000)]" for va by (simp add: numeral_3_eq_3 stops_def)
  have f: "free_set (p_list blank_mm) = {0x10000 ..< 0x18000}"
    by (simp add: blank_mm_def free_set_def region_def rbase_def rend_def)
  have "mm_wf (p_list blank_mm)" by (simp add: blank_mm_def mm_wf_def node_ok_def rbase_def rend_def)
  then show ?thesis by (auto simp: vm_ok_def blank_vm_def t f pt_wf_def aligned_def agree_def)
qed

lemma blank_alloc:
  "\<exists>s1 s2 s3. mm_alloc_p PAGE_SIZE_4K blank_mm = (0x10000, s1) \<and> mm_alloc_p PAGE_SIZE_4K s1 = (0x11000, s2)
     \<and> mm_alloc_p PAGE_SIZE_4K s2 = (0x12000, s3)"
  by (simp add: blank_mm_def mm_alloc_p_def alloc_from_p_def mm_alloc_max_def Let_def page_round_def PAGE_SIZE_4K_def fits_def)

lemma blank_granularity:
  "\<exists>b s1. granularity_loop va a 3 0 blank_vm = (Some b, s1)"
proof -
  obtain s1 s2 s3 where "mm_alloc_p PAGE_SIZE_4K blank_mm = (0x10000, s1)" "mm_alloc_p PAGE_SIZE_4K s1 = (0x11000, s2)"
    "mm_alloc_p PAGE_SIZE_4K s2 = (0x12000, s3)" using blank_alloc by blast
  then show ?thesis by (simp add: numeral_3_eq_3 add_table_def blank_vm_def Let_def)
qed

lemma blank_facts:
  "frame_ok PAGE_4K 0x20000 PAGE_PRESENT" "page_walk 0x7000 0x1000 (pmem blank_vm) = (PAGE_512G, 0x1000)"
  "fst (increase_granularity 0x7000 0x1000 PAGE_512G PAGE_4K blank_vm) \<noteq> None" "translate 0x1000 (pmem blank_vm) va = None"
  "\<not> present (pmem blank_vm a)"
proof -
  show "frame_ok PAGE_4K 0x20000 PAGE_PRESENT"
    by (simp add: frame_ok_def PAGE_PRESENT_def PAGE_ADDR_MASK_def mask_eq_exp_minus_1 take_bit_eq_mask)
  show "page_walk 0x7000 0x1000 (pmem blank_vm) = (PAGE_512G, 0x1000)"
    by (simp add: page_walk_def blank_vm_def GET_PML4_INDEX_def Let_def)
  obtain b s1 where "granularity_loop 0x7000 0x1000 3 0 blank_vm = (Some b, s1)" using blank_granularity by blast
  then show "fst (increase_granularity 0x7000 0x1000 PAGE_512G PAGE_4K blank_vm) \<noteq> None" by (simp add: increase_granularity_def)
  show "translate 0x1000 (pmem blank_vm) va = None"
    by (simp add: translate_def blank_vm_def numeral_3_eq_3 stops_def split: prod.split)
  show "\<not> present (pmem blank_vm a)" by (simp add: blank_vm_def)
qed

subsection \<open>Properties\<close>

text \<open>C4: a mapping call refuses an address that is mapped or has finer tables and then changes nothing; it fails when
  no memory is left for a table and then changes no translation; otherwise it maps exactly the page it was asked for:
  every address of that page goes to the frame at the same offset and every other address translates as before.  The
  tables stay well-formed and apart from the free memory.\<close>

theorem paging_map_maps_page:
  assumes "vm_ok pml4 s" "frame_ok sz paddr flg" "paging_map_proc vaddr paddr flg sz pml4 s = (r, s')"
    "page_walk vaddr pml4 (pmem s) = (l, a)"
  shows "vm_ok pml4 s' \<and>
    (if lvl_num l < lvl_num sz \<or> present (pmem s a) then s' = s
     else if fst (increase_granularity vaddr a l sz s) = None then r = 0 \<and> translate pml4 (pmem s') = translate pml4 (pmem s)
     else r = paddr \<and> translate pml4 (pmem s) vaddr = None \<and>
       (\<forall>va. translate pml4 (pmem s') va =
          (if same_page sz vaddr va then Some (paddr OR offset_in sz va) else translate pml4 (pmem s) va)))"
  using paging_map_proc_ok[OF assms] by (auto split: if_splits)

theorem paging_map_maps_page_witness:
  "\<exists>s'. paging_map_proc 0x7000 0x20000 PAGE_PRESENT PAGE_4K 0x1000 blank_vm = (0x20000, s')
     \<and> translate 0x1000 (pmem s') 0x7123 = Some 0x20123 \<and> translate 0x1000 (pmem s') 0x8123 = None"
proof -
  obtain r s' where m: "paging_map_proc 0x7000 0x20000 PAGE_PRESENT PAGE_4K 0x1000 blank_vm = (r, s')" by fastforce
  have "same_page PAGE_4K 0x7000 0x7123" "\<not> same_page PAGE_4K 0x7000 0x8123" "0x20000 OR offset_in PAGE_4K 0x7123 = 0x20123"
    by (simp_all add: same_page_def offset_in_def take_bit_eq_mask mask_eq_exp_minus_1)
  then show ?thesis using paging_map_maps_page[OF blank_vm_ok blank_facts(1) m blank_facts(2)] m blank_facts(3,4,5) by simp
qed

text \<open>C24: \<^verbatim>\<open>paging_unmap\<close> undoes a mapping: after a mapping of the page that took effect, every address translates as
  it did before the mapping.\<close>

theorem paging_unmap_undoes_map:
  assumes "vm_ok pml4 s" "frame_ok sz paddr flg" "paging_map pml4 vaddr paddr flg sz s = (r, s')"
    "translate pml4 (pmem s) vaddr = None" "translate pml4 (pmem s') vaddr \<noteq> None"
  shows "vm_ok pml4 (paging_unmap pml4 vaddr sz s') \<and> translate pml4 (pmem (paging_unmap pml4 vaddr sz s')) = translate pml4 (pmem s)"
proof -
  obtain l a where w: "page_walk vaddr pml4 (pmem s) = (l, a)" by fastforce
  have M: "vm_ok pml4 s'" "\<exists>b. walk 3 pml4 vaddr (pmem s') = (lvl_num sz, b)"
    "\<forall>va. same_page sz vaddr va \<longrightarrow> translate pml4 (pmem s) va = None"
    "\<forall>va. translate pml4 (pmem s') va = (if same_page sz vaddr va then Some (paddr OR offset_in sz va) else translate pml4 (pmem s) va)"
    using paging_map_proc_ok[OF assms(1,2) assms(3)[unfolded paging_map_def] w] assms(4,5) by (auto split: if_splits)
  then obtain b where b: "walk 3 pml4 vaddr (pmem s') = (lvl_num sz, b)" by blast
  have "translate pml4 (pmem (paging_unmap pml4 vaddr sz s')) va = translate pml4 (pmem s) va" for va
    using paging_unmap_ok(2)[OF M(1) b, of va] M(3,4) by simp
  then show ?thesis using paging_unmap_ok(1)[OF M(1) b] by blast
qed

theorem paging_unmap_undoes_map_witness:
  "\<exists>r s'. paging_map 0x1000 0x7000 0x20000 PAGE_PRESENT PAGE_4K blank_vm = (r, s') \<and> translate 0x1000 (pmem s') 0x7000 \<noteq> None
     \<and> translate 0x1000 (pmem (paging_unmap 0x1000 0x7000 PAGE_4K s')) = translate 0x1000 (pmem blank_vm)"
proof -
  obtain r s' where m: "paging_map 0x1000 0x7000 0x20000 PAGE_PRESENT PAGE_4K blank_vm = (r, s')" by fastforce
  have t: "translate 0x1000 (pmem s') 0x7000 \<noteq> None"
    using paging_map_proc_ok[OF blank_vm_ok blank_facts(1) m[unfolded paging_map_def] blank_facts(2)] blank_facts(3,5) by simp
  then show ?thesis using paging_unmap_undoes_map[OF blank_vm_ok blank_facts(1) m blank_facts(4)] m by blast
qed

lemma guard_bit: "bit AVL_GUARD i \<longleftrightarrow> i = 11"
proof -
  have "AVL_GUARD = push_bit 11 1" by (simp add: AVL_GUARD_def push_bit_eq_mult)
  moreover have "bit (push_bit 11 (1 :: u64)) i \<longleftrightarrow> i = 11" by (simp only: bit_push_bit_iff bit_1_iff) auto
  ultimately show ?thesis by metis
qed

text \<open>Guard pages.  Where no page is mapped and memory for the tables is left, \<^verbatim>\<open>paging_install_guard\<close> makes
  \<^verbatim>\<open>paging_check_guard\<close> true and \<^verbatim>\<open>paging_remove_guard\<close> makes it false again; neither changes a translation, so
  an access to the guard page still faults.\<close>

lemma paging_guard_roundtrip:
  assumes "vm_ok pml4 s" "page_walk va pml4 (pmem s) = (l, a)" "\<not> present (pmem s a)"
    "fst (increase_granularity va a l PAGE_4K s) \<noteq> None" "s' = paging_install_guard pml4 va s" "s'' = paging_remove_guard pml4 va s'"
  shows "paging_check_guard pml4 va s' \<and> \<not> paging_check_guard pml4 va s'' \<and> translate pml4 (pmem s') = translate pml4 (pmem s)
    \<and> translate pml4 (pmem s'') = translate pml4 (pmem s) \<and> vm_ok pml4 s''"
proof -
  have w: "walk 3 pml4 va (pmem s) = (lvl_num l, a)" using assms(2) page_walk_walk[of va pml4 "pmem s"] by auto
  obtain b s1 where q: "granularity_loop va a (lvl_num l) 0 s = (Some b, s1)"
    using assms(4) by (auto simp: increase_granularity_def) (metis prod.collapse)
  have G: "vm_ok pml4 s1" "translate pml4 (pmem s1) = translate pml4 (pmem s)" "walk 3 pml4 va (pmem s1) = (0, b)" "\<not> present (pmem s1 b)"
    using granularity_loop_ok[OF assms(1) w assms(3) _ q] by auto
  have wf: "pt_wf pml4 (pmem s1)" using G(1) by (simp add: vm_ok_def)
  let ?e = "pmem s1 b OR AVL_GUARD"
  have s': "s' = s1\<lparr>pmem := (pmem s1)(b := ?e)\<rparr>"
    using assms(2,3,5) q by (simp add: paging_install_guard_def increase_granularity_def)
  have walk: "walk 3 pml4 va ((pmem s1)(b := x)) = (0, b)" for x using write_end(1)[OF wf G(3)] G(3) by simp
  have pw: "page_walk va pml4 ((pmem s1)(b := x)) = (PAGE_4K, b)" for x
  proof -
    obtain l' b' where "page_walk va pml4 ((pmem s1)(b := x)) = (l', b')" "walk 3 pml4 va ((pmem s1)(b := x)) = (lvl_num l', b')"
      by (rule page_walk_cases)
    moreover have "lvl_num l' = 0 \<Longrightarrow> l' = PAGE_4K" by (cases l') auto
    ultimately show ?thesis using walk[of x] by simp
  qed
  have g: "?e AND AVL_GUARD \<noteq> 0" "\<not> present ?e"
    using G(4) unfolding flag_bits by (simp_all add: bit_or_iff guard_bit)
  have s'': "s'' = s1\<lparr>pmem := (pmem s1)(b := 0)\<rparr>"
    using g(1) pw[of ?e] by (simp add: assms(6) s' paging_remove_guard_def)
  have tr: "translate pml4 ((pmem s1)(b := x)) = translate pml4 (pmem s1)" if "\<not> present x" for x
  proof
    fix v
    show "translate pml4 ((pmem s1)(b := x)) v = translate pml4 (pmem s1) v"
      using translate_write_end[OF wf G(3), of x v] translate_none[OF write_end(3)[OF wf G(3)] G(4), of x v] that by simp
  qed
  have "vm_ok pml4 s''"
    using G(1) write_end_wf[OF wf G(3)] write_end(2)[OF wf G(3)] by (simp add: vm_ok_def s'')
  then show ?thesis using tr[of ?e] tr[of 0] g G(2) pw[of ?e] pw[of 0]
    by (simp add: s' s'' paging_check_guard_def)
qed

text \<open>Copying entries of one table into another.\<close>

lemma copy_entries:
  assumes "aligned p" "aligned k" "k \<noteq> p" "\<forall>i \<in> set is. i < 512"
  shows "(\<forall>t i. aligned t \<and> unat i < 512 \<longrightarrow>
    fold (\<lambda>i m. m(p + 8 * of_nat i := m (k + 8 * of_nat i))) is m (t + 8 * i)
      = (if t = p \<and> unat i \<in> set is then m (k + 8 * i) else m (t + 8 * (i :: u64))))"
  using assms(4)
proof (induction "is" arbitrary: m)
  case (Cons j js)
  let ?m = "m(p + 8 * of_nat j := m (k + 8 * of_nat j))"
  have j: "unat (of_nat j :: u64) = j" using Cons.prems by (simp add: unat_of_nat)
  have m: "?m (t + 8 * i) = (if t = p \<and> unat i = j then m (k + 8 * i) else m (t + 8 * i))" if "aligned t" "unat i < 512" for t i
    using entry_inj[OF that(1) assms(1) that(2), of "of_nat j"] j Cons.prems by auto
  have "?m (k + 8 * i) = m (k + 8 * i)" if "unat i < 512" for i using m[OF assms(2) that] assms(3) by simp
  then show ?case using Cons.IH[of ?m] m Cons.prems by auto
qed simp

lemma walk_top:
  assumes "\<And>va. idx 3 va = i \<Longrightarrow> m' (p + 8 * i) = m (k + 8 * i)"
    "\<And>va n t. idx 3 va = i \<Longrightarrow> (n, t) \<in> set (tabs 3 k va m) \<Longrightarrow> n < 3 \<Longrightarrow> m' (t + 8 * idx n va) = m (t + 8 * idx n va)"
    "idx 3 va = i"
  shows "translate p m' va = translate k m va"
proof -
  have e: "m' (p + 8 * i) = m (k + 8 * i)" using assms(1,3) by blast
  show ?thesis
  proof (cases "stops 3 (m (k + 8 * i))")
    case True
    then have "walk 3 p va m' = (3, p + 8 * i)" "walk 3 k va m = (3, k + 8 * i)" using e assms(3) by (simp_all add: eval_nat_numeral)
    then show ?thesis using True e by (simp add: translate_def stops_def)
  next
    case False
    let ?t = "m (k + 8 * i) AND PAGE_ADDR_MASK"
    have w: "walk 3 p va m' = walk 2 ?t va m'" "walk 3 k va m = walk 2 ?t va m" "set (tabs 2 ?t va m) \<subseteq> set (tabs 3 k va m)"
      using False e assms(3) by (auto simp: eval_nat_numeral Let_def)
    have lv: "n < 3" if "(n, t) \<in> set (tabs 2 ?t va m)" for n t using tabs_aligned[OF aligned_mask that] by simp
    have h: "m' (t + 8 * idx n va) = m (t + 8 * idx n va)" if "(n, t) \<in> set (tabs 2 ?t va m)" for n t
      using assms(2)[OF assms(3), of n t] that lv[OF that] w(3) by blast
    then have "walk 2 ?t va m' = walk 2 ?t va m" using walk_cong[of 2 ?t va m m'] by blast
    moreover obtain n a where "walk 2 ?t va m = (n, a)" by fastforce
    ultimately show ?thesis using w h walk_in_tabs[of 2 ?t va m n a] by (auto simp: translate_def)
  qed
qed

text \<open>C30: a new address space has the kernel's half and nothing else: addresses of the upper half translate as in the
  kernel's tables and those of the lower half not at all; the kernel's own translations are unchanged.\<close>

theorem paging_create_pml4_shares_kernel:
  assumes "vm_ok k s" "paging_create_pml4 k s = (p, s')" "p \<noteq> 0"
  shows "(\<forall>va. translate p (pmem s') va = (if 256 \<le> unat (idx 3 va) then translate k (pmem s) va else None))
    \<and> translate k (pmem s') = translate k (pmem s)"
proof -
  have mw: "mm_wf (p_list (vmm s))" and use: "\<And>va n t. (n, t) \<in> set (tabs 3 k va (pmem s)) \<Longrightarrow> unat t \<notin> free_set (p_list (vmm s))"
    and k: "aligned k" using assms(1) by (auto simp: vm_ok_def pt_wf_def)
  have rq: "mm_request PAGE_SIZE_4K" "page_up (unat PAGE_SIZE_4K) = 4096"
    by (simp_all add: mm_request_def PAGE_SIZE_4K_def page_up_def)
  obtain mm' where al: "mm_alloc_p PAGE_SIZE_4K (vmm s) = (p, mm')"
    and s': "pmem s' = fold (\<lambda>i m. m(p + 8 * of_nat i := m (k + 8 * of_nat i)))
      [PML4_CONSISTENT_START ..< PML4_CONSISTENT_END] (zero_page p (pmem s))"
    using assms(2,3) by (auto simp: paging_create_pml4_def split: prod.splits if_splits)
  have P: "aligned p" "unat p \<in> free_set (p_list (vmm s))"
    using phys.take_ok[OF mw rq(1) al, unfolded rq(2)] assms(3) by (auto simp: aligned_def)
  have fr: "t \<noteq> p" if "(n, t) \<in> set (tabs 3 k va (pmem s))" for va n t using use[OF that] P(2) by auto
  have kp: "k \<noteq> p" using fr[of 3 k] by (simp add: eval_nat_numeral)
  have "\<forall>i \<in> set [PML4_CONSISTENT_START ..< PML4_CONSISTENT_END]. i < 512" by (simp add: PML4_CONSISTENT_END_def)
  note C = copy_entries[OF P(1) k kp this, of "zero_page p (pmem s)", folded s', unfolded set_upt atLeastLessThan_iff PML4_CONSISTENT_START_def PML4_CONSISTENT_END_def, rule_format]
  have z: "zero_page p (pmem s) (t + 8 * i) = (if t = p then 0 else pmem s (t + 8 * i))" if "aligned t" "unat i < 512" for t i
    using in_page[OF P(1) that] by (simp add: zero_page_def)
  have m: "pmem s' (t + 8 * i) = (if t = p then if 256 \<le> unat i then pmem s (k + 8 * i) else 0 else pmem s (t + 8 * i))"
    if "aligned t" "unat i < 512" for t i
    using C[of t i] z[OF that] z[OF k that(2)] that kp by auto
  have old: "pmem s' (t + 8 * idx n va) = pmem s (t + 8 * idx n va)" if "(n, t) \<in> set (tabs 3 k va (pmem s))" for va n t
    using m[OF _ idx_less, of t n va] fr[OF that] tabs_aligned[OF k that] by auto
  have "translate p (pmem s') va = (if 256 \<le> unat (idx 3 va) then translate k (pmem s) va else None)" for va
  proof (cases "256 \<le> unat (idx 3 va)")
    case True
    then show ?thesis using m[OF P(1) idx_less, of 3 va] old by (simp add: walk_top[of "idx 3 va" "pmem s'" p "pmem s" k va])
  next
    case False
    then have "pmem s' (p + 8 * idx 3 va) = 0" using m[OF P(1) idx_less, of 3 va] by simp
    then show ?thesis using False by (simp add: translate_def stops_def eval_nat_numeral)
  qed
  moreover have "translate k (pmem s') va = translate k (pmem s) va" for va
  proof -
    obtain n a where w: "walk 3 k va (pmem s) = (n, a)" by fastforce
    then show ?thesis using walk_cong[of 3 k va "pmem s" "pmem s'"] old walk_in_tabs[OF w] by (auto simp: translate_def)
  qed
  ultimately show ?thesis by blast
qed

theorem paging_create_pml4_shares_kernel_witness:
  "\<exists>p s'. paging_create_pml4 0x1000 blank_vm = (p, s') \<and> p \<noteq> 0 \<and> translate p (pmem s') 0x7000 = None"
proof -
  obtain s1 where a: "mm_alloc_p PAGE_SIZE_4K blank_mm = (0x10000, s1)" using blank_alloc by blast
  then obtain s' where c: "paging_create_pml4 0x1000 blank_vm = (0x10000, s')" by (simp add: paging_create_pml4_def blank_vm_def)
  have "idx 3 0x7000 = 0" by (simp add: idx_def)
  then show ?thesis using paging_create_pml4_shares_kernel[OF blank_vm_ok c] c by simp
qed

end
