(* ===== verification/VfsPath.thy ===== *)
theory VfsPath
  imports Prelude
begin

section \<open>Path resolution of the VFS (kernel/core/fs.c, \<^verbatim>\<open>find_mount\<close>)\<close>

text \<open>
  \<^verbatim>\<open>find_mount\<close> cleans an absolute path in one pass from its end to its start: it copies bytes
  backwards into a buffer and, at each slash, decides whether the component just copied stays.
  A component \<^verbatim>\<open>..\<close> increments a counter of components to skip.  The buffer is modelled by the
  bytes after the write pointer; moving the pointer forward drops bytes.  The result is shown to be
  the usual normalisation, a stack of components filled from left to right.
\<close>

definition SLASH :: u8 where "SLASH = 0x2F"
definition DOT :: u8 where "DOT = 0x2E"

record path_state =
  num_chars :: nat
  skip :: nat
  dot_only :: bool
  out :: bytes

definition path_slash :: "path_state \<Rightarrow> path_state" where
  "path_slash s =
     (if dot_only s \<and> num_chars s = 1 then s\<lparr>out := drop (num_chars s) (out s)\<rparr>
      else if dot_only s \<and> num_chars s = 2 then s\<lparr>skip := skip s + 1, out := drop (num_chars s) (out s)\<rparr>
      else if num_chars s > 0
      then if skip s \<noteq> 0 then s\<lparr>out := drop (num_chars s) (out s), skip := skip s - 1\<rparr>
           else s\<lparr>out := SLASH # out s\<rparr>
      else s)\<lparr>num_chars := 0, dot_only := True\<rparr>"

definition path_char :: "u8 \<Rightarrow> path_state \<Rightarrow> path_state" where
  "path_char c s =
     (if c = SLASH then path_slash s
      else if c = 0 then s\<lparr>out := c # out s\<rparr>
      else if c = DOT then s\<lparr>num_chars := num_chars s + 1, out := c # out s\<rparr>
      else s\<lparr>dot_only := False, num_chars := num_chars s + 1, out := c # out s\<rparr>)"

definition path_init :: path_state where
  "path_init = \<lparr>num_chars = 0, skip = 0, dot_only = True, out = []\<rparr>"

text \<open>The loop reads the terminating zero first and the first byte of the path last.  One leading
  slash is dropped from the result, which ends with the terminator.\<close>

definition clean_path :: "bytes \<Rightarrow> bytes" where
  "clean_path path =
     (let o1 = out (foldr path_char (path @ [0]) path_init)
      in if hd o1 = SLASH then tl o1 else o1)"

text \<open>\<^verbatim>\<open>path_next\<close>: the first component of a path and what follows its slash.\<close>

definition path_next :: "bytes \<Rightarrow> bytes \<times> bytes" where
  "path_next p = (takeWhile (\<lambda>c. c \<noteq> 0 \<and> c \<noteq> SLASH) p,
     let r = dropWhile (\<lambda>c. c \<noteq> 0 \<and> c \<noteq> SLASH) p in if r \<noteq> [] \<and> hd r \<noteq> 0 then tl r else r)"

subsection \<open>The specification\<close>

fun comps :: "bytes \<Rightarrow> bytes list" where
  "comps [] = [[]]"
| "comps (c # cs) = (if c = SLASH then [] # comps cs else (c # hd (comps cs)) # tl (comps cs))"

definition push_comp :: "bytes list \<Rightarrow> bytes \<Rightarrow> bytes list" where
  "push_comp st c = (if c = [] \<or> c = [DOT] then st else if c = [DOT, DOT] then tl st else c # st)"

definition normalise :: "bytes list \<Rightarrow> bytes list" where
  "normalise cs = rev (foldl push_comp [] cs)"

fun join :: "bytes list \<Rightarrow> bytes" where
  "join [] = []"
| "join [c] = c"
| "join (c # cs) = c @ SLASH # join cs"

subsection \<open>Right to left with a counter is left to right with a stack\<close>

definition step_comp :: "bytes \<Rightarrow> bytes list \<times> nat \<Rightarrow> bytes list \<times> nat" where
  "step_comp c r = (case r of (acc, k) \<Rightarrow>
     if c = [] \<or> c = [DOT] then (acc, k) else if c = [DOT, DOT] then (acc, k + 1)
     else if k \<noteq> 0 then (acc, k - 1) else (c # acc, 0))"

lemma foldl_push_comp:
  "foldr step_comp cs ([], 0) = (acc, k) \<Longrightarrow> foldl push_comp st cs = rev acc @ drop k st"
proof (induction cs arbitrary: st acc k)
  case (Cons c cs)
  obtain acc1 k1 where r: "foldr step_comp cs ([], 0) = (acc1, k1)" by (meson surj_pair)
  have f: "foldl push_comp st (c # cs) = rev acc1 @ drop k1 (push_comp st c)"
    using Cons.IH[OF r] by simp
  have "step_comp c (acc1, k1) = (acc, k)" using Cons.prems r by simp
  then show ?case unfolding f
    by (cases k1) (auto simp: step_comp_def push_comp_def drop_Suc split: if_splits)
qed simp

lemma normalise_foldr: "normalise cs = fst (foldr step_comp cs ([], 0))"
  using foldl_push_comp[of cs "fst (foldr step_comp cs ([], 0))" "snd (foldr step_comp cs ([], 0))" "[]"]
  by (simp add: normalise_def)

definition render :: "bytes list \<Rightarrow> bytes" where
  "render cs = concat (map (\<lambda>c. SLASH # c) cs)"

definition proper :: "bytes \<Rightarrow> bool" where
  "proper p \<longleftrightarrow> 0 \<notin> set p \<and> SLASH \<notin> set p"

lemma comps_not_Nil [simp]: "comps xs \<noteq> []"
  by (cases xs) auto

lemma comps_proper: "0 \<notin> set xs \<Longrightarrow> c \<in> set (comps xs) \<Longrightarrow> proper c"
proof (induction xs arbitrary: c)
  case (Cons x xs)
  have "proper (hd (comps xs))" using Cons.IH[of "hd (comps xs)"] Cons.prems(1) by simp
  with Cons show ?case
    by (auto simp: proper_def split: if_splits dest!: list.set_sel(2)[OF comps_not_Nil])
qed (simp add: proper_def)

text \<open>What the loop has done after the suffix \<open>xs\<close>: the last components are decided, the first one
  stands undecided at the head of the buffer.\<close>

definition path_rel :: "bytes \<Rightarrow> path_state \<Rightarrow> bool" where
  "path_rel xs s \<longleftrightarrow> (case comps xs of p # cs \<Rightarrow>
     case foldr step_comp cs ([], 0) of (acc, k) \<Rightarrow>
       num_chars s = length p \<and> skip s = k \<and> dot_only s = (set p \<subseteq> {DOT})
       \<and> out s = p @ render acc @ [0])"

lemma DOT_neq [simp]: "DOT \<noteq> SLASH" "SLASH \<noteq> DOT" "DOT \<noteq> 0" "SLASH \<noteq> 0"
  by (simp_all add: DOT_def SLASH_def)

lemma dots_1: "set p \<subseteq> {DOT} \<and> length p = Suc 0 \<longleftrightarrow> p = [DOT]"
  by (auto simp: length_Suc_conv)

lemma dots_2: "set p \<subseteq> {DOT} \<and> length p = 2 \<longleftrightarrow> p = [DOT, DOT]"
  by (auto simp: numeral_2_eq_2 length_Suc_conv)

lemma path_slash_step:
  assumes "num_chars s = length p" "skip s = k" "dot_only s = (set p \<subseteq> {DOT})" "out s = p @ render acc @ [0]"
  shows "path_slash s = \<lparr>num_chars = 0, skip = snd (step_comp p (acc, k)), dot_only = True,
     out = render (fst (step_comp p (acc, k))) @ [0]\<rparr>"
proof -
  have 1: "dot_only s \<and> num_chars s = 1 \<longleftrightarrow> p = [DOT]" using assms dots_1[of p] by simp
  have 2: "dot_only s \<and> num_chars s = 2 \<longleftrightarrow> p = [DOT, DOT]" using assms dots_2[of p] by simp
  show ?thesis unfolding path_slash_def 1 2 using assms
    by (cases "p = []") (auto simp: step_comp_def render_def)
qed

lemma path_char_simps:
  "path_char SLASH s = path_slash s" "path_char 0 s = s\<lparr>out := 0 # out s\<rparr>"
  "c \<noteq> SLASH \<Longrightarrow> c \<noteq> 0 \<Longrightarrow> path_char c s =
     s\<lparr>dot_only := dot_only s \<and> c = DOT, num_chars := num_chars s + 1, out := c # out s\<rparr>"
  using DOT_neq by (auto simp: path_char_def)

lemma path_rel_foldr:
  "0 \<notin> set xs \<Longrightarrow> path_rel xs (foldr path_char (xs @ [0]) path_init)"
proof (induction xs)
  case Nil
  then show ?case by (simp add: path_rel_def path_char_def path_init_def render_def)
next
  case (Cons c xs)
  let ?s = "foldr path_char (xs @ [0]) path_init"
  obtain p cs where pc: "comps xs = p # cs" by (cases "comps xs") auto
  obtain acc k where f: "foldr step_comp cs ([], 0) = (acc, k)" by (meson surj_pair)
  have s: "num_chars ?s = length p" "skip ?s = k" "dot_only ?s = (set p \<subseteq> {DOT})" "out ?s = p @ render acc @ [0]"
    using Cons by (auto simp: path_rel_def pc f)
  show ?case
  proof (cases "c = SLASH")
    case True
    have "foldr path_char ((c # xs) @ [0]) path_init = path_slash ?s"
      using True by (simp add: path_char_simps)
    then show ?thesis using path_slash_step[OF s] True
      by (simp add: path_rel_def pc f case_prod_unfold)
  next
    case False
    then have "foldr path_char ((c # xs) @ [0]) path_init
        = ?s\<lparr>dot_only := dot_only ?s \<and> c = DOT, num_chars := num_chars ?s + 1, out := c # out ?s\<rparr>"
      using Cons.prems by (simp add: path_char_simps)
    then show ?thesis using s False by (auto simp: path_rel_def pc f)
  qed
qed

lemma render_join: "cs \<noteq> [] \<Longrightarrow> render cs = SLASH # join cs"
  by (induction cs rule: join.induct) (auto simp: render_def)

lemma clean_path_join:
  assumes "0 \<notin> set rest"
  shows "clean_path (SLASH # rest) = join (normalise (comps rest)) @ [0]"
proof -
  obtain acc k where f: "foldr step_comp (comps rest) ([], 0) = (acc, k)" by (meson surj_pair)
  have "out (foldr path_char ((SLASH # rest) @ [0]) path_init) = render acc @ [0]"
    using path_rel_foldr[of "SLASH # rest"] assms by (simp add: path_rel_def f)
  moreover have "normalise (comps rest) = acc" by (simp add: normalise_foldr f)
  moreover have empty: "render [] = []" by (simp add: render_def)
  ultimately show ?thesis by (cases "acc = []") (auto simp: clean_path_def Let_def render_join empty)
qed

lemma push_comp_set:
  "c \<in> set (push_comp st a) \<Longrightarrow> c \<in> set st \<or> c = a \<and> c \<noteq> [] \<and> c \<noteq> [DOT] \<and> c \<noteq> [DOT, DOT]"
  by (cases st) (auto simp: push_comp_def split: if_splits)

lemma foldl_push_comp_set:
  "c \<in> set (foldl push_comp st cs) \<Longrightarrow>
   c \<in> set st \<or> c \<in> set cs \<and> c \<noteq> [] \<and> c \<noteq> [DOT] \<and> c \<noteq> [DOT, DOT]"
proof (induction cs arbitrary: st)
  case (Cons a cs)
  then show ?case using Cons.IH[of "push_comp st a"] push_comp_set[of c st a] by auto
qed simp

lemma normalise_comps:
  "c \<in> set (normalise cs) \<Longrightarrow> c \<in> set cs \<and> c \<noteq> [] \<and> c \<noteq> [DOT] \<and> c \<noteq> [DOT, DOT]"
  using foldl_push_comp_set[of c "[]" cs] by (simp add: normalise_def)

lemma join_proper: "\<forall>c \<in> set cs. proper c \<Longrightarrow> 0 \<notin> set (join cs)"
  by (induction cs rule: join.induct) (auto simp: proper_def)

text \<open>The buffer holds one byte more than the path has, and the write pointer never leaves it.\<close>

lemma path_out_bound: "length (out (foldr path_char xs path_init)) \<le> length xs"
  by (induction xs) (auto simp: path_char_def path_slash_def path_init_def)

lemma normalise_id:
  assumes "\<forall>c \<in> set cs. c \<noteq> [] \<and> c \<noteq> [DOT] \<and> c \<noteq> [DOT, DOT]"
  shows "normalise cs = cs"
proof -
  have "foldl push_comp st cs = rev cs @ st" for st
    using assms by (induction cs arbitrary: st) (auto simp: push_comp_def)
  then show ?thesis by (simp add: normalise_def)
qed

lemma comps_append: "SLASH \<notin> set c \<Longrightarrow> comps (c @ xs) = (c @ hd (comps xs)) # tl (comps xs)"
  by (induction c) auto

lemma comps_join:
  "cs \<noteq> [] \<Longrightarrow> \<forall>c \<in> set cs. proper c \<Longrightarrow> comps (join cs) = cs"
proof (induction cs rule: join.induct)
  case (2 c)
  then show ?case using comps_append[of c "[]"] by (simp add: proper_def)
qed (auto simp: comps_append proper_def)

subsection \<open>Properties\<close>

text \<open>C27: \<^verbatim>\<open>find_mount\<close> cleans an absolute path to its normal form: the components of the path with
  empty ones and \<^verbatim>\<open>.\<close> removed and each \<^verbatim>\<open>..\<close> cancelling the component before it, joined by slashes and
  terminated.  No component of the result is empty, \<^verbatim>\<open>.\<close> or \<^verbatim>\<open>..\<close>, so the result never leads out of the
  root, and the backward copy never writes before the buffer.\<close>

theorem clean_path_normalises:
  assumes "0 \<notin> set rest"
  shows "clean_path (SLASH # rest) = join (normalise (comps rest)) @ [0]
    \<and> (\<forall>c \<in> set (normalise (comps rest)). c \<noteq> [] \<and> c \<noteq> [DOT] \<and> c \<noteq> [DOT, DOT] \<and> c \<in> set (comps rest))
    \<and> length (out (foldr path_char ((SLASH # rest) @ [0]) path_init)) \<le> length (SLASH # rest) + 1"
  using clean_path_join[OF assms] normalise_comps path_out_bound[of "(SLASH # rest) @ [0]"] by auto

theorem clean_path_normalises_witness:
  "clean_path [SLASH, 0x61, SLASH, DOT, SLASH, 0x62, SLASH, DOT, DOT, SLASH, SLASH, 0x63] = [0x61, SLASH, 0x63, 0]"
  using clean_path_normalises[of "[0x61, SLASH, DOT, SLASH, 0x62, SLASH, DOT, DOT, SLASH, SLASH, 0x63]"]
  by (simp add: normalise_def push_comp_def SLASH_def DOT_def)

text \<open>Cleaning is idempotent: a path that \<^verbatim>\<open>find_mount\<close> produced, opened again with a slash in front
  as \<^verbatim>\<open>lookup_register\<close> stores it and \<^verbatim>\<open>fs_openat\<close> uses it, is cleaned to itself.\<close>

lemma clean_path_idempotent:
  assumes "0 \<notin> set rest" "clean_path (SLASH # rest) = p @ [0]"
  shows "clean_path (SLASH # p) = p @ [0]"
proof -
  let ?n = "normalise (comps rest)"
  have p: "p = join ?n" using clean_path_join[OF assms(1)] assms(2) by simp
  have ok: "\<forall>c \<in> set ?n. proper c \<and> c \<noteq> [] \<and> c \<noteq> [DOT] \<and> c \<noteq> [DOT, DOT]"
    using normalise_comps comps_proper[OF assms(1)] by blast
  have z: "0 \<notin> set p" unfolding p using ok by (intro join_proper) auto
  show ?thesis
  proof (cases "?n = []")
    case True
    then show ?thesis by (simp add: p clean_path_join normalise_def push_comp_def)
  next
    case False
    then have "comps p = ?n" unfolding p using ok by (intro comps_join) auto
    then show ?thesis using clean_path_join[OF z] normalise_id[of ?n] ok by (simp add: p)
  qed
qed

end
