(* ===== verification/Vfs.thy ===== *)
theory Vfs
  imports VfsPath Hash HashTable
begin

section \<open>The virtual file system (kernel/core/fs.c)\<close>

text \<open>
  Mounts, open files and handles.  A mount is a record of the driver's function pointers; the
  drivers themselves are arguments, functions on a driver state \<open>'d\<close> and their own file handles
  \<open>'h\<close>, and each mount starts with the stubs of the source.  Out-parameters are results.  Mounts
  and the shared \<^verbatim>\<open>fs_open_file_t\<close> objects are named by numbers which stand for their addresses;
  freeing an object removes it from the map, and \<open>stale\<close> records that the code has used the
  address of a freed object.  The semaphore and the per-file locks order the operations of
  different processors; each operation is one step here.
\<close>

datatype file_status_t = FILE_OK | FILE_ERROR | FILE_DNE | FILE_BUSY | FILE_NO_SUPPORT
  | FILE_BAD_FLAGS | FILE_NOT_DIR

definition O_RDONLY :: u32 where "O_RDONLY = 0"
definition O_WRONLY :: u32 where "O_WRONLY = 1"
definition O_RDWR :: u32 where "O_RDWR = 2"
definition O_CREAT :: u32 where "O_CREAT = 0x40"
definition O_TRUNC :: u32 where "O_TRUNC = 0x200"
definition O_APPEND :: u32 where "O_APPEND = 0x400"

record ('d, 'h) fs_mount_t =
  cntx :: u64
  m_open :: "u64 \<Rightarrow> bytes \<Rightarrow> u32 \<Rightarrow> u32 \<Rightarrow> 'd \<Rightarrow> 'h option \<times> 'd"
  m_close :: "'h \<Rightarrow> 'd \<Rightarrow> 'd"
  m_stat :: "'h \<Rightarrow> 'd \<Rightarrow> (file_status_t \<times> bytes) \<times> 'd"
  m_read :: "'h \<Rightarrow> u64 \<Rightarrow> 'd \<Rightarrow> (u64 \<times> bytes) \<times> 'd"
  m_get_seek :: "'h \<Rightarrow> 'd \<Rightarrow> u64 \<times> 'd"
  m_seek :: "'h \<Rightarrow> u64 \<Rightarrow> 'd \<Rightarrow> file_status_t \<times> 'd"
  m_write :: "'h \<Rightarrow> bytes \<Rightarrow> 'd \<Rightarrow> u64 \<times> 'd"
  m_delete_final :: "'h \<Rightarrow> 'd \<Rightarrow> 'd"
  m_open_dir :: "'h \<Rightarrow> 'd \<Rightarrow> file_status_t \<times> 'd"
  m_read_dir :: "'h \<Rightarrow> 'd \<Rightarrow> (file_status_t \<times> bytes) \<times> 'd"
  m_create_dir :: "'h \<Rightarrow> 'd \<Rightarrow> file_status_t \<times> 'd"
  m_delete_dir :: "'h \<Rightarrow> 'd \<Rightarrow> file_status_t \<times> 'd"
  m_is_interactive :: "'h \<Rightarrow> 'd \<Rightarrow> u8 \<times> 'd"
  m_truncate :: "'h \<Rightarrow> u64 \<Rightarrow> 'd \<Rightarrow> file_status_t \<times> 'd"
  m_link :: "'h \<Rightarrow> 'h \<Rightarrow> 'd \<Rightarrow> file_status_t \<times> 'd"
  m_unlink :: "'h \<Rightarrow> 'd \<Rightarrow> file_status_t \<times> 'd"
  m_dup :: "'h \<Rightarrow> 'd \<Rightarrow> 'h option \<times> 'd"
  m_next_dir :: "'h \<Rightarrow> 'd \<Rightarrow> file_status_t \<times> 'd"

definition mount_stubs :: "u64 \<Rightarrow> ('d, 'h) fs_mount_t" where
  "mount_stubs c = \<lparr>cntx = c,
     m_open = (\<lambda>_ _ _ _ d. (None, d)),
     m_close = (\<lambda>_ d. d),
     m_stat = (\<lambda>_ d. ((FILE_NO_SUPPORT, []), d)),
     m_read = (\<lambda>_ _ d. ((0, []), d)),
     m_get_seek = (\<lambda>_ d. (0, d)),
     m_seek = (\<lambda>_ _ d. (FILE_OK, d)),
     m_write = (\<lambda>_ _ d. (0, d)),
     m_delete_final = (\<lambda>_ d. d),
     m_open_dir = (\<lambda>_ d. (FILE_NO_SUPPORT, d)),
     m_read_dir = (\<lambda>_ d. ((FILE_NO_SUPPORT, []), d)),
     m_create_dir = (\<lambda>_ d. (FILE_NO_SUPPORT, d)),
     m_delete_dir = (\<lambda>_ d. (FILE_NO_SUPPORT, d)),
     m_is_interactive = (\<lambda>_ d. (0, d)),
     m_truncate = (\<lambda>_ _ d. (FILE_NO_SUPPORT, d)),
     m_link = (\<lambda>_ _ d. (FILE_NO_SUPPORT, d)),
     m_unlink = (\<lambda>_ d. (FILE_NO_SUPPORT, d)),
     m_dup = (\<lambda>_ d. (None, d)),
     m_next_dir = (\<lambda>_ d. (FILE_NO_SUPPORT, d))\<rparr>"

text \<open>The assignment of each driver operation.\<close>

definition fs_mount_assign_open :: "('d, 'h) fs_mount_t \<Rightarrow> (u64 \<Rightarrow> bytes \<Rightarrow> u32 \<Rightarrow> u32 \<Rightarrow> 'd \<Rightarrow> 'h option \<times> 'd) \<Rightarrow> ('d, 'h) fs_mount_t" where
  "fs_mount_assign_open mount f = mount\<lparr>m_open := f\<rparr>"

definition fs_mount_assign_close :: "('d, 'h) fs_mount_t \<Rightarrow> ('h \<Rightarrow> 'd \<Rightarrow> 'd) \<Rightarrow> ('d, 'h) fs_mount_t" where
  "fs_mount_assign_close mount f = mount\<lparr>m_close := f\<rparr>"

definition fs_mount_assign_stat :: "('d, 'h) fs_mount_t \<Rightarrow> ('h \<Rightarrow> 'd \<Rightarrow> (file_status_t \<times> bytes) \<times> 'd) \<Rightarrow> ('d, 'h) fs_mount_t" where
  "fs_mount_assign_stat mount f = mount\<lparr>m_stat := f\<rparr>"

definition fs_mount_assign_read :: "('d, 'h) fs_mount_t \<Rightarrow> ('h \<Rightarrow> u64 \<Rightarrow> 'd \<Rightarrow> (u64 \<times> bytes) \<times> 'd) \<Rightarrow> ('d, 'h) fs_mount_t" where
  "fs_mount_assign_read mount f = mount\<lparr>m_read := f\<rparr>"

definition fs_mount_assign_get_seek :: "('d, 'h) fs_mount_t \<Rightarrow> ('h \<Rightarrow> 'd \<Rightarrow> u64 \<times> 'd) \<Rightarrow> ('d, 'h) fs_mount_t" where
  "fs_mount_assign_get_seek mount f = mount\<lparr>m_get_seek := f\<rparr>"

definition fs_mount_assign_seek :: "('d, 'h) fs_mount_t \<Rightarrow> ('h \<Rightarrow> u64 \<Rightarrow> 'd \<Rightarrow> file_status_t \<times> 'd) \<Rightarrow> ('d, 'h) fs_mount_t" where
  "fs_mount_assign_seek mount f = mount\<lparr>m_seek := f\<rparr>"

definition fs_mount_assign_write :: "('d, 'h) fs_mount_t \<Rightarrow> ('h \<Rightarrow> bytes \<Rightarrow> 'd \<Rightarrow> u64 \<times> 'd) \<Rightarrow> ('d, 'h) fs_mount_t" where
  "fs_mount_assign_write mount f = mount\<lparr>m_write := f\<rparr>"

definition fs_mount_assign_delete_final :: "('d, 'h) fs_mount_t \<Rightarrow> ('h \<Rightarrow> 'd \<Rightarrow> 'd) \<Rightarrow> ('d, 'h) fs_mount_t" where
  "fs_mount_assign_delete_final mount f = mount\<lparr>m_delete_final := f\<rparr>"

definition fs_mount_assign_open_dir :: "('d, 'h) fs_mount_t \<Rightarrow> ('h \<Rightarrow> 'd \<Rightarrow> file_status_t \<times> 'd) \<Rightarrow> ('d, 'h) fs_mount_t" where
  "fs_mount_assign_open_dir mount f = mount\<lparr>m_open_dir := f\<rparr>"

definition fs_mount_assign_read_dir :: "('d, 'h) fs_mount_t \<Rightarrow> ('h \<Rightarrow> 'd \<Rightarrow> (file_status_t \<times> bytes) \<times> 'd) \<Rightarrow> ('d, 'h) fs_mount_t" where
  "fs_mount_assign_read_dir mount f = mount\<lparr>m_read_dir := f\<rparr>"

definition fs_mount_assign_create_dir :: "('d, 'h) fs_mount_t \<Rightarrow> ('h \<Rightarrow> 'd \<Rightarrow> file_status_t \<times> 'd) \<Rightarrow> ('d, 'h) fs_mount_t" where
  "fs_mount_assign_create_dir mount f = mount\<lparr>m_create_dir := f\<rparr>"

definition fs_mount_assign_delete_dir :: "('d, 'h) fs_mount_t \<Rightarrow> ('h \<Rightarrow> 'd \<Rightarrow> file_status_t \<times> 'd) \<Rightarrow> ('d, 'h) fs_mount_t" where
  "fs_mount_assign_delete_dir mount f = mount\<lparr>m_delete_dir := f\<rparr>"

definition fs_mount_assign_is_interactive :: "('d, 'h) fs_mount_t \<Rightarrow> ('h \<Rightarrow> 'd \<Rightarrow> u8 \<times> 'd) \<Rightarrow> ('d, 'h) fs_mount_t" where
  "fs_mount_assign_is_interactive mount f = mount\<lparr>m_is_interactive := f\<rparr>"

definition fs_mount_assign_truncate :: "('d, 'h) fs_mount_t \<Rightarrow> ('h \<Rightarrow> u64 \<Rightarrow> 'd \<Rightarrow> file_status_t \<times> 'd) \<Rightarrow> ('d, 'h) fs_mount_t" where
  "fs_mount_assign_truncate mount f = mount\<lparr>m_truncate := f\<rparr>"

definition fs_mount_assign_link :: "('d, 'h) fs_mount_t \<Rightarrow> ('h \<Rightarrow> 'h \<Rightarrow> 'd \<Rightarrow> file_status_t \<times> 'd) \<Rightarrow> ('d, 'h) fs_mount_t" where
  "fs_mount_assign_link mount f = mount\<lparr>m_link := f\<rparr>"

definition fs_mount_assign_unlink :: "('d, 'h) fs_mount_t \<Rightarrow> ('h \<Rightarrow> 'd \<Rightarrow> file_status_t \<times> 'd) \<Rightarrow> ('d, 'h) fs_mount_t" where
  "fs_mount_assign_unlink mount f = mount\<lparr>m_unlink := f\<rparr>"

definition fs_mount_assign_dup :: "('d, 'h) fs_mount_t \<Rightarrow> ('h \<Rightarrow> 'd \<Rightarrow> 'h option \<times> 'd) \<Rightarrow> ('d, 'h) fs_mount_t" where
  "fs_mount_assign_dup mount f = mount\<lparr>m_dup := f\<rparr>"

definition fs_mount_assign_next_dir :: "('d, 'h) fs_mount_t \<Rightarrow> ('h \<Rightarrow> 'd \<Rightarrow> file_status_t \<times> 'd) \<Rightarrow> ('d, 'h) fs_mount_t" where
  "fs_mount_assign_next_dir mount f = mount\<lparr>m_next_dir := f\<rparr>"

subsection \<open>State\<close>

record fs_open_file_t =
  path :: "bytes option"
  refs :: u64
  key :: u64
  pending_delete :: bool

record 'h fs_handle_t =
  fh_mount :: nat
  fh_handle :: 'h
  fh_shared :: nat
  fh_flags :: u32

datatype fs_tree_node_t = FsNode (node_name: bytes) (node_sub: "fs_tree_node_t list") (node_mount: "nat option")

record ('d, 'h) vfs =
  fs_root :: fs_tree_node_t
  mounts :: "('d, 'h) fs_mount_t list"
  files :: "nat \<Rightarrow> fs_open_file_t option"
  next_file :: nat
  open_table :: "nat hash_table_t"
  devid_counter :: u64
  driver :: 'd
  stale :: bool

definition OPEN_TABLE_BUCKETS :: u64 where "OPEN_TABLE_BUCKETS = 100"

definition fs_init :: "'d \<Rightarrow> ('d, 'h) vfs outcome" where
  "fs_init d =
     (case hash_table_alloc OPEN_TABLE_BUCKETS of Inl e \<Rightarrow> Inl e
      | Inr t \<Rightarrow> Inr \<lparr>fs_root = FsNode [] [] None, mounts = [], files = Map.empty, next_file = 0,
                      open_table = t, devid_counter = 0, driver = d, stale = False\<rparr>)"

text \<open>\<^verbatim>\<open>fs_mount\<close>: the mount point is given with its leading slash; \<open>None\<close> is the busy root.\<close>

definition fs_mount :: "bytes \<Rightarrow> u64 \<Rightarrow> ('d, 'h) vfs \<Rightarrow> nat option \<times> ('d, 'h) vfs" where
  "fs_mount mountpoint c s =
     (let mp = tl mountpoint; m = length (mounts s); ms = mounts s @ [mount_stubs c]
      in case fs_root s of FsNode nm sub mnt \<Rightarrow>
        if mp = []
        then if mnt \<noteq> None then (None, s)
             else (Some m, s\<lparr>fs_root := FsNode nm sub (Some m), mounts := ms\<rparr>)
        else (Some m, s\<lparr>fs_root := FsNode nm (FsNode mp [] (Some m) # sub) mnt, mounts := ms\<rparr>))"

subsection \<open>Finding the mount of a path\<close>

text \<open>The walk down the tree of mount points; \<open>best\<close> is the last mount met and the rest of the path
  from there.  Paths end with their zero byte.\<close>

lemma find_in_set: "find P xs = Some x \<Longrightarrow> x \<in> set xs"
  by (auto simp: find_Some_iff)

lemma node_sub_smaller: "w \<in> set (node_sub n) \<Longrightarrow> size w < size n"
  by (cases n) (auto simp: less_Suc_eq_le intro: size_list_estimation')

function mount_walk :: "fs_tree_node_t \<Rightarrow> bytes \<Rightarrow> (nat \<times> bytes) option \<Rightarrow> (nat \<times> bytes) option" where
  "mount_walk node p best =
     (let best' = (case node_mount node of None \<Rightarrow> best | Some m \<Rightarrow> Some (m, p));
          (comp, rest) = path_next p
      in case find (\<lambda>w. node_name w = comp) (node_sub node) of
           None \<Rightarrow> best' | Some w \<Rightarrow> mount_walk w rest best')"
  by pat_completeness auto
termination
  by (relation "measure (\<lambda>(n, p, b). size n)") (auto dest!: find_in_set intro: node_sub_smaller)

declare mount_walk.simps [simp del]

text \<open>The result of \<^verbatim>\<open>find_mount\<close>: the mount with the path below it, and the cleaned path.\<close>

definition find_mount :: "('d, 'h) vfs \<Rightarrow> bytes \<Rightarrow> (nat \<times> bytes) option \<times> bytes" where
  "find_mount s p = (let c = clean_path p in (mount_walk (fs_root s) c None, c))"

subsection \<open>The table of open files\<close>

partial_function (option) lookup_loop ::
  "('d, 'h) vfs \<Rightarrow> bytes \<Rightarrow> u64 \<Rightarrow> nat option \<Rightarrow> (u64 \<times> nat option) outcome option" where
  "lookup_loop s p k file =
     (case hash_table_get (open_table s) k of
        Inl e \<Rightarrow> Some (Inl e)
      | Inr None \<Rightarrow> Some (Inr (k, file))
      | Inr (Some f) \<Rightarrow>
          (case files s f of
             None \<Rightarrow> Some (Inl Undefined)
           | Some r \<Rightarrow>
               if path r = Some (SLASH # p) then Some (Inr (k, Some f))
               else lookup_loop s p (k + 1) (Some f)))"

definition fs_reopen_file :: "nat \<Rightarrow> ('d, 'h) vfs \<Rightarrow> ('d, 'h) vfs" where
  "fs_reopen_file f s =
     (case files s f of None \<Rightarrow> s\<lparr>stale := True\<rparr>
      | Some r \<Rightarrow> s\<lparr>files := (files s)(f \<mapsto> r\<lparr>refs := refs r + 1\<rparr>)\<rparr>)"

definition lookup_register :: "bytes \<Rightarrow> ('d, 'h) vfs \<Rightarrow> (nat \<times> ('d, 'h) vfs) outcome option" where
  "lookup_register p s =
     (case lookup_loop s p (fnv64_bytes p) None of
        None \<Rightarrow> None
      | Some (Inl e) \<Rightarrow> Some (Inl e)
      | Some (Inr (k, Some f)) \<Rightarrow> Some (Inr (f, fs_reopen_file f s))
      | Some (Inr (k, None)) \<Rightarrow>
          let f = next_file s;
              s1 = s\<lparr>files := (files s)(f \<mapsto> \<lparr>path = Some (SLASH # p), refs = 0, key = k, pending_delete = False\<rparr>),
                     next_file := Suc f\<rparr>
          in (case hash_table_insert (open_table s1) k f of
                Inl e \<Rightarrow> Some (Inl e)
              | Inr (_, t) \<Rightarrow> Some (Inr (f, fs_reopen_file f (s1\<lparr>open_table := t\<rparr>)))))"

definition lookup_close :: "nat \<Rightarrow> ('d, 'h) vfs \<Rightarrow> (bool \<times> ('d, 'h) vfs) outcome" where
  "lookup_close f s =
     (case files s f of
        None \<Rightarrow> Inr (False, s\<lparr>stale := True\<rparr>)
      | Some r \<Rightarrow>
          if refs r - 1 \<noteq> 0 then Inr (False, s\<lparr>files := (files s)(f \<mapsto> r\<lparr>refs := refs r - 1\<rparr>)\<rparr>)
          else if path r \<noteq> None
          then (case hash_table_remove (open_table s) (key r) of
                  Inl e \<Rightarrow> Inl e
                | Inr (_, t) \<Rightarrow> Inr (pending_delete r, s\<lparr>open_table := t, files := (files s)(f := None)\<rparr>))
          else Inr (pending_delete r, s\<lparr>files := (files s)(f := None)\<rparr>))"

subsection \<open>Opening and closing\<close>

text \<open>The bytes of a cleaned path without its terminator.\<close>

abbreviation unterminated :: "bytes \<Rightarrow> bytes" where
  "unterminated p \<equiv> butlast p"

definition fs_open_mode :: "bytes \<Rightarrow> u32 \<Rightarrow> u32 \<Rightarrow> ('d, 'h) vfs
    \<Rightarrow> ('h fs_handle_t option \<times> ('d, 'h) vfs) outcome option" where
  "fs_open_mode p flags mode s =
     (case find_mount s p of
        (None, _) \<Rightarrow> Some (Inr (None, s))
      | (Some (m, mount_path), clean) \<Rightarrow>
          let mt = mounts s ! m;
              (h, d) = m_open mt (cntx mt) (unterminated mount_path) flags mode (driver s);
              s1 = s\<lparr>driver := d\<rparr>
          in (case h of
                None \<Rightarrow> Some (Inr (None, s1))
              | Some h1 \<Rightarrow>
                  (case lookup_register (unterminated clean) s1 of
                     None \<Rightarrow> None
                   | Some (Inl e) \<Rightarrow> Some (Inl e)
                   | Some (Inr (f, s2)) \<Rightarrow>
                       Some (Inr (Some \<lparr>fh_mount = m, fh_handle = h1, fh_shared = f, fh_flags = flags\<rparr>, s2)))))"

definition fs_anon :: "nat \<Rightarrow> 'h \<Rightarrow> u32 \<Rightarrow> ('d, 'h) vfs \<Rightarrow> 'h fs_handle_t \<times> ('d, 'h) vfs" where
  "fs_anon m h flags s =
     (\<lparr>fh_mount = m, fh_handle = h, fh_shared = next_file s, fh_flags = flags\<rparr>,
      s\<lparr>files := (files s)(next_file s \<mapsto> \<lparr>path = None, refs = 1, key = 0, pending_delete = False\<rparr>),
        next_file := Suc (next_file s)\<rparr>)"

definition fs_open :: "bytes \<Rightarrow> u32 \<Rightarrow> ('d, 'h) vfs \<Rightarrow> ('h fs_handle_t option \<times> ('d, 'h) vfs) outcome option" where
  "fs_open p flags s = fs_open_mode p flags 0 s"

definition fs_openat :: "bytes \<Rightarrow> u32 \<Rightarrow> 'h fs_handle_t \<Rightarrow> u32 \<Rightarrow> ('d, 'h) vfs
    \<Rightarrow> ('h fs_handle_t option \<times> ('d, 'h) vfs) outcome option" where
  "fs_openat p flags at mode s =
     (if p \<noteq> [] \<and> hd p = SLASH then fs_open_mode p flags mode s
      else (case files s (fh_shared at) of
              None \<Rightarrow> Some (Inl Undefined)
            | Some r \<Rightarrow>
                (case path r of
                   None \<Rightarrow> Some (Inr (None, s))
                 | Some pre \<Rightarrow> fs_open_mode (pre @ SLASH # p) flags mode s)))"

text \<open>After \<^verbatim>\<open>lookup_close\<close> the code still locks \<^verbatim>\<open>handle->shared\<close>, which is freed memory when this was
  the last reference.\<close>

definition fs_close :: "'h fs_handle_t \<Rightarrow> ('d, 'h) vfs \<Rightarrow> ('d, 'h) vfs outcome" where
  "fs_close h s =
     (case lookup_close (fh_shared h) s of
        Inl e \<Rightarrow> Inl e
      | Inr (del, s1) \<Rightarrow>
          let mt = mounts s ! fh_mount h;
              d1 = (if del then m_delete_final mt (fh_handle h) (driver s1) else driver s1);
              d2 = m_close mt (fh_handle h) d1
          in Inr (s1\<lparr>driver := d2, stale := stale s1 \<or> files s1 (fh_shared h) = None\<rparr>))"

definition fs_dup :: "'h fs_handle_t \<Rightarrow> ('d, 'h) vfs \<Rightarrow> 'h fs_handle_t option \<times> ('d, 'h) vfs" where
  "fs_dup h s =
     (let (r, d) = m_dup (mounts s ! fh_mount h) (fh_handle h) (driver s); s1 = s\<lparr>driver := d\<rparr>
      in case r of None \<Rightarrow> (None, s1)
         | Some h1 \<Rightarrow> (Some (h\<lparr>fh_handle := h1\<rparr>), fs_reopen_file (fh_shared h) s1))"

subsection \<open>Operations on a handle\<close>

text \<open>Each takes the lock of the shared file and calls the driver.\<close>

definition on_mount :: "(('d, 'h) fs_mount_t \<Rightarrow> 'h \<Rightarrow> 'd \<Rightarrow> 'r \<times> 'd) \<Rightarrow> 'h fs_handle_t \<Rightarrow> ('d, 'h) vfs \<Rightarrow> 'r \<times> ('d, 'h) vfs" where
  "on_mount f h s =
     (let (r, d) = f (mounts s ! fh_mount h) (fh_handle h) (driver s) in (r, s\<lparr>driver := d\<rparr>))"

definition fs_stat :: "'h fs_handle_t \<Rightarrow> ('d, 'h) vfs \<Rightarrow> (file_status_t \<times> bytes) \<times> ('d, 'h) vfs" where
  "fs_stat = on_mount m_stat"

definition fs_read :: "'h fs_handle_t \<Rightarrow> u64 \<Rightarrow> ('d, 'h) vfs \<Rightarrow> (u64 \<times> bytes) \<times> ('d, 'h) vfs" where
  "fs_read h count s =
     (if fh_flags h \<noteq> O_RDONLY \<and> fh_flags h \<noteq> O_RDWR then ((0, []), s)
      else on_mount (\<lambda>m x. m_read m x count) h s)"

definition fs_get_seek :: "'h fs_handle_t \<Rightarrow> ('d, 'h) vfs \<Rightarrow> u64 \<times> ('d, 'h) vfs" where
  "fs_get_seek = on_mount m_get_seek"

definition fs_seek :: "'h fs_handle_t \<Rightarrow> u64 \<Rightarrow> ('d, 'h) vfs \<Rightarrow> file_status_t \<times> ('d, 'h) vfs" where
  "fs_seek h pos = on_mount (\<lambda>m x. m_seek m x pos) h"

definition fs_write :: "'h fs_handle_t \<Rightarrow> bytes \<Rightarrow> ('d, 'h) vfs \<Rightarrow> u64 \<times> ('d, 'h) vfs" where
  "fs_write h buf s =
     (if fh_flags h \<noteq> O_WRONLY \<and> fh_flags h \<noteq> O_RDWR then (0, s)
      else on_mount (\<lambda>m x. m_write m x buf) h s)"

definition fs_open_dir :: "'h fs_handle_t \<Rightarrow> ('d, 'h) vfs \<Rightarrow> 'h fs_handle_t option \<times> ('d, 'h) vfs" where
  "fs_open_dir h s =
     (let (sts, s1) = on_mount m_open_dir h s in (if sts \<noteq> FILE_OK then None else Some h, s1))"

definition fs_create_dir :: "'h fs_handle_t \<Rightarrow> ('d, 'h) vfs \<Rightarrow> file_status_t \<times> ('d, 'h) vfs" where
  "fs_create_dir = on_mount m_create_dir"

definition fs_delete_dir :: "'h fs_handle_t \<Rightarrow> ('d, 'h) vfs \<Rightarrow> file_status_t \<times> ('d, 'h) vfs" where
  "fs_delete_dir = on_mount m_delete_dir"

definition fs_read_dir :: "'h fs_handle_t \<Rightarrow> ('d, 'h) vfs \<Rightarrow> (file_status_t \<times> bytes) \<times> ('d, 'h) vfs" where
  "fs_read_dir = on_mount m_read_dir"

definition fs_next_dir :: "'h fs_handle_t \<Rightarrow> ('d, 'h) vfs \<Rightarrow> file_status_t \<times> ('d, 'h) vfs" where
  "fs_next_dir = on_mount m_next_dir"

definition fs_truncate :: "'h fs_handle_t \<Rightarrow> u64 \<Rightarrow> ('d, 'h) vfs \<Rightarrow> file_status_t \<times> ('d, 'h) vfs" where
  "fs_truncate h sz = on_mount (\<lambda>m x. m_truncate m x sz) h"

definition fs_link :: "'h fs_handle_t \<Rightarrow> 'h fs_handle_t \<Rightarrow> ('d, 'h) vfs \<Rightarrow> file_status_t \<times> ('d, 'h) vfs" where
  "fs_link h rep s =
     (if fh_mount h \<noteq> fh_mount rep then (FILE_BAD_FLAGS, s)
      else on_mount (\<lambda>m x. m_link m x (fh_handle rep)) h s)"

definition fs_unlink :: "'h fs_handle_t \<Rightarrow> ('d, 'h) vfs \<Rightarrow> file_status_t \<times> ('d, 'h) vfs" where
  "fs_unlink = on_mount m_unlink"

text \<open>\<^verbatim>\<open>fs_path\<close> copies at most \<open>max_len\<close> bytes, terminator included, through \<^verbatim>\<open>kstrncpy\<close>; the result is the
  bytes left in the buffer.\<close>

definition fs_path :: "'h fs_handle_t \<Rightarrow> nat \<Rightarrow> ('d, 'h) vfs \<Rightarrow> bytes" where
  "fs_path h max_len s =
     (case files s (fh_shared h) of None \<Rightarrow> []
      | Some r \<Rightarrow> (case path r of None \<Rightarrow> [0]
          | Some p \<Rightarrow> if max_len = 0 then [] else take (max_len - 1) p @ [0]))"

definition fs_is_interactive :: "'h fs_handle_t \<Rightarrow> ('d, 'h) vfs \<Rightarrow> u8 \<times> ('d, 'h) vfs" where
  "fs_is_interactive = on_mount m_is_interactive"

definition fs_assign_id :: "('d, 'h) vfs \<Rightarrow> u64 \<times> ('d, 'h) vfs" where
  "fs_assign_id s = (devid_counter s, s\<lparr>devid_counter := devid_counter s + 1\<rparr>)"

subsection \<open>Mount resolution\<close>

lemma path_next_join:
  assumes "proper c" 
  shows "path_next (join (c # cs) @ [0]) = (c, join cs @ [0])"
proof -
  have t: "takeWhile (\<lambda>c. c \<noteq> 0 \<and> c \<noteq> SLASH) (c @ ys) = c" "dropWhile (\<lambda>c. c \<noteq> 0 \<and> c \<noteq> SLASH) (c @ ys) = ys"
    if "ys \<noteq> []" "hd ys = 0 \<or> hd ys = SLASH" for ys
    using that assms by (cases ys; auto simp: proper_def takeWhile_append dropWhile_append)+
  show ?thesis
  proof (cases cs)
    case Nil
    then show ?thesis using t[of "[0]"] by (simp add: path_next_def)
  next
    case (Cons d ds)
    then show ?thesis using t[of "SLASH # join cs @ [0]"] by (simp add: path_next_def)
  qed
qed

definition mount_point :: "nat option \<Rightarrow> bytes \<Rightarrow> (nat \<times> bytes) option" where
  "mount_point m p = map_option (\<lambda>i. (i, p)) m"

lemma mount_walk_leaf:
  "node_sub w = [] \<Longrightarrow> mount_walk w p best = (case node_mount w of None \<Rightarrow> best | Some m \<Rightarrow> Some (m, p))"
  by (subst mount_walk.simps) (auto simp: Let_def split: prod.splits option.splits)

subsection \<open>Reference counts\<close>

definition handle_count :: "nat \<Rightarrow> 'h fs_handle_t list \<Rightarrow> nat" where
  "handle_count f hs = length (filter (\<lambda>h. fh_shared h = f) hs)"

lemma handle_count_simps [simp]:
  "handle_count f [] = 0"
  "handle_count f (h # hs) = (if fh_shared h = f then Suc (handle_count f hs) else handle_count f hs)"
  by (simp_all add: handle_count_def)

lemma handle_count_le: "handle_count f hs \<le> length hs"
  by (simp add: handle_count_def)

lemma handle_count_pos: "handle_count f hs \<noteq> 0 \<longleftrightarrow> f \<in> fh_shared ` set hs"
  by (induction hs) auto

lemma handle_count_remove1:
  "h \<in> set hs \<Longrightarrow> handle_count f (remove1 h hs) = (if fh_shared h = f then handle_count f hs - 1 else handle_count f hs)"
proof (induction hs)
  case (Cons a hs)
  have "handle_count f hs \<noteq> 0" if "h \<in> set hs" "fh_shared h = f" using that handle_count_pos[of f hs] by auto
  with Cons show ?case by auto
qed simp

text \<open>The shared files against the handles in use: a file lives exactly as long as a handle names it and
  counts its handles; the table and the named files point at each other.\<close>

definition vfs_inv :: "('d, 'h) vfs \<Rightarrow> 'h fs_handle_t list \<Rightarrow> bool" where
  "vfs_inv s hs \<longleftrightarrow> ht_wf (open_table s) \<and> length hs < 2 ^ 64
     \<and> (\<forall>f. files s f = None \<longleftrightarrow> handle_count f hs = 0)
     \<and> (\<forall>f r. files s f = Some r \<longrightarrow> refs r = of_nat (handle_count f hs))
     \<and> (\<forall>f r. files s f = Some r \<longrightarrow> path r \<noteq> None \<longrightarrow> ht_map (open_table s) (key r) = Some f)
     \<and> (\<forall>k f. ht_map (open_table s) k = Some f \<longrightarrow> (\<exists>r. files s f = Some r \<and> key r = k \<and> path r \<noteq> None))
     \<and> (\<forall>f \<ge> next_file s. files s f = None)"

lemma vfs_invD:
  assumes "vfs_inv s hs"
  shows "ht_wf (open_table s)" "length hs < 2 ^ 64" "files s f = None \<longleftrightarrow> handle_count f hs = 0"
    "files s f = Some r \<Longrightarrow> refs r = of_nat (handle_count f hs)"
    "files s f = Some r \<Longrightarrow> path r \<noteq> None \<Longrightarrow> ht_map (open_table s) (key r) = Some f"
    "ht_map (open_table s) k = Some f \<Longrightarrow> \<exists>r. files s f = Some r \<and> key r = k \<and> path r \<noteq> None"
    "next_file s \<le> f \<Longrightarrow> files s f = None"
  using assms unfolding vfs_inv_def by blast+

lemma vfs_inv_table:
  assumes "vfs_inv s hs" "files s f = Some r"
  shows "f < next_file s" "ht_map (open_table s) k = Some f \<longleftrightarrow> path r \<noteq> None \<and> key r = k"
  using vfs_invD(5,6,7)[OF assms(1)] assms(2) by (fastforce simp: not_le[symmetric])+

lemma vfs_invI:
  assumes "ht_wf (open_table s)" "length hs < 2 ^ 64" "\<And>f. files s f = None \<longleftrightarrow> handle_count f hs = 0"
    "\<And>f r. files s f = Some r \<Longrightarrow> refs r = of_nat (handle_count f hs) \<and> f < next_file s
       \<and> (\<forall>k. ht_map (open_table s) k = Some f \<longleftrightarrow> path r \<noteq> None \<and> key r = k)"
    "\<And>k f. ht_map (open_table s) k = Some f \<Longrightarrow> files s f \<noteq> None"
  shows "vfs_inv s hs"
  unfolding vfs_inv_def
proof (intro conjI allI impI)
  fix f r
  assume "files s f = Some r" "path r \<noteq> None"
  then show "ht_map (open_table s) (key r) = Some f" using assms(4) by blast
next
  fix k f
  assume "ht_map (open_table s) k = Some f"
  then show "\<exists>r. files s f = Some r \<and> key r = k \<and> path r \<noteq> None" using assms(4,5) by blast
next
  fix f
  assume "next_file s \<le> f"
  then show "files s f = None" using assms(4)[of f] by (cases "files s f") auto
qed (use assms in auto)

lemma vfs_free_key:
  assumes "vfs_inv s hs"
  obtains k where "ht_map (open_table s) k = None"
proof -
  let ?T = "ht_map (open_table s)"
  have "inj_on (\<lambda>k. the (?T k)) (dom ?T)"
  proof (rule inj_onI)
    fix k l assume "k \<in> dom ?T" "l \<in> dom ?T" "the (?T k) = the (?T l)"
    then obtain f where "?T k = Some f" "?T l = Some f" by auto
    then show "k = l" using vfs_invD(6)[OF assms, of k f] vfs_invD(6)[OF assms, of l f] by auto
  qed
  moreover have "(\<lambda>k. the (?T k)) ` dom ?T \<subseteq> fh_shared ` set hs"
  proof
    fix f assume "f \<in> (\<lambda>k. the (?T k)) ` dom ?T"
    then obtain k where "?T k = Some f" by auto
    then have "files s f \<noteq> None" using vfs_invD(6)[OF assms] by blast
    then show "f \<in> fh_shared ` set hs" using vfs_invD(3)[OF assms, of f] handle_count_pos[of f hs] by simp
  qed
  ultimately have "card (dom ?T) \<le> card (fh_shared ` set hs)" by (auto intro: card_inj_on_le)
  also have "\<dots> \<le> length hs" using card_image_le[of "set hs" fh_shared] card_length[of hs] by simp
  also have "\<dots> < card (UNIV :: u64 set)" using vfs_invD(2)[OF assms] by (simp add: card_word)
  finally have "dom ?T \<noteq> UNIV" by auto
  then show ?thesis using that by auto
qed

lemma lookup_loop_returns:
  assumes inv: "vfs_inv s hs" and none: "ht_map (open_table s) (k + of_nat n) = None"
    and f0: "\<forall>f. cur = Some f \<longrightarrow> files s f \<noteq> None"
  shows "\<exists>k' cur'. lookup_loop s p k cur = Some (Inr (k', cur'))
    \<and> (\<forall>f. cur' = Some f \<longrightarrow> files s f \<noteq> None) \<and> (cur' = None \<longrightarrow> ht_map (open_table s) k' = None)"
  using none f0
proof (induction n arbitrary: k cur)
  case 0
  then show ?case using hash_table_get_map[OF vfs_invD(1)[OF inv]] by (subst lookup_loop.simps) simp
next
  case (Suc n)
  note get = hash_table_get_map[OF vfs_invD(1)[OF inv], of k]
  show ?case
  proof (cases "ht_map (open_table s) k")
    case None
    then show ?thesis using get Suc.prems by (subst lookup_loop.simps) simp
  next
    case (Some f)
    then obtain r where r: "files s f = Some r" using vfs_invD(6)[OF inv] by blast
    have "ht_map (open_table s) (k + 1 + of_nat n) = None" using Suc.prems(1) by (simp add: add.assoc)
    then have IH: "\<exists>k' cur'. lookup_loop s p (k + 1) (Some f) = Some (Inr (k', cur'))
      \<and> (\<forall>f. cur' = Some f \<longrightarrow> files s f \<noteq> None) \<and> (cur' = None \<longrightarrow> ht_map (open_table s) k' = None)"
      using Suc.IH[of "k + 1" "Some f"] r by blast
    show ?thesis using get Some r IH by (subst lookup_loop.simps) simp
  qed
qed

lemma vfs_inv_reopen:
  assumes "vfs_inv s hs" "files s f \<noteq> None" "fh_shared h = f" "Suc (length hs) < 2 ^ 64"
  shows "vfs_inv (fs_reopen_file f s) (h # hs)"
proof -
  obtain r where r: "files s f = Some r" using assms(2) by auto
  note D = vfs_invD[OF assms(1)] and T = vfs_inv_table[OF assms(1)]
  show ?thesis unfolding fs_reopen_file_def r option.case
  proof (rule vfs_invI, goal_cases)
    case (4 g q)
    then show ?case using D(4)[of f r] D(4)[of g q] T[of g] T[OF r] r assms(3) by (auto split: if_splits)
  next
    case (5 k g)
    then show ?case using D(6)[of k g] by auto
  qed (use D assms(3,4) r in auto)
qed

lemma lookup_register_ok:
  assumes inv: "vfs_inv s hs" and len: "Suc (length hs) < 2 ^ 64"
  shows "\<exists>f s'. lookup_register p s = Some (Inr (f, s')) \<and> files s' f \<noteq> None \<and> driver s' = driver s \<and> mounts s' = mounts s
    \<and> fs_root s' = fs_root s \<and> stale s' = stale s \<and> (\<forall>h. fh_shared h = f \<longrightarrow> vfs_inv s' (h # hs))"
proof -
  obtain k0 where k0: "ht_map (open_table s) k0 = None" using vfs_free_key[OF inv] .
  have "ht_map (open_table s) (fnv64_bytes p + of_nat (unat (k0 - fnv64_bytes p))) = None" using k0 by simp
  from lookup_loop_returns[OF inv this, of None p] obtain k cur where
    l: "lookup_loop s p (fnv64_bytes p) None = Some (Inr (k, cur))"
    "\<forall>f. cur = Some f \<longrightarrow> files s f \<noteq> None" "cur = None \<longrightarrow> ht_map (open_table s) k = None" by auto
  show ?thesis
  proof (cases cur)
    case (Some f)
    have "files s f \<noteq> None" using l(2) Some by simp
    then show ?thesis using l(1) Some vfs_inv_reopen[OF inv, of f] len
      by (auto simp: lookup_register_def fs_reopen_file_def)
  next
    case None
    define f where "f = next_file s"
    define r where "r = \<lparr>path = Some (SLASH # p), refs = 0, key = k, pending_delete = False\<rparr>"
    note D = vfs_invD[OF inv] and T = vfs_inv_table[OF inv]
    have fresh: "files s f = None" "handle_count f hs = 0" using D(7)[of f] D(3)[of f] by (simp_all add: f_def)
    obtain t v where t: "hash_table_insert (open_table s) k f = Inr (v, t)" "ht_wf t"
      "ht_map t = (ht_map (open_table s))(k \<mapsto> f)"
      using hash_table_insert_ok[OF D(1), of k f] by blast
    have kN: "ht_map (open_table s) k = None" using l(3) None by simp
    let ?s = "s\<lparr>files := (files s)(f \<mapsto> r), next_file := Suc f, open_table := t\<rparr>"
    let ?s2 = "?s\<lparr>files := (files s)(f \<mapsto> r\<lparr>refs := 1\<rparr>)\<rparr>"
    have "lookup_register p s = Some (Inr (f, ?s2))"
      using l(1) None t(1) by (simp add: lookup_register_def Let_def r_def fs_reopen_file_def flip: f_def)
    moreover have "vfs_inv ?s2 (h # hs)" if "fh_shared h = f" for h
    proof (rule vfs_invI, goal_cases)
      case (4 g q)
      show ?case
      proof (cases "g = f")
        case True
        have "\<forall>k'. ht_map (open_table s) k' \<noteq> Some f" using D(6) fresh(1) by fastforce
        then show ?thesis using 4 True that fresh(2) t(3) by (auto simp: r_def)
      next
        case False
        then have "files s g = Some q" using 4 by simp
        moreover from this have "\<not> (path q \<noteq> None \<and> key q = k)" using T(2)[of g q k] kN by simp
        ultimately show ?thesis using False that D(4) T[of g q] t(3) by (auto simp: f_def less_SucI)
      qed
    next
      case (5 k' g)
      then show ?case using D(6)[of k' g] t(3) by (auto split: if_splits)
    qed (use D that len t fresh in auto)
    ultimately show ?thesis by simp
  qed
qed

lemma lookup_close_ok:
  assumes inv: "vfs_inv s hs" and h: "h \<in> set hs"
  shows "\<exists>del s'. lookup_close (fh_shared h) s = Inr (del, s') \<and> vfs_inv s' (remove1 h hs) \<and> mounts s' = mounts s
    \<and> fs_root s' = fs_root s \<and> stale s' = stale s
    \<and> (files s' (fh_shared h) = None \<longleftrightarrow> handle_count (fh_shared h) hs = 1)"
proof -
  let ?f = "fh_shared h" and ?hs = "remove1 h hs"
  note D = vfs_invD[OF inv] and T = vfs_inv_table[OF inv]
  have c: "handle_count ?f hs \<noteq> 0" using h handle_count_pos[of ?f hs] by auto
  obtain r where r: "files s ?f = Some r" using D(3)[of ?f] c by auto
  have "length ?hs \<le> length hs" by (simp add: length_remove1)
  then have len: "length ?hs < 2 ^ 64" using D(2) by (rule le_less_trans)
  have hc: "handle_count g ?hs = (if ?f = g then handle_count g hs - 1 else handle_count g hs)" for g
    using handle_count_remove1[OF h] .
  have small: "handle_count ?f hs < 2 ^ 64" using handle_count_le[of ?f hs] D(2) by simp
  have last: "refs r - 1 = 0 \<longleftrightarrow> handle_count ?f hs = 1"
  proof -
    have "refs r - 1 = of_nat (handle_count ?f hs - 1)" using D(4)[OF r] c by (simp add: of_nat_diff)
    moreover have "unat (of_nat (handle_count ?f hs - 1) :: u64) = handle_count ?f hs - 1"
      using small by (simp add: unat_of_nat)
    ultimately show ?thesis using c by (metis One_nat_def diff_is_0_eq le_antisym less_one linorder_not_le unat_0 unat_inject)
  qed
  show ?thesis
  proof (cases "refs r - 1 = 0")
    case False
    have ref: "refs r - 1 = of_nat (handle_count ?f hs - 1)" using D(4)[OF r] c by (simp add: of_nat_diff)
    have "vfs_inv (s\<lparr>files := (files s)(?f \<mapsto> r\<lparr>refs := refs r - 1\<rparr>)\<rparr>) ?hs"
    proof (rule vfs_invI, goal_cases)
      case (4 g q)
      then show ?case using ref D(4) T[of g q] T[OF r] by (auto simp: hc split: if_splits)
    next
      case (5 k g)
      then show ?case using D(6)[of k g] by auto
    qed (use D len False last c in \<open>auto simp: hc\<close>)
    then show ?thesis using False last r by (auto simp: lookup_close_def)
  next
    case True
    then have one: "handle_count ?f hs = 1" using last by simp
    obtain t v where t: "hash_table_remove (open_table s) (key r) = Inr (v, t)" "ht_wf t"
      "ht_map t = (ht_map (open_table s))(key r := None)"
      using hash_table_remove_ok[OF D(1), of "key r"] by blast
    have "vfs_inv (s\<lparr>open_table := if path r \<noteq> None then t else open_table s, files := (files s)(?f := None)\<rparr>) ?hs"
    proof (rule vfs_invI, goal_cases)
      case (4 g q)
      then have g: "g \<noteq> ?f" "files s g = Some q" by (auto split: if_splits)
      moreover have "ht_map (open_table s) (key r) \<noteq> Some g" if "path r \<noteq> None"
        using T(2)[OF r, of "key r"] g(1) that by simp
      ultimately show ?case using D(4) T[of g q] t(3) by (auto simp: hc)
    next
      case (5 k g)
      have "ht_map (open_table s) k = Some g" using 5 t(3) by (auto split: if_splits)
      moreover have "g \<noteq> ?f" using 5 t(3) T(2)[OF r, of k] by (auto split: if_splits)
      ultimately show ?case using D(6)[of k g] by auto
    qed (use D len t one in \<open>auto simp: hc\<close>)
    then show ?thesis using True one r t(1)
      by (cases "path r") (auto simp: lookup_close_def)
  qed
qed

subsection \<open>Runs of the VFS\<close>

text \<open>The steps the rest of the kernel can make, with the handles that are open.  The operations that only
  call a driver change the driver state.\<close>

inductive vfs_step :: "('d, 'h) vfs \<times> 'h fs_handle_t list \<Rightarrow> ('d, 'h) vfs \<times> 'h fs_handle_t list \<Rightarrow> bool" where
  vs_open: "fs_open_mode p fl md s = Some (Inr (Some h, s')) \<Longrightarrow> Suc (length hs) < 2 ^ 64 \<Longrightarrow>
    vfs_step (s, hs) (s', h # hs)"
| vs_open_fail: "fs_open_mode p fl md s = Some (Inr (None, s')) \<Longrightarrow> vfs_step (s, hs) (s', hs)"
| vs_anon: "fs_anon m x fl s = (h, s') \<Longrightarrow> m < length (mounts s) \<Longrightarrow> Suc (length hs) < 2 ^ 64 \<Longrightarrow>
    vfs_step (s, hs) (s', h # hs)"
| vs_dup: "h \<in> set hs \<Longrightarrow> fs_dup h s = (Some h', s') \<Longrightarrow> Suc (length hs) < 2 ^ 64 \<Longrightarrow>
    vfs_step (s, hs) (s', h' # hs)"
| vs_dup_fail: "h \<in> set hs \<Longrightarrow> fs_dup h s = (None, s') \<Longrightarrow> vfs_step (s, hs) (s', hs)"
| vs_close: "h \<in> set hs \<Longrightarrow> fs_close h s = Inr s' \<Longrightarrow> vfs_step (s, hs) (s', remove1 h hs)"
| vs_driver: "vfs_step (s, hs) (s\<lparr>driver := d\<rparr>, hs)"
| vs_mount: "fs_mount mp c s = (r, s') \<Longrightarrow> vfs_step (s, hs) (s', hs)"

definition tree_ok :: "('d, 'h) vfs \<Rightarrow> bool" where
  "tree_ok s \<longleftrightarrow> (\<forall>m. node_mount (fs_root s) = Some m \<longrightarrow> m < length (mounts s))
     \<and> (\<forall>w \<in> set (node_sub (fs_root s)). node_sub w = [] \<and> (\<forall>m. node_mount w = Some m \<longrightarrow> m < length (mounts s)))"

definition vfs_ok :: "('d, 'h) vfs \<Rightarrow> 'h fs_handle_t list \<Rightarrow> bool" where
  "vfs_ok s hs \<longleftrightarrow> vfs_inv s hs \<and> tree_ok s \<and> (\<forall>h \<in> set hs. fh_mount h < length (mounts s))"

lemma vfs_inv_driver [simp]: "vfs_inv (s\<lparr>driver := d\<rparr>) hs = vfs_inv s hs"
  by (simp add: vfs_inv_def)

lemma vfs_inv_stale [simp]: "vfs_inv (s\<lparr>stale := b\<rparr>) hs = vfs_inv s hs"
  by (simp add: vfs_inv_def)

lemma find_mount_valid:
  assumes "tree_ok s" "find_mount s p = (Some (m, mp), c)"
  shows "m < length (mounts s)"
proof -
  have "mount_walk (fs_root s) c None = Some (m, mp)" using assms(2) by (auto simp: find_mount_def Let_def)
  then show ?thesis using assms(1)
    by (subst (asm) mount_walk.simps)
      (auto simp: Let_def tree_ok_def mount_walk_leaf dest!: find_in_set split: prod.splits option.splits)
qed

lemma fs_open_mode_ok:
  assumes "vfs_ok s hs" "Suc (length hs) < 2 ^ 64"
  shows "\<exists>r s'. fs_open_mode p fl md s = Some (Inr (r, s')) \<and> stale s' = stale s
    \<and> (case r of None \<Rightarrow> vfs_ok s' hs | Some h \<Rightarrow> vfs_ok s' (h # hs))"
proof -
  obtain fm c where fm: "find_mount s p = (fm, c)" by (cases "find_mount s p")
  show ?thesis
  proof (cases fm)
    case None
    then show ?thesis using fm assms by (simp add: fs_open_mode_def)
  next
    case (Some mm)
    obtain m mp where mm: "mm = (m, mp)" by (cases mm)
    have mv: "m < length (mounts s)" using find_mount_valid[of s p m mp c] assms(1) fm Some mm by (simp add: vfs_ok_def)
    obtain r d where o: "m_open (mounts s ! m) (cntx (mounts s ! m)) (unterminated mp) fl md (driver s) = (r, d)"
      by (meson surj_pair)
    have inv: "vfs_inv (s\<lparr>driver := d\<rparr>) hs" using assms(1) by (simp add: vfs_ok_def)
    show ?thesis
    proof (cases r)
      case None
      then show ?thesis using fm Some mm o assms
        by (simp add: fs_open_mode_def Let_def vfs_ok_def tree_ok_def)
    next
      case (Some h1)
      obtain f s' where l: "lookup_register (unterminated c) (s\<lparr>driver := d\<rparr>) = Some (Inr (f, s'))"
        "mounts s' = mounts s" "fs_root s' = fs_root s" "stale s' = stale s"
        "\<forall>h. fh_shared h = f \<longrightarrow> vfs_inv s' (h # hs)"
        using lookup_register_ok[OF inv assms(2), of "unterminated c"] by auto
      then show ?thesis using fm \<open>fm = Some mm\<close> mm o Some assms mv
        by (simp add: fs_open_mode_def Let_def vfs_ok_def tree_ok_def)
    qed
  qed
qed

lemma fs_close_ok:
  assumes "vfs_ok s hs" "h \<in> set hs"
  shows "\<exists>s'. fs_close h s = Inr s' \<and> vfs_ok s' (remove1 h hs)
    \<and> (files s' (fh_shared h) = None \<longleftrightarrow> handle_count (fh_shared h) hs = 1)
    \<and> (stale s' \<longleftrightarrow> stale s \<or> handle_count (fh_shared h) hs = 1)"
proof -
  obtain del s1 where l: "lookup_close (fh_shared h) s = Inr (del, s1)" "vfs_inv s1 (remove1 h hs)"
    "mounts s1 = mounts s" "fs_root s1 = fs_root s" "stale s1 = stale s"
    "files s1 (fh_shared h) = None \<longleftrightarrow> handle_count (fh_shared h) hs = 1"
    using lookup_close_ok[of s hs h] assms by (auto simp: vfs_ok_def)
  then show ?thesis using assms by (auto simp: fs_close_def Let_def vfs_ok_def tree_ok_def dest: notin_set_remove1)
qed

lemma vfs_inv_anon:
  assumes "vfs_inv s hs" "fs_anon m x fl s = (h, s')" "Suc (length hs) < 2 ^ 64"
  shows "vfs_inv s' (h # hs)"
proof -
  note D = vfs_invD[OF assms(1)] and T = vfs_inv_table[OF assms(1)]
  have fresh: "files s (next_file s) = None" "handle_count (next_file s) hs = 0"
    using D(7)[of "next_file s"] D(3)[of "next_file s"] by simp_all
  have h: "fh_shared h = next_file s"
    and s': "s' = s\<lparr>files := (files s)(next_file s \<mapsto> \<lparr>path = None, refs = 1, key = 0, pending_delete = False\<rparr>),
        next_file := Suc (next_file s)\<rparr>"
    using assms(2) by (auto simp: fs_anon_def)
  have nt: "ht_map (open_table s) k \<noteq> Some (next_file s)" for k using D(6)[of k "next_file s"] fresh(1) by auto
  show ?thesis
  proof (rule vfs_invI, goal_cases)
    case (4 g q)
    then show ?case using D(4) T[of g q] nt fresh(2) h by (auto simp: s' less_SucI split: if_splits)
  next
    case (5 k g)
    then show ?case using D(6)[of k g] by (auto simp: s')
  qed (use D assms(3) fresh h in \<open>auto simp: s'\<close>)
qed

lemma vfs_step_ok:
  assumes "vfs_step (s, hs) (s', hs')" "vfs_ok s hs"
  shows "vfs_ok s' hs'"
  using assms(1)
proof cases
  case (vs_open p fl md h)
  then show ?thesis using fs_open_mode_ok[OF assms(2), of p fl md] by auto
next
  case (vs_open_fail p fl md)
  show ?thesis
  proof (cases "Suc (length hs) < 2 ^ 64")
    case True
    then show ?thesis using fs_open_mode_ok[OF assms(2) True, of p fl md] vs_open_fail by auto
  next
    case False
    have "driver_only s s'" if "driver_only = (\<lambda>s s'. \<exists>d. s' = s\<lparr>driver := d\<rparr> \<or> s' = s)" for driver_only
      using vs_open_fail unfolding that
      by (auto simp: fs_open_mode_def Let_def split: option.splits prod.splits sum.splits)
    then show ?thesis using assms(2) vs_open_fail by (auto simp: vfs_ok_def tree_ok_def)
  qed
next
  case (vs_anon m x fl h)
  then show ?thesis using vfs_inv_anon[of s hs m x fl h s'] assms(2)
    by (auto simp: vfs_ok_def fs_anon_def tree_ok_def)
next
  case (vs_dup h h')
  obtain d hd1 where d: "h' = h\<lparr>fh_handle := hd1\<rparr>" "s' = fs_reopen_file (fh_shared h) (s\<lparr>driver := d\<rparr>)"
    using vs_dup(3) by (auto simp: fs_dup_def Let_def split: prod.splits option.splits)
  have "files s (fh_shared h) \<noteq> None"
    using vs_dup(2) assms(2) vfs_invD(3)[of s hs "fh_shared h"] handle_count_pos[of "fh_shared h" hs]
    by (auto simp: vfs_ok_def)
  then have "vfs_inv s' (h' # hs)"
    using vfs_inv_reopen[of "s\<lparr>driver := d\<rparr>" hs "fh_shared h" h'] d vs_dup(4) assms(2) by (simp add: vfs_ok_def)
  then show ?thesis using assms(2) vs_dup d
    by (auto simp: vfs_ok_def tree_ok_def fs_reopen_file_def split: option.splits)
next
  case (vs_dup_fail h)
  then show ?thesis using assms(2)
    by (auto simp: fs_dup_def Let_def vfs_ok_def tree_ok_def split: prod.splits option.splits)
next
  case (vs_close h)
  then show ?thesis using fs_close_ok[OF assms(2), of h] by auto
next
  case (vs_driver d)
  then show ?thesis using assms(2) by (simp add: vfs_ok_def tree_ok_def)
next
  case (vs_mount mp c r)
  then show ?thesis using assms(2)
    by (auto simp: fs_mount_def Let_def vfs_ok_def tree_ok_def vfs_inv_def less_SucI
        split: fs_tree_node_t.splits if_splits)
qed

lemma vfs_run_ok:
  "vfs_step\<^sup>*\<^sup>* st st' \<Longrightarrow> vfs_ok (fst st) (snd st) \<Longrightarrow> vfs_ok (fst st') (snd st')"
proof (induction rule: rtranclp_induct)
  case (step st1 st2)
  then show ?case using vfs_step_ok[of "fst st1" "snd st1" "fst st2" "snd st2"] by simp
qed

lemma fs_init_ok:
  assumes "fs_init d = Inr s"
  shows "vfs_ok s []"
proof -
  obtain t where t: "hash_table_alloc OPEN_TABLE_BUCKETS = Inr t" "open_table s = t" "fs_root s = FsNode [] [] None"
    "files s = Map.empty"
    using assms by (auto simp: fs_init_def split: sum.splits)
  then show ?thesis using hash_table_alloc_ok[OF _ t(1)]
    by (simp add: vfs_ok_def vfs_inv_def tree_ok_def OPEN_TABLE_BUCKETS_def)
qed

lemma hash_table_alloc_100: "\<exists>t. hash_table_alloc OPEN_TABLE_BUCKETS = Inr t"
proof -
  have "kmalloc_array OPEN_TABLE_BUCKETS = Inr ()" by (rule kmalloc_array_small) (simp add: OPEN_TABLE_BUCKETS_def)
  then show ?thesis by (simp add: hash_table_alloc_def)
qed

subsection \<open>Properties\<close>

text \<open>\<^verbatim>\<open>find_mount\<close> resolves an absolute path to the mount whose mount point is the first component of the
  normalised path, and hands the driver the rest of the path below it; any other path goes to the root
  mount with the whole normalised path.\<close>

lemma find_mount_resolves:
  assumes "0 \<notin> set rest" "\<forall>w \<in> set (node_sub (fs_root s)). node_sub w = [] \<and> node_name w \<noteq> []"
    "cs = normalise (comps rest)"
  shows "fst (find_mount s (SLASH # rest)) =
    (case find (\<lambda>w. cs \<noteq> [] \<and> node_name w = hd cs) (node_sub (fs_root s)) of
       None \<Rightarrow> mount_point (node_mount (fs_root s)) (join cs @ [0])
     | Some w \<Rightarrow> (case node_mount w of Some m \<Rightarrow> Some (m, join (tl cs) @ [0])
                 | None \<Rightarrow> mount_point (node_mount (fs_root s)) (join cs @ [0])))"
proof -
  let ?p = "join cs @ [0]"
  have c: "clean_path (SLASH # rest) = ?p" using clean_path_join[OF assms(1)] assms(3) by simp
  have nx: "path_next ?p = (if cs = [] then ([], [0]) else (hd cs, join (tl cs) @ [0]))"
  proof (cases cs)
    case (Cons d ds)
    have "d \<in> set (normalise (comps rest))" using Cons assms(3)[symmetric] by simp
    then have "proper d" using normalise_comps comps_proper[OF assms(1)] by blast
    then show ?thesis using path_next_join[of d ds] Cons by simp
  qed (simp add: path_next_def)
  have eq: "find (\<lambda>w. node_name w = fst (path_next ?p)) (node_sub (fs_root s))
      = find (\<lambda>w. cs \<noteq> [] \<and> node_name w = hd cs) (node_sub (fs_root s))"
    using assms(2) nx by (intro find_cong) auto
  show ?thesis
  proof (cases "find (\<lambda>w. cs \<noteq> [] \<and> node_name w = hd cs) (node_sub (fs_root s))")
    case None
    then show ?thesis using eq unfolding find_mount_def c
      by (subst mount_walk.simps) (auto simp: Let_def mount_point_def split: prod.splits option.splits)
  next
    case (Some w)
    then have w: "node_sub w = []" "cs \<noteq> []" using assms(2) by (auto simp: find_Some_iff)
    show ?thesis using eq Some w nx unfolding find_mount_def c
      by (subst mount_walk.simps)
        (auto simp: Let_def mount_point_def mount_walk_leaf split: prod.splits option.splits)
  qed
qed



text \<open>C40: closing the last handle of a file reads memory that has just been freed: \<^verbatim>\<open>fs_close\<close> takes the lock of
  \<^verbatim>\<open>handle->shared\<close> after \<^verbatim>\<open>lookup_close\<close> has freed it.\<close>

theorem fs_close_last_uses_freed_file:
  assumes "vfs_ok s hs" "h \<in> set hs" "handle_count (fh_shared h) hs = 1" "fs_close h s = Inr s'"
  shows "files s' (fh_shared h) = None \<and> stale s'"
  using fs_close_ok[OF assms(1,2)] assms(3,4) by auto

theorem fs_close_last_uses_freed_file_witness:
  "\<exists>s s' h. vfs_ok s [h :: nat fs_handle_t] \<and> fs_close h s = Inr s' \<and> stale s' \<and> \<not> stale (s :: (unit, nat) vfs)"
proof -
  obtain t :: "nat hash_table_t" where t: "hash_table_alloc OPEN_TABLE_BUCKETS = Inr t" using hash_table_alloc_100 by blast
  then obtain s0 :: "(unit, nat) vfs" where i: "fs_init () = Inr s0" by (simp add: fs_init_def)
  obtain m s1 where m: "fs_mount [SLASH] 0 s0 = (Some m, s1)" "m < length (mounts s1)" "\<not> stale s1"
    using i t by (auto simp: fs_init_def fs_mount_def Let_def)
  obtain h s where a: "fs_anon m 7 O_RDWR s1 = (h, s)" by (meson surj_pair)
  have "vfs_ok s1 []" using vfs_step_ok[OF vs_mount[OF m(1)]] fs_init_ok[OF i] by blast
  then have ok: "vfs_ok s [h]" using vfs_step_ok[OF vs_anon[OF a m(2)], of "[]"] by simp
  obtain s' where "fs_close h s = Inr s'" using fs_close_ok[OF ok, of h] by auto
  moreover have "\<not> stale s" using a m(3) by (auto simp: fs_anon_def)
  ultimately show ?thesis using fs_close_last_uses_freed_file[OF ok] ok by fastforce
qed

text \<open>When the hash of a path is taken by a different file and the next key is free,
  \<^verbatim>\<open>lookup_register\<close> returns the other file: \<^verbatim>\<open>file\<close> still holds the colliding entry after the
  failing \<^verbatim>\<open>hash_table_get\<close>, so that the path is never registered.\<close>

lemma lookup_register_collision:
  assumes "ht_wf (open_table s)" "ht_map (open_table s) (fnv64_bytes p) = Some f" "files s f = Some r"
    "path r \<noteq> Some (SLASH # p)" "ht_map (open_table s) (fnv64_bytes p + 1) = None"
  shows "lookup_register p s = Some (Inr (f, fs_reopen_file f s))"
proof -
  have "lookup_loop s p (fnv64_bytes p) None = lookup_loop s p (fnv64_bytes p + 1) (Some f)"
    using assms(2,3,4) hash_table_get_map[OF assms(1)] by (subst lookup_loop.simps) simp
  also have "\<dots> = Some (Inr (fnv64_bytes p + 1, Some f))"
    using assms(5) hash_table_get_map[OF assms(1)] by (subst lookup_loop.simps) simp
  finally show ?thesis by (simp add: lookup_register_def)
qed

text \<open>The access checks compare the whole flag word.  A handle opened read-write with any further flag, such
  as \<^verbatim>\<open>O_CREAT\<close>, is refused both reading and writing, without a call to the driver.\<close>

lemma fs_rdwr_with_flag_refused:
  "fs_read (h\<lparr>fh_flags := O_RDWR OR O_CREAT\<rparr>) n s = ((0, []), s)
   \<and> fs_write (h\<lparr>fh_flags := O_RDWR OR O_CREAT\<rparr>) buf s = (0, s)
   \<and> fs_write (h\<lparr>fh_flags := O_WRONLY OR O_APPEND\<rparr>) buf s = (0, s)"
  by (simp add: fs_read_def fs_write_def O_RDWR_def O_CREAT_def O_RDONLY_def O_WRONLY_def O_APPEND_def)

end
