(* ===== verification/Scheduler.thy ===== *)
theory Scheduler
  imports HashTable ArrayList "HOL-Library.Multiset"
begin

section \<open>Scheduler and wait queues (kernel/core/scheduler.c, signal.c, process.c)\<close>

text \<open>
  A process is named by a number which stands for the address of its \<^verbatim>\<open>struct pcb_t\<close>; \<open>pcbs\<close> is the memory of
  these structures.  A queue threaded through \<^verbatim>\<open>process_set_next\<close> is the list of its members;
  \<^verbatim>\<open>active_queue_tail\<close> is the end of that list.  A \<^verbatim>\<open>struct signal_wait_t\<close> is an index into \<open>waits\<close>, which holds
  its queue, and a child table an index into \<open>tables\<close>.  Time is the femtosecond counter.  The two members of
  the union \<^verbatim>\<open>sleep_state\<close> are two fields, each read only after it was written, and the \<^verbatim>\<open>meta\<close> pointers are
  fields for the two callbacks that use them.  \<open>files\<close> is the state of the file system, whose operations
  are arguments here.
\<close>

datatype sched_cntr_t = SCHED_READY | SCHED_KILL | SCHED_SKIP | SCHED_SLEEP | SCHED_CALLBACK
  | SCHED_SIGNAL_READY | SCHED_ZOMBIE

datatype callback_t = Signal_wait_callback | Execve_transfer

record regs_t =
  rbp :: u64
  rsp :: u64
  r15 :: u64
  r14 :: u64
  r13 :: u64
  r12 :: u64
  r11 :: u64
  r10 :: u64
  r9 :: u64
  r8 :: u64
  rdi :: u64
  rsi :: u64
  rdx :: u64
  rcx :: u64
  rbx :: u64
  rax :: u64
  rip :: u64
  cs :: u64
  rflags :: u64
  ss :: u64

record pcb_t =
  regs :: regs_t
  pid :: u64
  k_rsp_lo :: u32
  k_rsp_hi :: u32
  init_k_rsp_vaddr :: u64
  init_k_rsp_paddr :: u64
  fsbase :: u64
  mem_top :: u64
  cr3 :: u64
  exit_code :: u64
  wd :: nat
  fd_table :: "nat array_list_t option"
  child_table :: "nat option"
  parent :: "nat option"
  monitor :: "nat option"
  meta_wait :: nat
  meta_lock :: "nat option"
  meta_pcb :: nat
  wake_time :: u64
  callback :: callback_t
  sched_cntr :: sched_cntr_t
  plock :: bool

text \<open>Memory handed back to the page allocator and to paging.\<close>

datatype release = Stack u64 u64 | Userspace u64

record 'v procs =
  pcbs :: "nat \<Rightarrow> pcb_t"
  active_queue :: "nat list"
  sleep_queue :: "nat list"
  waits :: "nat list list"
  reap_queue :: "nat list"
  reap_wait :: nat
  next_pid :: u64
  init_reaper_pcb :: "nat option"
  tables :: "nat hash_table_t list"
  next_pcb :: nat
  freed :: "nat list"
  released :: "release list"
  files :: 'v

definition upd_pcb :: "nat \<Rightarrow> (pcb_t \<Rightarrow> pcb_t) \<Rightarrow> 'v procs \<Rightarrow> 'v procs" where
  "upd_pcb p f s = s\<lparr>pcbs := (pcbs s)(p := f (pcbs s p))\<rparr>"

subsection \<open>Queues and signals\<close>

definition scheduler_schedule :: "nat \<Rightarrow> 'v procs \<Rightarrow> 'v procs" where
  "scheduler_schedule p s = s\<lparr>active_queue := active_queue s @ [p]\<rparr>"

definition scheduler_init :: "'v procs \<Rightarrow> 'v procs" where
  "scheduler_init s = s\<lparr>active_queue := [], sleep_queue := []\<rparr>"

definition signal_wait_alloc :: "'v procs \<Rightarrow> nat \<times> 'v procs" where
  "signal_wait_alloc s = (length (waits s), s\<lparr>waits := waits s @ [[]]\<rparr>)"

definition process_set_callback :: "callback_t \<Rightarrow> nat \<Rightarrow> 'v procs \<Rightarrow> 'v procs" where
  "process_set_callback cb p s = upd_pcb p (\<lambda>q. q\<lparr>callback := cb, sched_cntr := SCHED_CALLBACK\<rparr>) s"

text \<open>\<^verbatim>\<open>signal_wait_locked\<close> stores the wait queue and the lock and asks for the callback; the process then halts
  until the scheduler takes it off the processor.  \<open>signal_wait_return\<close> is what follows the loop.\<close>

definition signal_wait_locked :: "nat \<Rightarrow> nat option \<Rightarrow> nat \<Rightarrow> 'v procs \<Rightarrow> 'v procs" where
  "signal_wait_locked w rlock p s =
     process_set_callback Signal_wait_callback p (upd_pcb p (\<lambda>q. q\<lparr>meta_wait := w, meta_lock := rlock\<rparr>) s)"

definition signal_wait_return :: "nat \<Rightarrow> 'v procs \<Rightarrow> 'v procs option" where
  "signal_wait_return p s =
     (if sched_cntr (pcbs s p) \<noteq> SCHED_SIGNAL_READY then None
      else Some (upd_pcb p (\<lambda>q. q\<lparr>sched_cntr := SCHED_READY\<rparr>) s))"

definition lock_release :: "nat option \<Rightarrow> 'v procs \<Rightarrow> 'v procs" where
  "lock_release rlock s = (case rlock of None \<Rightarrow> s | Some q \<Rightarrow> upd_pcb q (\<lambda>q. q\<lparr>plock := False\<rparr>) s)"

definition signal_wait_callback :: "nat \<Rightarrow> 'v procs \<Rightarrow> 'v procs" where
  "signal_wait_callback p s =
     (let w = meta_wait (pcbs s p)
      in lock_release (meta_lock (pcbs s p)) (s\<lparr>waits := (waits s)[w := p # waits s ! w]\<rparr>))"

fun awake_loop :: "nat list \<Rightarrow> 'v procs \<Rightarrow> 'v procs" where
  "awake_loop [] s = s"
| "awake_loop (i # q) s =
     awake_loop q (scheduler_schedule i (upd_pcb i (\<lambda>q. q\<lparr>sched_cntr := SCHED_SIGNAL_READY\<rparr>) s))"

definition signal_awake_locked :: "nat \<Rightarrow> nat option \<Rightarrow> 'v procs \<Rightarrow> 'v procs" where
  "signal_awake_locked w rlock s =
     awake_loop (waits s ! w) (lock_release rlock (s\<lparr>waits := (waits s)[w := []]\<rparr>))"

definition signal_wait :: "nat \<Rightarrow> nat \<Rightarrow> 'v procs \<Rightarrow> 'v procs" where
  "signal_wait w p s = signal_wait_locked w None p s"

definition signal_awake :: "nat \<Rightarrow> 'v procs \<Rightarrow> 'v procs" where
  "signal_awake w s = signal_awake_locked w None s"

text \<open>The memory of a freed wait queue is not reused here.\<close>

definition signal_free :: "nat \<Rightarrow> 'v procs \<Rightarrow> 'v procs" where
  "signal_free w s = signal_awake w s"

subsection \<open>Taking a process off the processor\<close>

definition process_discard :: "nat \<Rightarrow> 'v procs \<Rightarrow> 'v procs outcome" where
  "process_discard p s =
     (if pid (pcbs s p) = 1 then Inl (Panic PANIC_STATE)
      else Inr (signal_awake (reap_wait s) (s\<lparr>reap_queue := p # reap_queue s\<rparr>)))"

definition process_execve :: "nat \<Rightarrow> nat \<Rightarrow> 'v procs \<Rightarrow> 'v procs outcome" where
  "process_execve actual desired s =
     (let temp = pcbs s actual;
          s1 = scheduler_schedule actual (s\<lparr>pcbs := (pcbs s)(actual := pcbs s desired)\<rparr>)
      in process_discard desired (s1\<lparr>pcbs := (pcbs s1)(desired := temp\<lparr>init_k_rsp_vaddr := 0\<rparr>)\<rparr>))"

definition execve_transfer :: "nat \<Rightarrow> 'v procs \<Rightarrow> 'v procs outcome" where
  "execve_transfer p s = process_execve p (meta_pcb (pcbs s p)) s"

definition process_call_callback :: "nat \<Rightarrow> 'v procs \<Rightarrow> 'v procs outcome" where
  "process_call_callback p s =
     (case callback (pcbs s p) of
        Signal_wait_callback \<Rightarrow> Inr (signal_wait_callback p s)
      | Execve_transfer \<Rightarrow> execve_transfer p s)"

fun sleep_insert :: "(nat \<Rightarrow> u64) \<Rightarrow> nat \<Rightarrow> nat list \<Rightarrow> nat list" where
  "sleep_insert wt p [] = [p]"
| "sleep_insert wt p (i # q) = (if wt p < wt i then i # sleep_insert wt p q else p # i # q)"

abbreviation wake_times :: "'v procs \<Rightarrow> nat \<Rightarrow> u64" where
  "wake_times s i \<equiv> wake_time (pcbs s i)"

text \<open>The \<^verbatim>\<open>switch\<close> on the state of the process that was running.  \<^verbatim>\<open>SCHED_SKIP\<close> resumes it and never gets here; a
  zombie is only warned about.\<close>

definition requeue_current :: "nat \<Rightarrow> 'v procs \<Rightarrow> 'v procs outcome" where
  "requeue_current p s =
     (case sched_cntr (pcbs s p) of
        SCHED_SKIP \<Rightarrow> Inr s
      | SCHED_KILL \<Rightarrow> process_discard p s
      | SCHED_SLEEP \<Rightarrow>
          let s1 = upd_pcb p (\<lambda>q. q\<lparr>sched_cntr := SCHED_READY\<rparr>) s
          in Inr (s1\<lparr>sleep_queue := sleep_insert (wake_times s1) p (sleep_queue s1)\<rparr>)
      | SCHED_CALLBACK \<Rightarrow> process_call_callback p s
      | SCHED_READY \<Rightarrow> Inr (scheduler_schedule p s)
      | SCHED_SIGNAL_READY \<Rightarrow> Inr (scheduler_schedule p s)
      | SCHED_ZOMBIE \<Rightarrow> Inr s)"

fun wake_loop :: "u64 \<Rightarrow> nat list \<Rightarrow> 'v procs \<Rightarrow> 'v procs" where
  "wake_loop now [] s = s\<lparr>sleep_queue := []\<rparr>"
| "wake_loop now (i # q) s =
     (if wake_times s i \<le> now then wake_loop now q (scheduler_schedule i s) else s\<lparr>sleep_queue := i # q\<rparr>)"

datatype run_result = Resume nat | Switch nat | Wait

definition pick_next :: "u64 \<Rightarrow> 'v procs \<Rightarrow> run_result \<times> 'v procs" where
  "pick_next now s =
     (let s1 = wake_loop now (sleep_queue s) s
      in case active_queue s1 of
           [] \<Rightarrow> (Wait, s1)
         | p # q \<Rightarrow> (Switch p, s1\<lparr>active_queue := q\<rparr>))"

text \<open>One entry into \<^verbatim>\<open>scheduler_run\<close>: the process on this processor, if any, and the current time.\<close>

definition scheduler_run :: "nat option \<Rightarrow> u64 \<Rightarrow> 'v procs \<Rightarrow> (run_result \<times> 'v procs) outcome" where
  "scheduler_run current now s =
     (case current of
        None \<Rightarrow> Inr (pick_next now s)
      | Some p \<Rightarrow> if sched_cntr (pcbs s p) = SCHED_SKIP then Inr (Resume p, s)
                 else (case requeue_current p s of Inl e \<Rightarrow> Inl e | Inr s1 \<Rightarrow> Inr (pick_next now s1)))"

text \<open>The start of a sleep and of an exit; both then halt until the scheduler takes the process away.\<close>

definition process_sleep :: "nat \<Rightarrow> u64 \<Rightarrow> 'v procs \<Rightarrow> 'v procs" where
  "process_sleep p t s = upd_pcb p (\<lambda>q. q\<lparr>wake_time := t, sched_cntr := SCHED_SLEEP\<rparr>) s"

definition process_kill_current :: "nat \<Rightarrow> 'v procs \<Rightarrow> 'v procs" where
  "process_kill_current p s = upd_pcb p (\<lambda>q. q\<lparr>exit_code := 0, sched_cntr := SCHED_KILL\<rparr>) s"

definition process_exit :: "u64 \<Rightarrow> nat \<Rightarrow> 'v procs \<Rightarrow> 'v procs" where
  "process_exit ec p s = process_kill_current p (upd_pcb p (\<lambda>q. q\<lparr>exit_code := ec\<rparr>) s)"

subsection \<open>No process is lost or duplicated\<close>

definition all_procs :: "'v procs \<Rightarrow> nat multiset" where
  "all_procs s = mset (active_queue s) + mset (sleep_queue s) + mset (concat (waits s)) + mset (reap_queue s)"

definition on_cpu :: "run_result \<Rightarrow> nat multiset" where
  "on_cpu r = (case r of Resume p \<Rightarrow> {#p#} | Switch p \<Rightarrow> {#p#} | Wait \<Rightarrow> {#})"

text \<open>A process in \<^verbatim>\<open>execve\<close> carries the structure it is to be exchanged with.\<close>

definition carried :: "nat \<Rightarrow> 'v procs \<Rightarrow> nat multiset" where
  "carried p s = (if sched_cntr (pcbs s p) = SCHED_CALLBACK \<and> callback (pcbs s p) = Execve_transfer
                  then {#meta_pcb (pcbs s p)#} else {#})"

definition waits_ok :: "nat \<Rightarrow> 'v procs \<Rightarrow> bool" where
  "waits_ok p s \<longleftrightarrow> reap_wait s < length (waits s)
     \<and> (sched_cntr (pcbs s p) = SCHED_CALLBACK \<and> callback (pcbs s p) = Signal_wait_callback \<longrightarrow>
          meta_wait (pcbs s p) < length (waits s))"

lemma upd_pcb_frame [frame_simps, simp]:
  "active_queue (upd_pcb p f s) = active_queue s" "sleep_queue (upd_pcb p f s) = sleep_queue s"
  "waits (upd_pcb p f s) = waits s" "reap_queue (upd_pcb p f s) = reap_queue s" "reap_wait (upd_pcb p f s) = reap_wait s"
  "tables (upd_pcb p f s) = tables s" "init_reaper_pcb (upd_pcb p f s) = init_reaper_pcb s"
  "next_pid (upd_pcb p f s) = next_pid s" "next_pcb (upd_pcb p f s) = next_pcb s" "freed (upd_pcb p f s) = freed s" "released (upd_pcb p f s) = released s"
  "files (upd_pcb p f s) = files s" "pcbs (upd_pcb p f s) = (pcbs s)(p := f (pcbs s p))"
  by (simp_all add: upd_pcb_def)

lemma lock_release_frame [frame_simps, simp]:
  "active_queue (lock_release l s) = active_queue s" "sleep_queue (lock_release l s) = sleep_queue s"
  "waits (lock_release l s) = waits s" "reap_queue (lock_release l s) = reap_queue s"
  "reap_wait (lock_release l s) = reap_wait s"
  by (simp_all add: lock_release_def split: option.splits)

lemma mset_sleep_insert: "mset (sleep_insert wt p q) = add_mset p (mset q)"
  by (induction q) auto

lemma mset_concat_update:
  "w < length ws \<Longrightarrow> mset (concat (ws[w := p # ws ! w])) = add_mset p (mset (concat ws))"
  by (induction ws arbitrary: w) (auto split: nat.splits)

lemma mset_concat_clear:
  "w < length ws \<Longrightarrow> mset (concat (ws[w := []])) + mset (ws ! w) = mset (concat ws)"
proof (induction ws arbitrary: w)
  case (Cons a ws)
  then show ?case by (cases w) (simp_all add: add.assoc)
qed simp

lemma awake_loop_frame [frame_simps, simp]:
  "active_queue (awake_loop q s) = active_queue s @ q" "sleep_queue (awake_loop q s) = sleep_queue s"
  "waits (awake_loop q s) = waits s" "reap_queue (awake_loop q s) = reap_queue s" "reap_wait (awake_loop q s) = reap_wait s"
  by (induction q arbitrary: s) (simp_all add: scheduler_schedule_def)

lemma awake_loop_pcbs:
  "pcbs (awake_loop q s) p = (if p \<in> set q then (pcbs s p)\<lparr>sched_cntr := SCHED_SIGNAL_READY\<rparr> else pcbs s p)"
  by (induction q arbitrary: s) (auto simp: scheduler_schedule_def)

lemma signal_awake_all_procs:
  assumes "w < length (waits s)"
  shows "all_procs (signal_awake w s) = all_procs s"
proof -
  have "all_procs (signal_awake w s)
    = mset (active_queue s) + mset (sleep_queue s) + (mset (concat ((waits s)[w := []])) + mset (waits s ! w)) + mset (reap_queue s)"
    by (simp add: signal_awake_def signal_awake_locked_def lock_release_def all_procs_def)
  then show ?thesis unfolding mset_concat_clear[OF assms] by (simp add: all_procs_def)
qed

lemma process_discard_all_procs:
  assumes "process_discard p s = Inr s'" "reap_wait s < length (waits s)"
  shows "all_procs s' = add_mset p (all_procs s)"
  using assms signal_awake_all_procs[of "reap_wait s" "s\<lparr>reap_queue := p # reap_queue s\<rparr>"]
  by (auto simp: process_discard_def all_procs_def split: if_splits)

lemma process_execve_all_procs:
  assumes "process_execve p d s = Inr s'" "reap_wait s < length (waits s)"
  shows "all_procs s' = add_mset p (add_mset d (all_procs s))"
  using process_discard_all_procs[OF assms(1)[unfolded process_execve_def Let_def]] assms(2)
  by (simp add: scheduler_schedule_def all_procs_def)

lemma requeue_all_procs:
  assumes "requeue_current p s = Inr s'" "sched_cntr (pcbs s p) \<notin> {SCHED_SKIP, SCHED_ZOMBIE}" "waits_ok p s"
  shows "all_procs s' = add_mset p (all_procs s) + carried p s"
proof -
  have "all_procs (signal_wait_callback p s) = add_mset p (all_procs s)" if "meta_wait (pcbs s p) < length (waits s)"
    using mset_concat_update[OF that] by (simp add: signal_wait_callback_def all_procs_def Let_def)
  then show ?thesis using assms process_discard_all_procs[of p s s'] process_execve_all_procs[of p _ s s']
    by (auto simp: requeue_current_def carried_def waits_ok_def scheduler_schedule_def all_procs_def mset_sleep_insert
        process_call_callback_def execve_transfer_def Let_def split: sched_cntr_t.splits callback_t.splits)
qed

lemma wake_loop_spec:
  "wake_loop now q s = s\<lparr>active_queue := active_queue s @ takeWhile (\<lambda>i. wake_times s i \<le> now) q,
     sleep_queue := dropWhile (\<lambda>i. wake_times s i \<le> now) q\<rparr>"
  by (induction q arbitrary: s) (auto simp: scheduler_schedule_def)

lemma pick_next_all_procs:
  assumes "pick_next now s = (r, s')"
  shows "all_procs s' + on_cpu r = all_procs s"
proof -
  have "mset (takeWhile P q) + mset (dropWhile P q) = mset q" for P and q :: "nat list"
    by (metis mset_append takeWhile_dropWhile_id)
  note this[of "\<lambda>i. wake_times s i \<le> now" "sleep_queue s", symmetric]
  then show ?thesis using assms
    by (auto simp: pick_next_def Let_def wake_loop_spec all_procs_def on_cpu_def split: list.splits)
      (metis (no_types, lifting) append_eq_Cons_conv mset.simps(2) mset_append union_mset_add_mset_left union_mset_add_mset_right add.assoc add.commute)+
qed

text \<open>A run of one processor through several entries into the scheduler.\<close>

fun run_ticks :: "u64 list \<Rightarrow> nat option \<Rightarrow> 'v procs \<Rightarrow> (nat option \<times> 'v procs) outcome" where
  "run_ticks [] c s = Inr (c, s)"
| "run_ticks (t # ts) c s =
     (case scheduler_run c t s of
        Inl e \<Rightarrow> Inl e
      | Inr (Resume p, s') \<Rightarrow> run_ticks ts (Some p) s'
      | Inr (Switch p, s') \<Rightarrow> run_ticks ts (Some p) s'
      | Inr (Wait, s') \<Rightarrow> run_ticks ts None s')"

abbreviation ready :: "'v procs \<Rightarrow> nat \<Rightarrow> bool" where
  "ready s p \<equiv> sched_cntr (pcbs s p) = SCHED_READY"

lemma run_ready_step:
  assumes "ready s c" "sleep_queue s = []" "active_queue s = p # q"
  shows "scheduler_run (Some c) t s = Inr (Switch p, s\<lparr>active_queue := q @ [c]\<rparr>)"
  using assms by (simp add: scheduler_run_def requeue_current_def pick_next_def scheduler_schedule_def)

lemma run_ticks_ready:
  assumes "\<forall>p \<in> set (active_queue s). ready s p" "ready s c"
    "sleep_queue s = []" "i < length (active_queue s)" "length ts = Suc i"
  shows "\<exists>s'. run_ticks ts (Some c) s = Inr (Some (active_queue s ! i), s')"
  using assms
proof (induction i arbitrary: s c ts)
  case 0
  then obtain t p q where "ts = [t]" "active_queue s = p # q"
    by (cases "active_queue s"; cases ts) auto
  with 0 show ?case by (simp add: run_ready_step)
next
  case (Suc i)
  then obtain t us p q where d: "ts = t # us" "active_queue s = p # q" "length us = Suc i"
    by (cases "active_queue s"; cases ts) auto
  let ?s = "s\<lparr>active_queue := q @ [c]\<rparr>"
  have "\<exists>s'. run_ticks us (Some p) ?s = Inr (Some (active_queue ?s ! i), s')"
    by (rule Suc.IH) (use Suc.prems d in auto)
  then show ?case using Suc.prems d by (simp add: run_ready_step nth_append)
qed

lemma scheduler_sleep_one:
  assumes "sleep_queue s = []" "active_queue s = []" "now < t"
  shows "scheduler_run (Some p) now (process_sleep p t s)
    = Inr (Wait, (upd_pcb p (\<lambda>q. q\<lparr>wake_time := t, sched_cntr := SCHED_READY\<rparr>) s)\<lparr>sleep_queue := [p]\<rparr>)"
proof -
  have "\<not> t \<le> now" using assms(3) by simp
  with assms(1,2) show ?thesis
    by (simp add: scheduler_run_def process_sleep_def requeue_current_def pick_next_def Let_def upd_pcb_def)
qed

text \<open>A process and a state to evaluate the operations on.\<close>

definition blank_regs :: regs_t where
  "blank_regs = \<lparr>rbp = 0, rsp = 0, r15 = 0, r14 = 0, r13 = 0, r12 = 0, r11 = 0, r10 = 0, r9 = 0, r8 = 0, rdi = 0,
     rsi = 0, rdx = 0, rcx = 0, rbx = 0, rax = 0, rip = 0, cs = 0, rflags = 0, ss = 0\<rparr>"

definition blank_pcb :: pcb_t where
  "blank_pcb = \<lparr>regs = blank_regs, pid = 7, k_rsp_lo = 0, k_rsp_hi = 0, init_k_rsp_vaddr = 0, init_k_rsp_paddr = 0,
     fsbase = 0, mem_top = 0, cr3 = 0, exit_code = 0, wd = 0, fd_table = None, child_table = None, parent = None,
     monitor = None, meta_wait = 0, meta_lock = None, meta_pcb = 0, wake_time = 40, callback = Signal_wait_callback,
     sched_cntr = SCHED_READY, plock = False\<rparr>"

definition sample_procs :: "nat list \<Rightarrow> unit procs" where
  "sample_procs q = \<lparr>pcbs = \<lambda>_. blank_pcb, active_queue = q, sleep_queue = [], waits = [[], [3, 5]], reap_queue = [],
     reap_wait = 0, next_pid = 10, init_reaper_pcb = None, tables = [], next_pcb = 100, freed = [], released = [], files = ()\<rparr>"

lemmas sample_defs = sample_procs_def blank_pcb_def blank_regs_def

subsection \<open>Properties\<close>

text \<open>C22: every entry into \<^verbatim>\<open>scheduler_run\<close> that does not panic keeps the processes: those in the ready, sleep, wait
  and reap queues and the one on the processor are the same before and after, each as often as before, whatever the
  state of the process that was running; a process in \<^verbatim>\<open>execve\<close> adds the structure it was exchanged with, which goes
  to the reaper.\<close>

theorem scheduler_run_conserves:
  assumes "scheduler_run (Some p) now s = Inr (r, s')" "sched_cntr (pcbs s p) \<noteq> SCHED_ZOMBIE" "waits_ok p s"
  shows "all_procs s' + on_cpu r = add_mset p (all_procs s) + carried p s"
proof (cases "sched_cntr (pcbs s p) = SCHED_SKIP")
  case True
  with assms(1) show ?thesis by (auto simp: scheduler_run_def on_cpu_def carried_def)
next
  case False
  then obtain s1 where "requeue_current p s = Inr s1" "pick_next now s1 = (r, s')"
    using assms(1) by (auto simp: scheduler_run_def split: sum.splits)
  then show ?thesis using pick_next_all_procs[of now s1 r s'] requeue_all_procs[of p s s1] False assms(2,3) by simp
qed

theorem scheduler_run_conserves_witness:
  "\<exists>r s'. scheduler_run (Some 1) 50 (process_kill_current 1 (sample_procs [2])) = Inr (r, s')
     \<and> all_procs s' + on_cpu r = {#1, 2, 3, 5#}"
proof -
  let ?s = "process_kill_current 1 (sample_procs [2])"
  have "\<exists>x. scheduler_run (Some 1) 50 ?s = Inr x"
    by (simp add: scheduler_run_def requeue_current_def process_kill_current_def process_discard_def sample_defs)
  then obtain r s' where r: "scheduler_run (Some 1) 50 ?s = Inr (r, s')" by auto
  have "all_procs s' + on_cpu r = add_mset 1 (all_procs ?s) + carried 1 ?s"
    by (rule scheduler_run_conserves[OF r]) (simp_all add: waits_ok_def process_kill_current_def sample_defs)
  with r show ?thesis by (simp add: all_procs_def carried_def process_kill_current_def sample_defs)
qed

text \<open>C29: round robin.  While every process stays ready, the process at position \<open>i\<close> of the ready queue runs after
  \<open>i + 1\<close> ticks, whatever their times.\<close>

theorem scheduler_round_robin:
  assumes "\<forall>p \<in> set (active_queue s). ready s p" "ready s c"
    "sleep_queue s = []" "i < length (active_queue s)" "length ts = Suc i"
  shows "\<exists>s'. run_ticks ts (Some c) s = Inr (Some (active_queue s ! i), s')"
  using assms by (rule run_ticks_ready)

theorem scheduler_round_robin_witness:
  "\<exists>s'. run_ticks [5, 6, 7] (Some 9) (sample_procs [2, 4, 8]) = Inr (Some 8, s')"
  using scheduler_round_robin[of "sample_procs [2, 4, 8]" 9 2 "[5, 6, 7]"] by (simp add: sample_defs)

text \<open>The sleep queue is kept in the wrong order for the wake-up loop.  When \<open>p\<close> sleeps until \<open>t\<close> and then
  \<open>q\<close> until the later time \<open>u\<close>, an entry into the scheduler between \<open>t\<close> and \<open>u\<close> does not wake \<open>p\<close>, whose time
  has come: the loop stops at \<open>q\<close>, which stands in front.\<close>

lemma scheduler_sleep_order_delays:
  assumes "p \<noteq> q" "sleep_queue s = []" "active_queue s = []" "0 < t" "t \<le> now" "now < u"
    "scheduler_run (Some p) 0 (process_sleep p t s) = Inr (r1, s1)"
  shows "\<exists>s2. scheduler_run (Some q) now (process_sleep q u s1) = Inr (Wait, s2)
     \<and> sleep_queue s2 = [q, p] \<and> active_queue s2 = []"
proof -
  have s1: "sleep_queue s1 = [p]" "active_queue s1 = []" "wake_times s1 p = t"
    using assms(2-4,7) scheduler_sleep_one[of s 0 t p] by auto
  have "\<not> u < t" "\<not> u \<le> now" using assms(5,6) by simp_all
  then show ?thesis using assms(1) s1
    by (simp add: scheduler_run_def process_sleep_def requeue_current_def pick_next_def wake_loop_spec Let_def)
qed

text \<open>\<^verbatim>\<open>signal_awake\<close> makes exactly the processes of the wait queue ready, in queue order, and empties it;
  but a process that has called \<^verbatim>\<open>signal_wait\<close> and has not yet been taken off its processor is not in the queue,
  so a signal sent at that moment is lost and the process is queued afterwards.\<close>

lemma signal_awake_wakes_queue:
  assumes "w < length (waits s)" "waits s ! w = ps"
  shows "active_queue (signal_awake w s) = active_queue s @ ps \<and> waits (signal_awake w s) ! w = []
    \<and> (\<forall>p. sched_cntr (pcbs (signal_awake w s) p) = (if p \<in> set ps then SCHED_SIGNAL_READY else sched_cntr (pcbs s p)))
    \<and> (ps = [] \<longrightarrow> (\<exists>r s'. scheduler_run (Some p) now (signal_awake w (signal_wait w p s)) = Inr (r, s')
          \<and> p \<in> set (waits s' ! w)))"
proof -
  have "p \<in> set (waits (snd (pick_next now s1)) ! w)" if "p \<in> set (waits s1 ! w)" for s1 :: "'a procs"
    using that by (auto simp: pick_next_def wake_loop_spec Let_def split: list.splits)
  note lost = this[of "signal_wait_callback p (signal_awake w (signal_wait w p s))"]
  have cb: "sched_cntr (pcbs (signal_awake w (signal_wait w p s)) p) = SCHED_CALLBACK"
    "callback (pcbs (signal_awake w (signal_wait w p s)) p) = Signal_wait_callback"
    "meta_wait (pcbs (signal_awake w (signal_wait w p s)) p) = w"
    "w < length (waits (signal_awake w (signal_wait w p s)))" if "ps = []"
    using that assms by (simp_all add: signal_awake_def signal_awake_locked_def awake_loop_pcbs signal_wait_def
        signal_wait_locked_def process_set_callback_def lock_release_def)
  have "ps = [] \<longrightarrow> (\<exists>r s'. scheduler_run (Some p) now (signal_awake w (signal_wait w p s)) = Inr (r, s')
          \<and> p \<in> set (waits s' ! w))"
    using lost cb by (auto simp: scheduler_run_def requeue_current_def process_call_callback_def
        signal_wait_callback_def Let_def) (metis prod.collapse)
  then show ?thesis using assms
    by (simp add: signal_awake_def signal_awake_locked_def awake_loop_pcbs lock_release_def)
qed

end
