(* ===== verification/Process.thy ===== *)
theory Process
  imports Scheduler
begin

section \<open>Processes (kernel/core/process.c)\<close>

text \<open>
  Creation, forking, exit, reaping and waiting over the structures of \<open>Scheduler\<close>.  \<^verbatim>\<open>kmalloc\<close> gives a process
  structure a new address (\<open>next_pcb\<close>) whose members not written by \<^verbatim>\<open>init_pcb\<close> keep what the memory held.  The results of
  \<^verbatim>\<open>process_create_guarded_stack\<close> and \<^verbatim>\<open>paging_duplicate_lower\<close> are arguments, as are the file system's
  \<^verbatim>\<open>fs_dup\<close> and \<^verbatim>\<open>fs_close\<close>; the current process is an argument \<open>p\<close>.  A null \<^verbatim>\<open>fd_table\<close>, \<^verbatim>\<open>child_table\<close> or
  \<^verbatim>\<open>parent\<close> is \<open>None\<close> and its use \<open>Inl Undefined\<close>.
\<close>

definition INIT_RFLG :: u64 where "INIT_RFLG = 0x200"
definition INIT_STACK_SIZE :: u64 where "INIT_STACK_SIZE = 0x4000"
definition GDT_KERNEL_CS :: u64 where "GDT_KERNEL_CS = 0x8"
definition GDT_KERNEL_SS :: u64 where "GDT_KERNEL_SS = 0x10"
definition FD_INIT_SIZE :: u64 where "FD_INIT_SIZE = 4"
definition FD_GROWTH :: u64 where "FD_GROWTH = 8"
definition CHILD_BUCKETS :: u64 where "CHILD_BUCKETS = 4"
definition MAX_META :: u64 where "MAX_META = 2"

subsection \<open>Creation\<close>

definition process_find_stack_top :: "u64 \<Rightarrow> u64" where
  "process_find_stack_top vaddr_base = vaddr_base + 0x1000 * 5"

definition init_pcb :: "u64 \<Rightarrow> nat \<Rightarrow> nat array_list_t option \<Rightarrow> nat option \<Rightarrow> nat option \<Rightarrow> nat option \<Rightarrow> u64 \<Rightarrow> u64
    \<Rightarrow> u64 \<Rightarrow> u64 \<Rightarrow> u64 \<Rightarrow> 'v procs \<Rightarrow> nat \<times> 'v procs" where
  "init_pcb rip' wd' fds ct par mon cr3' pid' vaddr paddr memtop s =
     (let p = next_pcb s; sp = process_find_stack_top vaddr;
          r = \<lparr>rbp = 0, rsp = sp, r15 = 0, r14 = 0, r13 = 0, r12 = 0, r11 = 0, r10 = 0, r9 = 0, r8 = 0, rdi = 0, rsi = 0,
               rdx = 0, rcx = 0, rbx = 0, rax = 0, rip = rip', cs = GDT_KERNEL_CS, rflags = INIT_RFLG, ss = GDT_KERNEL_SS\<rparr>
      in (p, upd_pcb p (\<lambda>q. q\<lparr>regs := r, fsbase := 0, plock := False, sched_cntr := SCHED_READY, wd := wd', fd_table := fds,
                  child_table := ct, parent := par, monitor := mon, cr3 := cr3', pid := pid', init_k_rsp_vaddr := vaddr,
                  init_k_rsp_paddr := paddr, mem_top := memtop, k_rsp_lo := ucast (sp AND 0xFFFFFFFF),
                  k_rsp_hi := ucast (drop_bit 32 sp)\<rparr>) (s\<lparr>next_pcb := next_pcb s + 1\<rparr>)))"

definition process_assign_pid :: "'v procs \<Rightarrow> u64 \<times> 'v procs" where
  "process_assign_pid s = (next_pid s, s\<lparr>next_pid := next_pid s + 1\<rparr>)"

text \<open>The new structure becomes the current process of the calling processor.\<close>

definition process_init_ap :: "u64 \<Rightarrow> u64 \<Rightarrow> 'v procs \<Rightarrow> nat \<times> 'v procs" where
  "process_init_ap vaddr paddr s =
     (let (pid', s1) = process_assign_pid s in init_pcb 0 0 None None None None 0 pid' vaddr paddr 0 s1)"

definition process_init :: "u64 \<Rightarrow> u64 \<Rightarrow> 'v procs \<Rightarrow> nat \<times> 'v procs" where
  "process_init vaddr paddr s =
     (let (w, s1) = signal_wait_alloc (s\<lparr>next_pid := 2, reap_queue := [], init_reaper_pcb := None\<rparr>)
      in process_init_ap vaddr paddr (s1\<lparr>reap_wait := w\<rparr>))"

definition process_from_vaddr :: "u64 \<Rightarrow> (u64 \<times> u64) option \<Rightarrow> 'v procs \<Rightarrow> nat option \<times> 'v procs" where
  "process_from_vaddr vaddr stack s =
     (case stack of None \<Rightarrow> (None, s)
      | Some (v, pa) \<Rightarrow>
          let (pid', s1) = process_assign_pid s; (p, s2) = init_pcb vaddr 0 None None None None 0 pid' v pa 0 s1
          in (Some p, s2))"

definition process_from_func :: "u64 \<Rightarrow> u64 \<Rightarrow> u64 \<Rightarrow> (u64 \<times> u64) option \<Rightarrow> 'v procs \<Rightarrow> nat option \<times> 'v procs" where
  "process_from_func function_setup func cntx stack s =
     (case process_from_vaddr function_setup stack s of
        (None, s1) \<Rightarrow> (None, s1)
      | (Some p, s1) \<Rightarrow> (Some p, upd_pcb p (\<lambda>q. q\<lparr>regs := (regs q)\<lparr>rdi := func, rsi := cntx\<rparr>\<rparr>) s1))"

definition process_init_reaper :: "u64 \<Rightarrow> u64 \<Rightarrow> (u64 \<times> u64) option \<Rightarrow> 'v procs \<Rightarrow> 'v procs outcome" where
  "process_init_reaper function_setup process_reap_addr stack s =
     (case process_from_func function_setup process_reap_addr 0 stack s of
        (None, s1) \<Rightarrow> Inl Undefined
      | (Some p, s1) \<Rightarrow> Inr (scheduler_schedule p s1))"

text \<open>\<^verbatim>\<open>open_root\<close> is the result of \<^verbatim>\<open>fs_open("/", O_RDWR)\<close>.\<close>

definition process_create_userland_pcb :: "u64 \<Rightarrow> u64 \<Rightarrow> u64 \<Rightarrow> u64 \<Rightarrow> u64 \<Rightarrow> u64 \<Rightarrow> nat \<Rightarrow> nat option \<Rightarrow> u64 \<Rightarrow> u64
    \<Rightarrow> 'v procs \<Rightarrow> (nat \<times> 'v procs) outcome" where
  "process_create_userland_pcb syscall_return rdi' rdx' stack_vaddr stack_paddr cr3' open_root source memtop pid0 s =
     (let finish = (\<lambda>wd' fds ct par mon pid' sv sp s1.
            let (p, s2) = init_pcb syscall_return wd' fds ct par mon cr3' pid' sv sp memtop s1;
                s3 = upd_pcb p (\<lambda>q. q\<lparr>regs := (regs q)\<lparr>rdi := rdi', rsi := rflags (regs q), rdx := rdx'\<rparr>\<rparr>) s2
            in (p, if pid' = 1 then s3\<lparr>init_reaper_pcb := Some p\<rparr> else s3))
      in case source of
           Some q \<Rightarrow>
             let o' = pcbs s q
             in Inr (finish (wd o') (fd_table o') (child_table o') (parent o') (monitor o') (pid o')
                  (init_k_rsp_vaddr o') (init_k_rsp_paddr o') s)
         | None \<Rightarrow>
             (case array_list_alloc FD_INIT_SIZE FD_GROWTH 0 of Inl e \<Rightarrow> Inl e
              | Inr fds \<Rightarrow>
                  (case hash_table_alloc CHILD_BUCKETS of Inl e \<Rightarrow> Inl e
                   | Inr t \<Rightarrow>
                       let (w, s1) = signal_wait_alloc (s\<lparr>tables := tables s @ [t]\<rparr>)
                       in Inr (finish open_root (Some fds) (Some (length (tables s))) None (Some w) pid0
                            stack_vaddr stack_paddr s1))))"

subsection \<open>Fork\<close>

text \<open>\<open>user_rbp\<close> is the word at the address \<^verbatim>\<open>rbp\<close> of the user's stack and \<open>space\<close> the result of
  \<^verbatim>\<open>paging_duplicate_lower\<close>.  The copy of the kernel stack is memory outside this state.  The result 0 is failure.\<close>

definition process_fork :: "(nat \<Rightarrow> 'v \<Rightarrow> nat \<times> 'v) \<Rightarrow> u64 \<Rightarrow> u64 \<Rightarrow> u64 \<Rightarrow> u64 \<Rightarrow> u64 \<Rightarrow> (u64 \<times> u64) option \<Rightarrow> u64
    \<Rightarrow> nat \<Rightarrow> 'v procs \<Rightarrow> (u64 \<times> 'v procs) outcome" where
  "process_fork dup syscall_return r11' rcx' rbp' user_rbp stack space p s =
     (case stack of None \<Rightarrow> Inr (0, s)
      | Some (vaddr, paddr) \<Rightarrow>
          let par = pcbs s p; (wd', fs1) = dup (wd par) (files s)
          in (case (fd_table par, child_table par) of
               (Some fds, Some ct) \<Rightarrow>
                 (case array_list_dup fds dup fs1 of Inl e \<Rightarrow> Inl e
                  | Inr (fds', fs2) \<Rightarrow>
                      (case hash_table_alloc CHILD_BUCKETS of Inl e \<Rightarrow> Inl e
                       | Inr t \<Rightarrow>
                           let (w, s1) = signal_wait_alloc (s\<lparr>tables := tables s @ [t], files := fs2\<rparr>);
                               (pid', s2) = process_assign_pid s1;
                               (c, s3) = init_pcb syscall_return wd' (Some fds') (Some (length (tables s))) (Some p) (Some w)
                                           space pid' vaddr paddr (mem_top par) s2;
                               s4 = upd_pcb c (\<lambda>q. q\<lparr>regs := (regs q)\<lparr>rbp := user_rbp, rcx := 0, rsi := r11', rdi := rcx',
                                           rdx := rbp' + 8\<rparr>\<rparr>) s3;
                               s5 = scheduler_schedule c s4
                           in (case hash_table_insert (tables s5 ! ct) pid' c of Inl e \<Rightarrow> Inl e
                               | Inr (_, t') \<Rightarrow> Inr (pid', s5\<lparr>tables := (tables s5)[ct := t']\<rparr>))))
             | _ \<Rightarrow> Inl Undefined))"

subsection \<open>Reaping\<close>

definition orphan_children :: "nat \<Rightarrow> 'v procs outcome \<Rightarrow> 'v procs outcome" where
  "orphan_children c r =
     (case r of Inl e \<Rightarrow> Inl e
      | Inr s \<Rightarrow>
          (case init_reaper_pcb s of None \<Rightarrow> Inl Undefined
           | Some i \<Rightarrow>
               let s1 = upd_pcb c (\<lambda>q. q\<lparr>parent := Some i\<rparr>) s
               in (case child_table (pcbs s1 i) of None \<Rightarrow> Inl Undefined
                   | Some ct \<Rightarrow>
                       (case hash_table_insert (tables s1 ! ct) (pid (pcbs s1 c)) c of Inl e \<Rightarrow> Inl e
                        | Inr (_, t) \<Rightarrow> Inr (s1\<lparr>tables := (tables s1)[ct := t]\<rparr>)))))"

definition reap_final :: "nat \<Rightarrow> 'v procs \<Rightarrow> 'v procs outcome" where
  "reap_final c s =
     (case parent (pcbs s c) of None \<Rightarrow> Inl Undefined
      | Some q \<Rightarrow>
          (case (child_table (pcbs s q), monitor (pcbs s c)) of
             (Some ct, Some w) \<Rightarrow>
               (case hash_table_remove (tables s ! ct) (pid (pcbs s c)) of Inl e \<Rightarrow> Inl e
                | Inr (_, t) \<Rightarrow>
                    let s1 = signal_free w (s\<lparr>tables := (tables s)[ct := t]\<rparr>) in Inr (s1\<lparr>freed := c # freed s1\<rparr>))
           | _ \<Rightarrow> Inl Undefined))"

text \<open>The lock \<^verbatim>\<open>plock\<close> is free when \<^verbatim>\<open>reap_prepare\<close> takes it, and is released by \<^verbatim>\<open>signal_awake_locked\<close>.\<close>

definition reap_prepare :: "(nat \<Rightarrow> 'v \<Rightarrow> 'v) \<Rightarrow> nat \<Rightarrow> 'v procs \<Rightarrow> 'v procs outcome" where
  "reap_prepare close p s =
     (let pcb = pcbs s p; stale = (init_k_rsp_vaddr pcb = 0);
          s1 = (if stale then s else s\<lparr>released := Stack (init_k_rsp_vaddr pcb) (init_k_rsp_paddr pcb) # released s\<rparr>)
      in if cr3 pcb = 0 then Inr s1
         else
           let s2 = s1\<lparr>released := Userspace (cr3 pcb) # released s1\<rparr>
           in if stale then Inr (s2\<lparr>freed := p # freed s2\<rparr>)
              else (case (fd_table pcb, child_table pcb, monitor pcb) of
                (Some fds, Some ct, Some w) \<Rightarrow>
                  (case hash_table_free (tables s2 ! ct) (Some orphan_children)
                          (Inr (s2\<lparr>files := array_list_free fds (Some close) (close (wd pcb) (files s2))\<rparr>)) of
                     Inl e \<Rightarrow> Inl e
                   | Inr s3 \<Rightarrow>
                       Inr (signal_awake_locked w (Some p)
                             (upd_pcb p (\<lambda>q. q\<lparr>plock := True, sched_cntr := SCHED_ZOMBIE\<rparr>) s3)))
              | _ \<Rightarrow> Inl Undefined))"

text \<open>One pass of the reaper over the processes discarded so far.\<close>

fun reap_loop :: "(nat \<Rightarrow> 'v \<Rightarrow> 'v) \<Rightarrow> nat list \<Rightarrow> 'v procs \<Rightarrow> 'v procs outcome" where
  "reap_loop close [] s = Inr s"
| "reap_loop close (p # ps) s = (case reap_prepare close p s of Inl e \<Rightarrow> Inl e | Inr s1 \<Rightarrow> reap_loop close ps s1)"

definition process_reap :: "(nat \<Rightarrow> 'v \<Rightarrow> 'v) \<Rightarrow> 'v procs \<Rightarrow> 'v procs outcome" where
  "process_reap close s = reap_loop close (reap_queue s) (s\<lparr>reap_queue := []\<rparr>)"

subsection \<open>Waiting for a child\<close>

text \<open>\<open>Blocked\<close>: the caller has asked to be queued on the child's monitor, holding the child's lock until it is.\<close>

datatype 'a reaped = Reaped u64 'a | Blocked 'a

definition process_reap_child :: "nat \<Rightarrow> nat \<Rightarrow> 'v procs \<Rightarrow> 'v procs reaped outcome" where
  "process_reap_child c p s =
     (if sched_cntr (pcbs s c) = SCHED_ZOMBIE
      then (case reap_final c s of Inl e \<Rightarrow> Inl e | Inr s1 \<Rightarrow> Inr (Reaped (exit_code (pcbs s c)) s1))
      else (case monitor (pcbs s c) of None \<Rightarrow> Inl Undefined
            | Some w \<Rightarrow> Inr (Blocked (signal_wait_locked w (Some c) p (upd_pcb c (\<lambda>q. q\<lparr>plock := True\<rparr>) s)))))"

definition is_zombie :: "'v procs \<Rightarrow> nat \<Rightarrow> bool" where
  "is_zombie s c \<longleftrightarrow> sched_cntr (pcbs s c) = SCHED_ZOMBIE"

text \<open>\<open>Wait_ok pid ec\<close>: return 1, with the pid left in the caller's variable (which is not passed back) and the exit
  code stored.  \<open>Wait_fail\<close>: return 0.\<close>

datatype 'a wait_result = Wait_ok u64 u64 'a | Wait_fail | Wait_blocked nat 'a

definition wait_child :: "u64 \<Rightarrow> nat \<Rightarrow> nat \<Rightarrow> 'v procs \<Rightarrow> 'v procs wait_result outcome" where
  "wait_child k c p s =
     (case process_reap_child c p s of Inl e \<Rightarrow> Inl e
      | Inr (Reaped ec s1) \<Rightarrow> Inr (Wait_ok k ec s1)
      | Inr (Blocked s1) \<Rightarrow> Inr (Wait_blocked c s1))"

definition process_wait_pid :: "u64 \<Rightarrow> bool \<Rightarrow> nat \<Rightarrow> 'v procs \<Rightarrow> 'v procs wait_result outcome" where
  "process_wait_pid k no_hang p s =
     (case child_table (pcbs s p) of None \<Rightarrow> Inl Undefined
      | Some ct \<Rightarrow>
          let t = tables s ! ct
          in if no_hang
             then if k = -1
                  then (case hash_table_find t (is_zombie s) of
                          Some (k', c) \<Rightarrow> wait_child k' c p s
                        | None \<Rightarrow> Inr (Wait_ok 0 0 s))
                  else (case hash_table_get t k of Inl e \<Rightarrow> Inl e
                        | Inr None \<Rightarrow> Inr Wait_fail
                        | Inr (Some c) \<Rightarrow> if is_zombie s c then wait_child k c p s else Inr (Wait_ok 0 0 s))
             else if k = -1
                  then (case hash_table_get_any t of Inl e \<Rightarrow> Inl e
                        | Inr None \<Rightarrow> Inr Wait_fail
                        | Inr (Some (k', c)) \<Rightarrow> wait_child k' c p s)
                  else (case hash_table_get t k of Inl e \<Rightarrow> Inl e
                        | Inr None \<Rightarrow> Inr Wait_fail
                        | Inr (Some c) \<Rightarrow> wait_child k c p s))"

subsection \<open>File descriptors and attributes of the current process\<close>

definition process_resolve_fd :: "u64 \<Rightarrow> nat \<Rightarrow> 'v procs \<Rightarrow> nat outcome" where
  "process_resolve_fd fd p s =
     (case fd_table (pcbs s p) of None \<Rightarrow> Inl Undefined | Some l \<Rightarrow> Inr (array_list_get l fd))"

definition process_register_fd :: "nat \<Rightarrow> nat \<Rightarrow> 'v procs \<Rightarrow> (u64 \<times> 'v procs) outcome option" where
  "process_register_fd h p s =
     (case fd_table (pcbs s p) of None \<Rightarrow> Some (Inl Undefined)
      | Some l \<Rightarrow>
          (case array_list_push l h of None \<Rightarrow> None | Some (Inl e) \<Rightarrow> Some (Inl e)
           | Some (Inr (i, l')) \<Rightarrow> Some (Inr (i, upd_pcb p (\<lambda>q. q\<lparr>fd_table := Some l'\<rparr>) s))))"

definition process_remove_fd :: "u64 \<Rightarrow> nat \<Rightarrow> 'v procs \<Rightarrow> 'v procs outcome" where
  "process_remove_fd fd p s =
     (case fd_table (pcbs s p) of None \<Rightarrow> Inl Undefined
      | Some l \<Rightarrow> Inr (upd_pcb p (\<lambda>q. q\<lparr>fd_table := Some (snd (array_list_remove l fd))\<rparr>) s))"

definition process_replace_fd :: "u64 \<Rightarrow> nat \<Rightarrow> nat \<Rightarrow> 'v procs \<Rightarrow> (nat \<times> 'v procs) outcome" where
  "process_replace_fd fd h p s =
     (case fd_table (pcbs s p) of None \<Rightarrow> Inl Undefined
      | Some l \<Rightarrow>
          (case array_list_set l fd h of Inl e \<Rightarrow> Inl e
           | Inr (old, l') \<Rightarrow> Inr (old, upd_pcb p (\<lambda>q. q\<lparr>fd_table := Some l'\<rparr>) s)))"

definition process_get_ppid :: "nat \<Rightarrow> 'v procs \<Rightarrow> u64 outcome" where
  "process_get_ppid p s = (case parent (pcbs s p) of None \<Rightarrow> Inl Undefined | Some q \<Rightarrow> Inr (pid (pcbs s q)))"

definition process_get_pid :: "nat \<Rightarrow> 'v procs \<Rightarrow> u64" where
  "process_get_pid p s = pid (pcbs s p)"

definition process_get_wd :: "nat \<Rightarrow> 'v procs \<Rightarrow> nat" where
  "process_get_wd p s = wd (pcbs s p)"

definition process_set_wd :: "nat \<Rightarrow> nat \<Rightarrow> 'v procs \<Rightarrow> 'v procs" where
  "process_set_wd h p s = upd_pcb p (\<lambda>q. q\<lparr>wd := h\<rparr>) s"

definition process_get_mem_top :: "nat \<Rightarrow> 'v procs \<Rightarrow> u64" where
  "process_get_mem_top p s = mem_top (pcbs s p)"

definition process_set_mem_top :: "u64 \<Rightarrow> nat \<Rightarrow> 'v procs \<Rightarrow> 'v procs" where
  "process_set_mem_top t p s = upd_pcb p (\<lambda>q. q\<lparr>mem_top := t\<rparr>) s"

definition process_get_cr3 :: "nat \<Rightarrow> 'v procs \<Rightarrow> u64" where
  "process_get_cr3 p s = cr3 (pcbs s p)"

definition process_set_cr3 :: "u64 \<Rightarrow> nat \<Rightarrow> 'v procs \<Rightarrow> 'v procs" where
  "process_set_cr3 c p s = upd_pcb p (\<lambda>q. q\<lparr>cr3 := c\<rparr>) s"

definition process_is_userland :: "nat \<Rightarrow> 'v procs \<Rightarrow> bool" where
  "process_is_userland p s \<longleftrightarrow> cr3 (pcbs s p) \<noteq> 0"

definition process_get_meta :: "u64 \<Rightarrow> bool" where
  "process_get_meta num \<longleftrightarrow> \<not> MAX_META < num"

subsection \<open>Switching\<close>

text \<open>What the processor runs with after \<^verbatim>\<open>process_resume_transfer\<close>.\<close>

record proc_data_t =
  kernel_rsp :: u64
  rsp0_lo :: u32
  rsp0_hi :: u32
  current_process :: nat
  cpu_cr3 :: u64
  cpu_fsbase :: u64

definition process_preempt_entry :: "regs_t \<Rightarrow> u64 \<Rightarrow> nat option \<Rightarrow> u64 \<Rightarrow> 'v procs \<Rightarrow> (run_result \<times> 'v procs) outcome" where
  "process_preempt_entry context cpu_fs current now s =
     scheduler_run current now
       (case current of None \<Rightarrow> s | Some p \<Rightarrow> upd_pcb p (\<lambda>q. q\<lparr>regs := context, fsbase := cpu_fs\<rparr>) s)"

definition process_resume_transfer :: "nat \<Rightarrow> 'v procs \<Rightarrow> proc_data_t" where
  "process_resume_transfer run s =
     \<lparr>kernel_rsp = ucast (k_rsp_lo (pcbs s run)) OR push_bit 32 (ucast (k_rsp_hi (pcbs s run))),
      rsp0_lo = k_rsp_lo (pcbs s run), rsp0_hi = k_rsp_hi (pcbs s run), current_process = run,
      cpu_cr3 = cr3 (pcbs s run), cpu_fsbase = fsbase (pcbs s run)\<rparr>"

subsection \<open>The tree of processes\<close>

definition ctab :: "'v procs \<Rightarrow> nat \<Rightarrow> nat hash_table_t" where
  "ctab s p = (case child_table (pcbs s p) of None \<Rightarrow> undefined | Some ct \<Rightarrow> tables s ! ct)"

text \<open>\<open>L\<close> are the user processes whose structure is allocated.  Each of them that is not a zombie has its own child
  table, which holds exactly its children under their pids; parents are alive; pids are distinct; the process that
  inherits orphans is alive and has no parent; no zombie waits for a signal.\<close>

definition ptree :: "nat set \<Rightarrow> 'v procs \<Rightarrow> bool" where
  "ptree L s \<longleftrightarrow>
     (\<forall>p \<in> L. \<not> is_zombie s p \<longrightarrow>
        (\<exists>ct. child_table (pcbs s p) = Some ct \<and> ct < length (tables s) \<and> ht_wf (tables s ! ct)))
     \<and> inj_on (\<lambda>p. child_table (pcbs s p)) {p \<in> L. \<not> is_zombie s p} \<and> inj_on (\<lambda>p. pid (pcbs s p)) L
     \<and> (\<forall>q \<in> L. \<not> is_zombie s q \<longrightarrow>
          (\<forall>k c. ht_map (ctab s q) k = Some c \<longleftrightarrow> c \<in> L \<and> parent (pcbs s c) = Some q \<and> pid (pcbs s c) = k))
     \<and> (\<forall>p \<in> L. \<forall>q. parent (pcbs s p) = Some q \<longrightarrow> q \<in> L \<and> \<not> is_zombie s q)
     \<and> (\<exists>i \<in> L. init_reaper_pcb s = Some i \<and> \<not> is_zombie s i \<and> parent (pcbs s i) = None)
     \<and> (\<forall>p \<in> L. p < next_pcb s \<and> pid (pcbs s p) < next_pid s)
     \<and> (\<forall>q \<in> set (concat (waits s)). \<not> is_zombie s q)"

text \<open>Two states with the same tree.\<close>

definition same_tree :: "'v procs \<Rightarrow> 'v procs \<Rightarrow> bool" where
  "same_tree s s' \<longleftrightarrow>
     (\<forall>p. child_table (pcbs s' p) = child_table (pcbs s p) \<and> parent (pcbs s' p) = parent (pcbs s p)
        \<and> pid (pcbs s' p) = pid (pcbs s p) \<and> is_zombie s' p = is_zombie s p)
     \<and> tables s' = tables s \<and> init_reaper_pcb s' = init_reaper_pcb s \<and> next_pcb s' = next_pcb s \<and> next_pid s' = next_pid s"

lemma ptree_same:
  assumes "ptree L s" "same_tree s s'" "\<forall>q \<in> set (concat (waits s')). \<not> is_zombie s q"
  shows "ptree L s'"
proof -
  have e: "child_table (pcbs s' p) = child_table (pcbs s p)" "parent (pcbs s' p) = parent (pcbs s p)"
    "pid (pcbs s' p) = pid (pcbs s p)" "is_zombie s' p = is_zombie s p" "tables s' = tables s"
    "init_reaper_pcb s' = init_reaper_pcb s" "next_pcb s' = next_pcb s" "next_pid s' = next_pid s" for p
    using assms(2) unfolding same_tree_def by blast+
  show ?thesis using assms(1,3) unfolding ptree_def ctab_def e by - (elim conjE, intro conjI; assumption)
qed

lemma set_concat_update:
  "q \<in> set (concat (ws[w := x])) \<Longrightarrow> q \<in> set x \<or> q \<in> set (concat (ws :: nat list list))"
  using set_update_subset_insert[of ws w x] by auto

lemma awake_same_tree:
  assumes "w < length (waits s)" "\<forall>q \<in> set (waits s ! w). \<not> is_zombie s q"
  shows "same_tree s (signal_awake_locked w l s) \<and> set (concat (waits (signal_awake_locked w l s))) \<subseteq> set (concat (waits s))"
proof -
  have f: "tables (awake_loop q t) = tables t" "init_reaper_pcb (awake_loop q t) = init_reaper_pcb t"
    "next_pcb (awake_loop q t) = next_pcb t" "next_pid (awake_loop q t) = next_pid t" for q and t :: "'a procs"
    by (induction q arbitrary: t) (simp_all add: scheduler_schedule_def)
  have z: "sched_cntr (pcbs s q) \<noteq> SCHED_ZOMBIE" if "q \<in> set (waits s ! w)" for q
    using assms(2) that by (simp add: is_zombie_def)
  have "same_tree s (signal_awake_locked w l s)"
    using z by (auto simp: same_tree_def signal_awake_locked_def f awake_loop_pcbs lock_release_def is_zombie_def
        split: option.splits)
  then show ?thesis using set_concat_update[of _ "waits s" w "[]"] by (auto simp: signal_awake_locked_def)
qed

lemma set_waits_nth: "w < length ws \<Longrightarrow> q \<in> set (ws ! w) \<Longrightarrow> q \<in> set (concat (ws :: nat list list))"
  by (metis UN_iff nth_mem set_concat)

lemma same_tree_trans: "same_tree s t \<Longrightarrow> same_tree t u \<Longrightarrow> same_tree s u"
  by (simp add: same_tree_def)

lemma same_tree_refl [simp]: "same_tree s s"
  by (simp add: same_tree_def)

lemma ptreeD:
  assumes "ptree L s"
  shows "p \<in> L \<Longrightarrow> \<not> is_zombie s p \<Longrightarrow> \<exists>ct. child_table (pcbs s p) = Some ct \<and> ct < length (tables s) \<and> ht_wf (tables s ! ct)"
    "p \<in> L \<Longrightarrow> q \<in> L \<Longrightarrow> \<not> is_zombie s p \<Longrightarrow> \<not> is_zombie s q \<Longrightarrow> child_table (pcbs s p) = child_table (pcbs s q) \<Longrightarrow> p = q"
    "p \<in> L \<Longrightarrow> q \<in> L \<Longrightarrow> pid (pcbs s p) = pid (pcbs s q) \<Longrightarrow> p = q"
    "q \<in> L \<Longrightarrow> \<not> is_zombie s q \<Longrightarrow>
       ht_map (ctab s q) k = Some c \<longleftrightarrow> c \<in> L \<and> parent (pcbs s c) = Some q \<and> pid (pcbs s c) = k"
    "p \<in> L \<Longrightarrow> parent (pcbs s p) = Some q \<Longrightarrow> q \<in> L \<and> \<not> is_zombie s q"
    "\<exists>i \<in> L. init_reaper_pcb s = Some i \<and> \<not> is_zombie s i \<and> parent (pcbs s i) = None"
    "p \<in> L \<Longrightarrow> p < next_pcb s" "p \<in> L \<Longrightarrow> pid (pcbs s p) < next_pid s"
    "\<forall>q \<in> set (concat (waits s)). \<not> is_zombie s q"
  using assms unfolding ptree_def inj_on_def by blast+

lemma ptreeI:
  assumes "\<And>p. p \<in> L \<Longrightarrow> \<not> is_zombie s p \<Longrightarrow> \<exists>ct. child_table (pcbs s p) = Some ct \<and> ct < length (tables s) \<and> ht_wf (tables s ! ct)"
    and "\<And>p q. p \<in> L \<Longrightarrow> q \<in> L \<Longrightarrow> \<not> is_zombie s p \<Longrightarrow> \<not> is_zombie s q \<Longrightarrow>
      child_table (pcbs s p) = child_table (pcbs s q) \<Longrightarrow> p = q"
    and "\<And>p q. p \<in> L \<Longrightarrow> q \<in> L \<Longrightarrow> pid (pcbs s p) = pid (pcbs s q) \<Longrightarrow> p = q"
    and "\<And>q k c. q \<in> L \<Longrightarrow> \<not> is_zombie s q \<Longrightarrow>
       ht_map (ctab s q) k = Some c \<longleftrightarrow> c \<in> L \<and> parent (pcbs s c) = Some q \<and> pid (pcbs s c) = k"
    and "\<And>p q. p \<in> L \<Longrightarrow> parent (pcbs s p) = Some q \<Longrightarrow> q \<in> L \<and> \<not> is_zombie s q"
    and "\<exists>i \<in> L. init_reaper_pcb s = Some i \<and> \<not> is_zombie s i \<and> parent (pcbs s i) = None"
    and "\<And>p. p \<in> L \<Longrightarrow> p < next_pcb s" "\<And>p. p \<in> L \<Longrightarrow> pid (pcbs s p) < next_pid s"
    and "\<forall>q \<in> set (concat (waits s)). \<not> is_zombie s q"
  shows "ptree L s"
  unfolding ptree_def inj_on_def
proof (intro conjI, goal_cases)
  case 1
  show ?case using assms(1) by blast
next
  case 2
  show ?case using assms(2) by blast
next
  case 3
  show ?case using assms(3) by blast
next
  case 4
  show ?case using assms(4) by blast
next
  case 5
  show ?case using assms(5) by blast
next
  case 6
  show ?case by (rule assms(6))
next
  case 7
  show ?case using assms(7,8) by blast
next
  case 8
  show ?case by (rule assms(9))
qed

subsection \<open>The scheduler leaves the tree alone\<close>

lemma pick_next_same_tree: "same_tree s (snd (pick_next now s)) \<and> waits (snd (pick_next now s)) = waits s"
  by (simp add: pick_next_def wake_loop_spec Let_def same_tree_def is_zombie_def split: list.splits)

lemma requeue_same_tree:
  assumes "requeue_current p s = Inr s'" "\<not> is_zombie s p" "waits_ok p s"
    "\<not> (sched_cntr (pcbs s p) = SCHED_CALLBACK \<and> callback (pcbs s p) = Execve_transfer)"
    "\<forall>q \<in> set (concat (waits s)). \<not> is_zombie s q"
  shows "same_tree s s' \<and> (\<forall>q \<in> set (concat (waits s')). q = p \<or> q \<in> set (concat (waits s)))"
proof (cases "sched_cntr (pcbs s p) = SCHED_KILL")
  case True
  let ?s = "s\<lparr>reap_queue := p # reap_queue s\<rparr>"
  have s': "s' = signal_awake_locked (reap_wait s) None ?s"
    using assms(1) True by (auto simp: requeue_current_def process_discard_def signal_awake_def split: if_splits)
  have "same_tree ?s s' \<and> set (concat (waits s')) \<subseteq> set (concat (waits ?s))"
    unfolding s' by (rule awake_same_tree) (use assms(3,5) set_waits_nth[of _ "waits s"] in \<open>auto simp: waits_ok_def is_zombie_def\<close>)
  moreover have "same_tree s ?s" by (simp add: same_tree_def is_zombie_def)
  ultimately show ?thesis using same_tree_trans by auto
next
  case False
  have cb: "same_tree s (signal_wait_callback p s)"
    "q \<in> set (concat (waits (signal_wait_callback p s))) \<Longrightarrow> q = p \<or> q \<in> set (concat (waits s))"
    if "meta_wait (pcbs s p) < length (waits s)" for q
  proof -
    show "same_tree s (signal_wait_callback p s)"
      by (simp add: signal_wait_callback_def same_tree_def is_zombie_def Let_def lock_release_def split: option.splits)
    assume "q \<in> set (concat (waits (signal_wait_callback p s)))"
    then show "q = p \<or> q \<in> set (concat (waits s))"
      using set_concat_update[of q "waits s"] set_waits_nth[OF that, of q]
      by (fastforce simp: signal_wait_callback_def Let_def)
  qed
  have "s' = (if sched_cntr (pcbs s p) = SCHED_CALLBACK then signal_wait_callback p s else s')"
    using assms(1,4) by (auto simp: requeue_current_def process_call_callback_def split: callback_t.splits)
  moreover have "sched_cntr (pcbs s p) \<noteq> SCHED_CALLBACK \<Longrightarrow> same_tree s s' \<and> waits s' = waits s"
    using assms(1,2) False by (auto simp: requeue_current_def scheduler_schedule_def same_tree_def is_zombie_def Let_def
        split: sched_cntr_t.splits if_splits)
  ultimately show ?thesis using cb assms(3,4) unfolding waits_ok_def
    by (metis (full_types) callback_t.exhaust)
qed

lemma scheduler_run_ptree:
  assumes "ptree L s" "scheduler_run (Some p) now s = Inr (r, s')" "p \<in> L" "\<not> is_zombie s p" "waits_ok p s"
    "\<not> (sched_cntr (pcbs s p) = SCHED_CALLBACK \<and> callback (pcbs s p) = Execve_transfer)"
  shows "ptree L s'"
proof (cases "sched_cntr (pcbs s p) = SCHED_SKIP")
  case True
  then show ?thesis using assms by (simp add: scheduler_run_def)
next
  case False
  then obtain s1 where s1: "requeue_current p s = Inr s1" "s' = snd (pick_next now s1)"
    using assms(2) by (auto simp: scheduler_run_def split: sum.splits)
  note R = requeue_same_tree[OF s1(1) assms(4-6) ptreeD(9)[OF assms(1)]] and P = pick_next_same_tree[of s1 now, folded s1(2)]
  have t: "same_tree s s'" using R P same_tree_trans by blast
  have w: "\<forall>q \<in> set (concat (waits s')). q = p \<or> q \<in> set (concat (waits s))" using R P by simp
  have "\<forall>q \<in> set (concat (waits s')). \<not> is_zombie s q" using w assms(4) ptreeD(9)[OF assms(1)] by metis
  then show ?thesis using ptree_same[OF assms(1) t] by blast
qed

subsection \<open>Fork, reaping and waiting keep the tree\<close>

lemma fork_ok:
  assumes "process_fork dup sr r11' rcx' rbp' ub (Some (va, pa)) space p s = Inr (k, s')"
  obtains t ct t' c old where
    "hash_table_alloc CHILD_BUCKETS = Inr t" "child_table (pcbs s p) = Some ct" "c = next_pcb s" "k = next_pid s"
    "hash_table_insert ((tables s @ [t]) ! ct) k c = Inr (old, t')"
    "tables s' = (tables s @ [t])[ct := t']" "waits s' = waits s @ [[]]" "next_pid s' = next_pid s + 1"
    "next_pcb s' = next_pcb s + 1" "init_reaper_pcb s' = init_reaper_pcb s" "active_queue s' = active_queue s @ [c]"
    "\<And>q. q \<noteq> c \<Longrightarrow> pcbs s' q = pcbs s q" "pid (pcbs s' c) = k" "parent (pcbs s' c) = Some p"
    "child_table (pcbs s' c) = Some (length (tables s))" "sched_cntr (pcbs s' c) = SCHED_READY"
  using assms
  by (fastforce simp: process_fork_def signal_wait_alloc_def process_assign_pid_def init_pcb_def scheduler_schedule_def Let_def
      split: option.splits sum.splits prod.splits)

lemma ctab_eq: "child_table (pcbs s q) = Some ct \<Longrightarrow> ctab s q = tables s ! ct"
  by (simp add: ctab_def)

lemma fork_ptree:
  assumes "ptree L s" "p \<in> L" "\<not> is_zombie s p" "next_pid s < next_pid s + 1"
    "process_fork dup sr r11' rcx' rbp' ub (Some (va, pa)) space p s = Inr (k, s')"
  shows "ptree (insert (next_pcb s) L) s'"
proof -
  note D = ptreeD[OF assms(1)]
  obtain t ct t' c old where f: "hash_table_alloc CHILD_BUCKETS = Inr t" "child_table (pcbs s p) = Some ct" "c = next_pcb s"
      "k = next_pid s" "hash_table_insert ((tables s @ [t]) ! ct) k c = Inr (old, t')"
      "tables s' = (tables s @ [t])[ct := t']" "waits s' = waits s @ [[]]" "next_pid s' = next_pid s + 1"
      "next_pcb s' = next_pcb s + 1" "init_reaper_pcb s' = init_reaper_pcb s"
      "\<And>q. q \<noteq> c \<Longrightarrow> pcbs s' q = pcbs s q" "pid (pcbs s' c) = k" "parent (pcbs s' c) = Some p"
      "child_table (pcbs s' c) = Some (length (tables s))" "sched_cntr (pcbs s' c) = SCHED_READY"
    using fork_ok[OF assms(5)] by metis
  have ct: "ct < length (tables s)" "ht_wf (tables s ! ct)" using D(1)[OF assms(2,3)] f(2) by auto
  have c: "c \<notin> L" using D(7)[of c] f(3) by blast
  have t: "ht_wf t" "ht_map t = Map.empty"
    using hash_table_alloc_ok[OF _ f(1)] by (simp_all add: CHILD_BUCKETS_def)
  have t': "ht_wf t'" "ht_map t' = (ht_map (tables s ! ct))(k \<mapsto> c)"
    using hash_table_insert_ok[OF ct(2), of k c] f(5) ct(1) by (auto simp: nth_append)
  have z: "is_zombie s' q \<longleftrightarrow> q \<noteq> c \<and> is_zombie s q" for q
    using f(11)[of q] f(15) by (cases "q = c") (auto simp: is_zombie_def)
  have tb: "ct' < length (tables s) \<Longrightarrow> tables s' ! ct' = (if ct' = ct then t' else tables s ! ct')"
    "tables s' ! length (tables s) = t" "length (tables s') = length (tables s) + 1" for ct'
    using ct(1) f(6) by (auto simp: nth_append nth_list_update)
  show ?thesis
  proof (rule ptreeI, unfold f(3)[symmetric])
    fix q assume q: "q \<in> insert c L" "\<not> is_zombie s' q"
    show "\<exists>ct. child_table (pcbs s' q) = Some ct \<and> ct < length (tables s') \<and> ht_wf (tables s' ! ct)"
    proof (cases "q = c")
      case True
      then show ?thesis using f(14) tb(2,3) t(1) by auto
    next
      case False
      then obtain ct' where "child_table (pcbs s q) = Some ct'" "ct' < length (tables s)" "ht_wf (tables s ! ct')"
        using D(1)[of q] q z[of q] by auto
      then show ?thesis using f(11)[OF False] tb(1)[of ct'] tb(3) t'(1) by auto
    qed
    fix k' c'
    show "ht_map (ctab s' q) k' = Some c' \<longleftrightarrow> c' \<in> insert c L \<and> parent (pcbs s' c') = Some q \<and> pid (pcbs s' c') = k'"
    proof (cases "q = c")
      case True
      then have "parent (pcbs s' c') \<noteq> Some q" if "c' \<in> insert c L"
        using that D(5)[of c'] f(11)[of c'] f(13) c assms(2) by (cases "c' = c") auto
      then show ?thesis using True t(2) tb(2) ctab_eq[OF f(14)] by auto
    next
      case False
      obtain ct' where ct': "child_table (pcbs s q) = Some ct'" "ct' < length (tables s)"
        using D(1)[of q] q z[of q] False by auto
      have "q \<in> L" "\<not> is_zombie s q" using q False z by auto
      note iff = D(4)[OF this, unfolded ctab_eq[OF ct'(1)]]
      have same: "ct' = ct \<longleftrightarrow> q = p" using D(2)[of q p] ct'(1) f(2) assms(2,3) \<open>q \<in> L\<close> \<open>\<not> is_zombie s q\<close> by auto
      have nk: "c'' \<in> L \<Longrightarrow> pid (pcbs s c'') \<noteq> k" for c'' using D(8)[of c''] f(4) by auto
      have cq: "ctab s' q = tables s' ! ct'" using ctab_eq[of s' q ct'] f(11)[OF False] ct'(1) by simp
      show ?thesis
      proof (cases "q = p")
        case True
        then have "ctab s' q = t'" using cq tb(1)[OF ct'(2)] same by simp
        then show ?thesis using iff[of k' c'] t'(2) same True f(11)[of c'] f(12,13) c nk[of c']
          by (cases "c' = c") (auto split: if_splits)
      next
        case False2: False
        then have "ctab s' q = tables s ! ct'" using cq tb(1)[OF ct'(2)] same by simp
        then show ?thesis using iff[of k' c'] f(11)[of c'] f(13) c False2 by (cases "c' = c") auto
      qed
    qed
  next
    fix q q' assume q: "q \<in> insert c L" "q' \<in> insert c L"
    { assume "\<not> is_zombie s' q" "\<not> is_zombie s' q'" "child_table (pcbs s' q) = child_table (pcbs s' q')"
      then show "q = q'" using q D(2)[of q q'] D(1)[of q] D(1)[of q'] z[of q] z[of q'] f(11)[of q] f(11)[of q'] f(14)
        by (cases "q = c"; cases "q' = c") auto }
    { assume "pid (pcbs s' q) = pid (pcbs s' q')"
      then show "q = q'" using q D(3)[of q q'] D(8)[of q] D(8)[of q'] f(4,12) f(11)[of q] f(11)[of q']
        by (cases "q = c"; cases "q' = c") auto }
  next
    fix q q' assume "q \<in> insert c L" "parent (pcbs s' q) = Some q'"
    then show "q' \<in> insert c L \<and> \<not> is_zombie s' q'"
      using D(5)[of q q'] f(11)[of q] f(13) z[of q'] assms(2,3) by (cases "q = c") auto
  next
    show "\<exists>i \<in> insert c L. init_reaper_pcb s' = Some i \<and> \<not> is_zombie s' i \<and> parent (pcbs s' i) = None"
      using D(6) f(10,11) z c by (metis insertCI)
  next
    fix q assume "q \<in> insert c L"
    then show "q < next_pcb s'" using D(7)[of q] f(3,9) by auto
    show "pid (pcbs s' q) < next_pid s'"
      using \<open>q \<in> insert c L\<close> D(8)[of q] f(4,8,12) f(11)[of q] assms(4) by (cases "q = c") auto
  next
    show "\<forall>q \<in> set (concat (waits s')). \<not> is_zombie s' q" using D(9) f(7) z by auto
  qed
qed

text \<open>Handing a list of children to the process that inherits orphans.\<close>

lemma orphan_fold:
  assumes "init_reaper_pcb s = Some i" "child_table (pcbs s i) = Some ct" "ct < length (tables s)" "ht_wf (tables s ! ct)"
    "i \<notin> set qs" "inj_on (\<lambda>c. pid (pcbs s c)) (set qs)" "distinct qs"
  shows "\<exists>t. fold orphan_children qs (Inr s) = Inr (s\<lparr>pcbs := (\<lambda>c. if c \<in> set qs then (pcbs s c)\<lparr>parent := Some i\<rparr> else pcbs s c),
              tables := (tables s)[ct := t]\<rparr>) \<and> ht_wf t
     \<and> (\<forall>k. ht_map t k = (case find (\<lambda>c. pid (pcbs s c) = k) qs of Some c \<Rightarrow> Some c | None \<Rightarrow> ht_map (tables s ! ct) k))"
  using assms
proof (induction qs arbitrary: s)
  case (Cons c qs)
  obtain old t1 where t1: "hash_table_insert (tables s ! ct) (pid (pcbs s c)) c = Inr (old, t1)" "ht_wf t1"
      "ht_map t1 = (ht_map (tables s ! ct))(pid (pcbs s c) \<mapsto> c)"
    using hash_table_insert_ok[OF Cons.prems(4), of "pid (pcbs s c)" c] by blast
  let ?s = "(upd_pcb c (\<lambda>q. q\<lparr>parent := Some i\<rparr>) s)\<lparr>tables := (tables s)[ct := t1]\<rparr>"
  have step: "orphan_children c (Inr s) = Inr ?s"
    using Cons.prems(1,2,5) t1(1) by (simp add: orphan_children_def Let_def)
  have pid: "pid (pcbs ?s q) = pid (pcbs s q)" for q by simp
  have tb: "tables ?s ! ct = t1" using Cons.prems(3) by simp
  have "\<exists>t. fold orphan_children qs (Inr ?s) = Inr (?s\<lparr>pcbs := (\<lambda>c. if c \<in> set qs then (pcbs ?s c)\<lparr>parent := Some i\<rparr> else pcbs ?s c),
              tables := (tables ?s)[ct := t]\<rparr>) \<and> ht_wf t
     \<and> (\<forall>k. ht_map t k = (case find (\<lambda>c. pid (pcbs ?s c) = k) qs of Some c \<Rightarrow> Some c | None \<Rightarrow> ht_map (tables ?s ! ct) k))"
  proof (rule Cons.IH, goal_cases)
    case 6
    show ?case unfolding pid using Cons.prems(6) by simp
  qed (use Cons.prems t1(2) in \<open>simp_all\<close>)
  then obtain t where t: "fold orphan_children qs (Inr ?s) = Inr (?s\<lparr>pcbs := (\<lambda>c. if c \<in> set qs then (pcbs ?s c)\<lparr>parent := Some i\<rparr> else pcbs ?s c),
              tables := (tables ?s)[ct := t]\<rparr>)" "ht_wf t"
     "\<forall>k. ht_map t k = (case find (\<lambda>c. pid (pcbs s c) = k) qs of Some c \<Rightarrow> Some c | None \<Rightarrow> ht_map t1 k)"
    unfolding pid tb by blast
  have none: "find (\<lambda>q. pid (pcbs s q) = pid (pcbs s c)) qs = None"
    using Cons.prems(6,7) by (auto simp: find_None_iff inj_on_def)
  have "ht_map t k = (case find (\<lambda>c. pid (pcbs s c) = k) (c # qs) of Some c \<Rightarrow> Some c | None \<Rightarrow> ht_map (tables s ! ct) k)" for k
    using t(3) t1(3) none by (auto split: option.split)
  moreover have "?s\<lparr>pcbs := (\<lambda>c. if c \<in> set qs then (pcbs ?s c)\<lparr>parent := Some i\<rparr> else pcbs ?s c), tables := (tables ?s)[ct := t]\<rparr>
      = s\<lparr>pcbs := (\<lambda>x. if x \<in> set (c # qs) then (pcbs s x)\<lparr>parent := Some i\<rparr> else pcbs s x), tables := (tables s)[ct := t]\<rparr>"
    using Cons.prems(7) by (auto simp: upd_pcb_def fun_eq_iff)
  ultimately show ?case using step t(1,2) by (intro exI[of _ t] conjI allI) (simp_all only: fold_Cons comp_apply)
next
  case Nil
  then show ?case by (intro exI[of _ "tables s ! ct"]) simp
qed

lemma find_unique:
  assumes "inj_on f (set qs)"
  shows "find (\<lambda>c. f c = k) qs = Some c \<longleftrightarrow> c \<in> set qs \<and> f c = k"
    "find (\<lambda>c. f c = k) qs = None \<longleftrightarrow> (\<forall>c \<in> set qs. f c \<noteq> k)"
proof -
  show "find (\<lambda>c. f c = k) qs = Some c \<longleftrightarrow> c \<in> set qs \<and> f c = k"
  proof
    assume "find (\<lambda>c. f c = k) qs = Some c"
    then show "c \<in> set qs \<and> f c = k" by (auto simp: find_Some_iff)
  next
    assume c: "c \<in> set qs \<and> f c = k"
    then obtain d where d: "find (\<lambda>c. f c = k) qs = Some d" by (cases "find (\<lambda>c. f c = k) qs") (auto simp: find_None_iff)
    then have "d \<in> set qs" "f d = k" by (auto simp: find_Some_iff)
    then show "find (\<lambda>c. f c = k) qs = Some c" using c d assms by (auto simp: inj_on_def)
  qed
qed (auto simp: find_None_iff)

lemma children_of_table:
  assumes "ptree L s" "p \<in> L" "\<not> is_zombie s p"
  defines "qs \<equiv> map snd (ht_entries (ctab s p))"
  shows "set qs = {c \<in> L. parent (pcbs s c) = Some p}" "distinct qs" "inj_on (\<lambda>c. pid (pcbs s c)) (set qs)"
proof -
  note D = ptreeD[OF assms(1)]
  obtain ct where "child_table (pcbs s p) = Some ct" "ht_wf (tables s ! ct)" using D(1)[OF assms(2,3)] by blast
  then have wf: "ht_wf (ctab s p)" by (simp add: ctab_eq)
  have dist: "distinct (map fst (ht_entries (ctab s p)))" by (rule ht_entries_distinct[OF wf])
  have mem: "(k, c) \<in> set (ht_entries (ctab s p)) \<longleftrightarrow> c \<in> L \<and> parent (pcbs s c) = Some p \<and> pid (pcbs s c) = k" for k c
    using D(4)[OF assms(2,3), of k c] dist by (simp add: ht_map_def map_of_eq_Some_iff)
  have "set qs = {c. \<exists>k. (k, c) \<in> set (ht_entries (ctab s p))}" by (force simp: qs_def)
  then show *: "set qs = {c \<in> L. parent (pcbs s c) = Some p}" by (simp add: mem)
  have "inj_on snd (set (ht_entries (ctab s p)))" by (auto simp: inj_on_def mem)
  then show "distinct qs" unfolding qs_def using dist by (simp add: distinct_map)
  show "inj_on (\<lambda>c. pid (pcbs s c)) (set qs)" using D(3) * by (auto simp: inj_on_def)
qed

text \<open>The tree after the children of \<open>p\<close> went to \<open>i\<close> and \<open>p\<close> became a zombie.\<close>

lemma reaped_ptree:
  fixes s s' :: "'v procs"
  assumes "ptree L s" "p \<in> L" "\<not> is_zombie s p" "i \<in> L" "\<not> is_zombie s i" "init_reaper_pcb s = Some i" "parent (pcbs s i) = None"
    "i \<noteq> p" "child_table (pcbs s i) = Some ct" "ct < length (tables s)" "ht_wf t" "p \<notin> set (concat (waits s))"
    and t: "\<And>k c. ht_map t k = Some c \<longleftrightarrow> (c \<in> L \<and> (parent (pcbs s c) = Some p \<or> parent (pcbs s c) = Some i) \<and> pid (pcbs s c) = k)"
    and s': "\<And>c. child_table (pcbs s' c) = child_table (pcbs s c)" "\<And>c. pid (pcbs s' c) = pid (pcbs s c)"
      "\<And>c. is_zombie s' c \<longleftrightarrow> c = p \<or> is_zombie s c"
      "\<And>c. c \<in> L \<Longrightarrow> parent (pcbs s' c) = (if parent (pcbs s c) = Some p then Some i else parent (pcbs s c))"
      "tables s' = (tables s)[ct := t]" "init_reaper_pcb s' = init_reaper_pcb s" "next_pcb s' = next_pcb s"
      "next_pid s' = next_pid s" "waits s' = waits s"
  shows "ptree L s'"
proof -
  note D = ptreeD[OF assms(1)]
  show ?thesis
  proof (rule ptreeI)
    fix q assume q: "q \<in> L" "\<not> is_zombie s' q"
    then have qz: "\<not> is_zombie s q" "q \<noteq> p" using s'(3) by auto
    obtain ct' where ct': "child_table (pcbs s q) = Some ct'" "ct' < length (tables s)" "ht_wf (tables s ! ct')"
      using D(1)[OF q(1) qz(1)] by blast
    then show "\<exists>ct. child_table (pcbs s' q) = Some ct \<and> ct < length (tables s') \<and> ht_wf (tables s' ! ct)"
      using s'(1,5) assms(10,11) by (cases "ct' = ct") auto
    fix k c
    have same: "ct' = ct \<longleftrightarrow> q = i" using D(2)[OF q(1) assms(4) qz(1) assms(5)] ct'(1) assms(9) by auto
    have ctq: "ctab s' q = (if q = i then t else tables s ! ct')"
      using ctab_eq[of s' q ct'] ct'(1,2) s'(1,5) same by auto
    show "ht_map (ctab s' q) k = Some c \<longleftrightarrow> c \<in> L \<and> parent (pcbs s' c) = Some q \<and> pid (pcbs s' c) = k"
      using t[of k c] D(4)[OF q(1) qz(1), of k c] ctab_eq[OF ct'(1)] ctq s'(2)[of c] s'(4)[of c] qz(2) assms(8) by auto
  next
    fix q q' assume "q \<in> L" "q' \<in> L" "\<not> is_zombie s' q" "\<not> is_zombie s' q'" "child_table (pcbs s' q) = child_table (pcbs s' q')"
    then show "q = q'" using D(2)[of q q'] s'(1,3) by auto
  next
    fix q q' assume "q \<in> L" "q' \<in> L" "pid (pcbs s' q) = pid (pcbs s' q')"
    then show "q = q'" using D(3)[of q q'] s'(2) by auto
  next
    fix q q' assume "q \<in> L" "parent (pcbs s' q) = Some q'"
    then show "q' \<in> L \<and> \<not> is_zombie s' q'"
      using D(5)[of q q'] s'(3)[of q'] s'(4)[of q] assms(4,5,8) by (auto split: if_splits)
  next
    show "\<exists>i \<in> L. init_reaper_pcb s' = Some i \<and> \<not> is_zombie s' i \<and> parent (pcbs s' i) = None"
      using assms(4-8) s'(3)[of i] s'(4)[of i] s'(6) by auto
  next
    fix q assume "q \<in> L"
    then show "q < next_pcb s'" "pid (pcbs s' q) < next_pid s'" using D(7,8) s'(2,7,8) by simp_all
  next
    show "\<forall>q \<in> set (concat (waits s')). \<not> is_zombie s' q" using D(9) assms(12) s'(3,9) by metis
  qed
qed

lemma reap_prepare_ptree:
  assumes "ptree L s" "p \<in> L" "\<not> is_zombie s p" "init_reaper_pcb s \<noteq> Some p" "p \<notin> set (concat (waits s))"
    "cr3 (pcbs s p) \<noteq> 0" "init_k_rsp_vaddr (pcbs s p) \<noteq> 0" "fd_table (pcbs s p) \<noteq> None"
    "monitor (pcbs s p) = Some w" "w < length (waits s)"
  shows "\<exists>s'. reap_prepare close p s = Inr s' \<and> ptree L s' \<and> is_zombie s' p \<and> \<not> plock (pcbs s' p)
     \<and> (\<forall>c. exit_code (pcbs s' c) = exit_code (pcbs s c) \<and> monitor (pcbs s' c) = monitor (pcbs s c) \<and> pid (pcbs s' c) = pid (pcbs s c))
     \<and> (\<forall>c \<in> L. parent (pcbs s' c) = (if parent (pcbs s c) = Some p then init_reaper_pcb s else parent (pcbs s c)))
     \<and> length (waits s') = length (waits s)"
proof -
  note D = ptreeD[OF assms(1)] and C = children_of_table[OF assms(1-3)]
  let ?qs = "map snd (ht_entries (ctab s p))"
  obtain ctp where ctp: "child_table (pcbs s p) = Some ctp" using D(1)[OF assms(2,3)] by blast
  obtain i where i: "i \<in> L" "init_reaper_pcb s = Some i" "\<not> is_zombie s i" "parent (pcbs s i) = None" using D(6) by blast
  obtain ct where ct: "child_table (pcbs s i) = Some ct" "ct < length (tables s)" "ht_wf (tables s ! ct)"
    using D(1)[OF i(1,3)] by blast
  obtain fds where fds: "fd_table (pcbs s p) = Some fds" using assms(8) by blast
  have ip: "i \<noteq> p" using assms(4) i(2) by auto
  let ?s0 = "s\<lparr>released := [Userspace (cr3 (pcbs s p)), Stack (init_k_rsp_vaddr (pcbs s p)) (init_k_rsp_paddr (pcbs s p))] @ released s,
      files := array_list_free fds (Some close) (close (wd (pcbs s p)) (files s))\<rparr>"
  have iq: "i \<notin> set ?qs" using C(1) i(4) by auto
  have e: "pcbs ?s0 = pcbs s" "tables ?s0 = tables s" "init_reaper_pcb ?s0 = Some i" using i(2) by simp_all
  obtain t where t: "fold orphan_children ?qs (Inr ?s0) = Inr (?s0\<lparr>pcbs := (\<lambda>c. if c \<in> set ?qs then (pcbs s c)\<lparr>parent := Some i\<rparr> else pcbs s c),
              tables := (tables s)[ct := t]\<rparr>)" "ht_wf t"
      "\<And>k. ht_map t k = (case find (\<lambda>c. pid (pcbs s c) = k) ?qs of Some c \<Rightarrow> Some c | None \<Rightarrow> ht_map (tables s ! ct) k)"
    using orphan_fold[of ?s0 i ct ?qs, unfolded e, OF refl ct iq C(3,2)] by blast
  let ?s1 = "?s0\<lparr>pcbs := (\<lambda>c. if c \<in> set ?qs then (pcbs s c)\<lparr>parent := Some i\<rparr> else pcbs s c), tables := (tables s)[ct := t]\<rparr>"
  define s2 where "s2 = upd_pcb p (\<lambda>q. q\<lparr>plock := True, sched_cntr := SCHED_ZOMBIE\<rparr>) ?s1"
  define Q where "Q = set ?qs"
  have eq: "reap_prepare close p s = Inr (signal_awake_locked w (Some p) s2)"
    using t(1) assms(6,7,9) fds ctp unfolding s2_def
    by (simp add: reap_prepare_def hash_table_free_def hash_table_clear_def fold_clear_chain ctab_eq[OF ctp] ht_entries_def Let_def)
  have s2: "pcbs s2 = (\<lambda>c. (if c = p then (\<lambda>q. q\<lparr>plock := True, sched_cntr := SCHED_ZOMBIE\<rparr>) else (\<lambda>q. q))
            (if c \<in> Q then (pcbs s c)\<lparr>parent := Some i\<rparr> else pcbs s c))"
    "tables s2 = (tables s)[ct := t]" "init_reaper_pcb s2 = init_reaper_pcb s" "next_pcb s2 = next_pcb s"
    "next_pid s2 = next_pid s" "waits s2 = waits s"
    unfolding s2_def Q_def by (simp_all add: fun_eq_iff)
  have ht: "ht_map t k = Some c \<longleftrightarrow> (c \<in> L \<and> (parent (pcbs s c) = Some p \<or> parent (pcbs s c) = Some i) \<and> pid (pcbs s c) = k)" for k c
  proof (cases "find (\<lambda>c. pid (pcbs s c) = k) ?qs")
    case None
    then have "\<forall>c \<in> set ?qs. pid (pcbs s c) \<noteq> k" using find_unique(2)[OF C(3)] by blast
    then have "c \<in> L \<Longrightarrow> parent (pcbs s c) = Some p \<Longrightarrow> pid (pcbs s c) \<noteq> k" unfolding C(1) by blast
    then show ?thesis using t(3)[of k] None D(4)[OF i(1,3), of k c] ctab_eq[OF ct(1)] by auto
  next
    case (Some d)
    then have "d \<in> L" "parent (pcbs s d) = Some p" "pid (pcbs s d) = k" using find_unique(1)[OF C(3), of k d] C(1) by auto
    then show ?thesis using t(3)[of k] Some D(3)[of c d] by auto
  qed
  have ch: "c \<in> set ?qs \<longleftrightarrow> c \<in> L \<and> parent (pcbs s c) = Some p" for c using C(1) by blast
  have z2: "is_zombie s2 c \<longleftrightarrow> c = p \<or> is_zombie s c" for c by (simp add: is_zombie_def s2)
  have chQ: "c \<in> Q \<longleftrightarrow> c \<in> L \<and> parent (pcbs s c) = Some p" for c unfolding Q_def by (rule ch)
  have "ptree L s2"
    by (rule reaped_ptree[OF assms(1-3) i(1,3,2,4) ip ct(1,2) t(2) assms(5) ht, of s2])
      (simp_all add: s2 z2 chQ)
  have nz: "\<forall>q \<in> set (concat (waits s)). \<not> is_zombie s2 q" using z2 D(9) assms(5) by metis
  have "\<forall>q \<in> set (waits s ! w). \<not> is_zombie s2 q" using nz set_waits_nth[OF assms(10)] by blast
  then have A: "same_tree s2 (signal_awake_locked w (Some p) s2)"
      "set (concat (waits (signal_awake_locked w (Some p) s2))) \<subseteq> set (concat (waits s2))"
    using awake_same_tree[of w s2 "Some p"] assms(10) unfolding s2(6) by blast+
  have "ptree L (signal_awake_locked w (Some p) s2)"
    by (rule ptree_same[OF \<open>ptree L s2\<close> A(1)]) (use A(2) nz s2(6) in auto)
  moreover have "pcbs (signal_awake_locked w (Some p) s2) c
     = (if c \<in> set (waits s ! w) then (\<lambda>q. q\<lparr>sched_cntr := SCHED_SIGNAL_READY\<rparr>) else (\<lambda>q. q))
         ((if c = p then (\<lambda>q. q\<lparr>plock := False\<rparr>) else (\<lambda>q. q)) (pcbs s2 c))" for c
    by (simp add: signal_awake_locked_def awake_loop_pcbs lock_release_def s2(6))
  moreover have "length (waits (signal_awake_locked w (Some p) s2)) = length (waits s)"
    by (simp add: signal_awake_locked_def s2)
  moreover have "p \<notin> set (waits s ! w)" using assms(5) set_waits_nth[OF assms(10)] by blast
  ultimately show ?thesis unfolding eq using i(2)
    by (intro exI[of _ "signal_awake_locked w (Some p) s2"] conjI allI ballI) (simp_all add: is_zombie_def s2 chQ)
qed

lemma ptree_freed: "ptree L s \<Longrightarrow> ptree L (s\<lparr>freed := x\<rparr>)"
proof (rule ptree_same)
  assume "ptree L s"
  then show "\<forall>q \<in> set (concat (waits (s\<lparr>freed := x\<rparr>))). \<not> is_zombie s q" using ptreeD(9) by simp
qed (simp_all add: same_tree_def is_zombie_def)

lemma reap_final_ptree:
  assumes "ptree L s" "c \<in> L" "is_zombie s c" "parent (pcbs s c) = Some q" "monitor (pcbs s c) = Some w" "w < length (waits s)"
  shows "\<exists>s'. reap_final c s = Inr s' \<and> ptree (L - {c}) s' \<and> freed s' = c # freed s"
proof -
  note D = ptreeD[OF assms(1)]
  have q: "q \<in> L" "\<not> is_zombie s q" using D(5)[OF assms(2,4)] by auto
  obtain ct where ct: "child_table (pcbs s q) = Some ct" "ct < length (tables s)" "ht_wf (tables s ! ct)" using D(1)[OF q] by blast
  obtain t where t: "hash_table_remove (tables s ! ct) (pid (pcbs s c)) = Inr (ht_map (tables s ! ct) (pid (pcbs s c)), t)"
      "ht_wf t" "ht_map t = (ht_map (tables s ! ct))(pid (pcbs s c) := None)"
    using hash_table_remove_ok[OF ct(3)] by blast
  define s1 where "s1 = s\<lparr>tables := (tables s)[ct := t]\<rparr>"
  have s1: "pcbs s1 = pcbs s" "waits s1 = waits s" "init_reaper_pcb s1 = init_reaper_pcb s" "next_pcb s1 = next_pcb s"
    "next_pid s1 = next_pid s" "tables s1 = (tables s)[ct := t]" "is_zombie s1 = is_zombie s"
    by (simp_all add: s1_def is_zombie_def fun_eq_iff)
  have "ptree (L - {c}) s1"
  proof (rule ptreeI, unfold s1)
    fix x assume x: "x \<in> L - {c}" "\<not> is_zombie s x"
    then have xL: "x \<in> L" by simp
    obtain ct' where ct': "child_table (pcbs s x) = Some ct'" "ct' < length (tables s)" "ht_wf (tables s ! ct')" using D(1)[OF xL x(2)] by blast
    then show "\<exists>ct'. child_table (pcbs s x) = Some ct' \<and> ct' < length ((tables s)[ct := t]) \<and> ht_wf ((tables s)[ct := t] ! ct')"
      using t(2) ct(2) by (cases "ct' = ct") auto
    fix k d
    have same: "ct' = ct \<longleftrightarrow> x = q" using D(2)[OF xL q(1) x(2) q(2)] ct'(1) ct(1) by auto
    have "ctab s1 x = (if x = q then t else tables s ! ct')"
      using ctab_eq[of s1 x ct'] ct'(1,2) same by (auto simp: s1)
    then show "ht_map (ctab s1 x) k = Some d \<longleftrightarrow> d \<in> L - {c} \<and> parent (pcbs s d) = Some x \<and> pid (pcbs s d) = k"
      using D(4)[OF xL x(2), of k d] ctab_eq[OF ct'(1)] t(3) D(3)[of d c] assms(2,4) same by auto
  next
    fix x y assume "x \<in> L - {c}" "parent (pcbs s x) = Some y"
    then show "y \<in> L - {c} \<and> \<not> is_zombie s y" using D(5)[of x y] assms(3) by auto
  next
    show "\<exists>i \<in> L - {c}. init_reaper_pcb s = Some i \<and> \<not> is_zombie s i \<and> parent (pcbs s i) = None" using D(6) assms(3) by blast
  qed (use D in auto)
  moreover have A: "same_tree s1 (signal_awake_locked w None s1)"
     "set (concat (waits (signal_awake_locked w None s1))) \<subseteq> set (concat (waits s1))"
    using awake_same_tree[of w s1 None] assms(6) D(9) set_waits_nth[OF assms(6)] unfolding s1 by blast+
  ultimately have "ptree (L - {c}) (signal_awake_locked w None s1)"
    using D(9) by (intro ptree_same[OF _ A(1)]) (auto simp: s1)
  then have "ptree (L - {c}) ((signal_free w s1)\<lparr>freed := c # freed (signal_free w s1)\<rparr>)"
    unfolding signal_free_def signal_awake_def by (rule ptree_freed)
  moreover have "freed (signal_free w s1) = freed s"
  proof -
    have "freed (awake_loop l u) = freed u" for l and u :: "'a procs"
      by (induction l arbitrary: u) (simp_all add: scheduler_schedule_def)
    then show ?thesis by (simp add: signal_free_def signal_awake_def signal_awake_locked_def lock_release_def s1_def)
  qed
  ultimately show ?thesis using t(1) ct(1) assms(4,5)
    by (intro exI[of _ "(signal_free w s1)\<lparr>freed := c # freed (signal_free w s1)\<rparr>"])
      (simp add: reap_final_def Let_def s1_def)
qed

lemma process_wait_pid_child:
  assumes "ptree L s" "p \<in> L" "\<not> is_zombie s p" "c \<in> L" "parent (pcbs s c) = Some p" "pid (pcbs s c) \<noteq> -1"
    "is_zombie s c" "monitor (pcbs s c) = Some w" "w < length (waits s)"
  shows "\<exists>s'. process_wait_pid (pid (pcbs s c)) nh p s = Inr (Wait_ok (pid (pcbs s c)) (exit_code (pcbs s c)) s')
     \<and> ptree (L - {c}) s' \<and> freed s' = c # freed s"
proof -
  note D = ptreeD[OF assms(1)]
  obtain ct where ct: "child_table (pcbs s p) = Some ct" "ht_wf (tables s ! ct)" using D(1)[OF assms(2,3)] by blast
  have "ht_map (ctab s p) (pid (pcbs s c)) = Some c" using D(4)[OF assms(2,3)] assms(4,5) by blast
  then have "hash_table_get (tables s ! ct) (pid (pcbs s c)) = Inr (Some c)"
    using hash_table_get_map[OF ct(2)] ctab_eq[OF ct(1)] by simp
  then show ?thesis using reap_final_ptree[OF assms(1,4,7,5,8,9)] ct(1) assms(6,7)
    by (auto simp: process_wait_pid_def wait_child_def process_reap_child_def is_zombie_def Let_def)
qed

lemma process_wait_pid_none:
  assumes "ptree L s" "p \<in> L" "\<not> is_zombie s p" "k \<noteq> -1"
  shows "process_wait_pid k nh p s = Inr Wait_fail \<longleftrightarrow> (\<forall>c \<in> L. parent (pcbs s c) = Some p \<longrightarrow> pid (pcbs s c) \<noteq> k)"
proof -
  note D = ptreeD[OF assms(1)]
  obtain ct where ct: "child_table (pcbs s p) = Some ct" "ht_wf (tables s ! ct)" using D(1)[OF assms(2,3)] by blast
  have g: "hash_table_get (tables s ! ct) k = Inr (ht_map (ctab s p) k)"
    using hash_table_get_map[OF ct(2)] ctab_eq[OF ct(1)] by simp
  have w: "wait_child k c p s \<noteq> Inr Wait_fail" for c
    by (simp add: wait_child_def split: sum.splits reaped.splits)
  show ?thesis
  proof (cases "ht_map (ctab s p) k")
    case None
    then show ?thesis using g ct(1) assms(4) D(4)[OF assms(2,3), of k] by (auto simp: process_wait_pid_def Let_def)
  next
    case (Some c)
    then have "c \<in> L \<and> parent (pcbs s c) = Some p \<and> pid (pcbs s c) = k" using D(4)[OF assms(2,3)] by blast
    then show ?thesis using g ct(1) assms(4) Some w by (auto simp: process_wait_pid_def Let_def)
  qed
qed

text \<open>The operations of the process manager as steps; \<open>L\<close> is the set of allocated user processes.\<close>

inductive proc_step :: "nat set \<times> 'v procs \<Rightarrow> nat set \<times> 'v procs \<Rightarrow> bool" where
  fork: "p \<in> L \<Longrightarrow> \<not> is_zombie s p \<Longrightarrow> next_pid s < next_pid s + 1 \<Longrightarrow>
    process_fork dup sr a b c ub (Some (va, pa)) space p s = Inr (k, s') \<Longrightarrow> proc_step (L, s) (insert (next_pcb s) L, s')"
| tick: "p \<in> L \<Longrightarrow> \<not> is_zombie s p \<Longrightarrow> waits_ok p s \<Longrightarrow>
    \<not> (sched_cntr (pcbs s p) = SCHED_CALLBACK \<and> callback (pcbs s p) = Execve_transfer) \<Longrightarrow>
    scheduler_run (Some p) now s = Inr (r, s') \<Longrightarrow> proc_step (L, s) (L, s')"
| exit: "p \<in> L \<Longrightarrow> \<not> is_zombie s p \<Longrightarrow> proc_step (L, s) (L, process_exit ec p s)"
| prepare: "p \<in> L \<Longrightarrow> \<not> is_zombie s p \<Longrightarrow> init_reaper_pcb s \<noteq> Some p \<Longrightarrow> p \<notin> set (concat (waits s)) \<Longrightarrow>
    cr3 (pcbs s p) \<noteq> 0 \<Longrightarrow> init_k_rsp_vaddr (pcbs s p) \<noteq> 0 \<Longrightarrow> fd_table (pcbs s p) \<noteq> None \<Longrightarrow>
    monitor (pcbs s p) = Some w \<Longrightarrow> w < length (waits s) \<Longrightarrow>
    reap_prepare close p s = Inr s' \<Longrightarrow> proc_step (L, s) (L, s')"
| reap: "c \<in> L \<Longrightarrow> parent (pcbs s c) = Some q \<Longrightarrow> monitor (pcbs s c) = Some w \<Longrightarrow> w < length (waits s) \<Longrightarrow>
    process_reap_child c p s = Inr (Reaped ec s') \<Longrightarrow> proc_step (L, s) (L - {c}, s')"

lemma process_exit_ptree:
  assumes "ptree L s" "\<not> is_zombie s p"
  shows "ptree L (process_exit ec p s)"
proof (rule ptree_same[OF assms(1)])
  show "same_tree s (process_exit ec p s)"
    using assms(2) by (auto simp: same_tree_def is_zombie_def process_exit_def process_kill_current_def)
  show "\<forall>q \<in> set (concat (waits (process_exit ec p s))). \<not> is_zombie s q"
    using ptreeD(9)[OF assms(1)] by (simp add: process_exit_def process_kill_current_def)
qed

lemma proc_step_ptree: "proc_step (L, s) (L', s') \<Longrightarrow> ptree L s \<Longrightarrow> ptree L' s'"
proof (induction "(L, s)" "(L', s')" rule: proc_step.induct)
  case fork
  then show ?case using fork_ptree by blast
next
  case tick
  then show ?case using scheduler_run_ptree by blast
next
  case exit
  then show ?case using process_exit_ptree by blast
next
  case (prepare p w close)
  then show ?case using reap_prepare_ptree[of L s p w close] by auto
next
  case (reap c q w p ec)
  then show ?case using reap_final_ptree[of L s c q w]
    by (auto simp: process_reap_child_def is_zombie_def split: if_splits sum.splits option.splits)
qed

lemma proc_steps_ptree: "proc_step\<^sup>*\<^sup>* x y \<Longrightarrow> ptree (fst x) (snd x) \<Longrightarrow> ptree (fst y) (snd y)"
proof (induction rule: rtranclp_induct)
  case (step y z)
  then show ?case using proc_step_ptree[of "fst y" "snd y" "fst z" "snd z"] by simp
qed

subsection \<open>Properties\<close>

text \<open>C5: the process tree.  In every run of forks, scheduler entries, exits, reaper passes and waits, each live process
  keeps its own table with exactly its children under distinct pids, orphans go to the first process, and a wait for
  a pid fails exactly when no child has it.\<close>

theorem process_tree_invariant:
  assumes "proc_step\<^sup>*\<^sup>* (L, s) (L', s')" "ptree L s"
  shows "ptree L' s' \<and> (\<forall>p \<in> L'. \<forall>k nh. \<not> is_zombie s' p \<and> k \<noteq> -1 \<longrightarrow>
    (process_wait_pid k nh p s' = Inr Wait_fail \<longleftrightarrow> (\<forall>c \<in> L'. parent (pcbs s' c) = Some p \<longrightarrow> pid (pcbs s' c) \<noteq> k)))"
proof -
  have "ptree L' s'" using proc_steps_ptree[OF assms(1)] assms(2) by simp
  then show ?thesis using process_wait_pid_none by blast
qed

text \<open>The first process alone, and it with one child.\<close>

definition init_table :: "(u64 \<times> nat) list \<Rightarrow> nat hash_table_t" where
  "init_table es = \<lparr>num_buckets = 4, num_elems = of_nat (length es), buckets = [[], [], es, []]\<rparr>"

definition user_pcb :: "u64 \<Rightarrow> nat \<Rightarrow> nat option \<Rightarrow> pcb_t" where
  "user_pcb k ct par = blank_pcb\<lparr>pid := k, cr3 := 0x1000, init_k_rsp_vaddr := 0x5000,
     fd_table := Some \<lparr>buffer = [], null = 0, cap = 0, growth = 8, count = 0, hint = 0\<rparr>, child_table := Some ct,
     parent := par, monitor := Some ct\<rparr>"

definition family :: "unit procs" where
  "family = (sample_procs [])\<lparr>pcbs := (\<lambda>p. if p = 5 then user_pcb 1 0 None else user_pcb 2 1 (Some 5)), waits := [[], [], []],
     reap_wait := 2, next_pcb := 9, init_reaper_pcb := Some 5, tables := [init_table [(2, 2)], init_table []]\<rparr>"

lemma family_ptree: "ptree {5, 2} family"
proof -
  have i: "ht_wf (init_table [(2, 2)])" "ht_wf (init_table [])" "ht_map (init_table [(2, 2)]) = [2 \<mapsto> 2]" "ht_map (init_table []) = Map.empty"
    by (simp_all add: init_table_def ht_wf_def ht_map_def ht_entries_def chain_ok_def All_less_Suc)
  have d: "is_zombie family p = False" "child_table (pcbs family p) = Some (if p = 5 then 0 else 1)"
    "parent (pcbs family p) = (if p = 5 then None else Some 5)" "pid (pcbs family p) = (if p = 5 then 1 else 2)"
    "tables family = [init_table [(2, 2)], init_table []]" "init_reaper_pcb family = Some 5" "waits family = [[], [], []]"
    "next_pcb family = 9" "next_pid family = 10" for p
    by (simp_all add: family_def user_pcb_def is_zombie_def sample_defs)
  have c: "ctab family p = (if p = 5 then init_table [(2, 2)] else init_table [])" for p
    using d(2)[of p] by (simp add: ctab_def d(5))
  show ?thesis
    by (rule ptreeI) (auto simp: d c i split: if_splits)
qed

theorem process_tree_invariant_witness:
  "ptree {5, 2} (process_exit 5 2 family) \<and> process_wait_pid 9 True 5 (process_exit 5 2 family) = Inr Wait_fail"
proof -
  have "proc_step\<^sup>*\<^sup>* ({5, 2}, family) ({5, 2}, process_exit 5 2 family)"
    by (rule r_into_rtranclp, rule exit) (simp_all add: family_def user_pcb_def is_zombie_def sample_defs)
  from process_tree_invariant[OF this family_ptree] show ?thesis
    by (auto simp: family_def user_pcb_def is_zombie_def process_exit_def process_kill_current_def sample_defs)
qed

lemma scheduler_run_kill:
  assumes "scheduler_run (Some p) now s = Inr (r, s')" "sched_cntr (pcbs s p) = SCHED_KILL"
  shows "pcbs s' c = (if c \<in> set (waits s ! reap_wait s) then (pcbs s c)\<lparr>sched_cntr := SCHED_SIGNAL_READY\<rparr> else pcbs s c)"
    "init_reaper_pcb s' = init_reaper_pcb s" "waits s' = (waits s)[reap_wait s := []]" "freed s' = freed s"
proof -
  have p: "pcbs (snd (pick_next now u)) = pcbs u" "init_reaper_pcb (snd (pick_next now u)) = init_reaper_pcb u"
    "waits (snd (pick_next now u)) = waits u" "freed (snd (pick_next now u)) = freed u" for u :: "'a procs"
    by (simp_all add: pick_next_def wake_loop_spec Let_def split: list.splits)
  have f: "init_reaper_pcb (awake_loop q u) = init_reaper_pcb u" "freed (awake_loop q u) = freed u" for q and u :: "'a procs"
    by (induction q arbitrary: u) (simp_all add: scheduler_schedule_def)
  have s': "s' = snd (pick_next now (signal_awake (reap_wait s) (s\<lparr>reap_queue := p # reap_queue s\<rparr>)))"
    using assms by (auto simp: scheduler_run_def requeue_current_def process_discard_def split: if_splits)
  show "pcbs s' c = (if c \<in> set (waits s ! reap_wait s) then (pcbs s c)\<lparr>sched_cntr := SCHED_SIGNAL_READY\<rparr> else pcbs s c)"
    "init_reaper_pcb s' = init_reaper_pcb s" "waits s' = (waits s)[reap_wait s := []]" "freed s' = freed s"
    unfolding s' by (simp_all add: p f signal_awake_def signal_awake_locked_def lock_release_def awake_loop_pcbs)
qed

text \<open>C39: an exit status never reaches the parent.  Whatever value a process exits with, after it has been taken off
  the processor and prepared by the reaper, its parent's wait succeeds and reports 0: \<^verbatim>\<open>process_exit\<close> stores the
  status and \<^verbatim>\<open>process_kill_current\<close> then overwrites it.  The wait releases the child.\<close>

theorem process_exit_status_lost:
  assumes "ptree L s" "c \<in> L" "\<not> is_zombie s c" "init_reaper_pcb s \<noteq> Some c" "c \<notin> set (concat (waits s))"
    "cr3 (pcbs s c) \<noteq> 0" "init_k_rsp_vaddr (pcbs s c) \<noteq> 0" "fd_table (pcbs s c) \<noteq> None"
    "monitor (pcbs s c) = Some w" "w < length (waits s)" "reap_wait s < length (waits s)"
    "parent (pcbs s c) = Some p" "p \<noteq> c" "pid (pcbs s c) \<noteq> -1"
    "scheduler_run (Some c) now (process_exit ec c s) = Inr (r, s2)"
  shows "\<exists>s3 s4. reap_prepare close c s2 = Inr s3
     \<and> process_wait_pid (pid (pcbs s c)) nh p s3 = Inr (Wait_ok (pid (pcbs s c)) 0 s4)
     \<and> ptree (L - {c}) s4 \<and> freed s4 = c # freed s3"
proof -
  let ?s1 = "process_exit ec c s"
  have 1: "ptree L ?s1" "sched_cntr (pcbs ?s1 c) = SCHED_KILL" "\<not> is_zombie ?s1 c" "waits ?s1 = waits s" "reap_wait ?s1 = reap_wait s"
    using process_exit_ptree[OF assms(1,3)] by (simp_all add: process_exit_def process_kill_current_def is_zombie_def)
  have ok: "waits_ok c ?s1" using assms(11) 1(2) by (simp add: waits_ok_def 1(4,5))
  have "ptree L s2" by (rule scheduler_run_ptree[OF 1(1) assms(15,2) 1(3) ok]) (simp add: 1(2))
  note K = scheduler_run_kill[OF assms(15) 1(2)]
  have cw: "c \<notin> set (waits s ! reap_wait s)" using assms(5) set_waits_nth[OF assms(11)] by blast
  have pc: "pcbs s2 c = (pcbs s c)\<lparr>exit_code := 0, sched_cntr := SCHED_KILL\<rparr>"
    using K(1)[of c] cw by (simp add: process_exit_def process_kill_current_def 1(4,5))
  have w2: "length (waits s2) = length (waits s)" "c \<notin> set (concat (waits s2))"
    using K(3) assms(5) set_concat_update[of c "waits s" "reap_wait s" "[]"] by (auto simp: 1(4,5))
  have i2: "init_reaper_pcb s2 \<noteq> Some c" using K(2) assms(4) by (simp add: process_exit_def process_kill_current_def)
  obtain s3 where s3: "reap_prepare close c s2 = Inr s3" "ptree L s3" "is_zombie s3 c"
      "exit_code (pcbs s3 c) = 0" "monitor (pcbs s3 c) = Some w" "pid (pcbs s3 c) = pid (pcbs s c)"
      "parent (pcbs s3 c) = Some p" "length (waits s3) = length (waits s)"
    using reap_prepare_ptree[OF \<open>ptree L s2\<close> assms(2) _ i2 w2(2), of w close] pc assms(2,6-10,12,13) w2(1)
    by (auto simp: is_zombie_def)
  have p: "p \<in> L" "\<not> is_zombie s3 p" using ptreeD(5)[OF s3(2) assms(2) s3(7)] by auto
  show ?thesis using process_wait_pid_child[OF s3(2) p assms(2) s3(7) _ s3(3,5), of nh] s3(1,4,6,8) assms(10,14)
    by auto
qed

theorem process_exit_status_lost_witness:
  "\<exists>r s2 s3 s4. scheduler_run (Some 2) 0 (process_exit 5 2 family) = Inr (r, s2) \<and> reap_prepare (\<lambda>_ f. f) 2 s2 = Inr s3
     \<and> process_wait_pid 2 True 5 s3 = Inr (Wait_ok 2 0 s4)"
proof -
  have d: "is_zombie family 2 = False" "pcbs family 2 = user_pcb 2 1 (Some 5)" "waits family = [[], [], []]" "reap_wait family = 2"
    "init_reaper_pcb family = Some 5" by (simp_all add: family_def user_pcb_def is_zombie_def sample_defs)
  have "\<exists>x. scheduler_run (Some 2) 0 (process_exit 5 2 family) = Inr x"
    by (simp add: scheduler_run_def requeue_current_def process_exit_def process_kill_current_def process_discard_def
        family_def user_pcb_def sample_defs)
  then obtain r s2 where r: "scheduler_run (Some 2) 0 (process_exit 5 2 family) = Inr (r, s2)" by auto
  show ?thesis
    using process_exit_status_lost[OF family_ptree, of 2 1 5 0 5 r s2 "\<lambda>_ f. f" True] r
    by (auto simp: d user_pcb_def blank_pcb_def)
qed

text \<open>The first process cannot replace its program.  The structure it is exchanged with carries pid 1 when it is
  discarded, and \<^verbatim>\<open>process_discard\<close> takes that for the end of the first process and panics.\<close>

lemma init_execve_panics:
  assumes "pid (pcbs s p) = 1" "sched_cntr (pcbs s p) = SCHED_CALLBACK" "callback (pcbs s p) = Execve_transfer"
  shows "scheduler_run (Some p) now s = Inl (Panic PANIC_STATE)"
  using assms by (simp add: scheduler_run_def requeue_current_def process_call_callback_def execve_transfer_def
      process_execve_def process_discard_def Let_def)

lemma split_rsp: "ucast (ucast (w AND 0xFFFFFFFF) :: u32) OR push_bit 32 (ucast (ucast (drop_bit 32 w) :: u32)) = (w :: u64)"
proof (rule bit_eqI)
  fix n assume "possible_bit TYPE(u64) n"
  then have n: "n < 64" by (simp add: possible_bit_def)
  have m: "(0xFFFFFFFF :: u64) = mask 32" by (simp add: mask_eq_exp_minus_1)
  show "bit (ucast (ucast (w AND 0xFFFFFFFF) :: u32) OR push_bit 32 (ucast (ucast (drop_bit 32 w) :: u32)) :: u64) n = bit w n"
    unfolding m using n by (auto simp: bit_or_iff bit_and_iff bit_mask_iff bit_push_bit_iff bit_drop_bit_eq bit_unsigned_iff)
qed

text \<open>C26: a fork gives the child a pid no live process has, a structure of its own at the end of the ready queue, the
  parent's link and an entry in the parent's table, and changes no other process; the child resumes on the top of its
  own kernel stack with the user's registers.\<close>

theorem process_fork_child:
  assumes "ptree L s" "p \<in> L" "\<not> is_zombie s p" "next_pid s < next_pid s + 1" "c = next_pcb s"
    "process_fork dup sr r11' rcx' rbp' ub (Some (va, pa)) space p s = Inr (k, s')"
  shows "(\<forall>q \<in> L. pid (pcbs s q) \<noteq> k) \<and> c \<notin> L \<and> ptree (insert c L) s' \<and> active_queue s' = active_queue s @ [c]
    \<and> (\<forall>q. q \<noteq> c \<longrightarrow> pcbs s' q = pcbs s q) \<and> pid (pcbs s' c) = k \<and> parent (pcbs s' c) = Some p \<and> cr3 (pcbs s' c) = space
    \<and> kernel_rsp (process_resume_transfer c s') = process_find_stack_top va
    \<and> rip (regs (pcbs s' c)) = sr \<and> rdi (regs (pcbs s' c)) = rcx' \<and> rsi (regs (pcbs s' c)) = r11'
    \<and> rdx (regs (pcbs s' c)) = rbp' + 8 \<and> rbp (regs (pcbs s' c)) = ub \<and> rcx (regs (pcbs s' c)) = 0"
proof -
  note D = ptreeD[OF assms(1)] and T = fork_ptree[OF assms(1-4,6), folded assms(5)]
  have k: "k = next_pid s" "c = next_pcb s" "active_queue s' = active_queue s @ [c]" "\<forall>q. q \<noteq> c \<longrightarrow> pcbs s' q = pcbs s q"
    "pid (pcbs s' c) = k" "parent (pcbs s' c) = Some p"
    using fork_ok[OF assms(6)] assms(5) by metis+
  have "cr3 (pcbs s' c) = space \<and> k_rsp_lo (pcbs s' c) = ucast (process_find_stack_top va AND 0xFFFFFFFF)
    \<and> k_rsp_hi (pcbs s' c) = ucast (drop_bit 32 (process_find_stack_top va))
    \<and> rip (regs (pcbs s' c)) = sr \<and> rdi (regs (pcbs s' c)) = rcx' \<and> rsi (regs (pcbs s' c)) = r11'
    \<and> rdx (regs (pcbs s' c)) = rbp' + 8 \<and> rbp (regs (pcbs s' c)) = ub \<and> rcx (regs (pcbs s' c)) = 0"
    using assms(6) unfolding k(2)
    by (auto simp: process_fork_def signal_wait_alloc_def process_assign_pid_def init_pcb_def scheduler_schedule_def Let_def
        split: option.splits sum.splits prod.splits)
  moreover have "\<forall>q \<in> L. pid (pcbs s q) \<noteq> k" using D(8) k(1) by fastforce
  moreover have "c \<notin> L" using D(7)[of c] k(2) by auto
  ultimately show ?thesis using T k by (simp add: process_resume_transfer_def split_rsp)
qed

theorem process_fork_child_witness:
  "\<exists>k s'. process_fork Pair 0x4000 1 2 0x7000 3 (Some (0x10000, 0x20000)) 0x3000 5 family = Inr (k, s')
     \<and> kernel_rsp (process_resume_transfer 9 s') = 0x15000 \<and> ptree {9, 5, 2} s' \<and> active_queue s' = [9]"
proof -
  have "\<exists>x. process_fork Pair 0x4000 1 2 0x7000 3 (Some (0x10000, 0x20000)) 0x3000 5 family = Inr x"
    by (simp add: process_fork_def family_def user_pcb_def sample_defs array_list_dup_def kmalloc_array_def adjusted_size_def
        INIT_BLOCK_SIZE_def ARENA_SIZE_def SIZEOF_ARENA_def SIZEOF_HEADER_def ALLOC_ALIGN_def hash_table_alloc_def
        CHILD_BUCKETS_def signal_wait_alloc_def process_assign_pid_def init_pcb_def scheduler_schedule_def
        hash_table_insert_def bucket_index_def init_table_def Let_def)
  then obtain k s' where f: "process_fork Pair 0x4000 1 2 0x7000 3 (Some (0x10000, 0x20000)) 0x3000 5 family = Inr (k, s')" by auto
  have "next_pcb family = 9" "active_queue family = []" "next_pid family = 10" "\<not> is_zombie family 5"
    by (simp_all add: family_def user_pcb_def is_zombie_def sample_defs)
  then show ?thesis using process_fork_child[OF family_ptree _ _ _ _ f, of 9] f by (simp add: process_find_stack_top_def)
qed

end
