(* ===== verification/Tty.thy ===== *)
theory Tty
  imports Prelude
begin

section \<open>The line discipline (kernel/devfs/tty.c)\<close>

text \<open>
  A terminal collects input bytes in a ring of \<open>0x4000\<close> bytes with four 16-bit indices: from
  \<^verbatim>\<open>read_index\<close> to \<^verbatim>\<open>ls_index\<close> stand the finished lines, from there to \<^verbatim>\<open>le_index\<close> the line being typed, in
  which \<^verbatim>\<open>write_index\<close> is the cursor.  \<open>echo\<close> is what has been sent to the writer and \<open>wakes\<close> counts the
  signals to waiting readers.  The ring is shown to implement a simple editor on byte lists
  (\<open>edit\<close>): finished bytes, the current line, and the cursor.
\<close>

definition TTY_RING_MASK :: u16 where "TTY_RING_MASK = 0x3FFF"
definition BS :: u8 where "BS = 0x08"
definition DEL :: u8 where "DEL = 0x7F"
definition ESC :: u8 where "ESC = 0x1B"
definition NL :: u8 where "NL = 0x0A"
definition CR :: u8 where "CR = 0x0D"
definition SP :: u8 where "SP = 0x20"
definition LBRACKET :: u8 where "LBRACKET = 0x5B"
definition CHR_C :: u8 where "CHR_C = 0x43"
definition CHR_D :: u8 where "CHR_D = 0x44"
definition MAX_CSI_LEN :: nat where "MAX_CSI_LEN = 32"

datatype tty_mode_t = TTY_MODE_COOKED | TTY_MODE_RAW

record tty_handle_t =
  read_buffer :: "u16 \<Rightarrow> u8"
  write_index :: u16
  read_index :: u16
  ls_index :: u16
  le_index :: u16
  tty_mode :: tty_mode_t
  f_esc :: bool
  f_csi :: bool
  csi :: bytes
  echo :: bytes
  wakes :: nat

abbreviation MASK :: "u16 \<Rightarrow> u16" where
  "MASK i \<equiv> i AND TTY_RING_MASK"

definition ring_empty :: "u16 \<Rightarrow> u16 \<Rightarrow> bool" where
  "ring_empty r w \<longleftrightarrow> r = w"

definition ring_full :: "u16 \<Rightarrow> u16 \<Rightarrow> bool" where
  "ring_full r w \<longleftrightarrow> MASK (w + 1) = r"

definition writer :: "bytes \<Rightarrow> tty_handle_t \<Rightarrow> tty_handle_t" where
  "writer bs t = t\<lparr>echo := echo t @ bs\<rparr>"

definition tty_init :: "(u16 \<Rightarrow> u8) \<Rightarrow> tty_handle_t" where
  "tty_init buf = \<lparr>read_buffer = buf, write_index = 0, read_index = 0, ls_index = 0, le_index = 0,
     tty_mode = TTY_MODE_COOKED, f_esc = False, f_csi = False, csi = [], echo = [], wakes = 0\<rparr>"

subsection \<open>Input\<close>

text \<open>The final byte of a control sequence: cursor right and left.\<close>

definition csi_final :: "u8 \<Rightarrow> tty_handle_t \<Rightarrow> tty_handle_t" where
  "csi_final byte t =
     (if byte = CHR_C
      then if write_index t \<noteq> le_index t
           then writer [ESC, LBRACKET, CHR_C] (t\<lparr>write_index := MASK (write_index t + 1)\<rparr>) else t
      else if byte = CHR_D
      then if write_index t \<noteq> ls_index t
           then writer [ESC, LBRACKET, CHR_D] (t\<lparr>write_index := MASK (write_index t - 1)\<rparr>) else t
      else t)"

definition csi_byte :: "u8 \<Rightarrow> tty_handle_t \<Rightarrow> u8 \<times> tty_handle_t" where
  "csi_byte byte t =
     (if length (csi t) = MAX_CSI_LEN then (0, t\<lparr>f_csi := False\<rparr>)
      else let t1 = t\<lparr>csi := csi t @ [byte]\<rparr>
           in (1, if byte \<ge> 0x40 \<and> byte < 0x80 then csi_final byte (t1\<lparr>f_csi := False\<rparr>) else t1))"

text \<open>The echo of an ordinary byte; the result is the byte as it is stored.\<close>

definition echo_back :: "u8 \<Rightarrow> tty_handle_t \<Rightarrow> u8 \<times> tty_handle_t" where
  "echo_back byte t =
     (if byte = BS \<or> byte = DEL
      then (BS, if ls_index t \<noteq> write_index t then writer [BS, SP, BS] t else t)
      else if byte = CR \<or> byte = NL then (NL, writer [CR, NL] t)
      else (byte, writer [byte] t))"

definition store_byte :: "u8 \<Rightarrow> tty_handle_t \<Rightarrow> u8 \<times> tty_handle_t" where
  "store_byte byte t =
     (if byte = BS
      then if ls_index t = write_index t then (0, t)
           else let w = MASK (write_index t - 1)
                in (1, t\<lparr>write_index := w, read_buffer := (read_buffer t)(w := SP)\<rparr>)
      else if byte = NL
      then let w = MASK (le_index t + 1)
           in (1, t\<lparr>read_buffer := (read_buffer t)(le_index t := NL), write_index := w, ls_index := w,
                    le_index := w, wakes := wakes t + 1\<rparr>)
      else (1, t\<lparr>read_buffer := (read_buffer t)(MASK (write_index t) := byte),
                 le_index := (if le_index t = write_index t then MASK (le_index t + 1) else le_index t),
                 write_index := MASK (write_index t + 1)\<rparr>))"

definition tty_queue_read :: "u8 \<Rightarrow> tty_handle_t \<Rightarrow> u8 \<times> tty_handle_t" where
  "tty_queue_read byte t =
     (if tty_mode t = TTY_MODE_COOKED
      then
        if byte = 0 \<or> ring_full (read_index t) (write_index t) then (0, t)
        else if byte = ESC then (1, t\<lparr>f_esc := True\<rparr>)
        else if byte = LBRACKET \<and> f_esc t then (1, t\<lparr>f_csi := True, csi := []\<rparr>)
        else if f_csi t then csi_byte byte t
        else
          let (byte', t1) = echo_back byte t;
              t2 = (if f_esc t1 \<and> byte' \<noteq> ESC then t1\<lparr>f_esc := False\<rparr> else t1)
          in store_byte byte' t2
      else (0, t))"

subsection \<open>Output and reading\<close>

definition tty_write :: "bytes \<Rightarrow> tty_handle_t \<Rightarrow> tty_handle_t" where
  "tty_write buf t = writer (concat (map (\<lambda>b. if b = NL then [CR, b] else [b]) buf)) t"

text \<open>The inner loop of \<^verbatim>\<open>tty_read\<close>, run with the lock held: the bytes delivered, the count that is left and
  the terminal.\<close>

fun read_ring :: "nat \<Rightarrow> tty_handle_t \<Rightarrow> bytes \<times> nat \<times> tty_handle_t" where
  "read_ring 0 t = ([], 0, t)"
| "read_ring (Suc n) t =
     (if ring_empty (read_index t) (ls_index t) then ([], Suc n, t)
      else
        let b = read_buffer t (MASK (read_index t));
            t1 = t\<lparr>read_index := MASK (read_index t + 1)\<rparr>
        in if b = NL \<and> tty_mode t = TTY_MODE_COOKED then ([b], 0, t1)
           else let (bs, k, t2) = read_ring n t1 in (b # bs, k, t2))"

text \<open>\<open>Read_wait\<close>: the ring is empty and the reader waits for a signal with this count left.\<close>

datatype read_result = Read_done bytes tty_handle_t | Read_wait bytes nat tty_handle_t

definition tty_read :: "nat \<Rightarrow> tty_handle_t \<Rightarrow> read_result" where
  "tty_read count t =
     (let (bs, k, t') = read_ring count t in if k = 0 then Read_done bs t' else Read_wait bs k t')"

subsection \<open>The editor behind the ring\<close>

record edit =
  finished :: bytes
  line :: bytes
  cursor :: nat

datatype edit_op = Ins u8 | Back | Enter | CursorRight | CursorLeft | Nop

text \<open>Typing overwrites; erasing leaves a space behind and moves the cursor only.\<close>

fun apply_edit :: "edit_op \<Rightarrow> edit \<Rightarrow> edit" where
  "apply_edit (Ins b) e =
     e\<lparr>line := (if cursor e = length (line e) then line e @ [b] else (line e)[cursor e := b]), cursor := cursor e + 1\<rparr>"
| "apply_edit Back e = (if cursor e = 0 then e else e\<lparr>line := (line e)[cursor e - 1 := SP], cursor := cursor e - 1\<rparr>)"
| "apply_edit Enter e = \<lparr>finished = finished e @ line e @ [NL], line = [], cursor = 0\<rparr>"
| "apply_edit CursorRight e = (if cursor e = length (line e) then e else e\<lparr>cursor := cursor e + 1\<rparr>)"
| "apply_edit CursorLeft e = (if cursor e = 0 then e else e\<lparr>cursor := cursor e - 1\<rparr>)"
| "apply_edit Nop e = e"

definition decode_byte :: "u8 \<Rightarrow> tty_handle_t \<Rightarrow> edit_op" where
  "decode_byte byte t =
     (if byte = 0 \<or> byte = ESC \<or> byte = LBRACKET \<and> f_esc t then Nop
      else if f_csi t
      then if length (csi t) = MAX_CSI_LEN then Nop
           else if byte = CHR_C then CursorRight else if byte = CHR_D then CursorLeft else Nop
      else if byte = BS \<or> byte = DEL then Back
      else if byte = CR \<or> byte = NL then Enter
      else Ins byte)"

definition tty_rel :: "tty_handle_t \<Rightarrow> edit \<Rightarrow> bool" where
  "tty_rel t e \<longleftrightarrow>
     (let r = unat (read_index t); n = length (finished e); m = length (line e)
      in r < 16384 \<and> n + m < 16384 \<and> cursor e \<le> m
         \<and> unat (ls_index t) = (r + n) mod 16384 \<and> unat (le_index t) = (r + n + m) mod 16384
         \<and> unat (write_index t) = (r + n + cursor e) mod 16384
         \<and> (\<forall>i < n + m. read_buffer t (of_nat ((r + i) mod 16384)) = (finished e @ line e) ! i))"

lemma unat_MASK: "unat (MASK x) = unat x mod 16384"
proof -
  have "MASK x = take_bit 14 x" by (simp add: TTY_RING_MASK_def take_bit_eq_mask mask_eq_exp_minus_1)
  then show ?thesis by (simp only: unsigned_take_bit_eq) (simp add: take_bit_eq_mod)
qed

lemma MASK_id: "unat x < 16384 \<Longrightarrow> MASK x = x"
  using unat_MASK[of x] by (metis mod_less unat_inject)

lemma ring_succ: "unat x < 16384 \<Longrightarrow> unat (MASK (x + 1)) = (unat x + 1) mod 16384"
  by (simp add: unat_MASK unat_word_ariths(1))

lemma ring_pred: "unat (x :: u16) = (k + 1) mod 16384 \<Longrightarrow> unat (MASK (x - 1)) = k mod 16384"
proof (cases "x = 0")
  case True
  assume "unat x = (k + 1) mod 16384"
  with True have "Suc k mod 16384 = 0" by simp
  then have "k mod 16384 = 16383" by (simp add: mod_Suc split: if_splits)
  then show ?thesis using True by (simp add: TTY_RING_MASK_def)
next
  case False
  assume "unat x = (k + 1) mod 16384"
  moreover have "unat x \<noteq> 0" using False by (simp add: unat_eq_0)
  moreover have "unat (x - 1) = unat x - 1" by (rule unat_minus_one[OF False])
  ultimately have "unat (x - 1) = (k + 1) mod 16384 - 1" "(k + 1) mod 16384 \<noteq> 0" by simp_all
  then show ?thesis by (simp add: unat_MASK mod_Suc split: if_splits)
qed

lemma ring_inj: "i < 16384 \<Longrightarrow> j < 16384 \<Longrightarrow> (r + i) mod 16384 = (r + j) mod (16384 :: nat) \<longleftrightarrow> i = j"
proof (induction i j rule: linorder_wlog)
  case (le i j)
  have "(r + j) mod 16384 = (r + i) mod 16384 \<longleftrightarrow> 16384 dvd (r + j) - (r + i)"
    using le(1) by (intro mod_eq_dvd_iff_nat) simp
  also have "\<dots> \<longleftrightarrow> i = j" using le by (auto dest!: dvd_imp_le)
  finally show ?case by auto
qed auto

lemma of_nat_ring: "x < 16384 \<Longrightarrow> (of_nat x :: u16) = w \<longleftrightarrow> x = unat w"
  by (auto simp: unat_of_nat)

lemma buffer_update:
  assumes "unat w = (r + k) mod 16384" "k < 16384" "i < 16384"
  shows "((f :: u16 \<Rightarrow> u8)(w := b)) (of_nat ((r + i) mod 16384)) = (if i = k then b else f (of_nat ((r + i) mod 16384)))"
  using ring_inj[OF assms(3,2), of r] assms(1) of_nat_ring[of "(r + i) mod 16384" w] by auto

lemma tty_relD:
  assumes "tty_rel t e"
  defines "r \<equiv> unat (read_index t)" and "n \<equiv> length (finished e)" and "m \<equiv> length (line e)"
  shows "r < 16384" "n + m < 16384" "cursor e \<le> m" "unat (ls_index t) = (r + n) mod 16384"
    "unat (le_index t) = (r + n + m) mod 16384" "unat (write_index t) = (r + n + cursor e) mod 16384"
    "i < n + m \<Longrightarrow> read_buffer t (of_nat ((r + i) mod 16384)) = (finished e @ line e) ! i"
  using assms unfolding tty_rel_def Let_def by blast+

lemma tty_rel_index_eq:
  assumes "tty_rel t e"
  shows "write_index t = ls_index t \<longleftrightarrow> cursor e = 0" "write_index t = le_index t \<longleftrightarrow> cursor e = length (line e)"
    "ring_full (read_index t) (write_index t) \<longleftrightarrow> length (finished e) + cursor e = 16383"
    "ring_empty (read_index t) (ls_index t) \<longleftrightarrow> finished e = []"
proof -
  note D = tty_relD[OF assms]
  let ?r = "unat (read_index t)" and ?n = "length (finished e)"
  have "unat (write_index t) = unat (ls_index t) \<longleftrightarrow> cursor e = 0"
    using ring_inj[of "?n + cursor e" ?n ?r] D(2,3,4,6) by (simp add: add.assoc)
  then show "write_index t = ls_index t \<longleftrightarrow> cursor e = 0" by simp
  have "unat (write_index t) = unat (le_index t) \<longleftrightarrow> cursor e = length (line e)"
    using ring_inj[of "?n + cursor e" "?n + length (line e)" ?r] D(2,3,5,6) by (simp add: add.assoc)
  then show "write_index t = le_index t \<longleftrightarrow> cursor e = length (line e)" by simp
  have "unat (MASK (write_index t + 1)) = (?r + (?n + cursor e + 1)) mod 16384"
    using ring_succ[of "write_index t"] D(6) by (simp add: mod_Suc_eq add.assoc)
  then have "unat (MASK (write_index t + 1)) = ?r \<longleftrightarrow> ?n + cursor e = 16383"
    using ring_inj[of "?n + cursor e + 1" 0 ?r] D(1,2,3) by (cases "?n + cursor e = 16383") auto
  then show "ring_full (read_index t) (write_index t) \<longleftrightarrow> ?n + cursor e = 16383"
    unfolding ring_full_def by (metis unat_inject)
  have "unat (ls_index t) = ?r \<longleftrightarrow> ?n = 0"
    using ring_inj[of ?n 0 ?r] D(1,2,4) by simp
  then show "ring_empty (read_index t) (ls_index t) \<longleftrightarrow> finished e = []"
    unfolding ring_empty_def by (metis length_0_conv unat_inject)
qed

text \<open>To show the relation it is enough to give the indices as distances from \<^verbatim>\<open>read_index\<close>.\<close>

lemma tty_relI:
  assumes "unat (read_index t) < 16384" "length (finished e) + length (line e) < 16384" "cursor e \<le> length (line e)"
    and "unat (ls_index t) = (unat (read_index t) + length (finished e)) mod 16384"
    and "unat (le_index t) = (unat (read_index t) + length (finished e) + length (line e)) mod 16384"
    and "unat (write_index t) = (unat (read_index t) + length (finished e) + cursor e) mod 16384"
    and "\<And>i. i < length (finished e) + length (line e) \<Longrightarrow>
      read_buffer t (of_nat ((unat (read_index t) + i) mod 16384)) = (finished e @ line e) ! i"
  shows "tty_rel t e"
  using assms unfolding tty_rel_def Let_def by blast

lemma tty_rel_cong:
  assumes "read_buffer t' = read_buffer t" "write_index t' = write_index t" "read_index t' = read_index t"
    "ls_index t' = ls_index t" "le_index t' = le_index t"
  shows "tty_rel t' e = tty_rel t e"
  unfolding tty_rel_def assms ..

lemma writer_frame [frame_simps, simp]:
  "read_buffer (writer bs t) = read_buffer t" "write_index (writer bs t) = write_index t"
  "read_index (writer bs t) = read_index t" "ls_index (writer bs t) = ls_index t" "le_index (writer bs t) = le_index t"
  "tty_mode (writer bs t) = tty_mode t" "f_esc (writer bs t) = f_esc t" "f_csi (writer bs t) = f_csi t"
  by (simp_all add: writer_def)

lemma tty_rel_writer [simp]: "tty_rel (writer bs t) e = tty_rel t e"
  by (rule tty_rel_cong) simp_all

lemma ring_succ': "unat x = k mod 16384 \<Longrightarrow> unat (MASK (x + 1)) = (k + 1) mod 16384"
  by (simp add: ring_succ mod_Suc_eq)

lemma csi_final_refines:
  assumes "tty_rel t e"
  shows "tty_rel (csi_final b t) (apply_edit (if b = CHR_C then CursorRight else if b = CHR_D then CursorLeft else Nop) e)"
proof -
  note D = tty_relD[OF assms] and I = tty_rel_index_eq[OF assms]
  have R: "tty_rel (t\<lparr>write_index := MASK (write_index t + 1)\<rparr>) (e\<lparr>cursor := cursor e + 1\<rparr>)"
    if "cursor e \<noteq> length (line e)"
    using D(1-5,7) that ring_succ'[OF D(6)] by (intro tty_relI) auto
  have L: "tty_rel (t\<lparr>write_index := MASK (write_index t - 1)\<rparr>) (e\<lparr>cursor := cursor e - 1\<rparr>)"
    if "cursor e \<noteq> 0"
    using D(1-5,7) that ring_pred[of "write_index t" "unat (read_index t) + length (finished e) + (cursor e - 1)"] D(6)
    by (intro tty_relI) auto
  have "CHR_C \<noteq> CHR_D" by (simp add: CHR_C_def CHR_D_def)
  then show ?thesis using R L assms I unfolding csi_final_def by auto
qed

lemma store_byte_refines:
  assumes "tty_rel t e" and "b = NL \<Longrightarrow> length (finished e) + length (line e) < 16383"
    and "\<not> ring_full (read_index t) (write_index t)"
  shows "tty_rel (snd (store_byte b t)) (apply_edit (if b = BS then Back else if b = NL then Enter else Ins b) e)"
proof -
  note D = tty_relD[OF assms(1)] and I = tty_rel_index_eq[OF assms(1)]
  let ?r = "unat (read_index t)" and ?n = "length (finished e)" and ?m = "length (line e)"
  have nl: "NL \<noteq> BS" by (simp add: NL_def BS_def)
  consider "b = BS" | "b = NL" | "b \<noteq> BS" "b \<noteq> NL" by blast
  then show ?thesis
  proof cases
    case 1
    show ?thesis
    proof (cases "cursor e = 0")
      case True
      then show ?thesis using 1 assms(1) I(1) by (simp add: store_byte_def)
    next
      case False
      let ?w = "MASK (write_index t - 1)"
      have w: "unat ?w = (?r + (?n + (cursor e - 1))) mod 16384"
        using ring_pred[of "write_index t" "?r + ?n + (cursor e - 1)"] D(6) False by (simp add: add.assoc)
      have "tty_rel (t\<lparr>write_index := ?w, read_buffer := (read_buffer t)(?w := SP)\<rparr>)
              (e\<lparr>line := (line e)[cursor e - 1 := SP], cursor := cursor e - 1\<rparr>)"
      proof (rule tty_relI, goal_cases)
        case (7 i)
        then show ?case using D(2,3) D(7)[of i] False buffer_update[OF w, of i "read_buffer t" SP]
          by (auto simp: nth_append nth_list_update)
      qed (use D w in \<open>simp_all add: add.assoc\<close>)
      moreover have "ls_index t \<noteq> write_index t" using I(1) False by auto
      ultimately show ?thesis using 1 False by (simp add: store_byte_def Let_def)
    qed
  next
    case 2
    let ?w = "MASK (le_index t + 1)"
    have le: "unat (le_index t) = (?r + (?n + ?m)) mod 16384" using D(5) by (simp add: add.assoc)
    have w: "unat ?w = (?r + (?n + ?m + 1)) mod 16384" using ring_succ'[OF le] by (simp add: add.assoc)
    have "tty_rel (t\<lparr>read_buffer := (read_buffer t)(le_index t := NL), write_index := ?w, ls_index := ?w,
             le_index := ?w, wakes := wakes t + 1\<rparr>) \<lparr>finished = finished e @ line e @ [NL], line = [], cursor = 0\<rparr>"
    proof (rule tty_relI, goal_cases)
      case (7 i)
      then show ?case using D(7)[of i] assms(2)[OF 2] buffer_update[OF le, of i "read_buffer t" NL]
        by (auto simp: nth_append)
    qed (use D w assms(2)[OF 2] in \<open>simp_all add: add.assoc\<close>)
    then show ?thesis using 2 nl by (simp add: store_byte_def Let_def)
  next
    case 3
    let ?c = "cursor e"
    have c: "?n + ?c < 16383" using I(3) assms(3) D(2,3) by linarith
    have w: "unat (write_index t) = (?r + (?n + ?c)) mod 16384" using D(6) by (simp add: add.assoc)
    have mw: "MASK (write_index t) = write_index t" using MASK_id[of "write_index t"] D(6) by simp
    have s: "unat (MASK (write_index t + 1)) = (?r + ?n + ?c + 1) mod 16384" using ring_succ'[OF D(6)] by simp
    have eq: "le_index t = write_index t \<longleftrightarrow> ?c = ?m" using I(2) by auto
    have "tty_rel (t\<lparr>read_buffer := (read_buffer t)(write_index t := b),
             le_index := (if le_index t = write_index t then MASK (le_index t + 1) else le_index t),
             write_index := MASK (write_index t + 1)\<rparr>) (apply_edit (Ins b) e)"
    proof (rule tty_relI, goal_cases)
      case (7 i)
      then show ?case using D(2,3) D(7)[of i] buffer_update[OF w, of i "read_buffer t" b]
        by (auto simp: nth_append nth_list_update split: if_splits)
    qed (use D s c eq in \<open>auto simp: add.assoc\<close>)
    then show ?thesis using 3 mw by (simp add: store_byte_def)
  qed
qed

lemma echo_back_spec:
  "fst (echo_back b t) = (if b = BS \<or> b = DEL then BS else if b = CR \<or> b = NL then NL else b)"
  "\<exists>bs. snd (echo_back b t) = writer bs t"
proof -
  have w: "writer [] t = t" by (simp add: writer_def)
  show "fst (echo_back b t) = (if b = BS \<or> b = DEL then BS else if b = CR \<or> b = NL then NL else b)"
    by (simp add: echo_back_def)
  show "\<exists>bs. snd (echo_back b t) = writer bs t"
    unfolding echo_back_def using w by (auto intro: exI[of _ "[]"])
qed

text \<open>An ordinary byte is echoed, clears the escape flag and is stored.\<close>

lemma tty_queue_read_stores:
  assumes "tty_mode t = TTY_MODE_COOKED" "b \<noteq> 0" "\<not> ring_full (read_index t) (write_index t)" "b \<noteq> ESC"
    "\<not> (b = LBRACKET \<and> f_esc t)" "\<not> f_csi t"
  shows "\<exists>t'. tty_queue_read b t = store_byte (if b = BS \<or> b = DEL then BS else if b = CR \<or> b = NL then NL else b) t'
            \<and> (\<forall>e. tty_rel t' e = tty_rel t e) \<and> read_index t' = read_index t \<and> write_index t' = write_index t
            \<and> tty_mode t' = tty_mode t \<and> \<not> f_csi t' \<and> (f_esc t' \<longrightarrow> f_esc t)"
proof -
  obtain bs where bs: "snd (echo_back b t) = writer bs t" using echo_back_spec(2) by blast
  obtain b' t1 where e: "echo_back b t = (b', t1)" by (cases "echo_back b t")
  have t1: "t1 = writer bs t" and b': "b' = (if b = BS \<or> b = DEL then BS else if b = CR \<or> b = NL then NL else b)"
    using bs e echo_back_spec(1)[of b t] by simp_all
  let ?t2 = "if f_esc t1 \<and> b' \<noteq> ESC then t1\<lparr>f_esc := False\<rparr> else t1"
  have "tty_queue_read b t = store_byte b' ?t2" using assms e by (auto simp: tty_queue_read_def)
  moreover have "tty_rel ?t2 e = tty_rel t e" for e
    by (rule tty_rel_cong) (simp_all add: t1)
  ultimately show ?thesis using assms(6) t1 b' by (intro exI[of _ ?t2]) auto
qed

lemma control_bytes_distinct [simp]:
  "BS \<noteq> NL" "BS \<noteq> ESC" "BS \<noteq> 0" "DEL \<noteq> NL" "DEL \<noteq> CR" "NL \<noteq> BS" "NL \<noteq> ESC" "NL \<noteq> 0" "NL \<noteq> LBRACKET" "NL \<noteq> DEL" "CR \<noteq> BS" "CR \<noteq> DEL"
  by (simp_all add: BS_def NL_def ESC_def DEL_def CR_def LBRACKET_def)

text \<open>C21: the ring implements the editor: while the ring has room, every byte accepted or refused by
  \<^verbatim>\<open>tty_queue_read\<close> changes the finished lines, the line being typed and the cursor exactly as the
  edit operation the byte stands for; indices wrap, older bytes are never overwritten.\<close>

theorem tty_queue_read_refines:
  assumes "tty_rel t e" "tty_mode t = TTY_MODE_COOKED" "\<not> ring_full (read_index t) (write_index t)"
    and "decode_byte b t = Enter \<Longrightarrow> length (finished e) + length (line e) < 16383"
  shows "tty_rel (snd (tty_queue_read b t)) (apply_edit (decode_byte b t) e)"
proof -
  consider "b = 0 \<or> b = ESC \<or> b = LBRACKET \<and> f_esc t"
    | "b \<noteq> 0" "b \<noteq> ESC" "\<not> (b = LBRACKET \<and> f_esc t)" "f_csi t"
    | "b \<noteq> 0" "b \<noteq> ESC" "\<not> (b = LBRACKET \<and> f_esc t)" "\<not> f_csi t" by blast
  then show ?thesis
  proof cases
    case 1
    then have "decode_byte b t = Nop" by (auto simp: decode_byte_def)
    moreover have "tty_rel (snd (tty_queue_read b t)) e = tty_rel t e"
      by (rule tty_rel_cong) (use 1 assms(2,3) in \<open>auto simp: tty_queue_read_def\<close>)
    ultimately show ?thesis using assms(1) by simp
  next
    case 2
    have eq: "tty_queue_read b t = csi_byte b t" using 2 assms(2,3) by (auto simp: tty_queue_read_def)
    have rel: "tty_rel (t\<lparr>csi := c, f_csi := f\<rparr>) e" "tty_rel (t\<lparr>csi := c\<rparr>) e" "tty_rel (t\<lparr>f_csi := f\<rparr>) e" for c f
      using assms(1) by (simp_all add: tty_rel_def)
    have "\<not> (0x40 \<le> b \<and> b < 0x80) \<Longrightarrow> b \<noteq> CHR_C \<and> b \<noteq> CHR_D" by (auto simp: CHR_C_def CHR_D_def)
    then show ?thesis unfolding eq using 2 rel csi_final_refines[OF rel(1), of b]
      by (auto simp: csi_byte_def decode_byte_def Let_def)
  next
    case 3
    then obtain t' where t': "tty_queue_read b t =
        store_byte (if b = BS \<or> b = DEL then BS else if b = CR \<or> b = NL then NL else b) t'"
      "tty_rel t' e" "read_index t' = read_index t" "write_index t' = write_index t"
      using tty_queue_read_stores[OF assms(2) _ assms(3)] assms(1) by metis
    let ?b = "if b = BS \<or> b = DEL then BS else if b = CR \<or> b = NL then NL else b"
    have d: "decode_byte b t = (if ?b = BS then Back else if ?b = NL then Enter else Ins ?b)"
      using 3 by (auto simp: decode_byte_def)
    have "tty_rel (snd (store_byte ?b t')) (apply_edit (if ?b = BS then Back else if ?b = NL then Enter else Ins ?b) e)"
      by (rule store_byte_refines[OF t'(2)]) (use assms(3,4) d t'(3,4) in \<open>auto split: if_splits\<close>)
    then show ?thesis using t'(1) d by simp
  qed
qed

theorem tty_queue_read_refines_witness:
  "tty_rel (snd (tty_queue_read 0x41 (tty_init (\<lambda>_. 0)))) \<lparr>finished = [], line = [0x41], cursor = 1\<rparr>"
  using tty_queue_read_refines[of "tty_init (\<lambda>_. 0)" "\<lparr>finished = [], line = [], cursor = 0\<rparr>" "0x41"]
  by (simp add: tty_init_def tty_rel_def ring_full_def decode_byte_def TTY_RING_MASK_def ESC_def LBRACKET_def BS_def
      DEL_def CR_def NL_def)

text \<open>Bytes that stand for themselves.\<close>

definition ordinary :: "u8 \<Rightarrow> bool" where
  "ordinary b \<longleftrightarrow> b \<notin> {0, ESC, BS, DEL, CR, NL}"

definition tty_type :: "bytes \<Rightarrow> tty_handle_t \<Rightarrow> tty_handle_t" where
  "tty_type bs t = fold (\<lambda>b t. snd (tty_queue_read b t)) bs t"

definition tty_idle :: "tty_handle_t \<Rightarrow> bool" where
  "tty_idle t \<longleftrightarrow> tty_mode t = TTY_MODE_COOKED \<and> \<not> f_esc t \<and> \<not> f_csi t"

lemma store_byte_frame [simp]:
  "tty_mode (snd (store_byte b t)) = tty_mode t" "f_esc (snd (store_byte b t)) = f_esc t"
  "f_csi (snd (store_byte b t)) = f_csi t" "read_index (snd (store_byte b t)) = read_index t"
  by (auto simp: store_byte_def Let_def)

lemma type_ordinary:
  assumes "tty_rel t e" "tty_idle t" "ordinary b" "cursor e = length (line e)"
    "length (finished e) + length (line e) < 16383"
  shows "tty_rel (snd (tty_queue_read b t)) (e\<lparr>line := line e @ [b], cursor := cursor e + 1\<rparr>)"
    "tty_idle (snd (tty_queue_read b t))" "fst (tty_queue_read b t) = 1"
proof -
  have nf: "\<not> ring_full (read_index t) (write_index t)" using tty_rel_index_eq(3)[OF assms(1)] assms(4,5) by simp
  have o: "b \<noteq> 0" "b \<noteq> ESC" "b \<noteq> BS" "b \<noteq> DEL" "b \<noteq> CR" "b \<noteq> NL" using assms(3) by (auto simp: ordinary_def)
  have i: "tty_mode t = TTY_MODE_COOKED" "\<not> f_esc t" "\<not> f_csi t" using assms(2) by (auto simp: tty_idle_def)
  obtain t' where t': "tty_queue_read b t = store_byte b t'" "\<And>e. tty_rel t' e = tty_rel t e"
      "read_index t' = read_index t" "write_index t' = write_index t" "tty_mode t' = tty_mode t" "\<not> f_csi t'" "\<not> f_esc t'"
    using tty_queue_read_stores[OF i(1) o(1) nf o(2)] i o by auto
  show "tty_rel (snd (tty_queue_read b t)) (e\<lparr>line := line e @ [b], cursor := cursor e + 1\<rparr>)"
    using store_byte_refines[of t' e b] t' assms(1,4) o nf by simp
  show "tty_idle (snd (tty_queue_read b t))" using t' i by (simp add: tty_idle_def)
  show "fst (tty_queue_read b t) = 1" using t'(1) o by (simp add: store_byte_def)
qed

lemma type_line:
  assumes "tty_rel t e" "tty_idle t" "list_all ordinary l" "cursor e = length (line e)"
    "length (finished e) + length (line e) + length l < 16384"
  shows "tty_rel (tty_type l t) (e\<lparr>line := line e @ l, cursor := cursor e + length l\<rparr>) \<and> tty_idle (tty_type l t)"
  using assms
proof (induction l arbitrary: t e)
  case (Cons b l)
  let ?e = "e\<lparr>line := line e @ [b], cursor := cursor e + 1\<rparr>"
  note T = type_ordinary[of t e b]
  show ?case using Cons.IH[of "snd (tty_queue_read b t)" ?e] T Cons.prems by (simp add: tty_type_def)
next
  case Nil
  then show ?case by (cases e) (simp add: tty_type_def)
qed

lemma type_newline:
  assumes "tty_rel t e" "tty_idle t" "length (finished e) + length (line e) < 16383"
  shows "tty_rel (snd (tty_queue_read NL t)) \<lparr>finished = finished e @ line e @ [NL], line = [], cursor = 0\<rparr>"
    "tty_idle (snd (tty_queue_read NL t))"
proof -
  have nf: "\<not> ring_full (read_index t) (write_index t)"
    using tty_rel_index_eq(3)[OF assms(1)] tty_relD(3)[OF assms(1)] assms(3) by linarith
  have i: "tty_mode t = TTY_MODE_COOKED" "\<not> f_esc t" "\<not> f_csi t" using assms(2) by (auto simp: tty_idle_def)
  obtain t' where t': "tty_queue_read NL t = store_byte NL t'" "\<And>e. tty_rel t' e = tty_rel t e"
      "read_index t' = read_index t" "write_index t' = write_index t" "tty_mode t' = tty_mode t" "\<not> f_csi t'" "\<not> f_esc t'"
    using tty_queue_read_stores[OF i(1) _ nf, of NL] i by auto
  show "tty_rel (snd (tty_queue_read NL t)) \<lparr>finished = finished e @ line e @ [NL], line = [], cursor = 0\<rparr>"
    using store_byte_refines[of t' e NL] t' assms nf by simp
  show "tty_idle (snd (tty_queue_read NL t))" using t' i by (simp add: tty_idle_def)
qed

text \<open>A read takes bytes off the front of the finished lines.\<close>

lemma read_one:
  assumes "tty_rel t e" "finished e = b # rest"
  shows "read_buffer t (MASK (read_index t)) = b"
    "tty_rel (t\<lparr>read_index := MASK (read_index t + 1)\<rparr>) (e\<lparr>finished := rest\<rparr>)"
proof -
  note D = tty_relD[OF assms(1)]
  have m: "MASK (read_index t) = read_index t" using D(1) by (rule MASK_id)
  have r: "of_nat (unat (read_index t)) = read_index t" by simp
  show "read_buffer t (MASK (read_index t)) = b" using D(7)[of 0] D(1) m assms(2) by simp
  have s: "unat (MASK (read_index t + 1)) = (unat (read_index t) + 1) mod 16384" using D(1) by (rule ring_succ)
  show "tty_rel (t\<lparr>read_index := MASK (read_index t + 1)\<rparr>) (e\<lparr>finished := rest\<rparr>)"
  proof (rule tty_relI, goal_cases)
    case (7 i)
    then show ?case using D(7)[of "Suc i"] s assms(2) by (simp add: mod_simps)
  qed (use D s assms(2) in \<open>simp_all add: add.assoc mod_simps\<close>)
qed

lemma read_ring_line:
  assumes "tty_rel t e" "tty_mode t = TTY_MODE_COOKED" "finished e = l @ NL # rest" "NL \<notin> set l" "length l < count"
  shows "\<exists>t'. read_ring count t = (l @ [NL], 0, t') \<and> tty_rel t' (e\<lparr>finished := rest\<rparr>) \<and> tty_mode t' = TTY_MODE_COOKED"
  using assms
proof (induction l arbitrary: t e count)
  case Nil
  obtain c where c: "count = Suc c" using Nil by (cases count) auto
  have ne: "\<not> ring_empty (read_index t) (ls_index t)" using tty_rel_index_eq(4)[OF Nil(1)] Nil(3) by simp
  show ?case using read_one[OF Nil(1), of NL rest] Nil(2,3) ne by (simp add: c Let_def)
next
  case (Cons b l)
  obtain c where c: "count = Suc c" using Cons.prems by (cases count) auto
  have ne: "\<not> ring_empty (read_index t) (ls_index t)" using tty_rel_index_eq(4)[OF Cons.prems(1)] Cons.prems(3) by simp
  have o: "read_buffer t (MASK (read_index t)) = b"
     "tty_rel (t\<lparr>read_index := MASK (read_index t + 1)\<rparr>) (e\<lparr>finished := l @ NL # rest\<rparr>)"
    using read_one[OF Cons.prems(1), of b] Cons.prems(3) by simp_all
  then obtain t' where "read_ring c (t\<lparr>read_index := MASK (read_index t + 1)\<rparr>) = (l @ [NL], 0, t')"
      "tty_rel t' (e\<lparr>finished := rest\<rparr>)" "tty_mode t' = TTY_MODE_COOKED"
    using Cons.IH[OF o(2), of c] Cons.prems c by auto
  then show ?case using o ne Cons.prems(4) by (auto simp: c Let_def)
qed

text \<open>What is typed is what is read: on an idle terminal with no unread input, a line of ordinary
  bytes that fits the ring, ended by a newline, is delivered by one \<^verbatim>\<open>tty_read\<close> of any larger count, newline
  included, whatever the ring held before and wherever its indices stand.\<close>

lemma type_read_line:
  assumes "tty_rel t \<lparr>finished = [], line = [], cursor = 0\<rparr>" "tty_idle t"
    and "list_all ordinary l" "length l < 16383" "length l < count"
  shows "\<exists>t'. tty_read count (tty_type (l @ [NL]) t) = Read_done (l @ [NL]) t'
           \<and> tty_rel t' \<lparr>finished = [], line = [], cursor = 0\<rparr>"
proof -
  let ?t1 = "tty_type l t"
  let ?t2 = "snd (tty_queue_read NL ?t1)"
  have 1: "tty_rel ?t1 \<lparr>finished = [], line = l, cursor = length l\<rparr>" "tty_idle ?t1"
    using type_line[OF assms(1-3)] assms(4) by simp_all
  have 2: "tty_rel ?t2 \<lparr>finished = l @ NL # [], line = [], cursor = 0\<rparr>" "tty_mode ?t2 = TTY_MODE_COOKED"
    using type_newline[OF 1] assms(4) by (simp_all add: tty_idle_def)
  have "NL \<notin> set l" using assms(3) by (auto simp: list_all_iff ordinary_def)
  then obtain t' where "read_ring count ?t2 = (l @ [NL], 0, t')" "tty_rel t' \<lparr>finished = [], line = [], cursor = 0\<rparr>"
    using read_ring_line[OF 2, of l "[]" count] assms(5) by auto
  then show ?thesis by (simp add: tty_read_def tty_type_def)
qed

text \<open>A line that fills the ring is stuck: after 16383 ordinary bytes without a newline
  \<^verbatim>\<open>tty_queue_read\<close> refuses every byte, newline and backspace included, so that the line can be neither ended
  nor shortened, and every reader waits.\<close>

lemma tty_full_line_stuck:
  assumes "tty_rel t \<lparr>finished = [], line = [], cursor = 0\<rparr>" "tty_idle t"
    and "list_all ordinary l" "length l = 16383" "0 < count"
  shows "tty_type (l @ bs) t = tty_type l t \<and> tty_read count (tty_type (l @ bs) t) = Read_wait [] count (tty_type l t)"
proof -
  let ?t = "tty_type l t"
  have r: "tty_rel ?t \<lparr>finished = [], line = l, cursor = length l\<rparr>" "tty_mode ?t = TTY_MODE_COOKED"
    using type_line[OF assms(1-3)] assms(4) by (simp_all add: tty_idle_def)
  have f: "ring_full (read_index ?t) (write_index ?t)" "ring_empty (read_index ?t) (ls_index ?t)"
    using tty_rel_index_eq(3,4)[OF r(1)] assms(4) by simp_all
  have "tty_type (l @ bs) t = tty_type bs ?t" by (simp add: tty_type_def)
  also have "\<dots> = ?t"
  proof (induction bs)
    case (Cons b bs)
    have "snd (tty_queue_read b ?t) = ?t" by (simp add: tty_queue_read_def r(2) f(1))
    then show ?case using Cons by (simp add: tty_type_def)
  qed (simp add: tty_type_def)
  finally show ?thesis using assms(5) f(2) by (cases count) (simp_all add: tty_read_def)
qed

end
