(* ===== verification/Semaphore.thy ===== *)
theory Semaphore
  imports Prelude
begin

section \<open>Semaphores (kernel/core/semaphore.c)\<close>

text \<open>
  A semaphore lets up to \<^verbatim>\<open>cap\<close> holders in together (\<^verbatim>\<open>semaphore_wait\<close> and \<^verbatim>\<open>semaphore_signal\<close>) or one alone
  (\<^verbatim>\<open>semaphore_wait_full\<close> and \<^verbatim>\<open>semaphore_signal_full\<close>); the file layer takes it as a lock of readers and writers.  The
  operations run on several processors at once, so each is a sequence of steps of one processor, from one memory access to
  the next: the control point \<open>sem_pc\<close> says where a processor stands, and a step function gives its next point and the
  memory, or nothing while it spins.  The lock is a spin lock: it is taken in one step when it is free.

  The increment and the decrement of \<^verbatim>\<open>rem\<close> load and store it.  The parameter \<open>whole\<close> says whether the two are one step, as
  when one processor runs all, or can be interleaved with the steps of others.
\<close>

subsection \<open>Model\<close>

record semaphore_t =
  rem :: u64
  scap :: u64
  slock :: bool

datatype sem_pc = Idle | WaitSpin | WaitLoad | WaitStore u64 | WaitUnlock | Shared | SigStore u64
  | FullSpin | FullStore | FullUnlock | Exclusive

definition SEMAPHORE_CAP_UNLIM :: u64 where "SEMAPHORE_CAP_UNLIM = - 1"

definition semaphore_alloc :: "u64 \<Rightarrow> semaphore_t" where
  "semaphore_alloc n = \<lparr>rem = n, scap = n, slock = False\<rparr>"

fun semaphore_wait :: "bool \<Rightarrow> sem_pc \<Rightarrow> semaphore_t \<Rightarrow> (sem_pc \<times> semaphore_t) option" where
  "semaphore_wait whole Idle s = (if slock s then None else Some (WaitSpin, s\<lparr>slock := True\<rparr>))"
| "semaphore_wait whole WaitSpin s = (if rem s = 0 then None else Some (WaitLoad, s))"
| "semaphore_wait whole WaitLoad s =
     (if whole then Some (WaitUnlock, s\<lparr>rem := rem s - 1\<rparr>) else Some (WaitStore (rem s), s))"
| "semaphore_wait whole (WaitStore r) s = Some (WaitUnlock, s\<lparr>rem := r - 1\<rparr>)"
| "semaphore_wait whole WaitUnlock s = Some (Shared, s\<lparr>slock := False\<rparr>)"
| "semaphore_wait whole _ s = None"

fun semaphore_signal :: "bool \<Rightarrow> sem_pc \<Rightarrow> semaphore_t \<Rightarrow> (sem_pc \<times> semaphore_t) option" where
  "semaphore_signal whole Shared s = (if whole then Some (Idle, s\<lparr>rem := rem s + 1\<rparr>) else Some (SigStore (rem s), s))"
| "semaphore_signal whole (SigStore r) s = Some (Idle, s\<lparr>rem := r + 1\<rparr>)"
| "semaphore_signal whole _ s = None"

fun semaphore_wait_full :: "sem_pc \<Rightarrow> semaphore_t \<Rightarrow> (sem_pc \<times> semaphore_t) option" where
  "semaphore_wait_full Idle s = (if slock s then None else Some (FullSpin, s\<lparr>slock := True\<rparr>))"
| "semaphore_wait_full FullSpin s = (if rem s \<noteq> scap s then None else Some (FullStore, s))"
| "semaphore_wait_full FullStore s = Some (FullUnlock, s\<lparr>rem := 0\<rparr>)"
| "semaphore_wait_full FullUnlock s = Some (Exclusive, s\<lparr>slock := False\<rparr>)"
| "semaphore_wait_full _ s = None"

fun semaphore_signal_full :: "sem_pc \<Rightarrow> semaphore_t \<Rightarrow> (sem_pc \<times> semaphore_t) option" where
  "semaphore_signal_full Exclusive s = Some (Idle, s\<lparr>rem := scap s\<rparr>)"
| "semaphore_signal_full _ s = None"

text \<open>Processors interleaved: the semaphore and the control point of each.\<close>

type_synonym sem_state = "semaphore_t \<times> sem_pc list"

inductive sem_step :: "bool \<Rightarrow> sem_state \<Rightarrow> sem_state \<Rightarrow> bool" for whole :: bool where
  step_wait: "i < length ps \<Longrightarrow> semaphore_wait whole (ps ! i) s = Some (c, s') \<Longrightarrow> sem_step whole (s, ps) (s', ps[i := c])"
| step_signal: "i < length ps \<Longrightarrow> semaphore_signal whole (ps ! i) s = Some (c, s') \<Longrightarrow> sem_step whole (s, ps) (s', ps[i := c])"
| step_wait_full: "i < length ps \<Longrightarrow> semaphore_wait_full (ps ! i) s = Some (c, s') \<Longrightarrow> sem_step whole (s, ps) (s', ps[i := c])"
| step_signal_full: "i < length ps \<Longrightarrow> semaphore_signal_full (ps ! i) s = Some (c, s') \<Longrightarrow> sem_step whole (s, ps) (s', ps[i := c])"

inductive_cases sem_stepE: "sem_step whole (s, ps) st"

definition sem_init :: "u64 \<Rightarrow> nat \<Rightarrow> sem_state" where
  "sem_init n k = (semaphore_alloc n, replicate k Idle)"

subsection \<open>Invariant\<close>

definition count_pc :: "(sem_pc \<Rightarrow> bool) \<Rightarrow> sem_pc list \<Rightarrow> nat" where
  "count_pc P ps = length (filter P ps)"

definition holds :: "sem_pc \<Rightarrow> bool" where "holds c \<longleftrightarrow> c = WaitUnlock \<or> c = Shared"
definition alone :: "sem_pc \<Rightarrow> bool" where "alone c \<longleftrightarrow> c = FullUnlock \<or> c = Exclusive"
definition locks :: "sem_pc \<Rightarrow> bool" where
  "locks c \<longleftrightarrow> c \<in> {WaitSpin, WaitLoad, WaitUnlock, FullSpin, FullStore, FullUnlock}"
definition halfway :: "sem_pc \<Rightarrow> bool" where
  "halfway c = (case c of WaitStore r \<Rightarrow> True | SigStore r \<Rightarrow> True | _ \<Rightarrow> False)"

definition sem_inv :: "sem_state \<Rightarrow> bool" where
  "sem_inv st = (case st of (s, ps) \<Rightarrow>
     scap s \<noteq> 0 \<and> count_pc locks ps = of_bool (slock s) \<and> count_pc halfway ps = 0 \<and> count_pc alone ps \<le> 1
     \<and> (if count_pc alone ps = 0 then unat (rem s) + count_pc holds ps = unat (scap s) else rem s = 0 \<and> count_pc holds ps = 0)
     \<and> (0 < count_pc ((=) WaitLoad) ps \<longrightarrow> rem s \<noteq> 0) \<and> (0 < count_pc ((=) FullStore) ps \<longrightarrow> rem s = scap s))"

lemma count_update:
  "i < length ps \<Longrightarrow> count_pc P (ps[i := c]) + of_bool (P (ps ! i)) = count_pc P ps + of_bool (P c)"
proof (induction ps arbitrary: i)
  case (Cons p ps) then show ?case by (cases i) (auto simp: count_pc_def)
qed simp

lemma count_mem: "i < length ps \<Longrightarrow> P (ps ! i) \<Longrightarrow> 0 < count_pc P ps"
  by (auto simp: count_pc_def filter_empty_conv)

lemma count_pos: "0 < count_pc P ps \<Longrightarrow> \<exists>i < length ps. P (ps ! i)"
  by (auto simp: count_pc_def filter_empty_conv in_set_conv_nth)

lemma mem_count: "c \<in> set ps \<Longrightarrow> P c \<Longrightarrow> 0 < count_pc P ps"
  by (auto simp: count_pc_def filter_empty_conv)

lemma count_two:
  "(\<And>c. P c \<Longrightarrow> R c \<and> \<not> Q c) \<Longrightarrow> (\<And>c. Q c \<Longrightarrow> R c) \<Longrightarrow> count_pc P ps + count_pc Q ps \<le> count_pc R ps"
  by (induction ps) (auto simp: count_pc_def)

lemma locked_one: "count_pc ((=) WaitLoad) ps + count_pc ((=) FullStore) ps \<le> count_pc locks ps"
  by (rule count_two) (auto simp: locks_def)

lemmas pc_defs = holds_def alone_def locks_def halfway_def

lemma pc_simps [simp]:
  "holds WaitUnlock" "holds Shared" "\<not> holds Idle" "\<not> holds WaitSpin" "\<not> holds WaitLoad" "\<not> holds FullSpin" "\<not> holds FullStore"
  "\<not> holds FullUnlock" "\<not> holds Exclusive"
  "alone FullUnlock" "alone Exclusive" "\<not> alone Idle" "\<not> alone WaitSpin" "\<not> alone WaitLoad" "\<not> alone WaitUnlock" "\<not> alone Shared"
  "\<not> alone FullSpin" "\<not> alone FullStore"
  "locks WaitSpin" "locks WaitLoad" "locks WaitUnlock" "locks FullSpin" "locks FullStore" "locks FullUnlock" "\<not> locks Idle"
  "\<not> locks Shared" "\<not> locks Exclusive"
  "halfway (WaitStore r)" "halfway (SigStore r)" "\<not> halfway Idle" "\<not> halfway WaitSpin" "\<not> halfway WaitLoad" "\<not> halfway WaitUnlock"
  "\<not> halfway Shared" "\<not> halfway FullSpin" "\<not> halfway FullStore" "\<not> halfway FullUnlock" "\<not> halfway Exclusive"
  by (simp_all add: pc_defs)

text \<open>The invariant on the counts alone: processors that hold the lock, hold a share, are alone, are about to take a share or
  about to take all.\<close>

definition sem_ok :: "semaphore_t \<Rightarrow> nat \<Rightarrow> nat \<Rightarrow> nat \<Rightarrow> nat \<Rightarrow> nat \<Rightarrow> nat \<Rightarrow> bool" where
  "sem_ok s l m a k w f \<longleftrightarrow> scap s \<noteq> 0 \<and> l = of_bool (slock s) \<and> m = 0 \<and> a \<le> 1
     \<and> (if a = 0 then unat (rem s) + k = unat (scap s) else rem s = 0 \<and> k = 0) \<and> (0 < w \<longrightarrow> rem s \<noteq> 0) \<and> (0 < f \<longrightarrow> rem s = scap s)"

lemma sem_inv_ok:
  "sem_inv (s, ps) \<longleftrightarrow> sem_ok s (count_pc locks ps) (count_pc halfway ps) (count_pc alone ps) (count_pc holds ps)
     (count_pc ((=) WaitLoad) ps) (count_pc ((=) FullStore) ps)"
  by (simp add: sem_inv_def sem_ok_def)

lemma unat_dec: "(x :: u64) \<noteq> 0 \<Longrightarrow> unat (x - 1) + 1 = unat x"
  by (simp add: unat_minus_one unat_gt_0)

lemma unat_inc: "unat (x :: u64) < unat (y :: u64) \<Longrightarrow> unat (x + 1) = unat x + 1"
proof -
  assume "unat x < unat y"
  moreover have "unat y < 2 ^ LENGTH(64)" by (rule unsigned_less)
  ultimately show ?thesis by (simp add: unat_word_ariths(1))
qed

lemma sem_ok_load:
  assumes "sem_ok s l m a k (w + 1) f" "w + 1 + f \<le> l"
  shows "sem_ok (s\<lparr>rem := rem s - 1\<rparr>) l m a (k + 1) w f"
proof -
  have r: "rem s \<noteq> 0" "a = 0" "l \<le> 1" using assms by (auto simp: sem_ok_def split: if_splits)
  moreover have "w = 0" "f = 0" using assms(2) r(3) by simp_all
  ultimately show ?thesis using assms(1) unat_dec[OF r(1)] by (auto simp: sem_ok_def)
qed

lemma sem_ok_signal:
  assumes "sem_ok s l m a (k + 1) w f"
  shows "sem_ok (s\<lparr>rem := rem s + 1\<rparr>) l m a k w f"
proof -
  have a: "a = 0" "unat (rem s) + (k + 1) = unat (scap s)" using assms by (auto simp: sem_ok_def split: if_splits)
  then have r: "unat (rem s + 1) = unat (rem s) + 1" using unat_inc[of "rem s" "scap s"] by simp
  then have "rem s + 1 \<noteq> 0" by (metis add_is_0 one_neq_zero unat_0)
  moreover have "f = 0" using assms a by (auto simp: sem_ok_def)
  ultimately show ?thesis using assms a r by (auto simp: sem_ok_def)
qed

lemma sem_ok_full:
  assumes "sem_ok s l m a k w (f + 1)" "w + (f + 1) \<le> l"
  shows "sem_ok (s\<lparr>rem := 0\<rparr>) l m (a + 1) k w f"
proof -
  have "rem s = scap s" "a = 0" "k = 0" "l \<le> 1" using assms by (auto simp: sem_ok_def split: if_splits)
  moreover from this have "w = 0" "f = 0" using assms(2) by simp_all
  ultimately show ?thesis using assms(1) by (auto simp: sem_ok_def)
qed

lemma sem_ok_signal_full:
  assumes "sem_ok s l m (a + 1) k w f"
  shows "sem_ok (s\<lparr>rem := scap s\<rparr>) l m a k w f"
  using assms by (auto simp: sem_ok_def split: if_splits)

lemma sem_ok_unlock:
  assumes "sem_ok s (l + 1) m a k w f"
  shows "sem_ok (s\<lparr>slock := False\<rparr>) l m a k w f"
  using assms by (cases "slock s") (auto simp: sem_ok_def split: if_splits)

text \<open>One step of one processor.\<close>

lemma sem_inv_step:
  assumes inv: "sem_inv (s, ps)" and i: "i < length ps" "ps ! i = c"
    and step: "semaphore_wait True c s = Some (c', s') \<or> semaphore_signal True c s = Some (c', s')
      \<or> semaphore_wait_full c s = Some (c', s') \<or> semaphore_signal_full c s = Some (c', s')"
  shows "sem_inv (s', ps[i := c'])"
proof -
  note U = count_update[OF i(1), of _ c', unfolded i(2)]
  note C = U[of locks] U[of halfway] U[of alone] U[of holds] U[of "(=) WaitLoad"] U[of "(=) FullStore"]
  have pos: "P c \<Longrightarrow> 0 < count_pc P ps" for P using count_mem[OF i(1)] i(2) by blast
  note L = locked_one[of ps] and I = inv[unfolded sem_inv_ok]
  show ?thesis
  proof (cases c)
    case WaitLoad
    then have "c' = WaitUnlock" "s' = s\<lparr>rem := rem s - 1\<rparr>" using step by auto
    then show ?thesis using sem_ok_load[of s _ _ _ _ "count_pc ((=) WaitLoad) (ps[i := c'])"] I L C WaitLoad by (simp add: sem_inv_ok)
  next
    case Shared
    then have "c' = Idle" "s' = s\<lparr>rem := rem s + 1\<rparr>" using step by auto
    then show ?thesis using sem_ok_signal[of s _ _ _ "count_pc holds (ps[i := c'])"] I C Shared by (simp add: sem_inv_ok)
  next
    case FullStore
    then have "c' = FullUnlock" "s' = s\<lparr>rem := 0\<rparr>" using step by auto
    then show ?thesis using sem_ok_full[of s _ _ _ _ _ "count_pc ((=) FullStore) (ps[i := c'])"] I L C FullStore by (simp add: sem_inv_ok)
  next
    case Exclusive
    then have "c' = Idle" "s' = s\<lparr>rem := scap s\<rparr>" using step by auto
    then show ?thesis using sem_ok_signal_full[of s _ _ "count_pc alone (ps[i := c'])"] I C Exclusive by (simp add: sem_inv_ok)
  next
    case Idle
    then have "\<not> slock s" "s' = s\<lparr>slock := True\<rparr>" "c' = WaitSpin \<or> c' = FullSpin" using step by (auto split: if_splits)
    then show ?thesis using I C Idle by (auto simp: sem_inv_ok sem_ok_def)
  next
    case WaitSpin
    then have "rem s \<noteq> 0" "s' = s" "c' = WaitLoad" using step by (auto split: if_splits)
    then show ?thesis using I C WaitSpin by (auto simp: sem_inv_ok sem_ok_def)
  next
    case FullSpin
    then have "rem s = scap s" "s' = s" "c' = FullStore" using step by (auto split: if_splits)
    then show ?thesis using I C FullSpin by (auto simp: sem_inv_ok sem_ok_def split: if_splits)
  next
    case WaitUnlock
    then have "s' = s\<lparr>slock := False\<rparr>" "c' = Shared" using step by auto
    then show ?thesis using sem_ok_unlock[of s "count_pc locks (ps[i := c'])"] I C WaitUnlock by (simp add: sem_inv_ok)
  next
    case FullUnlock
    then have "s' = s\<lparr>slock := False\<rparr>" "c' = Exclusive" using step by auto
    then show ?thesis using sem_ok_unlock[of s "count_pc locks (ps[i := c'])"] I C FullUnlock by (simp add: sem_inv_ok)
  qed (use pos[of halfway] I in \<open>auto simp: sem_ok_def\<close>)
qed

lemma sem_step_inv: "sem_step True st st' \<Longrightarrow> sem_inv st \<Longrightarrow> sem_inv st'"
  by (cases rule: sem_step.cases) (use sem_inv_step in \<open>blast+\<close>)

lemma sem_op_cap:
  "semaphore_wait w c s = Some (c', s') \<Longrightarrow> scap s' = scap s" "semaphore_signal w c s = Some (c', s') \<Longrightarrow> scap s' = scap s"
  "semaphore_wait_full c s = Some (c', s') \<Longrightarrow> scap s' = scap s" "semaphore_signal_full c s = Some (c', s') \<Longrightarrow> scap s' = scap s"
  by (cases c; auto split: if_splits)+

lemma sem_step_cap: "sem_step w st st' \<Longrightarrow> scap (fst st') = scap (fst st) \<and> length (snd st') = length (snd st)"
  by (cases rule: sem_step.cases) (auto dest: sem_op_cap)

lemma sem_init_inv: "n \<noteq> 0 \<Longrightarrow> sem_inv (sem_init n k)"
  by (simp add: sem_init_def semaphore_alloc_def sem_inv_def count_pc_def)

lemma sem_run_inv:
  assumes "(sem_step True)\<^sup>*\<^sup>* (sem_init n k) st" "n \<noteq> 0"
  shows "sem_inv st \<and> scap (fst st) = n \<and> length (snd st) = k"
  using assms(1)
proof (induction rule: rtranclp_induct)
  case base then show ?case using sem_init_inv[OF assms(2)] by (simp add: sem_init_def semaphore_alloc_def)
next
  case (step st st') then show ?case using sem_step_inv sem_step_cap by metis
qed

subsection \<open>Runs as lists of steps\<close>

datatype sem_op = Wait | Signal | WaitFull | SignalFull

fun sem_do :: "bool \<Rightarrow> sem_op \<Rightarrow> sem_pc \<Rightarrow> semaphore_t \<Rightarrow> (sem_pc \<times> semaphore_t) option" where
  "sem_do whole Wait c s = semaphore_wait whole c s"
| "sem_do whole Signal c s = semaphore_signal whole c s"
| "sem_do whole WaitFull c s = semaphore_wait_full c s"
| "sem_do whole SignalFull c s = semaphore_signal_full c s"

fun sem_exec :: "bool \<Rightarrow> (sem_op \<times> nat) list \<Rightarrow> sem_state \<Rightarrow> sem_state option" where
  "sem_exec whole [] st = Some st"
| "sem_exec whole ((f, i) # es) (s, ps) =
     (if i < length ps then case sem_do whole f (ps ! i) s of None \<Rightarrow> None | Some (c, s') \<Rightarrow> sem_exec whole es (s', ps[i := c]) else None)"

lemma sem_step_do: "sem_step whole (s, ps) st' \<longleftrightarrow> (\<exists>f i c s'. i < length ps \<and> sem_do whole f (ps ! i) s = Some (c, s') \<and> st' = (s', ps[i := c]))"
proof
  assume "sem_step whole (s, ps) st'"
  then show "\<exists>f i c s'. i < length ps \<and> sem_do whole f (ps ! i) s = Some (c, s') \<and> st' = (s', ps[i := c])"
    by (rule sem_stepE) (metis sem_do.simps)+
next
  assume "\<exists>f i c s'. i < length ps \<and> sem_do whole f (ps ! i) s = Some (c, s') \<and> st' = (s', ps[i := c])"
  then obtain f i c s' where "i < length ps" "sem_do whole f (ps ! i) s = Some (c, s')" "st' = (s', ps[i := c])" by blast
  then show "sem_step whole (s, ps) st'" by (cases f) (auto intro: sem_step.intros)
qed

lemma sem_exec_run: "sem_exec whole es st = Some st' \<Longrightarrow> (sem_step whole)\<^sup>*\<^sup>* st st'"
proof (induction whole es st rule: sem_exec.induct)
  case (2 whole f i es s ps)
  then obtain c s1 where d: "i < length ps" "sem_do whole f (ps ! i) s = Some (c, s1)" "sem_exec whole es (s1, ps[i := c]) = Some st'"
    by (auto split: if_splits option.splits)
  then have "sem_step whole (s, ps) (s1, ps[i := c])" unfolding sem_step_do by blast
  moreover have "(sem_step whole)\<^sup>*\<^sup>* (s1, ps[i := c]) st'" using 2(1)[OF d(1,2) refl d(3)] .
  ultimately show ?case by (rule converse_rtranclp_into_rtranclp)
qed simp

subsection \<open>Properties\<close>

text \<open>C23: readers and writers.  When the counter is changed in whole steps, in every run of any number of processors at most
  \<^verbatim>\<open>cap\<close> of them hold a share, at most one is alone, none holds a share while one is alone, and when all have left the
  semaphore is as it was allocated.  No run is stuck: while some processor is inside the operations or the semaphore, one that
  is can go on.\<close>

theorem semaphore_exclusion:
  assumes run: "(sem_step True)\<^sup>*\<^sup>* (sem_init n k) (s, ps)" and n: "n \<noteq> 0"
  shows "count_pc holds ps \<le> unat n \<and> count_pc alone ps \<le> 1 \<and> (0 < count_pc alone ps \<longrightarrow> count_pc holds ps = 0)
    \<and> (ps = replicate k Idle \<longrightarrow> s = semaphore_alloc n)
    \<and> ((\<exists>c \<in> set ps. c \<noteq> Idle) \<longrightarrow> (\<exists>f i r. i < length ps \<and> ps ! i \<noteq> Idle \<and> sem_do True f (ps ! i) s = Some r))"
proof -
  have I: "sem_inv (s, ps)" "scap s = n" "length ps = k" using sem_run_inv[OF assms] by auto
  have "s = semaphore_alloc n" if "ps = replicate k Idle"
    using I that by (simp add: sem_inv_def count_pc_def semaphore_alloc_def unsigned_word_eqI)
  moreover have "\<exists>f i r. i < length ps \<and> ps ! i \<noteq> Idle \<and> sem_do True f (ps ! i) s = Some r" if "\<exists>c \<in> set ps. c \<noteq> Idle"
  proof (rule ccontr)
    assume stuck: "\<not> ?thesis"
    have no: "sem_do True f c s = None" if "c \<in> set ps" "c \<noteq> Idle" for f c
      using stuck that by (metis in_set_conv_nth not_None_eq)
    have w: "c = Idle \<or> c = WaitSpin \<or> c = FullSpin" if "c \<in> set ps" for c
      using no[OF that, of Wait] no[OF that, of Signal] no[OF that, of WaitFull] no[OF that, of SignalFull] by (cases c) auto
    then have "count_pc holds ps = 0" "count_pc alone ps = 0" unfolding count_pc_def by (fastforce simp: filter_empty_conv)+
    then have "rem s = n" "n \<noteq> 0" using I n by (auto simp: sem_inv_def unsigned_word_eqI)
    moreover obtain c where c: "c \<in> set ps" "c \<noteq> Idle" using \<open>\<exists>c \<in> set ps. c \<noteq> Idle\<close> by blast
    ultimately show False using no[OF c, of Wait] no[OF c, of WaitFull] I(2) w[OF c(1)] by auto
  qed
  ultimately show ?thesis using I by (auto simp: sem_inv_def split: if_splits)
qed

theorem semaphore_exclusion_witness:
  "\<exists>s. (sem_step True)\<^sup>*\<^sup>* (sem_init 2 3) (s, [Shared, Shared, FullSpin]) \<and> count_pc holds [Shared, Shared, FullSpin] \<le> unat (2 :: u64)"
proof -
  let ?es = "[(Wait, 0), (Wait, 0), (Wait, 0), (Wait, 0), (Wait, 1), (Wait, 1), (Wait, 1), (Wait, 1), (WaitFull, 2)]"
  obtain s where "sem_exec True ?es (sem_init 2 3) = Some (s, [Shared, Shared, FullSpin])"
    by (simp add: sem_init_def semaphore_alloc_def numeral_2_eq_2 numeral_3_eq_3)
  from sem_exec_run[OF this] semaphore_exclusion[OF sem_exec_run[OF this]] show ?thesis by auto
qed

text \<open>C38: on several processors the counter is not protected.  \<^verbatim>\<open>semaphore_signal\<close> does not take the lock, so its load and store
  interleave with those of other processors.  With the semaphore of the file layer, three processors can reach a state in
  which one is alone while another holds a share, and one in which all have left and a processor that wants to be alone spins
  for ever with the lock held, so that nobody can enter again.\<close>

theorem semaphore_race:
  "(\<exists>s. (sem_step False)\<^sup>*\<^sup>* (sem_init SEMAPHORE_CAP_UNLIM 3) (s, [Idle, Shared, Exclusive]))
   \<and> (\<exists>s. (sem_step False)\<^sup>*\<^sup>* (sem_init SEMAPHORE_CAP_UNLIM 3) (s, [Idle, Idle, FullSpin])
        \<and> (\<forall>st. \<not> sem_step False (s, [Idle, Idle, FullSpin]) st))"
proof
  let ?w = "\<lambda>i. [(Wait, i), (Wait, i), (Wait, i), (Wait, i), (Wait, i)]"
  let ?es = "?w 0 @ (Signal, 0) # ?w 1 @ (Signal, 0) # [(WaitFull, 2), (WaitFull, 2), (WaitFull, 2), (WaitFull, 2)]"
  obtain s where "sem_exec False ?es (sem_init SEMAPHORE_CAP_UNLIM 3) = Some (s, [Idle, Shared, Exclusive])"
    by (simp add: sem_init_def semaphore_alloc_def SEMAPHORE_CAP_UNLIM_def numeral_2_eq_2 numeral_3_eq_3)
  then show "\<exists>s. (sem_step False)\<^sup>*\<^sup>* (sem_init SEMAPHORE_CAP_UNLIM 3) (s, [Idle, Shared, Exclusive])" using sem_exec_run by blast
  let ?fs = "?w 0 @ [(Wait, 1), (Wait, 1), (Wait, 1), (Signal, 0), (Signal, 0), (Wait, 1), (Wait, 1), (Signal, 1), (Signal, 1), (WaitFull, 2)]"
  obtain t where t: "sem_exec False ?fs (sem_init SEMAPHORE_CAP_UNLIM 3) = Some (t, [Idle, Idle, FullSpin])" "slock t" "rem t \<noteq> scap t"
    by (simp add: sem_init_def semaphore_alloc_def SEMAPHORE_CAP_UNLIM_def numeral_2_eq_2 numeral_3_eq_3)
  have "sem_do False f ([Idle, Idle, FullSpin] ! i) t = None" if "i < 3" for f i
    using t(2,3) that by (cases f; cases "i = 2"; auto simp: nth_Cons' less_Suc_eq numeral_3_eq_3)
  then have "\<forall>st. \<not> sem_step False (t, [Idle, Idle, FullSpin]) st" unfolding sem_step_do by fastforce
  then show "\<exists>s. (sem_step False)\<^sup>*\<^sup>* (sem_init SEMAPHORE_CAP_UNLIM 3) (s, [Idle, Idle, FullSpin])
      \<and> (\<forall>st. \<not> sem_step False (s, [Idle, Idle, FullSpin]) st)" using sem_exec_run[OF t(1)] by blast
qed

end
