(* ===== verification/Clock.thy ===== *)
theory Clock
  imports Prelude
begin

section \<open>Clock sources and time (kernel/core/clock_src.c, kernel/core/time.c)\<close>

text \<open>
  Clock sources register in a linked list and \<^verbatim>\<open>time_init\<close> takes one.  The list nodes live in a memory \<open>nodes\<close> by address,
  a freed node is absent, and reading an absent node is undefined.  The counter of a clock is read through the function
  pointer of its driver; what the \<open>n\<close>-th read of a run returns is the argument \<open>counter\<close>.  A time is the counter times the
  period in femtoseconds, in 64 bits.
\<close>

subsection \<open>Model\<close>

record clock_src_list_t =
  lclock :: nat
  lnext :: "nat option"

record clock_list =
  clocks :: "nat option"
  nodes :: "nat \<Rightarrow> clock_src_list_t option"
  fresh :: nat

definition clock_src_init :: clock_list where
  "clock_src_init = \<lparr>clocks = None, nodes = (\<lambda>_. None), fresh = 0\<rparr>"

definition clock_src_register :: "nat \<Rightarrow> clock_list \<Rightarrow> clock_list" where
  "clock_src_register c s =
     s\<lparr>clocks := Some (fresh s), nodes := (nodes s)(fresh s \<mapsto> \<lparr>lclock = c, lnext = clocks s\<rparr>), fresh := fresh s + 1\<rparr>"

definition clock_src_alloc :: "clock_list \<Rightarrow> (nat option \<times> clock_list) outcome" where
  "clock_src_alloc s =
     (case clocks s of
        None \<Rightarrow> Inr (None, s)
      | Some a \<Rightarrow>
          (case nodes s a of
             None \<Rightarrow> Inl Undefined
           | Some n \<Rightarrow>
               Inr (Some (lclock n),
                 s\<lparr>clocks := lnext n, nodes := (case lnext n of None \<Rightarrow> nodes s | Some b \<Rightarrow> (nodes s)(b := None))\<rparr>)))"

definition TIME_CONV_NS_TO_FS :: u64 where "TIME_CONV_NS_TO_FS = 1000000"
definition TIME_CONV_MS_TO_FS :: u64 where "TIME_CONV_MS_TO_FS = 1000000000000"

definition time_init :: "clock_list \<Rightarrow> (nat \<times> clock_list) outcome" where
  "time_init s =
     (case clock_src_alloc s of
        Inl e \<Rightarrow> Inl e
      | Inr (None, s') \<Rightarrow> Inl (Panic PANIC_STATE)
      | Inr (Some c, s') \<Rightarrow> Inr (c, s'))"

definition time_since_init_fs :: "u64 \<Rightarrow> (nat \<Rightarrow> u64) \<Rightarrow> nat \<Rightarrow> u64" where
  "time_since_init_fs period counter t = counter t * period"

definition time_since_init_ns :: "u64 \<Rightarrow> (nat \<Rightarrow> u64) \<Rightarrow> nat \<Rightarrow> u64" where
  "time_since_init_ns period counter t = counter t * period div TIME_CONV_NS_TO_FS"

partial_function (option) busy_loop :: "u64 \<Rightarrow> (nat \<Rightarrow> u64) \<Rightarrow> u64 \<Rightarrow> nat \<Rightarrow> (u64 \<times> nat) option" where
  "busy_loop period counter stop t =
     (if counter t * period < stop then busy_loop period counter stop (t + 1) else Some (counter t * period, t + 1))"

definition time_busy_wait :: "u64 \<Rightarrow> (nat \<Rightarrow> u64) \<Rightarrow> u64 \<Rightarrow> nat \<Rightarrow> (u64 \<times> nat) option" where
  "time_busy_wait period counter min_ns t =
     (let start = counter t * period; stop = start + min_ns * TIME_CONV_NS_TO_FS
      in map_option (\<lambda>(actual, t'). (actual - start, t')) (busy_loop period counter stop (t + 1)))"

text \<open>\<open>sleep\<close> is \<^verbatim>\<open>process_sleep\<close>: the read at which the process runs again.\<close>

definition time_sleep :: "u64 \<Rightarrow> (nat \<Rightarrow> u64) \<Rightarrow> (u64 \<Rightarrow> nat \<Rightarrow> nat) \<Rightarrow> u64 \<Rightarrow> nat \<Rightarrow> u64 \<times> nat" where
  "time_sleep period counter sleep min_ms t =
     (let start = counter t * period; stop = start + min_ms * TIME_CONV_MS_TO_FS; t' = sleep stop (t + 1)
      in (counter t' * period - start, t' + 1))"

subsection \<open>Properties\<close>

lemma busy_loop_ends:
  assumes "stop \<le> counter (t + n) * period"
  shows "\<exists>k \<le> n. busy_loop period counter stop t = Some (counter (t + k) * period, t + k + 1) \<and> stop \<le> counter (t + k) * period
    \<and> (\<forall>j < k. counter (t + j) * period < stop)"
  using assms
proof (induction n arbitrary: t)
  case 0
  then have "\<not> counter t * period < stop" by simp
  then show ?case using 0 by (subst busy_loop.simps) simp
next
  case (Suc n)
  show ?case
  proof (cases "counter t * period < stop")
    case True
    obtain k where "k \<le> n" "busy_loop period counter stop (t + 1) = Some (counter (t + 1 + k) * period, t + 1 + k + 1)"
      "stop \<le> counter (t + 1 + k) * period" "\<forall>j < k. counter (t + 1 + j) * period < stop"
      using Suc.IH[of "t + 1"] Suc.prems by auto
    then show ?thesis using True by (intro exI[of _ "Suc k"]) (subst busy_loop.simps, auto simp: less_Suc_eq_0_disj)
  next
    case False
    then show ?thesis by (intro exI[of _ 0]) (subst busy_loop.simps, simp)
  qed
qed

text \<open>\<^verbatim>\<open>time_busy_wait\<close> ends as soon as the clock has run for the time asked, and says how long it waited, at least that
  time.  The clock must reach it before the 64 bits of its femtoseconds are used up.\<close>

lemma time_busy_wait_waits:
  assumes "unat (counter t * period) + unat min_ns * 1000000 < 2 ^ 64"
    and "unat (counter t * period) + unat min_ns * 1000000 \<le> unat (counter (t + n + 1) * period)"
  shows "\<exists>r t'. time_busy_wait period counter min_ns t = Some (r, t') \<and> unat min_ns * 1000000 \<le> unat r \<and> t < t' \<and> t' \<le> t + n + 2"
proof -
  let ?start = "counter t * period"
  have "unat (min_ns * TIME_CONV_NS_TO_FS) = unat min_ns * 1000000"
    using assms(1) by (simp add: unat_word_ariths(2) TIME_CONV_NS_TO_FS_def)
  then have st: "unat (?start + min_ns * TIME_CONV_NS_TO_FS) = unat ?start + unat min_ns * 1000000"
    using assms(1) by (simp add: unat_word_ariths(1))
  then have "?start + min_ns * TIME_CONV_NS_TO_FS \<le> counter (t + 1 + n) * period" using assms(2) by (simp add: word_le_nat_alt)
  from busy_loop_ends[of "?start + min_ns * TIME_CONV_NS_TO_FS" counter "t + 1" n period, OF this] obtain k where k: "k \<le> n"
    "busy_loop period counter (?start + min_ns * TIME_CONV_NS_TO_FS) (t + 1) = Some (counter (t + 1 + k) * period, t + 1 + k + 1)"
    "?start + min_ns * TIME_CONV_NS_TO_FS \<le> counter (t + 1 + k) * period" by blast
  have ge: "unat ?start + unat min_ns * 1000000 \<le> unat (counter (t + 1 + k) * period)" using k(3) st by (simp add: word_le_nat_alt)
  then have "unat (counter (t + 1 + k) * period - ?start) = unat (counter (t + 1 + k) * period) - unat ?start"
    by (intro unat_sub) (simp add: word_le_nat_alt)
  then show ?thesis using k(1,2) ge by (simp add: time_busy_wait_def Let_def)
qed

text \<open>\<^verbatim>\<open>clock_src_alloc\<close> frees the node it moves to instead of the one it leaves.  With one clock registered it returns that
  clock and the list is empty; with two, the first call returns the clock registered last and the next call reads a freed
  node.\<close>

lemma clock_src_alloc_frees_next:
  "clock_src_alloc clock_src_init = Inr (None, clock_src_init)
   \<and> (\<exists>s. clock_src_alloc (clock_src_register a clock_src_init) = Inr (Some a, s) \<and> clocks s = None)
   \<and> (\<exists>s. clock_src_alloc (clock_src_register b (clock_src_register a clock_src_init)) = Inr (Some b, s) \<and> clock_src_alloc s = Inl Undefined)"
  by (simp add: clock_src_alloc_def clock_src_register_def clock_src_init_def)

end
