(* ===== verification/ByteFields.thy ===== *)
theory ByteFields
  imports Prelude
begin

section \<open>Fields of packed structures\<close>

text \<open>
  The drivers lay packed structures over byte buffers.  A buffer is a byte list; a member is read and written little-endian at
  its offset.  Writing a member changes that member and no other.
\<close>

definition SECTOR_SIZE :: nat where "SECTOR_SIZE = 512"

definition le_nat :: "bytes \<Rightarrow> nat" where
  "le_nat bs = horner_sum unat 256 bs"

definition field16 :: "bytes \<Rightarrow> nat \<Rightarrow> u16" where
  "field16 buf off = of_nat (le_nat (take 2 (drop off buf)))"

definition field32 :: "bytes \<Rightarrow> nat \<Rightarrow> u32" where
  "field32 buf off = of_nat (le_nat (take 4 (drop off buf)))"

definition field64 :: "bytes \<Rightarrow> nat \<Rightarrow> u64" where
  "field64 buf off = of_nat (le_nat (take 8 (drop off buf)))"

fun le_bytes :: "nat \<Rightarrow> nat \<Rightarrow> bytes" where
  "le_bytes 0 v = []"
| "le_bytes (Suc k) v = of_nat (v mod 256) # le_bytes k (v div 256)"

definition overlay :: "nat \<Rightarrow> bytes \<Rightarrow> bytes \<Rightarrow> bytes" where
  "overlay off bs buf = take off buf @ bs @ drop (off + length bs) buf"

definition put16 :: "nat \<Rightarrow> u16 \<Rightarrow> bytes \<Rightarrow> bytes" where
  "put16 off v buf = overlay off (le_bytes 2 (unat v)) buf"

definition put32 :: "nat \<Rightarrow> u32 \<Rightarrow> bytes \<Rightarrow> bytes" where
  "put32 off v buf = overlay off (le_bytes 4 (unat v)) buf"

definition put64 :: "nat \<Rightarrow> u64 \<Rightarrow> bytes \<Rightarrow> bytes" where
  "put64 off v buf = overlay off (le_bytes 8 (unat v)) buf"

lemma length_le_bytes [simp]: "length (le_bytes k v) = k"
  by (induction k arbitrary: v) auto

lemma le_bytes_0: "le_bytes k 0 = replicate k 0"
  by (induction k) auto

lemma le_nat_bytes: "le_nat (le_bytes k v) = v mod 256 ^ k"
proof (induction k arbitrary: v)
  case (Suc k)
  have "unat (of_nat (v mod 256) :: u8) = v mod 256" by (simp add: unat_of_nat take_bit_nat_eq_self)
  then show ?case using Suc[of "v div 256"] mod_mult2_eq[of v 256 "256 ^ k"] by (simp add: le_nat_def)
qed (simp add: le_nat_def)

lemma le_nat_word:
  assumes "LENGTH('a::len) = 8 * k"
  shows "of_nat (le_nat (le_bytes k (unat (v :: 'a word)))) = v"
proof -
  have "unat v < 2 ^ LENGTH('a)" by (rule unsigned_less)
  then have "unat v < 256 ^ k" unfolding assms by (simp add: power_mult)
  then show ?thesis by (simp add: le_nat_bytes)
qed

lemma le_bytes_nat: "length bs = k \<Longrightarrow> le_bytes k (le_nat bs) = bs \<and> le_nat bs < 256 ^ k"
proof (induction bs arbitrary: k)
  case (Cons b bs)
  then obtain j where j: "k = Suc j" "length bs = j" by (cases k) auto
  have b: "unat b < 256" using unsigned_less[of b] by simp
  have "le_nat (b # bs) = unat b + 256 * le_nat bs" by (simp add: le_nat_def)
  then show ?case using Cons.IH[OF j(2)] b j(1) by simp
qed (simp add: le_nat_def)

lemma field64_bytes: "off = length p \<Longrightarrow> field64 (p @ le_bytes 8 (unat v) @ q) off = v"
  by (simp add: field64_def le_nat_word)

lemma field32_bytes: "off = length p \<Longrightarrow> field32 (p @ le_bytes 4 (unat v) @ q) off = v"
  by (simp add: field32_def le_nat_word)

subsection \<open>Splicing\<close>

lemma length_overlay [simp]: "off + length bs \<le> length buf \<Longrightarrow> length (overlay off bs buf) = length buf"
  by (simp add: overlay_def)

lemma nth_overlay:
  assumes "off + length bs \<le> length buf" "i < length buf"
  shows "overlay off bs buf ! i = (if off \<le> i \<and> i < off + length bs then bs ! (i - off) else buf ! i)"
  using assms by (auto simp: overlay_def nth_append min_def)

lemma take_drop_eqI:
  assumes "length a = length b" "\<And>i. off \<le> i \<Longrightarrow> i < off + k \<Longrightarrow> i < length a \<Longrightarrow> a ! i = b ! i"
  shows "take k (drop off a) = take k (drop off b)"
proof (rule nth_equalityI)
  fix i assume "i < length (take k (drop off a))"
  then have "i < k" "off + i < length a" by auto
  then show "take k (drop off a) ! i = take k (drop off b) ! i" using assms(1) assms(2)[of "off + i"] by simp
qed (simp add: assms(1))

lemma overlay_same: "off + length bs \<le> length buf \<Longrightarrow> take (length bs) (drop off (overlay off bs buf)) = bs"
  by (simp add: overlay_def)

lemma overlay_other:
  assumes "off + length bs \<le> length buf" "off' + k \<le> off \<or> off + length bs \<le> off'"
  shows "take k (drop off' (overlay off bs buf)) = take k (drop off' buf)"
  using assms by (intro take_drop_eqI) (auto simp: nth_overlay)

lemma length_put [simp]:
  "off + 2 \<le> length buf \<Longrightarrow> length (put16 off v buf) = length buf"
  "off + 4 \<le> length buf \<Longrightarrow> length (put32 off w buf) = length buf"
  "off + 8 \<le> length buf \<Longrightarrow> length (put64 off x buf) = length buf"
  by (simp_all add: put16_def put32_def put64_def)

lemma field_put_same [simp]:
  "off + 2 \<le> length buf \<Longrightarrow> field16 (put16 off v buf) off = v"
  "off + 4 \<le> length buf \<Longrightarrow> field32 (put32 off w buf) off = w"
  "off + 8 \<le> length buf \<Longrightarrow> field64 (put64 off x buf) off = x"
  using overlay_same[of off "le_bytes 2 (unat v)" buf] overlay_same[of off "le_bytes 4 (unat w)" buf]
    overlay_same[of off "le_bytes 8 (unat x)" buf]
  by (simp_all add: put16_def put32_def put64_def field16_def field32_def field64_def le_nat_word)

lemma overlay_self: "off + k \<le> length buf \<Longrightarrow> overlay off (take k (drop off buf)) buf = buf"
  by (rule nth_equalityI) (auto simp: overlay_def nth_append min_def)

lemma put32_self: "off + 4 \<le> length buf \<Longrightarrow> put32 off (field32 buf off) buf = buf"
proof -
  assume l: "off + 4 \<le> length buf"
  define bs where "bs = take 4 (drop off buf)"
  have "le_bytes 4 (le_nat bs) = bs" "le_nat bs < 256 ^ 4" using le_bytes_nat[of bs 4] l by (simp_all add: bs_def)
  then have "le_bytes 4 (unat (field32 buf off)) = bs" by (simp add: field32_def bs_def[symmetric] unat_of_nat take_bit_nat_eq_self)
  then show ?thesis using overlay_self[OF l] by (simp add: put32_def bs_def)
qed

lemma field_cong:
  "take 2 (drop o1 a) = take 2 (drop o1 b) \<Longrightarrow> field16 a o1 = field16 b o1"
  "take 4 (drop o1 a) = take 4 (drop o1 b) \<Longrightarrow> field32 a o1 = field32 b o1"
  "take 8 (drop o1 a) = take 8 (drop o1 b) \<Longrightarrow> field64 a o1 = field64 b o1"
  by (simp_all add: field16_def field32_def field64_def)

lemma field_put_other [simp]:
  "off + 2 \<le> length buf \<Longrightarrow> o2 + 2 \<le> off \<or> off + 2 \<le> o2 \<Longrightarrow> field16 (put16 off v buf) o2 = field16 buf o2"
  "off + 2 \<le> length buf \<Longrightarrow> o2 + 4 \<le> off \<or> off + 2 \<le> o2 \<Longrightarrow> field32 (put16 off v buf) o2 = field32 buf o2"
  "off + 4 \<le> length buf \<Longrightarrow> o2 + 2 \<le> off \<or> off + 4 \<le> o2 \<Longrightarrow> field16 (put32 off w buf) o2 = field16 buf o2"
  "off + 4 \<le> length buf \<Longrightarrow> o2 + 4 \<le> off \<or> off + 4 \<le> o2 \<Longrightarrow> field32 (put32 off w buf) o2 = field32 buf o2"
  "off + 8 \<le> length buf \<Longrightarrow> o2 + 8 \<le> off \<or> off + 8 \<le> o2 \<Longrightarrow> field64 (put64 off x buf) o2 = field64 buf o2"
  "off + 4 \<le> length buf \<Longrightarrow> o2 + 8 \<le> off \<or> off + 4 \<le> o2 \<Longrightarrow> field64 (put32 off w buf) o2 = field64 buf o2"
  using overlay_other[of off "le_bytes 2 (unat v)" buf] overlay_other[of off "le_bytes 4 (unat w)" buf]
    overlay_other[of off "le_bytes 8 (unat x)" buf]
  by (auto intro!: field_cong simp: put16_def put32_def put64_def)

end
