(* ===== verification/Gpt.thy ===== *)
theory Gpt
  imports Hash Heap ByteFields
begin

section \<open>Disks and partition tables (drivers/disk/disk.c, drivers/gpt/gpt.c)\<close>

text \<open>
  A disk is a record of the driver's functions; what the driver reads is the argument \<open>rd\<close>, which gives the bytes of the
  sectors from an address or nothing on an error.  \<^verbatim>\<open>gpt_find_partitions\<close> reads the table header from sector 1 into a buffer,
  checks its signature and checksum, reads the partition array and offers every entry with a type to the file-system driver,
  the argument \<open>mount\<close>.  Buffers are byte lists of the size that was allocated; bytes a short read leaves are those the heap
  had there, the argument \<open>junk\<close>.  A read beyond a buffer is undefined.  The fields of the packed structures are read
  little-endian at their offsets, and 32-bit products wrap as in the code.
\<close>

subsection \<open>Disks\<close>

definition DISK_ID_FIRST :: u64 where "DISK_ID_FIRST = 0"

record 'c disk_t =
  cntx :: 'c
  disk_id :: u64

record 'c disks =
  disk_list :: "'c disk_t list"
  next_id :: u64

definition disk_init :: "'c disks" where
  "disk_init = \<lparr>disk_list = [], next_id = DISK_ID_FIRST\<rparr>"

definition disk_add :: "'c \<Rightarrow> 'c disks \<Rightarrow> 'c disk_t \<times> 'c disks" where
  "disk_add c s =
     (let d = \<lparr>cntx = c, disk_id = next_id s\<rparr>
      in (d, s\<lparr>disk_list := d # disk_list s, next_id := next_id s + 1\<rparr>))"

definition disk_get :: "u64 \<Rightarrow> 'c disks \<Rightarrow> 'c disk_t option" where
  "disk_get i s = find (\<lambda>d. disk_id d = i) (disk_list s)"

definition disk_get_id :: "'c disk_t \<Rightarrow> u64" where
  "disk_get_id d = disk_id d"

text \<open>Disks are found under the number they were given.\<close>

definition disk_adds :: "'c list \<Rightarrow> 'c disks" where
  "disk_adds cs = foldl (\<lambda>s c. snd (disk_add c s)) disk_init cs"

lemma disk_adds_list:
  "disk_list (disk_adds cs) = rev (map (\<lambda>i. \<lparr>cntx = cs ! i, disk_id = of_nat i\<rparr>) [0 ..< length cs]) \<and> next_id (disk_adds cs) = of_nat (length cs)"
proof (induction cs rule: rev_induct)
  case (snoc c cs)
  have "disk_adds (cs @ [c]) = snd (disk_add c (disk_adds cs))" by (simp add: disk_adds_def)
  then show ?case using snoc by (auto simp: disk_add_def Let_def nth_append)
qed (simp add: disk_adds_def disk_init_def DISK_ID_FIRST_def)

lemma disk_get_added:
  assumes "length cs \<le> 2 ^ 64" "i < length cs"
  shows "disk_get (of_nat i) (disk_adds cs) = Some \<lparr>cntx = cs ! i, disk_id = of_nat i\<rparr>"
proof -
  have "find (\<lambda>d. disk_id d = of_nat i) (rev (map (\<lambda>i. \<lparr>cntx = cs ! i, disk_id = of_nat i\<rparr>) [0 ..< n])) = Some \<lparr>cntx = cs ! i, disk_id = of_nat i\<rparr>"
    if "i < n" "n \<le> length cs" for n
    using that
  proof (induction n)
    case (Suc n)
    have "of_nat n \<noteq> (of_nat i :: u64)" if "n \<noteq> i"
      using that Suc.prems assms(1) by (simp add: word_of_nat_eq_iff take_bit_nat_eq_self)
    then show ?case using Suc by (cases "i = n") auto
  qed simp
  then show ?thesis using assms(2) disk_adds_list[of cs] by (simp add: disk_get_def)
qed

subsection \<open>Buffers\<close>

definition buf_mem :: "bytes \<Rightarrow> mem" where
  "buf_mem buf a = (if unat a < length buf then buf ! unat a else 0)"

subsection \<open>The partition table\<close>

definition GPT_LBA :: u64 where "GPT_LBA = 1"
definition GPT_SIG :: bytes where "GPT_SIG = [0x45, 0x46, 0x49, 0x20, 0x50, 0x41, 0x52, 0x54]"

definition gpt_crc32 :: "bytes \<Rightarrow> u32" where "gpt_crc32 gpt = field32 gpt 16"
definition gpt_array_lba :: "bytes \<Rightarrow> u64" where "gpt_array_lba gpt = field64 gpt 72"
definition gpt_entry_count :: "bytes \<Rightarrow> u32" where "gpt_entry_count gpt = field32 gpt 80"
definition gpt_entry_size :: "bytes \<Rightarrow> u32" where "gpt_entry_size gpt = field32 gpt 84"
definition gpt_array_crc32 :: "bytes \<Rightarrow> u32" where "gpt_array_crc32 gpt = field32 gpt 88"
definition SIZEOF_GPT :: nat where "SIZEOF_GPT = 92"

definition clear_crc :: "bytes \<Rightarrow> bytes" where
  "clear_crc gpt = take 16 gpt @ replicate 4 0 @ drop 20 gpt"

text \<open>The loop over the entries.\<close>

fun gpt_scan :: "(u64 \<Rightarrow> u64 \<Rightarrow> 'm \<Rightarrow> 'm) \<Rightarrow> bytes \<Rightarrow> u32 \<Rightarrow> nat list \<Rightarrow> 'm \<Rightarrow> 'm outcome" where
  "gpt_scan mount buf esize [] m = Inr m"
| "gpt_scan mount buf esize (i # is) m =
     (let off = unat (of_nat i * esize)
      in if length buf < off + 16 then Inl Undefined
         else if \<forall>b \<in> set (take 16 (drop off buf)). b = 0 then gpt_scan mount buf esize is m
         else if length buf < off + 48 then Inl Undefined
         else gpt_scan mount buf esize is (mount (field64 buf (off + 32)) (field64 buf (off + 40)) m))"

definition gpt_find_partitions :: "(u64 \<Rightarrow> u16 \<Rightarrow> bytes option) \<Rightarrow> (nat \<Rightarrow> bytes) \<Rightarrow> (u64 \<Rightarrow> u64 \<Rightarrow> 'm \<Rightarrow> 'm) \<Rightarrow> 'm \<Rightarrow> 'm outcome" where
  "gpt_find_partitions rd junk mount m =
     (case rd GPT_LBA 1 of
        None \<Rightarrow> Inr m
      | Some gpt \<Rightarrow>
          if take 8 gpt \<noteq> GPT_SIG then Inr m
          else if crc32_ansi (buf_mem (clear_crc gpt)) 0 (of_nat SIZEOF_GPT) \<noteq> gpt_crc32 gpt then Inr m
          else
            let partition_array_size = unat (gpt_entry_count gpt * gpt_entry_size gpt);
                sectors = partition_array_size div SECTOR_SIZE;
                n = SECTOR_SIZE * (sectors + 1)
            in if INIT_BLOCK_SIZE < adjusted_size (of_nat n) then Inl (Panic PANIC_NO_MEM)
               else
                 (case rd (gpt_array_lba gpt) (of_nat sectors + 1) of
                    None \<Rightarrow> Inr m
                  | Some arr \<Rightarrow>
                      let buf = arr @ drop (length arr) (junk n)
                      in if crc32_ansi (buf_mem buf) 0 (of_nat partition_array_size) \<noteq> gpt_array_crc32 gpt then Inr m
                         else gpt_scan mount buf (gpt_entry_size gpt) [0 ..< unat (gpt_entry_count gpt)] m))"

text \<open>A driver that reads whole sectors into a buffer of that size.\<close>

definition disk_ok :: "(u64 \<Rightarrow> u16 \<Rightarrow> bytes option) \<Rightarrow> bool" where
  "disk_ok rd \<longleftrightarrow> (\<forall>lba n bs. rd lba n = Some bs \<longrightarrow> length bs = SECTOR_SIZE * unat n)"

subsection \<open>Encoding\<close>

record gpt_entry =
  part_type :: bytes
  guid :: bytes
  start_lba :: u64
  end_lba :: u64
  attr :: u64
  pname :: bytes

definition entry_ok :: "gpt_entry \<Rightarrow> bool" where
  "entry_ok e \<longleftrightarrow> length (part_type e) = 16 \<and> length (guid e) = 16 \<and> length (pname e) = 72"

definition entry_bytes :: "gpt_entry \<Rightarrow> bytes" where
  "entry_bytes e = part_type e @ guid e @ le_bytes 8 (unat (start_lba e)) @ le_bytes 8 (unat (end_lba e)) @ le_bytes 8 (unat (attr e)) @ pname e"

lemma bytes_at_buf: "n \<le> length buf \<Longrightarrow> n < 2 ^ 64 \<Longrightarrow> bytes_at (buf_mem buf) 0 n = take n buf"
  by (rule nth_equalityI) (auto simp: bytes_at_def buf_mem_def unat_of_nat take_bit_nat_eq_self)

text \<open>A table header and its sector: \<open>a\<close>, \<open>b\<close> and \<open>c\<close> are the fields the driver does not look at.\<close>

definition array_bytes :: "gpt_entry list \<Rightarrow> bytes" where
  "array_bytes es = concat (map entry_bytes es)"

definition crc_bytes :: "bytes \<Rightarrow> u32" where
  "crc_bytes bs = crc32_ansi (buf_mem bs) 0 (of_nat (length bs))"

definition header_bytes :: "bytes \<Rightarrow> bytes \<Rightarrow> bytes \<Rightarrow> u64 \<Rightarrow> u32 \<Rightarrow> u32 \<Rightarrow> u32 \<Rightarrow> u32 \<Rightarrow> bytes" where
  "header_bytes a b c lba n z k crc = GPT_SIG @ a @ le_bytes 4 (unat crc) @ b @ c @ le_bytes 8 (unat lba) @ le_bytes 4 (unat n)
     @ le_bytes 4 (unat z) @ le_bytes 4 (unat k)"

definition gpt_sector :: "bytes \<Rightarrow> bytes \<Rightarrow> bytes \<Rightarrow> u64 \<Rightarrow> u32 \<Rightarrow> u32 \<Rightarrow> u32 \<Rightarrow> bytes \<Rightarrow> bytes" where
  "gpt_sector a b c lba n z k rest = header_bytes a b c lba n z k (crc_bytes (header_bytes a b c lba n z k 0)) @ rest"

lemma length_entry: "entry_ok e \<Longrightarrow> length (entry_bytes e) = 128"
  by (simp add: entry_ok_def entry_bytes_def)

lemma length_array: "\<forall>e \<in> set es. entry_ok e \<Longrightarrow> length (array_bytes es) = 128 * length es"
  by (induction es) (auto simp: array_bytes_def length_entry)

lemma crc_prefix:
  assumes "n = length bs" "length bs < 2 ^ 64"
  shows "crc32_ansi (buf_mem (bs @ cs)) 0 (of_nat n) = crc_bytes bs"
proof -
  have "unat (of_nat (length bs) :: u64) = length bs" using assms(2) by (simp add: unat_of_nat take_bit_nat_eq_self)
  then show ?thesis using assms by (simp add: crc_bytes_def crc32_ansi_def crc_loop_fold bytes_at_buf)
qed

lemma length_header: "length a = 8 \<Longrightarrow> length b = 4 \<Longrightarrow> length c = 48 \<Longrightarrow> length (header_bytes a b c lba n z k crc) = 92"
  by (simp add: header_bytes_def GPT_SIG_def)

lemma header_fields:
  fixes lba :: u64 and n z k crc :: u32 and rest :: bytes
  assumes "length a = 8" "length b = 4" "length c = 48"
  defines "h \<equiv> header_bytes a b c lba n z k crc @ rest"
  shows "take 8 h = GPT_SIG" "gpt_crc32 h = crc" "gpt_array_lba h = lba" "gpt_entry_count h = n" "gpt_entry_size h = z"
    "gpt_array_crc32 h = k" "clear_crc h = header_bytes a b c lba n z k 0 @ rest"
proof -
  have "length GPT_SIG = 8" by (simp add: GPT_SIG_def)
  note len = assms(1-3) this
  let ?n = "le_bytes 4 (unat n)" and ?z = "le_bytes 4 (unat z)" and ?k = "le_bytes 4 (unat k)" and ?l = "le_bytes 8 (unat lba)"
  show "take 8 h = GPT_SIG" by (simp add: h_def header_bytes_def GPT_SIG_def)
  show "gpt_crc32 h = crc"
    using field32_bytes[of 16 "GPT_SIG @ a" crc "b @ c @ ?l @ ?n @ ?z @ ?k @ rest"] len by (simp add: gpt_crc32_def h_def header_bytes_def)
  show "gpt_array_lba h = lba"
    using field64_bytes[of 72 "GPT_SIG @ a @ le_bytes 4 (unat crc) @ b @ c" lba "?n @ ?z @ ?k @ rest"] len by (simp add: gpt_array_lba_def h_def header_bytes_def)
  show "gpt_entry_count h = n"
    using field32_bytes[of 80 "GPT_SIG @ a @ le_bytes 4 (unat crc) @ b @ c @ ?l" n "?z @ ?k @ rest"] len by (simp add: gpt_entry_count_def h_def header_bytes_def)
  show "gpt_entry_size h = z"
    using field32_bytes[of 84 "GPT_SIG @ a @ le_bytes 4 (unat crc) @ b @ c @ ?l @ ?n" z "?k @ rest"] len by (simp add: gpt_entry_size_def h_def header_bytes_def)
  show "gpt_array_crc32 h = k"
    using field32_bytes[of 88 "GPT_SIG @ a @ le_bytes 4 (unat crc) @ b @ c @ ?l @ ?n @ ?z" k rest] len by (simp add: gpt_array_crc32_def h_def header_bytes_def)
  show "clear_crc h = header_bytes a b c lba n z k 0 @ rest" using len by (simp add: clear_crc_def h_def header_bytes_def le_bytes_0)
qed

text \<open>The header of a sector passes the checks, and its fields are those it was made of.\<close>

lemma sector_fields:
  fixes lba :: u64 and n z k :: u32 and rest :: bytes
  assumes "length a = 8" "length b = 4" "length c = 48"
  defines "h \<equiv> gpt_sector a b c lba n z k rest"
  shows "take 8 h = GPT_SIG" "crc32_ansi (buf_mem (clear_crc h)) 0 (of_nat SIZEOF_GPT) = gpt_crc32 h" "gpt_array_lba h = lba"
    "gpt_entry_count h = n" "gpt_entry_size h = z" "gpt_array_crc32 h = k"
proof -
  note F = header_fields[OF assms(1-3), where lba = lba and n = n and z = z and k = k and rest = rest]
  have "crc32_ansi (buf_mem (header_bytes a b c lba n z k 0 @ rest)) 0 (of_nat SIZEOF_GPT) = crc_bytes (header_bytes a b c lba n z k 0)"
    by (rule crc_prefix) (use length_header[OF assms(1-3)] in \<open>simp_all add: SIZEOF_GPT_def\<close>)
  then show "crc32_ansi (buf_mem (clear_crc h)) 0 (of_nat SIZEOF_GPT) = gpt_crc32 h" using F(2,7) by (simp add: h_def gpt_sector_def)
  show "take 8 h = GPT_SIG" "gpt_array_lba h = lba" "gpt_entry_count h = n" "gpt_entry_size h = z" "gpt_array_crc32 h = k"
    using F by (simp_all add: h_def gpt_sector_def)
qed

lemma scan_entries:
  assumes "\<forall>e \<in> set (ds @ es). entry_ok e" "length (ds @ es) < 2 ^ 25"
  shows "gpt_scan mount (array_bytes (ds @ es) @ rest) 128 [length ds ..< length (ds @ es)] m
    = Inr (fold (\<lambda>e. mount (start_lba e) (end_lba e)) [e \<leftarrow> es. \<exists>x \<in> set (part_type e). x \<noteq> 0] m)"
  using assms
proof (induction es arbitrary: ds m)
  case (Cons e es)
  let ?buf = "array_bytes (ds @ e # es) @ rest" and ?off = "128 * length ds"
  have ok: "entry_ok e" "\<forall>e \<in> set ds. entry_ok e" using Cons.prems(1) by auto
  have off: "unat (of_nat (length ds) * 128 :: u32) = ?off" using Cons.prems(2)
    by (simp add: unat_word_ariths(2) unat_of_nat take_bit_nat_eq_self)
  have buf: "?buf = array_bytes ds @ entry_bytes e @ array_bytes es @ rest" by (simp add: array_bytes_def)
  have len: "length (array_bytes ds) = ?off" "length (entry_bytes e) = 128" using ok length_array length_entry by auto
  then have big: "\<not> length ?buf < ?off + 48" "\<not> length ?buf < ?off + 16" unfolding buf by simp_all
  have ty: "take 16 (drop ?off ?buf) = part_type e" unfolding buf using len ok by (simp add: entry_bytes_def entry_ok_def)
  let ?q = "le_bytes 8 (unat (attr e)) @ pname e @ array_bytes es @ rest"
  have st: "field64 ?buf (?off + 32) = start_lba e"
    using field64_bytes[of "?off + 32" "array_bytes ds @ part_type e @ guid e" "start_lba e" "le_bytes 8 (unat (end_lba e)) @ ?q"] len ok
    by (simp add: buf entry_bytes_def entry_ok_def)
  have en: "field64 ?buf (?off + 40) = end_lba e"
    using field64_bytes[of "?off + 40" "array_bytes ds @ part_type e @ guid e @ le_bytes 8 (unat (start_lba e))" "end_lba e" ?q] len ok
    by (simp add: buf entry_bytes_def entry_ok_def)
  have js: "[length ds ..< length (ds @ e # es)] = length ds # [length (ds @ [e]) ..< length ((ds @ [e]) @ es)]" by (subst upt_conv_Cons) simp_all
  have IH: "gpt_scan mount ?buf 128 [length (ds @ [e]) ..< length ((ds @ [e]) @ es)] m'
      = Inr (fold (\<lambda>e. mount (start_lba e) (end_lba e)) [e \<leftarrow> es. \<exists>x \<in> set (part_type e). x \<noteq> 0] m')" for m'
    using Cons.IH[of "ds @ [e]" m'] Cons.prems by simp
  show ?case unfolding js gpt_scan.simps off Let_def ty st en IH using big by simp
qed simp

lemma clear_crc_split:
  assumes "length p + 4 \<le> 16 \<or> 20 \<le> length p" "20 \<le> length p + 4 + length q"
  obtains p' q' where "\<And>w. length w = 4 \<Longrightarrow> clear_crc (p @ w @ q @ r) = p' @ w @ q'" "length p' = length p" "length q \<le> length q'"
proof (cases "length p + 4 \<le> 16")
  case True
  show thesis
    by (rule that[of p "take (16 - (length p + 4)) (q @ r) @ replicate 4 0 @ drop (20 - (length p + 4)) (q @ r)"])
      (use True assms(2) in \<open>auto simp: clear_crc_def\<close>)
next
  case False
  then have "20 \<le> length p" using assms(1) by simp
  then show thesis by (intro that[of "take 16 p @ replicate 4 0 @ drop 20 p" "q @ r"]) (auto simp: clear_crc_def)
qed

subsection \<open>Properties\<close>

text \<open>C28: a table written by the standard is read back.  When sector 1 holds a header for the entries \<open>es\<close> of 128 bytes with the
  right checksums and the array is where the header says, the driver offers exactly the entries with a type to the file system,
  each once, in order, with its first and last sector.\<close>

theorem gpt_reads_table:
  assumes "length a = 8" "length b = 4" "length c = 48" "\<forall>e \<in> set es. entry_ok e" "length es \<le> 16000"
    and "rd GPT_LBA 1 = Some (gpt_sector a b c lba (of_nat (length es)) 128 (crc_bytes (array_bytes es)) rest)"
      "rd lba (of_nat (length es div 4) + 1) = Some (array_bytes es @ pad)"
  shows "gpt_find_partitions rd junk mount m = Inr (fold (\<lambda>e. mount (start_lba e) (end_lba e)) [e \<leftarrow> es. \<exists>x \<in> set (part_type e). x \<noteq> 0] m)"
proof -
  note F = sector_fields[OF assms(1-3), of lba "of_nat (length es)" 128 "crc_bytes (array_bytes es)" rest]
  have le: "length es < 2 ^ 32" "length es < 2 ^ 25" using assms(5) by simp_all
  have sz: "unat (of_nat (length es) * 128 :: u32) = 128 * length es" using le(2)
    by (simp add: unat_word_ariths(2) unat_of_nat take_bit_nat_eq_self)
  have dv: "128 * length es div SECTOR_SIZE = length es div 4" by (simp add: SECTOR_SIZE_def)
  have un: "unat (of_nat (length es) :: u32) = length es" using le(1) by (simp add: unat_of_nat take_bit_nat_eq_self)
  have al: "\<not> INIT_BLOCK_SIZE < adjusted_size (of_nat (SECTOR_SIZE * (length es div 4 + 1)))"
  proof -
    define N where "N = SECTOR_SIZE * (length es div 4 + 1)"
    have n: "N \<le> 2048512" using assms(5) by (simp add: N_def SECTOR_SIZE_def)
    then have u: "unat (of_nat N :: u64) = N" by (simp add: unat_of_nat take_bit_nat_eq_self)
    then have "unat (adjusted_size (of_nat N)) = (N + 47) div 16 * 16" using adjusted_size_small[of "of_nat N"] n by simp
    then have "\<not> INIT_BLOCK_SIZE < adjusted_size (of_nat N)" using n
      by (simp add: word_less_nat_alt INIT_BLOCK_SIZE_def ARENA_SIZE_def SIZEOF_ARENA_def)
    then show ?thesis unfolding N_def .
  qed
  have ac: "crc32_ansi (buf_mem (array_bytes es @ q)) 0 (of_nat (128 * length es)) = crc_bytes (array_bytes es)" for q
    by (rule crc_prefix) (use length_array[OF assms(4)] le in simp_all)
  show ?thesis
    using assms(6,7) F sz dv al ac scan_entries[of "[]" es mount _ m] assms(4) le(2) un
    by (simp add: gpt_find_partitions_def Let_def)
qed

text \<open>A table of two entries, the second unused, and the disk it is on.\<close>

definition sample_entries :: "gpt_entry list" where
  "sample_entries = [\<lparr>part_type = replicate 16 7, guid = replicate 16 1, start_lba = 34, end_lba = 2047, attr = 0, pname = replicate 72 0\<rparr>,
     \<lparr>part_type = replicate 16 0, guid = replicate 16 0, start_lba = 0, end_lba = 0, attr = 0, pname = replicate 72 0\<rparr>]"

definition sample_disk :: "u64 \<Rightarrow> u16 \<Rightarrow> bytes option" where
  "sample_disk lba n =
     (if lba = 1 \<and> n = 1 then Some (gpt_sector (replicate 8 0) (replicate 4 0) (replicate 48 0) 2 2 128 (crc_bytes (array_bytes sample_entries)) (replicate 420 0))
      else if lba = 2 \<and> n = 1 then Some (array_bytes sample_entries @ replicate 256 0) else None)"

theorem gpt_reads_table_witness:
  "gpt_find_partitions sample_disk (\<lambda>n. replicate n 0) (\<lambda>s e ms. ms @ [(s, e)]) [] = Inr [(34, 2047)]"
proof -
  have "gpt_find_partitions sample_disk (\<lambda>n. replicate n 0) (\<lambda>s e ms. ms @ [(s, e)]) []
      = Inr (fold (\<lambda>e. (\<lambda>s e ms. ms @ [(s, e)]) (start_lba e) (end_lba e)) [e \<leftarrow> sample_entries. \<exists>x \<in> set (part_type e). x \<noteq> 0] [])"
    by (rule gpt_reads_table[where a = "replicate 8 0" and b = "replicate 4 0" and c = "replicate 48 0" and lba = 2 and rest = "replicate 420 0" and pad = "replicate 256 0"])
      (simp_all add: sample_disk_def GPT_LBA_def entry_ok_def sample_entries_def)
  then show ?thesis by (simp add: sample_entries_def)
qed

text \<open>A damaged header is refused.  When a header passes the check and another differs from it only in four consecutive bytes
  of the checked part, none of them the checksum itself, the driver mounts nothing from a disk that holds the damaged one.\<close>

lemma gpt_refuses_damage:
  assumes "length (p @ u @ q) = SIZEOF_GPT" "length u = 4" "length v = 4" "u \<noteq> v" "length p + 4 \<le> 16 \<or> 20 \<le> length p"
    and good: "crc32_ansi (buf_mem (clear_crc (p @ u @ q @ rest))) 0 (of_nat SIZEOF_GPT) = gpt_crc32 (p @ u @ q @ rest)"
    and bad: "rd GPT_LBA 1 = Some (p @ v @ q @ rest)"
  shows "gpt_find_partitions rd junk mount m = Inr m"
proof -
  have same: "gpt_crc32 (p @ v @ q @ rest) = gpt_crc32 (p @ u @ q @ rest)"
    using assms(2,3,5) by (auto simp: gpt_crc32_def field32_def drop_append take_append)
  obtain p' q' where c: "\<And>w. length w = 4 \<Longrightarrow> clear_crc (p @ w @ q @ rest) = p' @ w @ q'" "length p' = length p" "length q \<le> length q'"
    by (rule clear_crc_split[OF assms(5)]) (use assms(1,2) in \<open>auto simp: SIZEOF_GPT_def\<close>)
  have n: "length p + 4 + length q = 92" using assms(1,2) by (simp add: SIZEOF_GPT_def)
  then have d: "88 - length p = length q" by simp
  have "bytes_at (buf_mem (clear_crc (p @ w @ q @ rest))) 0 (unat (of_nat SIZEOF_GPT :: u64)) = p' @ w @ take (length q) q'" if "length w = 4" for w
    using that c n d by (simp add: bytes_at_buf SIZEOF_GPT_def)
  then have "crc32_ansi (buf_mem (clear_crc (p @ u @ q @ rest))) 0 (of_nat SIZEOF_GPT)
      \<noteq> crc32_ansi (buf_mem (clear_crc (p @ v @ q @ rest))) 0 (of_nat SIZEOF_GPT)"
    using crc32_burst[of _ _ _ p' u "take (length q) q'" _ _ v] assms(2-4) by blast
  then show ?thesis using bad good same by (simp add: gpt_find_partitions_def)
qed

text \<open>The size of the array is a 32-bit product.  A header with right checksums whose count times entry size wraps around makes
  the driver allocate and check almost nothing and then look for entries beyond its buffer.\<close>

lemma gpt_size_wraps:
  assumes "length a = 8" "length b = 4" "length c = 48" "length pad = 512" "take 16 pad = replicate 16 0"
    and "rd GPT_LBA 1 = Some (gpt_sector a b c lba 0x10000 0x10000 0 rest)" "rd lba 1 = Some pad" "length (junk 512) = 512"
  shows "gpt_find_partitions rd junk mount m = Inl Undefined"
proof -
  note F = sector_fields[OF assms(1-3), of lba "0x10000" "0x10000" 0 rest]
  have "crc32_ansi (buf_mem pad) 0 0 = 0" by (simp add: crc32_ansi_def crc_loop.simps)
  moreover have "\<not> INIT_BLOCK_SIZE < adjusted_size (of_nat SECTOR_SIZE)"
    by (simp add: adjusted_size_def SECTOR_SIZE_def INIT_BLOCK_SIZE_def ARENA_SIZE_def SIZEOF_ARENA_def SIZEOF_HEADER_def ALLOC_ALIGN_def)
  moreover have "gpt_scan mount pad 0x10000 [0 ..< N] m = Inl Undefined" if "2 \<le> N" for N
  proof -
    have "[0 ..< N] = 0 # 1 # [2 ..< N]" using that by (simp add: upt_conv_Cons numeral_2_eq_2)
    then show ?thesis using assms(4,5) by simp
  qed
  then have "gpt_scan mount pad 0x10000 [0 ..< 65536] m = Inl Undefined" by (simp del: upt_rec_numeral)
  ultimately show ?thesis using assms(4,6,7,8) F by (simp add: gpt_find_partitions_def Let_def SECTOR_SIZE_def del: upt_rec_numeral)
qed

end
