(* ===== verification/Ext2.thy ===== *)
theory Ext2
  imports ByteFields Vfs
begin

section \<open>The ext2 driver (drivers/ext2/ext2.c)\<close>

text \<open>
  The driver keeps the superblock and the table of group descriptors in memory as they are on the disk, so both are byte
  buffers whose members are read and written at their offsets; so are inodes and directory entries.  The disk below is
  an argument: a record of the two functions of \<^verbatim>\<open>struct disk_t\<close> on a state of the driver.  A block buffer is what the read
  gave; \<^verbatim>\<open>kmalloc\<close> does not fail, and a null buffer is \<open>None\<close>.  Reading or writing beyond a buffer, beyond the descriptor table, or
  dividing by zero is \<open>Inl Undefined\<close>.  Taking the lock when it is held never returns.  Loops that follow what the disk says may
  not end and are partial functions.
\<close>

definition SUPERBLOCK_LBA :: u64 where "SUPERBLOCK_LBA = 2"
definition SUPERBLOCK_SECTORS :: u16 where "SUPERBLOCK_SECTORS = 2"
definition DIRECT_BLOCKS :: u64 where "DIRECT_BLOCKS = 12"
definition INDIR_1 :: nat where "INDIR_1 = 12"
definition INDIR_2 :: nat where "INDIR_2 = 13"
definition INDIR_3 :: nat where "INDIR_3 = 14"
definition EXT2_SUPER_MAGIC :: u16 where "EXT2_SUPER_MAGIC = 0xEF53"
definition EXT2_ROOT_INO :: u64 where "EXT2_ROOT_INO = 2"
definition EXT2_S_IFREG :: u16 where "EXT2_S_IFREG = 0x8000"
definition S_IFDIR :: u16 where "S_IFDIR = 0x4000"
definition MODE_DIR :: u8 where "MODE_DIR = 1"
definition EXT2_FT_REG_FILE :: nat where "EXT2_FT_REG_FILE = 1"

definition ext2_dt_conv :: "u8 list" where
  "ext2_dt_conv = [0, 8, 4, 2, 6, 1, 12, 10]"

definition label_rootfs :: bytes where
  "label_rootfs = [0x72, 0x6F, 0x6F, 0x74, 0x66, 0x73] @ replicate 10 0"

record 'd disk_ops =
  disk_read :: "u64 \<Rightarrow> u16 \<Rightarrow> 'd \<Rightarrow> bytes option"
  disk_write :: "u64 \<Rightarrow> u16 \<Rightarrow> bytes \<Rightarrow> 'd \<Rightarrow> bool \<times> 'd"

text \<open>Members of \<^verbatim>\<open>struct ext2_superblock_t\<close>.\<close>

definition s_inodes_count :: "bytes \<Rightarrow> u32" where "s_inodes_count sb = field32 sb 0"
definition s_blocks_count :: "bytes \<Rightarrow> u32" where "s_blocks_count sb = field32 sb 4"
definition s_log_block_size :: "bytes \<Rightarrow> u32" where "s_log_block_size sb = field32 sb 24"
definition s_blocks_per_group :: "bytes \<Rightarrow> u32" where "s_blocks_per_group sb = field32 sb 32"
definition s_inodes_per_group :: "bytes \<Rightarrow> u32" where "s_inodes_per_group sb = field32 sb 40"
definition s_magic :: "bytes \<Rightarrow> u16" where "s_magic sb = field16 sb 56"
definition s_inode_size :: "bytes \<Rightarrow> u16" where "s_inode_size sb = field16 sb 88"
definition s_volume_name :: "bytes \<Rightarrow> bytes" where "s_volume_name sb = take 16 (drop 120 sb)"
definition SIZEOF_SUPERBLOCK :: nat where "SIZEOF_SUPERBLOCK = 1024"

text \<open>Members of the group descriptor at an offset of the table.\<close>

definition SIZEOF_BG_DESC :: nat where "SIZEOF_BG_DESC = 32"
definition bg_off :: "u64 \<Rightarrow> nat" where "bg_off g = SIZEOF_BG_DESC * unat g"
definition bg_block_bitmap :: "bytes \<Rightarrow> u64 \<Rightarrow> u32" where "bg_block_bitmap tab g = field32 tab (bg_off g)"
definition bg_inode_bitmap :: "bytes \<Rightarrow> u64 \<Rightarrow> u32" where "bg_inode_bitmap tab g = field32 tab (bg_off g + 4)"
definition bg_inode_table :: "bytes \<Rightarrow> u64 \<Rightarrow> u32" where "bg_inode_table tab g = field32 tab (bg_off g + 8)"

text \<open>Members of \<^verbatim>\<open>struct ext2_inode_t\<close>.\<close>

definition SIZEOF_INODE :: nat where "SIZEOF_INODE = 128"
definition i_mode :: "bytes \<Rightarrow> u16" where "i_mode ino = field16 ino 0"
definition i_size :: "bytes \<Rightarrow> u32" where "i_size ino = field32 ino 4"
definition i_atime :: "bytes \<Rightarrow> u32" where "i_atime ino = field32 ino 8"
definition i_ctime :: "bytes \<Rightarrow> u32" where "i_ctime ino = field32 ino 12"
definition i_mtime :: "bytes \<Rightarrow> u32" where "i_mtime ino = field32 ino 16"
definition i_links_count :: "bytes \<Rightarrow> u16" where "i_links_count ino = field16 ino 26"
definition i_blocks :: "bytes \<Rightarrow> u32" where "i_blocks ino = field32 ino 28"
definition i_block :: "bytes \<Rightarrow> nat \<Rightarrow> u32" where "i_block ino k = field32 ino (40 + 4 * k)"
definition set_i_block :: "nat \<Rightarrow> u32 \<Rightarrow> bytes \<Rightarrow> bytes" where "set_i_block k b ino = put32 (40 + 4 * k) b ino"
definition i_dir_acl :: "bytes \<Rightarrow> u32" where "i_dir_acl ino = field32 ino 108"

definition inode_size :: "bytes \<Rightarrow> u64" where
  "inode_size ino = ucast (i_size ino) OR push_bit 32 (ucast (i_dir_acl ino))"

record 'd ext2_t =
  start_lba :: u64
  end_lba :: u64
  superblock :: bytes
  bgdt :: bytes
  disk :: 'd
  block_size :: u64
  devid :: u64
  lock :: bool

record ext2_inode_handle_t =
  inode_index :: u64
  seek :: u64
  seek_block :: u64
  ext2_mode :: u8
  next_seek :: u64

datatype ext2_block_state_t = BLOCK_OK | BLOCK_SPARSE | BLOCK_ERROR

subsection \<open>Blocks and inodes\<close>

definition block_lba :: "'d ext2_t \<Rightarrow> u64 \<Rightarrow> u64" where
  "block_lba s block = start_lba s + block * block_size s div 512"

definition block_sectors :: "'d ext2_t \<Rightarrow> u16" where
  "block_sectors s = ucast (block_size s div 512)"

definition read_block :: "'d disk_ops \<Rightarrow> u64 \<Rightarrow> 'd ext2_t \<Rightarrow> bytes option" where
  "read_block D block s =
     (if end_lba s < block_lba s block then None else disk_read D (block_lba s block) (block_sectors s) (disk s))"

definition write_block :: "'d disk_ops \<Rightarrow> u64 \<Rightarrow> bytes \<Rightarrow> 'd ext2_t \<Rightarrow> bool \<times> 'd ext2_t" where
  "write_block D block buf s =
     (if end_lba s < block_lba s block then (False, s)
      else let (ok, d) = disk_write D (block_lba s block) (block_sectors s) buf (disk s) in (ok, s\<lparr>disk := d\<rparr>))"

text \<open>The table block and the offset of an inode, computed alike by \<^verbatim>\<open>get_inode\<close> and \<^verbatim>\<open>set_inode\<close>.\<close>

definition inode_place :: "u64 \<Rightarrow> 'd ext2_t \<Rightarrow> (u64 \<times> nat) outcome" where
  "inode_place index s =
     (let per = ucast (s_inodes_per_group (superblock s)) :: u64
      in if per = 0 \<or> block_size s = 0 then Inl Undefined
         else let block_group = (index - 1) div per;
                  lcl_inode_off = (index - 1) mod per * ucast (s_inode_size (superblock s));
                  lcl_inode_blk = lcl_inode_off div block_size s
              in if length (bgdt s) < bg_off block_group + SIZEOF_BG_DESC then Inl Undefined
                 else Inr (ucast (bg_inode_table (bgdt s) block_group) + lcl_inode_blk, unat (lcl_inode_off mod block_size s)))"

definition get_inode :: "'d disk_ops \<Rightarrow> u64 \<Rightarrow> 'd ext2_t \<Rightarrow> bytes option outcome" where
  "get_inode D index s =
     (case inode_place index s of Inl e \<Rightarrow> Inl e
      | Inr (b, off) \<Rightarrow>
          (case read_block D b s of
             None \<Rightarrow> Inr None
           | Some buf \<Rightarrow> if length buf < off + SIZEOF_INODE then Inl Undefined
                         else Inr (Some (take SIZEOF_INODE (drop off buf)))))"

definition set_inode :: "'d disk_ops \<Rightarrow> u64 \<Rightarrow> bytes \<Rightarrow> 'd ext2_t \<Rightarrow> (bool \<times> 'd ext2_t) outcome" where
  "set_inode D index ino s =
     (case inode_place index s of Inl e \<Rightarrow> Inl e
      | Inr (b, off) \<Rightarrow>
          (case read_block D b s of
             None \<Rightarrow> Inr (False, s)
           | Some buf \<Rightarrow> if length buf < off + SIZEOF_INODE then Inl Undefined
                         else Inr (write_block D b (overlay off ino buf) s)))"

subsection \<open>Allocation\<close>

definition bgdt_shift :: "bytes \<Rightarrow> nat" where
  "bgdt_shift sb = unat (1 + s_log_block_size sb)"

definition bgdt_size :: "bytes \<Rightarrow> u64" where
  "bgdt_size sb =
     (let n = ucast (1 + s_blocks_count sb div s_blocks_per_group sb) * of_nat SIZEOF_BG_DESC;
          adj = n mod 512
      in if adj \<noteq> 0 then n + (512 - adj) else n)"

definition bgdt_start_lba :: "u64 \<Rightarrow> bytes \<Rightarrow> u64" where
  "bgdt_start_lba start sb = start + ucast (push_bit (bgdt_shift sb) (1 :: u32))"

definition sync_meta :: "'d disk_ops \<Rightarrow> 'd ext2_t \<Rightarrow> 'd ext2_t outcome" where
  "sync_meta D s =
     (let d1 = snd (disk_write D (start_lba s + SUPERBLOCK_LBA) SUPERBLOCK_SECTORS (superblock s) (disk s))
      in if 32 \<le> bgdt_shift (superblock s) \<or> s_blocks_per_group (superblock s) = 0 then Inl Undefined
         else Inr (s\<lparr>disk := snd (disk_write D (bgdt_start_lba (start_lba s) (superblock s))
                       (ucast (bgdt_size (superblock s) div 512)) (bgdt s) d1)\<rparr>))"

text \<open>\<^verbatim>\<open>alloc_block\<close> and \<^verbatim>\<open>alloc_inode\<close> have one body over different members.\<close>

datatype bitmap_kind = Blocks | Inodes

fun bitmap_block :: "bitmap_kind \<Rightarrow> bytes \<Rightarrow> u64 \<Rightarrow> u64" where
  "bitmap_block Blocks tab g = ucast (bg_block_bitmap tab g)"
| "bitmap_block Inodes tab g = ucast (bg_inode_bitmap tab g)"

fun per_group :: "bitmap_kind \<Rightarrow> bytes \<Rightarrow> u32" where
  "per_group Blocks sb = s_blocks_per_group sb"
| "per_group Inodes sb = s_inodes_per_group sb"

fun bg_free_off :: "bitmap_kind \<Rightarrow> u64 \<Rightarrow> nat" where
  "bg_free_off Blocks g = bg_off g + 12"
| "bg_free_off Inodes g = bg_off g + 14"

fun s_free_off :: "bitmap_kind \<Rightarrow> nat" where
  "s_free_off Blocks = 12"
| "s_free_off Inodes = 16"

definition bg_free :: "bitmap_kind \<Rightarrow> bytes \<Rightarrow> u64 \<Rightarrow> u16" where
  "bg_free k tab g = field16 tab (bg_free_off k g)"

text \<open>The loop over the words of a bitmap: the offset and the block of the first word with a clear bit.\<close>

partial_function (option) bitmap_scan :: "'d disk_ops \<Rightarrow> u64 \<Rightarrow> u64 \<Rightarrow> u64 \<Rightarrow> bytes option \<Rightarrow> 'd ext2_t
    \<Rightarrow> (u64 \<times> bytes) option outcome option" where
  "bitmap_scan D base bitmap_bytes off bitmap s =
     (if \<not> off < bitmap_bytes then done_with None
      else if block_size s = 0 then failed Undefined
      else let fresh = (off mod block_size s = 0); i = unat (off mod block_size s)
           in case (if fresh then read_block D (base + off div block_size s) s else bitmap) of
                None \<Rightarrow> if fresh then bitmap_scan D base bitmap_bytes (off + (block_size s - 8) + 8) None s else failed Undefined
              | Some b \<Rightarrow>
                  if length b < i + 8 then failed Undefined
                  else if NOT (field64 b i) = 0 then bitmap_scan D base bitmap_bytes (off + 8) (Some b) s
                  else done_with (Some (off, b)))"

definition low_bit :: "u64 \<Rightarrow> nat" where
  "low_bit word = (case find (bit word) [0 ..< 64] of None \<Rightarrow> 64 | Some i \<Rightarrow> i)"

text \<open>Taking the first clear bit of a word.\<close>

definition take_bit_at :: "'d disk_ops \<Rightarrow> bitmap_kind \<Rightarrow> u64 \<Rightarrow> u64 \<Rightarrow> bytes \<Rightarrow> 'd ext2_t \<Rightarrow> (u32 \<times> 'd ext2_t) outcome" where
  "take_bit_at D k grp off b s =
     (let i = unat (off mod block_size s);
          n = low_bit (NOT (field64 b i));
          b' = put64 i (field64 b i OR push_bit n 1) b;
          s1 = s\<lparr>bgdt := put16 (bg_free_off k grp) (bg_free k (bgdt s) grp - 1) (bgdt s),
                 superblock := put32 (s_free_off k) (field32 (superblock s) (s_free_off k) - 1) (superblock s)\<rparr>;
          s2 = snd (write_block D (bitmap_block k (bgdt s) grp + off div block_size s) b' s1)
      in case sync_meta D s2 of Inl e \<Rightarrow> Inl e
         | Inr s3 \<Rightarrow> Inr (ucast (grp * ucast (per_group k (superblock s)) + off * 8 + of_nat n
                            + (if k = Inodes then 1 else 0)), s3))"

partial_function (option) alloc_groups :: "'d disk_ops \<Rightarrow> bitmap_kind \<Rightarrow> u64 \<Rightarrow> u64 \<Rightarrow> u64 \<Rightarrow> 'd ext2_t
    \<Rightarrow> (u32 \<times> 'd ext2_t) outcome option" where
  "alloc_groups D k num_groups start_group grp s =
     (if length (bgdt s) < bg_off grp + SIZEOF_BG_DESC then failed Undefined
      else andthen
        (if bg_free k (bgdt s) grp \<noteq> 0
         then bitmap_scan D (bitmap_block k (bgdt s) grp) (ucast (per_group k (superblock s) div 8)) 0 None s
         else done_with None)
        (\<lambda>found. case found of
           Some (off, b) \<Rightarrow> Some (take_bit_at D k grp off b s)
         | None \<Rightarrow> let grp' = (if grp + 1 = num_groups - 1 then 0 else grp + 1)
                   in if start_group = grp' then done_with (0, s) else alloc_groups D k num_groups start_group grp' s))"

definition alloc_bit :: "'d disk_ops \<Rightarrow> bitmap_kind \<Rightarrow> u64 \<Rightarrow> 'd ext2_t \<Rightarrow> (u32 \<times> 'd ext2_t) outcome option" where
  "alloc_bit D k grp s =
     (let sb = superblock s
      in if s_inodes_per_group sb = 0 then failed Undefined
         else alloc_groups D k (ucast (s_inodes_count sb div s_inodes_per_group sb)) grp grp s)"

definition alloc_block :: "'d disk_ops \<Rightarrow> u64 \<Rightarrow> 'd ext2_t \<Rightarrow> (u32 \<times> 'd ext2_t) outcome option" where
  "alloc_block D = alloc_bit D Blocks"

definition alloc_inode :: "'d disk_ops \<Rightarrow> u64 \<Rightarrow> 'd ext2_t \<Rightarrow> (u32 \<times> 'd ext2_t) outcome option" where
  "alloc_inode D = alloc_bit D Inodes"

definition alloc_and_zero_block :: "'d disk_ops \<Rightarrow> u64 \<Rightarrow> 'd ext2_t \<Rightarrow> (u32 \<times> 'd ext2_t) outcome option" where
  "alloc_and_zero_block D grp s =
     andthen (alloc_block D grp s)
       (\<lambda>(block, s1). if block = 0 then done_with (0, s1)
          else done_with (block, snd (write_block D (ucast block) (replicate (unat (block_size s)) 0) s1)))"

subsection \<open>The block map of an inode\<close>

text \<open>Where the number of a file's block stands: the slot of the inode and the indices in the indirect blocks below it, which
  hold \<open>n\<close> numbers each.\<close>

definition block_path :: "u64 \<Rightarrow> u64 \<Rightarrow> (nat \<times> u64 list) option" where
  "block_path n index =
     (if index < DIRECT_BLOCKS then Some (unat index, [])
      else let i1 = index - DIRECT_BLOCKS; i2 = i1 - n; i3 = i2 - n * n
           in if i1 < n then Some (INDIR_1, [i1])
              else if i2 < n * n then Some (INDIR_2, [i2 div n, i2 mod n])
              else if i3 < n * n * n then Some (INDIR_3, [i3 div (n * n), i3 mod (n * n) div n, i3 mod n])
              else None)"

fun follow :: "'d disk_ops \<Rightarrow> u64 list \<Rightarrow> u64 \<Rightarrow> 'd ext2_t \<Rightarrow> (ext2_block_state_t \<times> u64) outcome" where
  "follow D [] block s = Inr (if block = 0 then BLOCK_SPARSE else BLOCK_OK, block)"
| "follow D (i # idxs) block s =
     (if block = 0 then Inr (BLOCK_SPARSE, 0)
      else case read_block D block s of
             None \<Rightarrow> Inr (BLOCK_ERROR, block)
           | Some buf \<Rightarrow> if length buf < 4 * unat i + 4 then Inl Undefined
                         else follow D idxs (ucast (field32 buf (4 * unat i))) s)"

definition get_block :: "'d disk_ops \<Rightarrow> bytes \<Rightarrow> u64 \<Rightarrow> 'd ext2_t \<Rightarrow> (ext2_block_state_t \<times> u64) outcome" where
  "get_block D ino index s =
     (case block_path (block_size s div 4) index of
        None \<Rightarrow> Inr (BLOCK_ERROR, 0)
      | Some (k, idxs) \<Rightarrow> follow D idxs (ucast (i_block ino k)) s)"

definition charge :: "'d ext2_t \<Rightarrow> bytes \<Rightarrow> bytes" where
  "charge s ino = put32 28 (i_blocks ino + ucast (block_size s div 512)) ino"

definition root_step :: "'d disk_ops \<Rightarrow> u64 \<Rightarrow> nat \<Rightarrow> bytes \<Rightarrow> 'd ext2_t \<Rightarrow> (u32 \<times> bytes \<times> 'd ext2_t) outcome option" where
  "root_step D grp k ino s =
     (if i_block ino k \<noteq> 0 then done_with (i_block ino k, ino, s)
      else andthen (alloc_and_zero_block D grp s)
        (\<lambda>(block, s1). done_with (block, if block = 0 then ino else charge s (set_i_block k block ino), s1)))"

fun child_steps :: "'d disk_ops \<Rightarrow> u64 \<Rightarrow> u64 list \<Rightarrow> u32 \<Rightarrow> bytes \<Rightarrow> 'd ext2_t \<Rightarrow> (u32 \<times> bytes \<times> 'd ext2_t) outcome option" where
  "child_steps D grp [] block ino s = done_with (block, ino, s)"
| "child_steps D grp (i # idxs) old_block ino s =
     (if old_block = 0 then done_with (0, ino, s)
      else case read_block D (ucast old_block) s of
             None \<Rightarrow> done_with (0, ino, s)
           | Some buf \<Rightarrow>
               if length buf < 4 * unat i + 4 then failed Undefined
               else if field32 buf (4 * unat i) \<noteq> 0 then child_steps D grp idxs (field32 buf (4 * unat i)) ino s
               else andthen (alloc_and_zero_block D grp s)
                 (\<lambda>(block, s1). child_steps D grp idxs block (if block = 0 then ino else charge s ino)
                    (snd (write_block D (ucast old_block) (put32 (4 * unat i) block buf) s1))))"

definition assign_block :: "'d disk_ops \<Rightarrow> u64 \<Rightarrow> u64 \<Rightarrow> bytes \<Rightarrow> bool \<Rightarrow> 'd ext2_t \<Rightarrow> (u64 \<times> bytes \<times> 'd ext2_t) outcome option" where
  "assign_block D inode_idx index ino locked s =
     (let per = ucast (s_inodes_per_group (superblock s)) :: u64; grp = (inode_idx - 1) div per
      in if per = 0 then failed Undefined
         else if \<not> locked \<and> lock s then None
         else let s0 = (if locked then s else s\<lparr>lock := True\<rparr>)
              in case get_inode D inode_idx s0 of
                   Inl e \<Rightarrow> failed e
                 | Inr None \<Rightarrow> done_with (0, ino, s0)
                 | Inr (Some ino0) \<Rightarrow>
                     andthen (case block_path (block_size s div 4) index of
                                None \<Rightarrow> done_with (0, ino0, s0)
                              | Some (k, idxs) \<Rightarrow>
                                  andthen (root_step D grp k ino0 s0)
                                    (\<lambda>(block, ino1, s1). child_steps D grp idxs block ino1 s1))
                       (\<lambda>(block, ino2, s2).
                          case set_inode D inode_idx ino2 s2 of
                            Inl e \<Rightarrow> failed e
                          | Inr (_, s3) \<Rightarrow> done_with (ucast block, ino2, if locked then s3 else s3\<lparr>lock := False\<rparr>)))"

subsection \<open>Files\<close>

record u_stat =
  st_size :: u64
  st_ino :: u64
  st_mode :: u16
  st_blksize :: u64
  st_blocks :: u32
  st_atim :: u32
  st_mtim :: u32
  st_ctim :: u32
  st_nlink :: u16
  st_dev :: u64

definition ext2_get_seek :: "ext2_inode_handle_t \<Rightarrow> 'd ext2_t \<Rightarrow> u64" where
  "ext2_get_seek h s = seek_block h * block_size s + seek h"

definition ext2_seek :: "ext2_inode_handle_t \<Rightarrow> u64 \<Rightarrow> 'd ext2_t \<Rightarrow> (file_status_t \<times> ext2_inode_handle_t) outcome" where
  "ext2_seek h pos s =
     (if block_size s = 0 then Inl Undefined
      else Inr (FILE_OK, h\<lparr>seek_block := pos div block_size s, seek := pos mod block_size s\<rparr>))"

definition ext2_stat :: "'d disk_ops \<Rightarrow> ext2_inode_handle_t \<Rightarrow> 'd ext2_t \<Rightarrow> (file_status_t \<times> u_stat option) outcome" where
  "ext2_stat D h s =
     (case get_inode D (inode_index h) s of
        Inl e \<Rightarrow> Inl e
      | Inr None \<Rightarrow> Inr (FILE_ERROR, None)
      | Inr (Some ino) \<Rightarrow>
          Inr (FILE_OK, Some \<lparr>st_size = inode_size ino, st_ino = inode_index h, st_mode = i_mode ino, st_blksize = block_size s,
            st_blocks = i_blocks ino, st_atim = i_atime ino, st_mtim = i_mtime ino, st_ctim = i_ctime ino,
            st_nlink = i_links_count ino, st_dev = devid s\<rparr>))"

text \<open>The length of one transfer: the rest of the request, not beyond the block.\<close>

definition chunk_len :: "u64 \<Rightarrow> u64 \<Rightarrow> u64 \<Rightarrow> u64" where
  "chunk_len bs count pos = (let len = (if count < bs then count else bs) in if bs < len + pos then bs - pos else len)"

definition advance :: "u64 \<Rightarrow> u64 \<Rightarrow> ext2_inode_handle_t \<Rightarrow> ext2_inode_handle_t" where
  "advance bs len h =
     (if seek h + len = bs then h\<lparr>seek := 0, seek_block := seek_block h + 1\<rparr> else h\<lparr>seek := seek h + len\<rparr>)"

partial_function (option) read_loop :: "'d disk_ops \<Rightarrow> bytes \<Rightarrow> u64 \<Rightarrow> u64 \<Rightarrow> bytes \<Rightarrow> ext2_inode_handle_t \<Rightarrow> 'd ext2_t
    \<Rightarrow> (bytes \<times> ext2_inode_handle_t) outcome option" where
  "read_loop D ino count full_seek buf h s =
     (if count = 0 \<or> inode_size ino \<le> full_seek then done_with (buf, h)
      else let bs = block_size s; len = chunk_len bs count (seek h)
           in case get_block D ino (seek_block h) s of
                Inl e \<Rightarrow> failed e
              | Inr (BLOCK_OK, block) \<Rightarrow>
                  (case read_block D block s of
                     None \<Rightarrow> done_with (buf, h)
                   | Some b \<Rightarrow>
                       let last = (inode_size ino \<le> len + full_seek);
                           len1 = (if last then inode_size ino - full_seek else len)
                       in if length b < unat (seek h) + unat len1 then failed Undefined
                          else read_loop D ino ((if last then 0 else count) - len1) (full_seek + len1)
                                 (buf @ take (unat len1) (drop (unat (seek h)) b)) (advance bs len1 h) s)
              | Inr (BLOCK_SPARSE, block) \<Rightarrow>
                  read_loop D ino (count - len) (full_seek + len) (buf @ replicate (unat len) 0) (advance bs len h) s
              | Inr (BLOCK_ERROR, block) \<Rightarrow> done_with (buf, h))"

text \<open>The bytes stored at the start of the caller's buffer; their number is the result.\<close>

definition ext2_read :: "'d disk_ops \<Rightarrow> ext2_inode_handle_t \<Rightarrow> u64 \<Rightarrow> 'd ext2_t \<Rightarrow> (bytes \<times> ext2_inode_handle_t) outcome option" where
  "ext2_read D h count s =
     (case get_inode D (inode_index h) s of
        Inl e \<Rightarrow> failed e
      | Inr None \<Rightarrow> done_with ([], h)
      | Inr (Some ino) \<Rightarrow> read_loop D ino count (ext2_get_seek h s) [] h s)"

text \<open>The loop of \<^verbatim>\<open>ext2_write\<close>; \<open>data\<close> is the rest of the caller's buffer.\<close>

partial_function (option) write_loop :: "'d disk_ops \<Rightarrow> bytes \<Rightarrow> bytes \<Rightarrow> u64 \<Rightarrow> u64 \<Rightarrow> ext2_inode_handle_t \<Rightarrow> 'd ext2_t
    \<Rightarrow> (u64 \<times> u64 \<times> bytes \<times> ext2_inode_handle_t \<times> 'd ext2_t) outcome option" where
  "write_loop D data ino full_seek written h s =
     (if data = [] then done_with (written, full_seek, ino, h, s)
      else let bs = block_size s; len = chunk_len bs (of_nat (length data)) (seek h)
           in case get_block D ino (seek_block h) s of
                Inl e \<Rightarrow> failed e
              | Inr (BLOCK_ERROR, block) \<Rightarrow> done_with (written, full_seek, ino, h, s)
              | Inr (st, block) \<Rightarrow>
                  andthen (if st = BLOCK_SPARSE then assign_block D (inode_index h) (seek_block h) ino False s else done_with (block, ino, s))
                    (\<lambda>(block, ino1, s1).
                       if block = 0 then done_with (written, full_seek, ino1, h, s1)
                       else case read_block D block s1 of
                              None \<Rightarrow> done_with (written, full_seek, ino1, h, s1)
                            | Some b \<Rightarrow>
                                if length b < unat (seek h) + unat len \<or> length data < unat len then failed Undefined
                                else let (ok, s2) = write_block D block (overlay (unat (seek h)) (take (unat len) data) b) s1
                                     in if \<not> ok then done_with (written, full_seek, ino1, h, s2)
                                        else write_loop D (drop (unat len) data) ino1 (full_seek + len) (written + len)
                                               (advance bs len h) s2))"

definition set_inode_size :: "u64 \<Rightarrow> bytes \<Rightarrow> bytes" where
  "set_inode_size n ino = put32 108 (ucast (drop_bit 32 n)) (put32 4 (ucast n) ino)"

definition ext2_write :: "'d disk_ops \<Rightarrow> ext2_inode_handle_t \<Rightarrow> bytes \<Rightarrow> 'd ext2_t
    \<Rightarrow> (u64 \<times> ext2_inode_handle_t \<times> 'd ext2_t) outcome option" where
  "ext2_write D h data s =
     (case get_inode D (inode_index h) s of
        Inl e \<Rightarrow> failed e
      | Inr None \<Rightarrow> done_with (0, h, s)
      | Inr (Some ino) \<Rightarrow>
          andthen (write_loop D data ino (ext2_get_seek h s) 0 h s)
            (\<lambda>(written, full_seek, ino1, h1, s1).
               if inode_size ino < full_seek
               then (case set_inode D (inode_index h1) (set_inode_size full_seek ino1) s1 of
                       Inl e \<Rightarrow> failed e
                     | Inr (_, s2) \<Rightarrow> done_with (written, h1, s2))
               else done_with (written, h1, s1)))"

subsection \<open>Directories\<close>

record dir_info_t =
  inode_num :: u64
  seek_pos :: u64
  rec_len :: u16
  dtype :: u8
  dname :: bytes

definition ext2_open_dir :: "'d disk_ops \<Rightarrow> ext2_inode_handle_t \<Rightarrow> 'd ext2_t \<Rightarrow> (file_status_t \<times> ext2_inode_handle_t) outcome" where
  "ext2_open_dir D h s =
     (case ext2_stat D h s of
        Inl e \<Rightarrow> Inl e
      | Inr (FILE_OK, Some info) \<Rightarrow>
          if st_mode info AND S_IFDIR = 0 then Inr (FILE_NOT_DIR, h)
          else Inr (FILE_OK, h\<lparr>seek := 0, seek_block := 0, ext2_mode := ext2_mode h OR MODE_DIR\<rparr>)
      | Inr _ \<Rightarrow> Inr (FILE_ERROR, h))"

definition ext2_reset_dir :: "ext2_inode_handle_t \<Rightarrow> ext2_inode_handle_t" where
  "ext2_reset_dir h = h\<lparr>seek := 0, seek_block := 0, ext2_mode := ext2_mode h AND NOT MODE_DIR\<rparr>"

definition ext2_next_dir :: "ext2_inode_handle_t \<Rightarrow> 'd ext2_t \<Rightarrow> file_status_t \<times> ext2_inode_handle_t" where
  "ext2_next_dir h s =
     (FILE_OK, if block_size s \<le> next_seek h then h\<lparr>seek := 0, seek_block := seek_block h + 1\<rparr> else h\<lparr>seek := next_seek h\<rparr>)"

text \<open>Members of \<^verbatim>\<open>struct ext2_ll_dir_entry_t\<close> at an offset.\<close>

definition entry_inode :: "bytes \<Rightarrow> nat \<Rightarrow> u32" where "entry_inode b off = field32 b off"
definition entry_rec_len :: "bytes \<Rightarrow> nat \<Rightarrow> u16" where "entry_rec_len b off = field16 b (off + 4)"
definition entry_name_len :: "bytes \<Rightarrow> nat \<Rightarrow> nat" where "entry_name_len b off = unat (b ! (off + 6))"
definition entry_name :: "bytes \<Rightarrow> nat \<Rightarrow> bytes" where
  "entry_name b off = take (entry_name_len b off) (drop (off + 8) b)"

partial_function (option) read_dir_loop :: "'d disk_ops \<Rightarrow> bytes \<Rightarrow> dir_info_t \<Rightarrow> ext2_inode_handle_t \<Rightarrow> 'd ext2_t
    \<Rightarrow> (file_status_t \<times> dir_info_t \<times> ext2_inode_handle_t) outcome option" where
  "read_dir_loop D ino info h s =
     (let info1 = info\<lparr>seek_pos := ext2_get_seek h s\<rparr>; off = unat (seek h)
      in if inode_size ino \<le> seek_pos info1 then done_with (FILE_DNE, info1, h)
         else case get_block D ino (seek_block h) s of
                Inl e \<Rightarrow> failed e
              | Inr (BLOCK_ERROR, block) \<Rightarrow> done_with (FILE_ERROR, info1, h)
              | Inr (BLOCK_SPARSE, block) \<Rightarrow> read_dir_loop D ino info1 (h\<lparr>seek_block := seek_block h + 1, seek := 0\<rparr>) s
              | Inr (BLOCK_OK, block) \<Rightarrow>
                  (case read_block D block s of
                     None \<Rightarrow> done_with (FILE_ERROR, info1, h)
                   | Some b \<Rightarrow>
                       if length b < off + 8 then failed Undefined
                       else let h1 = h\<lparr>next_seek := seek h + ucast (entry_rec_len b off)\<rparr>
                            in if entry_inode b off = 0 then read_dir_loop D ino info1 (snd (ext2_next_dir h1 s)) s
                               else if length b < off + 8 + entry_name_len b off then failed Undefined
                               else done_with (FILE_OK, info1\<lparr>inode_num := ucast (entry_inode b off), rec_len := entry_rec_len b off,
                                                dtype := b ! (off + 7), dname := entry_name b off\<rparr>, h1)))"

definition ext2_read_dir :: "'d disk_ops \<Rightarrow> dir_info_t \<Rightarrow> ext2_inode_handle_t \<Rightarrow> 'd ext2_t
    \<Rightarrow> (file_status_t \<times> dir_info_t \<times> ext2_inode_handle_t) outcome option" where
  "ext2_read_dir D info h s =
     (if ext2_mode h AND MODE_DIR = 0 then done_with (FILE_BAD_FLAGS, info, h)
      else case get_inode D (inode_index h) s of
             Inl e \<Rightarrow> failed e
           | Inr None \<Rightarrow> done_with (FILE_ERROR, info, h)
           | Inr (Some ino) \<Rightarrow> read_dir_loop D ino info h s)"

definition ext2_read_dir_next :: "'d disk_ops \<Rightarrow> dir_info_t \<Rightarrow> ext2_inode_handle_t \<Rightarrow> 'd ext2_t
    \<Rightarrow> (file_status_t \<times> dir_info_t \<times> ext2_inode_handle_t) outcome option" where
  "ext2_read_dir_next D info h s =
     andthen (ext2_read_dir D info h s)
       (\<lambda>(sts, info1, h1). if sts \<noteq> FILE_OK then done_with (sts, info1, h1)
          else let (sts2, h2) = ext2_next_dir h1 s in done_with (sts2, info1, h2))"

text \<open>The loops over the entries of a directory compare C strings: a name ends at its first zero byte.  The result says whether an
  entry of that name was found, and leaves it in \<^verbatim>\<open>info\<close>.\<close>

definition cname :: "dir_info_t \<Rightarrow> bytes" where
  "cname info = takeWhile (\<lambda>c. c \<noteq> 0) (dname info)"

partial_function (option) search_dir :: "'d disk_ops \<Rightarrow> bytes \<Rightarrow> dir_info_t \<Rightarrow> ext2_inode_handle_t \<Rightarrow> 'd ext2_t
    \<Rightarrow> (bool \<times> dir_info_t \<times> ext2_inode_handle_t) outcome option" where
  "search_dir D name info h s =
     andthen (ext2_read_dir_next D info h s)
       (\<lambda>(sts, info1, h1). if sts \<noteq> FILE_OK then done_with (False, info1, h1)
          else if cname info1 = name then done_with (True, info1, h1)
          else search_dir D name info1 h1 s)"

partial_function (option) reduce_loop :: "'d disk_ops \<Rightarrow> bytes \<Rightarrow> dir_info_t \<Rightarrow> ext2_inode_handle_t \<Rightarrow> 'd ext2_t
    \<Rightarrow> (bytes \<times> ext2_inode_handle_t) outcome option" where
  "reduce_loop D p info h s =
     (if p = [] then done_with (p, h)
      else case ext2_open_dir D h s of
             Inl e \<Rightarrow> failed e
           | Inr (sts, h1) \<Rightarrow>
               if sts \<noteq> FILE_OK then done_with (p, h1)
               else let comp = takeWhile (\<lambda>c. c \<noteq> SLASH) p
                    in andthen (search_dir D comp info h1 s)
                         (\<lambda>(found, info1, h2).
                            if \<not> found then done_with (p, h2)
                            else let q = drop (length comp) p
                                 in reduce_loop D (if q \<noteq> [] then tl q else q) info1
                                      ((ext2_reset_dir h2)\<lparr>inode_index := inode_num info1\<rparr>) s))"

text \<open>\<open>h0\<close> and \<open>info0\<close> are what the memory of the new handle and of the local variable held.\<close>

definition reduce_path :: "'d disk_ops \<Rightarrow> ext2_inode_handle_t \<Rightarrow> dir_info_t \<Rightarrow> bytes \<Rightarrow> 'd ext2_t
    \<Rightarrow> (bytes \<times> ext2_inode_handle_t) outcome option" where
  "reduce_path D h0 info0 p s =
     andthen (reduce_loop D p info0 (h0\<lparr>inode_index := EXT2_ROOT_INO, ext2_mode := 0\<rparr>) s)
       (\<lambda>(q, h). done_with (q, ext2_reset_dir h))"

definition new_inode :: bytes where
  "new_inode = put16 26 1 (put16 0 EXT2_S_IFREG (replicate SIZEOF_INODE 0))"

definition dir_entry :: "u64 \<Rightarrow> u64 \<Rightarrow> bytes \<Rightarrow> bytes" where
  "dir_entry index bs name =
     le_bytes 4 (unat (ucast index :: u32)) @ le_bytes 2 (unat (ucast bs :: u16))
       @ [of_nat (length name), ext2_dt_conv ! EXT2_FT_REG_FILE] @ take (unat (of_nat (length name) :: u8)) name"

text \<open>The loop that looks for a hole in the parent directory and puts the entry there.\<close>

partial_function (option) insert_entry :: "'d disk_ops \<Rightarrow> u64 \<Rightarrow> bytes \<Rightarrow> bytes \<Rightarrow> ext2_inode_handle_t \<Rightarrow> 'd ext2_t
    \<Rightarrow> (file_status_t \<times> 'd ext2_t) outcome option" where
  "insert_entry D index name pino ph s =
     (case get_block D pino (seek_block ph) s of
        Inl e \<Rightarrow> failed e
      | Inr (BLOCK_ERROR, _) \<Rightarrow> done_with (FILE_ERROR, s)
      | Inr (BLOCK_OK, _) \<Rightarrow> insert_entry D index name pino (ph\<lparr>seek_block := seek_block ph + 1\<rparr>) s
      | Inr (BLOCK_SPARSE, _) \<Rightarrow>
          andthen (assign_block D (inode_index ph) (seek_block ph) pino True s)
            (\<lambda>(block, pino1, s1).
               if block = 0 then done_with (FILE_ERROR, s1)
               else case read_block D block s1 of
                      None \<Rightarrow> failed Undefined
                    | Some b \<Rightarrow>
                        let e = dir_entry index (block_size s) name
                        in if length b < length e then failed Undefined
                           else let s2 = snd (write_block D block (overlay 0 e b) s1);
                                    pino2 = put32 4 (i_size pino1 + ucast (block_size s)) pino1
                                in (case set_inode D (inode_index ph) pino2 s2 of
                                      Inl err \<Rightarrow> failed err
                                    | Inr (_, s3) \<Rightarrow> done_with (FILE_OK, s3))))"

definition ext2_create :: "'d disk_ops \<Rightarrow> ext2_inode_handle_t \<Rightarrow> dir_info_t \<Rightarrow> bytes \<Rightarrow> 'd ext2_t
    \<Rightarrow> (file_status_t \<times> 'd ext2_t) outcome option" where
  "ext2_create D h0 info0 p s =
     andthen (reduce_path D h0 info0 p s)
       (\<lambda>(name, h).
          if name = [] then done_with (FILE_BUSY, s)
          else if SLASH \<in> set name then done_with (FILE_DNE, s)
          else case ext2_stat D h s of
                 Inl e \<Rightarrow> failed e
               | Inr (FILE_OK, Some info) \<Rightarrow>
                   if st_mode info AND S_IFDIR = 0 then done_with (FILE_NO_SUPPORT, s)
                   else if lock s then None
                   else let s1 = s\<lparr>lock := True\<rparr>
                        in (case ext2_open_dir D h s1 of
                              Inl e \<Rightarrow> failed e
                            | Inr (_, ih) \<Rightarrow>
                                andthen (search_dir D name info0 ih s1)
                                  (\<lambda>(found, _, ih1).
                                     if found then done_with (FILE_BUSY, s1\<lparr>lock := False\<rparr>)
                                     else let per = ucast (s_inodes_per_group (superblock s1)) :: u64
                                          in if per = 0 then failed Undefined
                                             else andthen (alloc_inode D ((inode_index h - 1) div per) s1)
                                               (\<lambda>(index, s2).
                                                  if index = 0 then done_with (FILE_ERROR, s2\<lparr>lock := False\<rparr>)
                                                  else (case get_inode D (inode_index h) s2 of
                                                         Inl e \<Rightarrow> failed e
                                                       | Inr None \<Rightarrow> done_with (FILE_ERROR, s2\<lparr>lock := False\<rparr>)
                                                       | Inr (Some pino) \<Rightarrow>
                                                           (case set_inode D (ucast index) new_inode s2 of
                                                              Inl e \<Rightarrow> failed e
                                                            | Inr (_, s3) \<Rightarrow>
                                                                (case ext2_open_dir D h s3 of
                                                                   Inl e \<Rightarrow> failed e
                                                                 | Inr (_, ph) \<Rightarrow>
                                                                     andthen (insert_entry D (ucast index) name pino ph s3)
                                                                       (\<lambda>(sts, s4). done_with (sts, s4\<lparr>lock := False\<rparr>))))))))
               | Inr (sts, _) \<Rightarrow> done_with (sts, s))"

partial_function (option) ext2_open :: "'d disk_ops \<Rightarrow> ext2_inode_handle_t \<Rightarrow> dir_info_t \<Rightarrow> bytes \<Rightarrow> u32 \<Rightarrow> 'd ext2_t
    \<Rightarrow> (ext2_inode_handle_t option \<times> 'd ext2_t) outcome option" where
  "ext2_open D h0 info0 p flags s =
     andthen (reduce_path D h0 info0 p s)
       (\<lambda>(q, h).
          if q = [] then done_with (Some h, s)
          else if flags AND O_CREAT = 0 then done_with (None, s)
          else andthen (ext2_create D h0 info0 q s)
            (\<lambda>(sts, s1). if sts = FILE_OK then ext2_open D h0 info0 q (flags AND O_CREAT) s1 else done_with (None, s1)))"

definition ext2_dup :: "ext2_inode_handle_t \<Rightarrow> ext2_inode_handle_t" where
  "ext2_dup h = h"

subsection \<open>Mounting\<close>

text \<open>\<open>mount\<close> stands for the mount of the root file system and the start of the first process.  The block size is a 32-bit shift.\<close>

definition ext2_attempt_init :: "'d disk_ops \<Rightarrow> ('d ext2_t \<Rightarrow> 'm \<Rightarrow> 'm) \<Rightarrow> u64 \<Rightarrow> u64 \<Rightarrow> u64 \<Rightarrow> 'd \<Rightarrow> 'm \<Rightarrow> ('d ext2_t option \<times> 'm) outcome" where
  "ext2_attempt_init D mount start stop dev d m =
     (case disk_read D (start + SUPERBLOCK_LBA) SUPERBLOCK_SECTORS d of
        None \<Rightarrow> Inr (None, m)
      | Some sb \<Rightarrow>
          if s_magic sb \<noteq> EXT2_SUPER_MAGIC then Inr (None, m)
          else if 32 \<le> bgdt_shift sb \<or> s_blocks_per_group sb = 0 then Inl Undefined
          else (case disk_read D (bgdt_start_lba start sb) (ucast (bgdt_size sb div 512)) d of
                  None \<Rightarrow> Inr (None, m)
                | Some tab \<Rightarrow>
                    if 32 \<le> unat (s_log_block_size sb) then Inl Undefined
                    else let s = \<lparr>start_lba = start, end_lba = stop, superblock = sb, bgdt = tab, disk = d,
                                  block_size = ucast (push_bit (unat (s_log_block_size sb)) (1024 :: u32)), devid = dev, lock = False\<rparr>
                         in Inr (Some s, if s_volume_name sb = label_rootfs then mount s m else m)))"

end
