(* ===== verification/Ext2Disk.thy ===== *)
theory Ext2Disk
  imports Ext2
begin

section \<open>The ext2 driver: blocks, inodes and files that are read\<close>

text \<open>
  What the driver sees of the disk.  \<open>good_disk\<close> says that a disk without errors reads back what was written; \<open>byt\<close> is the
  byte at an address of the disk.  Blocks of the partition are then the lists \<open>blk\<close>, and reading and writing a block is looking up and
  updating that list.
\<close>

definition good_disk :: "'d disk_ops \<Rightarrow> ('d \<Rightarrow> nat \<Rightarrow> u8) \<Rightarrow> bool" where
  "good_disk D byt \<longleftrightarrow>
     (\<forall>l n d. disk_read D l n d = Some (map (byt d) [512 * unat l ..< 512 * unat l + 512 * unat n])) \<and>
     (\<forall>l n buf d. 512 * unat n \<le> length buf \<longrightarrow>
        fst (disk_write D l n buf d) \<and>
        byt (snd (disk_write D l n buf d)) = (\<lambda>a. if 512 * unat l \<le> a \<and> a < 512 * unat l + 512 * unat n then buf ! (a - 512 * unat l) else byt d a))"

lemma good_disk_read:
  "good_disk D byt \<Longrightarrow> disk_read D l n d = Some (map (byt d) [512 * unat l ..< 512 * unat l + 512 * unat n])"
  by (simp add: good_disk_def)

lemma good_disk_write:
  assumes "good_disk D byt" "512 * unat n \<le> length buf"
  shows "fst (disk_write D l n buf d)"
    "byt (snd (disk_write D l n buf d)) = (\<lambda>a. if 512 * unat l \<le> a \<and> a < 512 * unat l + 512 * unat n then buf ! (a - 512 * unat l) else byt d a)"
  using assms by (simp_all add: good_disk_def)

definition bsz :: "'d ext2_t \<Rightarrow> nat" where "bsz s = unat (block_size s)"

definition img :: "('d \<Rightarrow> nat \<Rightarrow> u8) \<Rightarrow> 'd ext2_t \<Rightarrow> nat \<Rightarrow> u8" where
  "img byt s a = byt (disk s) (512 * unat (start_lba s) + a)"

definition blk :: "('d \<Rightarrow> nat \<Rightarrow> u8) \<Rightarrow> 'd ext2_t \<Rightarrow> nat \<Rightarrow> bytes" where
  "blk byt s b = map (img byt s) [b * bsz s ..< b * bsz s + bsz s]"

text \<open>Blocks of 2 to 64 kilobytes.\<close>

definition geo :: "'d ext2_t \<Rightarrow> bool" where
  "geo s \<longleftrightarrow> (\<exists>k. 1 \<le> k \<and> k \<le> 6 \<and> unat (s_log_block_size (superblock s)) = k \<and> bsz s = 1024 * 2 ^ k)"

definition valid :: "'d ext2_t \<Rightarrow> nat \<Rightarrow> bool" where
  "valid s b \<longleftrightarrow> b < 2 ^ 32 \<and> unat (start_lba s) + b * bsz s div 512 \<le> unat (end_lba s)"

lemma ucast32_of_nat: "(ucast (b :: u32) :: u64) = of_nat (unat b)"
proof -
  have "unat b < 2 ^ LENGTH(32)" by (rule unsigned_less)
  then have "unat (ucast b :: u64) = unat (of_nat (unat b) :: u64)"
    by (simp add: unsigned_ucast_eq unat_of_nat take_bit_nat_eq_self)
  then show ?thesis by simp
qed

lemma unat_u32_less: "unat (w :: u32) < 2 ^ 32"
proof -
  have "unat w < 2 ^ LENGTH(32)" by (rule unsigned_less)
  then show ?thesis by simp
qed

lemma unat_of_nat_u64: "n < 2 ^ 64 \<Longrightarrow> unat (of_nat n :: u64) = n"
  by (simp add: unat_of_nat take_bit_nat_eq_self)

lemma ucast_of_nat_32: "(ucast (of_nat n :: u64) :: u32) = of_nat n"
proof -
  have "unat (ucast (of_nat n :: u64) :: u32) = unat (of_nat n :: u32)" by (simp add: unsigned_ucast_eq unat_of_nat take_bit_eq_mod mod_mod_cancel)
  then show ?thesis by simp
qed

lemma geo_bsz:
  assumes "geo s"
  shows "\<exists>q. bsz s = 512 * q \<and> 4 \<le> q \<and> q \<le> 128 \<and> unat (block_size s div 512) = q \<and> unat (block_sectors s) = q"
proof -
  obtain k where k: "1 \<le> k" "k \<le> 6" "bsz s = 1024 * 2 ^ k" using assms by (auto simp: geo_def)
  define q :: nat where "q = 2 * 2 ^ k"
  have "(2 :: nat) ^ 1 \<le> 2 ^ k" "(2 :: nat) ^ k \<le> 2 ^ 6" using k by (intro power_increasing; simp)+
  then have q: "4 \<le> q" "q \<le> 128" "bsz s = 512 * q" using k by (auto simp: q_def)
  have d: "unat (block_size s div 512) = q" using q by (simp add: unat_div bsz_def)
  then have "unat (block_sectors s) = q" using q by (simp add: block_sectors_def unsigned_ucast_eq take_bit_nat_eq_self)
  then show ?thesis using q d by blast
qed

lemma geo_bounds:
  assumes "geo s"
  shows "2048 \<le> bsz s" "bsz s \<le> 65536" "512 dvd bsz s" "0 < bsz s" "block_size s \<noteq> 0" "8 dvd bsz s"
proof -
  obtain q where "bsz s = 512 * q" "4 \<le> q" "q \<le> 128" using geo_bsz[OF assms] by blast
  then show "2048 \<le> bsz s" "bsz s \<le> 65536" "512 dvd bsz s" "0 < bsz s" "block_size s \<noteq> 0" "8 dvd bsz s"
    by (auto simp: bsz_def dvd_def intro: exI[of _ "64 * q"])
qed

lemma block_lba_nat:
  assumes "geo s" "valid s b"
  shows "512 * unat (block_lba s (of_nat b)) = 512 * unat (start_lba s) + b * bsz s" "block_lba s (of_nat b) \<le> end_lba s"
proof -
  obtain q where q: "bsz s = 512 * q" "q \<le> 128" using geo_bsz[OF assms(1)] by blast
  have b: "b < 2 ^ 32" using assms(2) by (simp add: valid_def)
  have "b * bsz s < 2 ^ 32 * 2 ^ 17" using b q by (intro mult_strict_mono) auto
  then have "unat (of_nat b * block_size s) = b * bsz s"
    using b by (simp add: unat_word_ariths(2) bsz_def unat_of_nat take_bit_nat_eq_self)
  then have m: "unat (of_nat b * block_size s div 512) = b * q" using q by (simp add: unat_div)
  have "unat (start_lba s) + b * q \<le> unat (end_lba s)" using assms(2) q by (simp add: valid_def)
  moreover have "unat (end_lba s) < 2 ^ LENGTH(64)" by (rule unsigned_less)
  ultimately have "unat (block_lba s (of_nat b)) = unat (start_lba s) + b * q" "unat (start_lba s) + b * q \<le> unat (end_lba s)"
    using m by (simp_all add: block_lba_def unat_word_ariths(1))
  then show "512 * unat (block_lba s (of_nat b)) = 512 * unat (start_lba s) + b * bsz s" "block_lba s (of_nat b) \<le> end_lba s"
    using q by (simp_all add: word_le_nat_alt)
qed

lemma length_blk [simp]: "length (blk byt s b) = bsz s"
  by (simp add: blk_def)

lemma nth_blk: "i < bsz s \<Longrightarrow> blk byt s b ! i = img byt s (b * bsz s + i)"
  by (simp add: blk_def)

lemma map_img_upt: "map (byt (disk s)) [512 * unat (start_lba s) + a ..< 512 * unat (start_lba s) + b] = map (img byt s) [a ..< b]"
  by (rule nth_equalityI) (auto simp: img_def add.assoc)

lemma read_block_blk:
  assumes "good_disk D byt" "geo s" "valid s b"
  shows "read_block D (of_nat b) s = Some (blk byt s b)"
proof -
  obtain q where q: "bsz s = 512 * q" "unat (block_sectors s) = q" using geo_bsz[OF assms(2)] by blast
  have "read_block D (of_nat b) s = Some (map (byt (disk s)) [512 * unat (start_lba s) + b * bsz s ..< 512 * unat (start_lba s) + (b * bsz s + bsz s)])"
    using good_disk_read[OF assms(1)] block_lba_nat[OF assms(2,3)] q by (simp add: read_block_def add.assoc flip: not_le)
  then show ?thesis by (simp add: map_img_upt blk_def)
qed

lemma block_disjoint: "(b :: nat) \<noteq> x \<Longrightarrow> i < n \<Longrightarrow> \<not> (b * n \<le> x * n + i \<and> x * n + i < b * n + n)"
proof (rule notI)
  assume a: "b \<noteq> x" "i < n" "b * n \<le> x * n + i \<and> x * n + i < b * n + n"
  have "(x * n + i) div n = x" using a(2) by (simp add: div_nat_eqI)
  moreover have "(x * n + i) div n = b" using a(3) by (intro div_nat_eqI) (auto simp: algebra_simps)
  ultimately show False using a(1) by simp
qed

lemma write_block_blk:
  assumes "good_disk D byt" "geo s" "valid s b" "length buf = bsz s"
  shows "\<exists>d. write_block D (of_nat b) buf s = (True, s\<lparr>disk := d\<rparr>)
    \<and> (\<forall>x. blk byt (s\<lparr>disk := d\<rparr>) x = (if x = b then buf else blk byt s x))"
proof -
  obtain q where q: "bsz s = 512 * q" "unat (block_sectors s) = q" using geo_bsz[OF assms(2)] by blast
  let ?l = "block_lba s (of_nat b)" and ?r = "disk_write D (block_lba s (of_nat b)) (block_sectors s) buf (disk s)"
  note l = block_lba_nat[OF assms(2,3)]
  have w: "fst ?r" "byt (snd ?r) = (\<lambda>a. if 512 * unat ?l \<le> a \<and> a < 512 * unat ?l + 512 * q then buf ! (a - 512 * unat ?l) else byt (disk s) a)"
    using good_disk_write[OF assms(1), of "block_sectors s" buf ?l "disk s"] assms(4) q by simp_all
  let ?s = "s\<lparr>disk := snd ?r\<rparr>"
  have 1: "write_block D (of_nat b) buf s = (True, ?s)"
    using w(1) l(2) by (simp add: write_block_def split_def Let_def flip: not_le)
  have 2: "img byt ?s a = (if b * bsz s \<le> a \<and> a < b * bsz s + bsz s then buf ! (a - b * bsz s) else img byt s a)" for a
    unfolding img_def by (simp add: w(2) l(1) q(1))
  have s: "bsz ?s = bsz s" by (simp add: bsz_def)
  have 3: "blk byt ?s x = (if x = b then buf else blk byt s x)" for x
  proof (rule nth_equalityI)
    fix i assume i: "i < length (blk byt ?s x)"
    have "img byt ?s (x * bsz s + i) = (if x = b then buf ! i else img byt s (x * bsz s + i))"
      using block_disjoint[of b x i "bsz s"] i s by (auto simp: 2)
    then show "blk byt ?s x ! i = (if x = b then buf else blk byt s x) ! i" using i s by (simp add: nth_blk)
  qed (simp add: s assms(4))
  show ?thesis using 1 3 by blast
qed

subsection \<open>The block map\<close>

text \<open>The tree of an inode's blocks.  A node is named by a slot of the inode and the indices below it; \<open>node\<close> is the block there, 0 for
  a hole.  \<open>fblock\<close> is the block that holds a block of the file.\<close>

definition entry :: "('d \<Rightarrow> nat \<Rightarrow> u8) \<Rightarrow> 'd ext2_t \<Rightarrow> nat \<Rightarrow> nat \<Rightarrow> nat" where
  "entry byt s b i = unat (field32 (blk byt s b) (4 * i))"

fun descend :: "('d \<Rightarrow> nat \<Rightarrow> u8) \<Rightarrow> 'd ext2_t \<Rightarrow> nat \<Rightarrow> nat list \<Rightarrow> nat" where
  "descend byt s b [] = b"
| "descend byt s b (i # js) = (if b = 0 then 0 else descend byt s (entry byt s b i) js)"

definition node :: "('d \<Rightarrow> nat \<Rightarrow> u8) \<Rightarrow> 'd ext2_t \<Rightarrow> bytes \<Rightarrow> nat \<Rightarrow> nat list \<Rightarrow> nat" where
  "node byt s ino k js = descend byt s (unat (i_block ino k)) js"

definition ppb :: "'d ext2_t \<Rightarrow> nat" where "ppb s = bsz s div 4"

definition slot :: "'d ext2_t \<Rightarrow> nat \<Rightarrow> nat list \<Rightarrow> bool" where
  "slot s k js \<longleftrightarrow> k \<le> 14 \<and> length js \<le> k - 11 \<and> (\<forall>i \<in> set js. i < ppb s)"

definition fpath :: "'d ext2_t \<Rightarrow> nat \<Rightarrow> (nat \<times> nat list) option" where
  "fpath s i = map_option (\<lambda>(k, js). (k, map unat js)) (block_path (block_size s div 4) (of_nat i))"

definition fblock :: "('d \<Rightarrow> nat \<Rightarrow> u8) \<Rightarrow> 'd ext2_t \<Rightarrow> bytes \<Rightarrow> nat \<Rightarrow> nat" where
  "fblock byt s ino i = (case fpath s i of None \<Rightarrow> 0 | Some (k, js) \<Rightarrow> node byt s ino k js)"

definition max_blocks :: "'d ext2_t \<Rightarrow> nat" where
  "max_blocks s = 12 + ppb s + ppb s * ppb s + ppb s * ppb s * ppb s"

definition map_ok :: "('d \<Rightarrow> nat \<Rightarrow> u8) \<Rightarrow> 'd ext2_t \<Rightarrow> bytes \<Rightarrow> bool" where
  "map_ok byt s ino \<longleftrightarrow> (\<forall>k js. slot s k js \<and> node byt s ino k js \<noteq> 0 \<longrightarrow> valid s (node byt s ino k js))"

text \<open>The bytes of a file.\<close>

definition fbyte :: "('d \<Rightarrow> nat \<Rightarrow> u8) \<Rightarrow> 'd ext2_t \<Rightarrow> bytes \<Rightarrow> nat \<Rightarrow> u8" where
  "fbyte byt s ino p = (let b = fblock byt s ino (p div bsz s) in if b = 0 then 0 else blk byt s b ! (p mod bsz s))"

definition fsize :: "bytes \<Rightarrow> nat" where "fsize ino = unat (inode_size ino)"

definition fpos :: "ext2_inode_handle_t \<Rightarrow> 'd ext2_t \<Rightarrow> nat" where
  "fpos h s = unat (seek_block h) * bsz s + unat (seek h)"

lemma ppb_bounds:
  assumes "geo s"
  shows "512 \<le> ppb s" "ppb s \<le> 16384" "block_size s div 4 = of_nat (ppb s)" "4 * ppb s = bsz s"
proof -
  obtain q where q: "bsz s = 512 * q" "4 \<le> q" "q \<le> 128" using geo_bsz[OF assms] by blast
  then show "512 \<le> ppb s" "ppb s \<le> 16384" "4 * ppb s = bsz s" by (auto simp: ppb_def)
  have "unat (block_size s div 4) = ppb s" by (simp add: unat_div ppb_def bsz_def)
  then show "block_size s div 4 = of_nat (ppb s)" by (metis of_nat_unat ucast_id)
qed

lemma block_path_nat:
  assumes "n \<le> 16384" "i < 2 ^ 63"
  shows "map_option (\<lambda>(k, js). (k, map unat js)) (block_path (of_nat n) (of_nat i)) =
    (if i < 12 then Some (i, []) else if i - 12 < n then Some (12, [i - 12])
     else if i - 12 - n < n * n then Some (13, [(i - 12 - n) div n, (i - 12 - n) mod n])
     else if i - 12 - n - n * n < n * n * n
       then Some (14, [(i - 12 - n - n * n) div (n * n), (i - 12 - n - n * n) mod (n * n) div n, (i - 12 - n - n * n) mod n])
     else None)"
proof -
  have n2: "n * n \<le> 16384 * 16384" using assms(1) by (intro mult_mono) auto
  have n3: "n * n * n \<le> 16384 * 16384 * 16384" using assms(1) n2 by (intro mult_mono) auto
  define a b c d where "a = (of_nat i :: u64)" and "b = (of_nat n :: u64)" and "c = b * b" and "d = c * b"
  have u: "unat a = i" "unat b = n" using assms by (simp_all add: a_def b_def unat_of_nat take_bit_nat_eq_self)
  have uc: "unat c = n * n" using n2 u by (simp add: c_def unat_word_ariths(2))
  have ud: "unat d = n * n * n" using n3 u uc by (simp add: d_def unat_word_ariths(2))
  have 0: "a < 12 \<longleftrightarrow> i < 12" by (simp add: word_less_nat_alt u)
  have 1: "unat (a - 12) = i - 12" if "\<not> i < 12" using that by (simp add: unat_sub word_le_nat_alt u)
  have 2: "unat (a - 12 - b) = i - 12 - n" if "\<not> i < 12" "\<not> i - 12 < n"
    using that 1 by (simp add: unat_sub word_le_nat_alt u)
  have 3: "unat (a - 12 - b - c) = i - 12 - n - n * n" if "\<not> i < 12" "\<not> i - 12 < n" "\<not> i - 12 - n < n * n"
    using that 2 by (simp add: unat_sub word_le_nat_alt uc)
  note defs = block_path_def DIRECT_BLOCKS_def INDIR_1_def INDIR_2_def INDIR_3_def
  show ?thesis unfolding defs a_def[symmetric] b_def[symmetric] c_def[symmetric] d_def[symmetric] Let_def 0
    using 1 2 3 by (simp add: word_less_nat_alt u uc ud unat_div unat_mod)
qed

lemma fpath_eq:
  assumes "geo s" "i < 2 ^ 63"
  defines "n \<equiv> ppb s"
  shows "fpath s i =
    (if i < 12 then Some (i, []) else if i - 12 < n then Some (12, [i - 12])
     else if i - 12 - n < n * n then Some (13, [(i - 12 - n) div n, (i - 12 - n) mod n])
     else if i - 12 - n - n * n < n * n * n
       then Some (14, [(i - 12 - n - n * n) div (n * n), (i - 12 - n - n * n) mod (n * n) div n, (i - 12 - n - n * n) mod n])
     else None)"
  using block_path_nat[OF ppb_bounds(2)[OF assms(1)] assms(2)] ppb_bounds(3)[OF assms(1)] unfolding fpath_def n_def by simp

lemma fpath_slot: "geo s \<Longrightarrow> i < 2 ^ 63 \<Longrightarrow> fpath s i = Some (k, js) \<Longrightarrow> slot s k js"
  using ppb_bounds(1)[of s] by (auto simp: fpath_eq slot_def div_less_iff_less_mult mult.commute less_mult_imp_div_less split: if_splits)

lemma fpath_some: "geo s \<Longrightarrow> i < max_blocks s \<Longrightarrow> i < 2 ^ 63 \<Longrightarrow> \<exists>k js. fpath s i = Some (k, js)"
  by (auto simp: fpath_eq max_blocks_def)

text \<open>The index a path came from.\<close>

fun path_index :: "nat \<Rightarrow> nat \<times> nat list \<Rightarrow> nat" where
  "path_index n (k, []) = k"
| "path_index n (k, [a]) = 12 + a"
| "path_index n (k, [a, b]) = 12 + n + a * n + b"
| "path_index n (k, a # b # c # _) = 12 + n + n * n + a * (n * n) + b * n + c"

lemma path_index_fpath:
  assumes "geo s" "i < 2 ^ 63" "fpath s i = Some p"
  shows "path_index (ppb s) p = i"
proof -
  have 2: "x div n * n + x mod n = x" for x n :: nat by simp
  have 3: "x div (n * n) * (n * n) + x mod (n * n) div n * n + x mod n = x" for x n :: nat
  proof -
    have "x mod n = x mod (n * n) mod n" by (simp add: mod_mult2_eq)
    then show ?thesis using div_mult_mod_eq[of x "n * n"] by (simp add: add.assoc)
  qed
  have 4: "12 + n + n * n + a + b + c = i" if "a + b + c = i - 12 - n - n * n" "\<not> i < 12" "\<not> i - 12 < n" "\<not> i - 12 - n < n * n"
    for a b c n :: nat using that by linarith
  show ?thesis using assms 2[of "i - 12 - ppb s" "ppb s"] 4[OF 3[of "i - 12 - ppb s - ppb s * ppb s" "ppb s"]]
    by (auto simp: fpath_eq split: if_splits)
qed

lemma of_nat_zero: "b < 2 ^ 32 \<Longrightarrow> (of_nat b :: u64) = 0 \<longleftrightarrow> b = 0"
  using unat_eq_0[of "of_nat b :: u64"] by (simp add: unat_of_nat take_bit_nat_eq_self)

lemma follow_descend:
  assumes "good_disk D byt" "geo s" "b < 2 ^ 32" "\<forall>i \<in> set js. unat i < ppb s"
    "\<And>m. m \<le> length js \<Longrightarrow> descend byt s b (take m (map unat js)) \<noteq> 0 \<Longrightarrow> valid s (descend byt s b (take m (map unat js)))"
  shows "follow D js (of_nat b) s =
    (let x = descend byt s b (map unat js) in Inr (if x = 0 then BLOCK_SPARSE else BLOCK_OK, of_nat x))"
  using assms(3-)
proof (induction js arbitrary: b)
  case Nil
  then show ?case using of_nat_zero by simp
next
  case (Cons i js)
  have z: "(of_nat b :: u64) = 0 \<longleftrightarrow> b = 0" using Cons.prems(1) by (rule of_nat_zero)
  show ?case
  proof (cases "b = 0")
    case False
    then have "valid s b" using Cons.prems(3)[of 0] by simp
    then have r: "read_block D (of_nat b) s = Some (blk byt s b)" by (rule read_block_blk[OF assms(1,2)])
    have l: "4 * unat i + 4 \<le> bsz s" using Cons.prems(2) ppb_bounds(4)[OF assms(2)] by simp
    have e: "(ucast (field32 (blk byt s b) (4 * unat i)) :: u64) = of_nat (entry byt s b (unat i))"
      unfolding entry_def by (rule ucast32_of_nat)
    have x: "entry byt s b (unat i) < 2 ^ 32" using unsigned_less[of "field32 (blk byt s b) (4 * unat i)"] by (simp add: entry_def)
    have "follow D js (of_nat (entry byt s b (unat i))) s =
      (let x = descend byt s (entry byt s b (unat i)) (map unat js) in Inr (if x = 0 then BLOCK_SPARSE else BLOCK_OK, of_nat x))"
    proof (rule Cons.IH[OF x])
      fix m assume "m \<le> length js" "descend byt s (entry byt s b (unat i)) (take m (map unat js)) \<noteq> 0"
      then show "valid s (descend byt s (entry byt s b (unat i)) (take m (map unat js)))"
        using Cons.prems(3)[of "Suc m"] False by simp
    qed (use Cons.prems(2) in simp_all)
    then show ?thesis using False z r l e by (simp add: Let_def)
  qed (simp add: z)
qed

lemma slot_take: "slot s k js \<Longrightarrow> slot s k (take m js)"
  by (auto simp: slot_def dest: in_set_takeD)

lemma get_block_fblock:
  assumes "good_disk D byt" "geo s" "map_ok byt s ino" "i < 2 ^ 63" "i < max_blocks s"
  shows "get_block D ino (of_nat i) s = Inr (if fblock byt s ino i = 0 then BLOCK_SPARSE else BLOCK_OK, of_nat (fblock byt s ino i))"
proof -
  obtain k js where p: "block_path (block_size s div 4) (of_nat i) = Some (k, js)" "fpath s i = Some (k, map unat js)"
    using fpath_some[OF assms(2,5,4)] by (auto simp: fpath_def)
  then have sl: "slot s k (map unat js)" using fpath_slot[OF assms(2,4)] by blast
  have "unat (i_block ino k) < 2 ^ LENGTH(32)" by (rule unsigned_less)
  then have u: "unat (i_block ino k) < 2 ^ 32" by simp
  have "follow D js (of_nat (unat (i_block ino k))) s =
    (let x = node byt s ino k (map unat js) in Inr (if x = 0 then BLOCK_SPARSE else BLOCK_OK, of_nat x))"
    unfolding node_def
  proof (rule follow_descend[OF assms(1,2) u])
    show "\<forall>i \<in> set js. unat i < ppb s" using sl by (simp add: slot_def)
    show "valid s (descend byt s (unat (i_block ino k)) (take m (map unat js)))"
      if "descend byt s (unat (i_block ino k)) (take m (map unat js)) \<noteq> 0" for m
      using that assms(3) slot_take[OF sl, of m] unfolding map_ok_def node_def by blast
  qed
  then show ?thesis using p by (simp add: get_block_def fblock_def Let_def)
qed

subsection \<open>Reading\<close>

lemma chunk_len_nat:
  assumes "geo s" "unat pos < bsz s"
  shows "unat (chunk_len (block_size s) count pos) = min (unat count) (bsz s - unat pos)"
proof -
  define len where "len = (if count < block_size s then count else block_size s)"
  have l: "unat len = min (unat count) (bsz s)" by (simp add: len_def bsz_def word_less_nat_alt)
  have "bsz s \<le> 65536" by (rule geo_bounds(2)[OF assms(1)])
  then have "unat (len + pos) = unat len + unat pos" using l assms(2) by (simp add: unat_word_ariths(1))
  then show ?thesis using l assms(2)
    by (auto simp: chunk_len_def Let_def word_less_nat_alt unat_sub word_le_nat_alt bsz_def simp flip: len_def)
qed

text \<open>Moving on within the block or to the next.\<close>

lemma advance_pos:
  assumes "geo s" "unat (seek h) < bsz s" "unat len \<le> bsz s - unat (seek h)" "fpos h s < 2 ^ 62"
  shows "fpos (advance (block_size s) len h) s = fpos h s + unat len" "unat (seek (advance (block_size s) len h)) < bsz s"
    "inode_index (advance (block_size s) len h) = inode_index h"
proof -
  have b: "bsz s \<le> 65536" "0 < bsz s" using geo_bounds[OF assms(1)] by auto
  have u: "unat (seek h + len) = unat (seek h) + unat len" using assms(2,3) b by (simp add: unat_word_ariths(1))
  have "unat (seek_block h) \<le> unat (seek_block h) * bsz s" using b by simp
  then have "unat (seek_block h) < 2 ^ 62" using assms(4) unfolding fpos_def by linarith
  then have v: "unat (seek_block h + 1) = unat (seek_block h) + 1" by (simp add: unat_word_ariths(1))
  have e: "seek h + len = block_size s \<longleftrightarrow> unat (seek h) + unat len = bsz s"
    unfolding bsz_def u[symmetric] by simp
  show "fpos (advance (block_size s) len h) s = fpos h s + unat len" "unat (seek (advance (block_size s) len h)) < bsz s"
    "inode_index (advance (block_size s) len h) = inode_index h"
    using u v e assms(2,3) b by (auto simp: advance_def fpos_def)
qed

lemma fpos_div:
  assumes "unat (seek h) < bsz s"
  shows "fpos h s div bsz s = unat (seek_block h)" "fpos h s mod bsz s = unat (seek h)"
  using assms by (simp_all add: fpos_def)

lemma fbyte_block:
  assumes "p = b * bsz s + i" "i + n \<le> bsz s" "0 < bsz s"
  shows "map (fbyte byt s ino) [p ..< p + n] =
    (let x = fblock byt s ino b in if x = 0 then replicate n 0 else take n (drop i (blk byt s x)))"
proof (rule nth_equalityI)
  fix j assume "j < length (map (fbyte byt s ino) [p ..< p + n])"
  then have j: "j < n" by simp
  have "(p + j) div bsz s = b" "(p + j) mod bsz s = i + j" using assms j
    by (auto intro!: div_nat_eqI simp: algebra_simps mod_nat_eqI)
  then show "map (fbyte byt s ino) [p ..< p + n] ! j =
      (let x = fblock byt s ino b in if x = 0 then replicate n 0 else take n (drop i (blk byt s x))) ! j"
    using j assms(2) by (simp add: fbyte_def Let_def)
qed (use assms(2) in \<open>simp add: Let_def\<close>)

lemma map_upt_split: "map f [p ..< p + (a + b)] = map f [p ..< p + a] @ map f [p + a ..< p + (a + b)]"
  using upt_add_eq_append[of p "p + a" b] by (simp add: add.assoc)

text \<open>The last block of the file is not a hole, or the read does not come to it.\<close>

definition tail_ok :: "('d \<Rightarrow> nat \<Rightarrow> u8) \<Rightarrow> 'd ext2_t \<Rightarrow> bytes \<Rightarrow> nat \<Rightarrow> bool" where
  "tail_ok byt s ino stop \<longleftrightarrow> stop \<le> fsize ino \<or> bsz s dvd fsize ino \<or> fblock byt s ino (fsize ino div bsz s) \<noteq> 0"

lemma max_blocks_bound: "geo s \<Longrightarrow> max_blocks s < 2 ^ 43"
proof -
  assume "geo s"
  then have n: "ppb s \<le> 16384" by (rule ppb_bounds)
  then have n2: "ppb s * ppb s \<le> 16384 * 16384" by (intro mult_mono) auto
  then have "ppb s * ppb s * ppb s \<le> 16384 * 16384 * 16384" using n by (intro mult_mono) auto
  then show ?thesis using n n2 by (simp add: max_blocks_def)
qed

lemma fblock_valid:
  assumes "geo s" "map_ok byt s ino" "i < max_blocks s" "fblock byt s ino i \<noteq> 0"
  shows "valid s (fblock byt s ino i)"
proof -
  have i: "i < 2 ^ 63" using assms(3) max_blocks_bound[OF assms(1)] by simp
  obtain k js where "fpath s i = Some (k, js)" using fpath_some[OF assms(1,3) i] by blast
  then show ?thesis using assms(2,4) fpath_slot[OF assms(1) i] by (auto simp: fblock_def map_ok_def)
qed

lemma read_loop_done: "count = 0 \<or> inode_size ino \<le> full \<Longrightarrow> read_loop D ino count full buf h s = done_with (buf, h)"
  by (subst read_loop.simps) auto

lemma read_loop_ok:
  assumes g: "good_disk D byt" "geo s" "map_ok byt s ino" "fsize ino \<le> bsz s * max_blocks s"
    and "unat (seek h) < bsz s" "fpos h s < 2 ^ 62" "tail_ok byt s ino (fpos h s + unat count)"
  shows "\<exists>h'. let n = min (unat count) (fsize ino - fpos h s) in
    read_loop D ino count (of_nat (fpos h s)) buf h s = done_with (buf @ map (fbyte byt s ino) [fpos h s ..< fpos h s + n], h')
    \<and> fpos h' s = fpos h s + n \<and> unat (seek h') < bsz s"
  using assms(5-)
proof (induction "fsize ino - fpos h s" arbitrary: count buf h rule: less_induct)
  case less
  let ?p = "fpos h s" and ?z = "fsize ino" and ?i = "unat (seek h)" and ?x = "fblock byt s ino (unat (seek_block h))"
  note bb = geo_bounds(2,4)[OF g(2)]
  have "bsz s * max_blocks s \<le> 65536 * 2 ^ 43" using bb max_blocks_bound[OF g(2)] by (intro mult_mono) auto
  then have z: "?z \<le> 2 ^ 59" using g(4) by simp
  have p: "unat (of_nat ?p :: u64) = ?p" using less.prems(2) by (simp add: unat_of_nat take_bit_nat_eq_self)
  have le: "inode_size ino \<le> of_nat ?p \<longleftrightarrow> ?z \<le> ?p" by (simp add: word_le_nat_alt p fsize_def)
  show ?case
  proof (cases "count = 0 \<or> ?z \<le> ?p")
    case True
    then have "min (unat count) (?z - ?p) = 0" by auto
    then show ?thesis using True le less.prems(1) by (auto simp: read_loop_done Let_def)
  next
    case False
    define len where "len = chunk_len (block_size s) count (seek h)"
    have len: "unat len = min (unat count) (bsz s - ?i)" unfolding len_def by (rule chunk_len_nat[OF g(2) less.prems(1)])
    have pos: "0 < unat len" using False less.prems(1) len by (simp add: unat_gt_0)
    have sb: "unat (seek_block h) < max_blocks s" 
      using False g(4) less.prems(1) unfolding fpos_div(1)[OF less.prems(1), symmetric]
      by (intro less_mult_imp_div_less) (auto simp: mult.commute)
    then have gb: "get_block D ino (seek_block h) s = Inr (if ?x = 0 then BLOCK_SPARSE else BLOCK_OK, of_nat ?x)"
      using get_block_fblock[OF g(1-3), of "unat (seek_block h)"] max_blocks_bound[OF g(2)] by simp
    have step: "\<exists>h'. let n = min (unat (count - l)) (?z - ?p - unat l) in
        read_loop D ino (count - l) (of_nat ?p + l) buf' (advance (block_size s) l h) s
          = done_with (buf' @ map (fbyte byt s ino) [?p + unat l ..< ?p + unat l + n], h')
        \<and> fpos h' s = ?p + unat l + n \<and> unat (seek h') < bsz s" if "l = len" for l buf'
    proof -
      have a: "unat l \<le> bsz s - ?i" "unat l \<le> unat count" "0 < unat l" using that len pos by auto
      note ad = advance_pos[OF g(2) less.prems(1) a(1) less.prems(2)]
      have c: "unat (count - l) = unat count - unat l" using a(2) by (simp add: unat_sub word_le_nat_alt)
      have "of_nat ?p + l = (of_nat (?p + unat l) :: u64)" by simp
      moreover have "?p + unat l < 2 ^ 62" proof -
        have "unat l \<le> 65536" using a(1) bb(1) by simp
        then show ?thesis using False z by simp
      qed
      moreover have "tail_ok byt s ino (?p + unat l + unat (count - l))" using less.prems(3) a(2) c by simp
      ultimately show ?thesis using less.hyps[of "advance (block_size s) l h" "count - l" buf'] ad a(3) False
        by (auto simp: Let_def diff_diff_left)
    qed
    have li: "?i + unat len \<le> bsz s" "unat len \<le> unat count" using len less.prems(1) by auto
    have pe: "?p = unat (seek_block h) * bsz s + ?i" by (simp add: fpos_def)
    note ad = advance_pos[OF g(2) less.prems(1) _ less.prems(2)]
    have unfold: "read_loop D ino count (of_nat ?p) buf h s = (if ?x = 0
        then read_loop D ino (count - len) (of_nat ?p + len) (buf @ replicate (unat len) 0) (advance (block_size s) len h) s
        else case read_block D (of_nat ?x) s of None \<Rightarrow> done_with (buf, h)
          | Some b \<Rightarrow> let last = (inode_size ino \<le> len + of_nat ?p); len1 = (if last then inode_size ino - of_nat ?p else len)
             in if length b < ?i + unat len1 then failed Undefined
                else read_loop D ino ((if last then 0 else count) - len1) (of_nat ?p + len1)
                       (buf @ take (unat len1) (drop ?i b)) (advance (block_size s) len1 h) s)"
      using False le gb by (subst read_loop.simps) (simp flip: len_def)
    show ?thesis
    proof (cases "?x = 0")
      case True
      have "?p + unat len \<le> ?z"
      proof (rule ccontr)
        assume c: "\<not> ?p + unat len \<le> ?z"
        have b: "unat (seek_block h) * bsz s < ?z" "?z < Suc (unat (seek_block h)) * bsz s" using c False li(1) pe by auto
        then have d: "?z div bsz s = unat (seek_block h)" by (intro div_nat_eqI) (auto simp: mult.commute)
        moreover have "\<not> bsz s dvd ?z" using b(1) d dvd_mult_div_cancel[of "bsz s" ?z] by (auto simp: mult.commute)
        ultimately show False using True less.prems(3) c li(2) by (auto simp: tail_ok_def)
      qed
      then have m: "min (unat count) (?z - ?p) = unat len + min (unat (count - len)) (?z - ?p - unat len)"
        using li(2) by (simp add: unat_sub word_le_nat_alt)
      have "map (fbyte byt s ino) [?p ..< ?p + unat len] = replicate (unat len) 0"
        using fbyte_block[OF pe li(1) bb(2)] True by (simp add: Let_def)
      then show ?thesis using step[OF refl, of "buf @ replicate (unat len) 0"] True unfold m
        by (auto simp: Let_def map_upt_split add.assoc)
    next
      case xn: False
      then have rb: "read_block D (of_nat ?x) s = Some (blk byt s ?x)"
        using fblock_valid[OF g(2,3) sb] by (intro read_block_blk[OF g(1,2)])
      have lp: "unat (len + of_nat ?p) = unat len + ?p" using p z li(1) bb False by (simp add: unat_word_ariths(1))
      have last: "inode_size ino \<le> len + of_nat ?p \<longleftrightarrow> ?z \<le> unat len + ?p" by (simp add: word_le_nat_alt lp fsize_def)
      show ?thesis
      proof (cases "?z \<le> unat len + ?p")
        case True
        define l1 where "l1 = inode_size ino - of_nat ?p"
        have l1: "unat l1 = ?z - ?p" using le False p by (simp add: l1_def unat_sub fsize_def flip: not_le)
        have l1b: "unat l1 \<le> bsz s - ?i" using l1 True li by simp
        have "of_nat ?p + l1 = inode_size ino" by (simp add: l1_def)
        then have "read_loop D ino count (of_nat ?p) buf h s = done_with (buf @ take (unat l1) (drop ?i (blk byt s ?x)), advance (block_size s) l1 h)"
          using unfold xn rb last True l1b less.prems(1) by (simp add: read_loop_done Let_def flip: l1_def)
        moreover have "map (fbyte byt s ino) [?p ..< ?p + unat l1] = take (unat l1) (drop ?i (blk byt s ?x))"
          using fbyte_block[OF pe, of "unat l1"] l1b less.prems(1) bb xn by (simp add: Let_def)
        moreover have "min (unat count) (?z - ?p) = unat l1" using l1 True li(2) by simp
        ultimately show ?thesis using ad[OF l1b] by (auto simp: Let_def)
      next
        case nl: False
        then have m: "min (unat count) (?z - ?p) = unat len + min (unat (count - len)) (?z - ?p - unat len)"
          using li(2) by (simp add: unat_sub word_le_nat_alt)
        have "map (fbyte byt s ino) [?p ..< ?p + unat len] = take (unat len) (drop ?i (blk byt s ?x))"
          using fbyte_block[OF pe li(1) bb(2)] xn by (simp add: Let_def)
        then show ?thesis using step[OF refl, of "buf @ take (unat len) (drop ?i (blk byt s ?x))"] xn unfold m rb last nl li(1)
          by (auto simp: Let_def map_upt_split add.assoc)
      qed
    qed
  qed
qed

end
