(* ===== verification/Ext2Alloc.thy ===== *)
theory Ext2Alloc
  imports Ext2Disk
begin

section \<open>The ext2 driver: allocation\<close>

text \<open>
  The bitmaps of the groups say which blocks are in use.  On a well-formed file system the allocation of a block ends, and gives a block that was
  free, marks it and nothing else, and leaves every block alone that is not metadata; it gives nothing only when every group it may
  use is full.  The last group is never used (the code says so), and a start in the last group is outside of the contract.
\<close>

definition ngroups :: "'d ext2_t \<Rightarrow> nat" where
  "ngroups s = unat (s_inodes_count (superblock s) div s_inodes_per_group (superblock s))"

definition bpg :: "'d ext2_t \<Rightarrow> nat" where "bpg s = unat (s_blocks_per_group (superblock s))"

definition bmb :: "'d ext2_t \<Rightarrow> nat \<Rightarrow> nat" where "bmb s g = unat (bg_block_bitmap (bgdt s) (of_nat g))"

definition word_of :: "('d \<Rightarrow> nat \<Rightarrow> u8) \<Rightarrow> 'd ext2_t \<Rightarrow> nat \<Rightarrow> nat \<Rightarrow> u64" where
  "word_of byt s g w = field64 (blk byt s (bmb s g)) (8 * w)"

definition in_use :: "('d \<Rightarrow> nat \<Rightarrow> u8) \<Rightarrow> 'd ext2_t \<Rightarrow> nat \<Rightarrow> bool" where
  "in_use byt s b \<longleftrightarrow> b div bpg s < ngroups s \<and> bit (word_of byt s (b div bpg s) (b mod bpg s div 64)) (b mod bpg s mod 64)"

text \<open>The first block after the superblock and the descriptor table.\<close>

definition gdt_end :: "'d ext2_t \<Rightarrow> nat" where
  "gdt_end s = 1 + (length (bgdt s) + bsz s - 1) div bsz s"

definition alloc_wf :: "'d ext2_t \<Rightarrow> bool" where
  "alloc_wf s \<longleftrightarrow> geo s \<and> length (superblock s) = SIZEOF_SUPERBLOCK \<and> length (bgdt s) = unat (bgdt_size (superblock s))
     \<and> unat (bgdt_size (superblock s)) < 2 ^ 25 \<and> 512 dvd unat (bgdt_size (superblock s))
     \<and> s_inodes_per_group (superblock s) \<noteq> 0 \<and> 0 < bpg s \<and> 64 dvd bpg s \<and> bpg s \<le> 8 * bsz s
     \<and> 2 \<le> ngroups s \<and> ngroups s * bpg s \<le> 2 ^ 32 \<and> SIZEOF_BG_DESC * ngroups s \<le> length (bgdt s)
     \<and> (\<forall>g < ngroups s. valid s (bmb s g) \<and> gdt_end s \<le> bmb s g) \<and> inj_on (bmb s) {..< ngroups s}"

lemma alloc_wfD:
  assumes "alloc_wf s"
  shows "geo s" "length (superblock s) = SIZEOF_SUPERBLOCK" "length (bgdt s) = unat (bgdt_size (superblock s))"
    "unat (bgdt_size (superblock s)) < 2 ^ 25" "512 dvd unat (bgdt_size (superblock s))" "s_inodes_per_group (superblock s) \<noteq> 0"
    "0 < bpg s" "64 dvd bpg s" "bpg s \<le> 8 * bsz s" "2 \<le> ngroups s" "ngroups s * bpg s \<le> 2 ^ 32"
    "SIZEOF_BG_DESC * ngroups s \<le> length (bgdt s)" "inj_on (bmb s) {..< ngroups s}"
  using assms unfolding alloc_wf_def by blast+

lemma alloc_wf_bitmap: "alloc_wf s \<Longrightarrow> g < ngroups s \<Longrightarrow> valid s (bmb s g) \<and> gdt_end s \<le> bmb s g"
  unfolding alloc_wf_def by blast

text \<open>What allocation leaves as it was: everything but the free counts.\<close>

definition geometry :: "'d ext2_t \<Rightarrow> (u64 \<times> u64 \<times> u64 \<times> u64) \<times> (u32 \<times> u32 \<times> u32 \<times> u32 \<times> u32 \<times> u16) \<times> nat \<times> nat
    \<times> (u64 \<Rightarrow> u32) \<times> (u64 \<Rightarrow> u32) \<times> (u64 \<Rightarrow> u32)" where
  "geometry s = ((start_lba s, end_lba s, block_size s, devid s),
     (s_inodes_count (superblock s), s_blocks_count (superblock s), s_log_block_size (superblock s),
      s_blocks_per_group (superblock s), s_inodes_per_group (superblock s), s_inode_size (superblock s)),
     length (superblock s), length (bgdt s), bg_block_bitmap (bgdt s), bg_inode_bitmap (bgdt s), bg_inode_table (bgdt s))"

lemma geometry_cong:
  assumes "geometry s' = geometry s"
  shows "bsz s' = bsz s" "geo s' = geo s" "valid s' = valid s" "ppb s' = ppb s" "max_blocks s' = max_blocks s" "slot s' = slot s"
    "fpath s' = fpath s" "ngroups s' = ngroups s" "bpg s' = bpg s" "bmb s' = bmb s" "gdt_end s' = gdt_end s" "alloc_wf s' = alloc_wf s"
    "inode_place i s' = inode_place i s" "fpos h s' = fpos h s" "block_size s' = block_size s"
proof -
  note g = assms[unfolded geometry_def, simplified]
  show b: "bsz s' = bsz s" and bs: "block_size s' = block_size s" using g by (simp_all add: bsz_def)
  show ge: "geo s' = geo s" and v: "valid s' = valid s" and p: "ppb s' = ppb s"
    using g b by (auto simp: geo_def valid_def ppb_def fun_eq_iff)
  show "max_blocks s' = max_blocks s" "slot s' = slot s" "fpath s' = fpath s" "fpos h s' = fpos h s"
    using p b bs by (auto simp: max_blocks_def slot_def fpath_def fpos_def fun_eq_iff)
  show n: "ngroups s' = ngroups s" "bpg s' = bpg s" "bmb s' = bmb s" "gdt_end s' = gdt_end s"
    using g b by (auto simp: ngroups_def bpg_def bmb_def gdt_end_def fun_eq_iff)
  have "bgdt_size (superblock s') = bgdt_size (superblock s)" using g by (simp add: bgdt_size_def)
  then show "alloc_wf s' = alloc_wf s" using g n b ge v by (simp add: alloc_wf_def)
  show "inode_place i s' = inode_place i s" using g by (simp add: inode_place_def Let_def)
qed

lemma geometry_disk [simp]: "geometry (s\<lparr>disk := d\<rparr>) = geometry s" "geometry (s\<lparr>lock := l\<rparr>) = geometry s"
  by (simp_all add: geometry_def)

subsection \<open>The metadata on the disk\<close>

lemma map_upt_eqI: "n = length xs \<Longrightarrow> (\<And>i. i < n \<Longrightarrow> f (a + i) = xs ! i) \<Longrightarrow> map f [a ..< a + n] = xs"
  by (rule nth_equalityI) auto

lemma gdt_end_ge: "0 < bsz s \<Longrightarrow> bsz s + length (bgdt s) \<le> gdt_end s * bsz s"
proof -
  assume b: "0 < bsz s"
  define m where "m = length (bgdt s) + bsz s - 1"
  have "m div bsz s * bsz s + m mod bsz s = m" "m mod bsz s < bsz s" using b by simp_all
  then have "length (bgdt s) \<le> m div bsz s * bsz s" using b unfolding m_def by linarith
  then show ?thesis by (simp add: gdt_end_def m_def)
qed

lemma sync_meta_blk:
  assumes "good_disk D byt" "alloc_wf s"
  shows "\<exists>d. sync_meta D s = Inr (s\<lparr>disk := d\<rparr>) \<and> (\<forall>x \<ge> gdt_end s. blk byt (s\<lparr>disk := d\<rparr>) x = blk byt s x)
    \<and> map (img byt (s\<lparr>disk := d\<rparr>)) [1024 ..< 1024 + SIZEOF_SUPERBLOCK] = superblock s
    \<and> map (img byt (s\<lparr>disk := d\<rparr>)) [bsz s ..< bsz s + length (bgdt s)] = bgdt s"
proof -
  let ?sb = "superblock s"
  note w = alloc_wfD[OF assms(2)]
  obtain k where k: "1 \<le> k" "k \<le> 6" "unat (s_log_block_size ?sb) = k" "bsz s = 1024 * 2 ^ k" using w(1) by (auto simp: geo_def)
  have k7: "(2 :: nat) ^ k \<le> 2 ^ 6" using k(2) by (intro power_increasing) auto
  have gb: "2048 \<le> bsz s" using geo_bounds(1) w(1) by blast
  have sh: "bgdt_shift ?sb = Suc k" using k by (simp add: bgdt_shift_def unat_word_ariths(1))
  have bp: "s_blocks_per_group ?sb \<noteq> 0" using w(7) by (auto simp: bpg_def)
  have "valid s (bmb s 0)" "1 \<le> bmb s 0" using alloc_wf_bitmap[OF assms(2), of 0] w(10) by (auto simp: gdt_end_def)
  then have st: "unat (start_lba s) + 2 ^ Suc k < 2 ^ 64"
  proof -
    assume v: "valid s (bmb s 0)" and "1 \<le> bmb s 0"
    then have "bsz s \<le> bmb s 0 * bsz s" by simp
    then have "2 ^ Suc k \<le> bmb s 0 * bsz s div 512" using k(4) by (simp add: less_eq_div_iff_mult_less_eq)
    moreover have "unat (end_lba s) < 2 ^ LENGTH(64)" by (rule unsigned_less)
    ultimately show ?thesis using v by (simp add: valid_def)
  qed
  have p2: "(2 :: nat) \<le> 2 ^ Suc k" by simp
  have l1: "unat (start_lba s + SUPERBLOCK_LBA) = unat (start_lba s) + 2"
    using st p2 unfolding SUPERBLOCK_LBA_def by (simp add: unat_word_ariths(1) del: power_Suc)
  have "unat (push_bit (Suc k) (1 :: u32)) = 2 ^ Suc k"
  proof -
    have "(2 :: nat) ^ Suc k < 2 ^ 32" using k(2) by (intro power_strict_increasing) auto
    moreover have "push_bit (Suc k) (1 :: u32) = of_nat (2 ^ Suc k)" by (simp add: push_bit_eq_mult)
    ultimately show ?thesis by (simp only: unat_of_nat) (simp add: take_bit_nat_eq_self)
  qed
  then have "unat (ucast (push_bit (Suc k) (1 :: u32)) :: u64) = 2 ^ Suc k"
    using k7 by (simp add: unsigned_ucast_eq take_bit_nat_eq_self)
  then have l2: "512 * unat (bgdt_start_lba (start_lba s) ?sb) = 512 * unat (start_lba s) + bsz s"
    using st k(4) by (simp add: bgdt_start_lba_def sh unat_word_ariths(1))
  have n2: "512 * unat (ucast (bgdt_size ?sb div 512) :: u16) = length (bgdt s)"
    using w(3,4,5) by (simp add: unsigned_ucast_eq unat_div take_bit_nat_eq_self div_less_iff_less_mult)
  have n1: "512 * unat SUPERBLOCK_SECTORS = 1024" "length ?sb = 1024" using w(2) by (simp_all add: SUPERBLOCK_SECTORS_def SIZEOF_SUPERBLOCK_def)
  let ?d1 = "snd (disk_write D (start_lba s + SUPERBLOCK_LBA) SUPERBLOCK_SECTORS ?sb (disk s))"
  let ?d = "snd (disk_write D (bgdt_start_lba (start_lba s) ?sb) (ucast (bgdt_size ?sb div 512)) (bgdt s) ?d1)"
  let ?s = "s\<lparr>disk := ?d\<rparr>"
  have im: "img byt ?s a = (if bsz s \<le> a \<and> a < bsz s + length (bgdt s) then bgdt s ! (a - bsz s)
      else if 1024 \<le> a \<and> a < 2048 then ?sb ! (a - 1024) else img byt s a)" for a
    unfolding img_def using good_disk_write(2)[OF assms(1), of "ucast (bgdt_size ?sb div 512)" "bgdt s" "bgdt_start_lba (start_lba s) ?sb" ?d1]
      good_disk_write(2)[OF assms(1), of SUPERBLOCK_SECTORS ?sb "start_lba s + SUPERBLOCK_LBA" "disk s"]
    by (simp add: n1 n2 l1 l2)
  have sm: "sync_meta D s = Inr ?s" using sh k(2) bp by (simp add: sync_meta_def Let_def)
  have bl: "blk byt ?s x = blk byt s x" if "gdt_end s \<le> x" for x
  proof -
    have "bsz s + length (bgdt s) \<le> gdt_end s * bsz s" using gb by (intro gdt_end_ge) simp
    also have "\<dots> \<le> x * bsz s" using that by simp
    finally show ?thesis using gb im by (auto intro!: nth_equalityI simp: nth_blk bsz_def)
  qed
  have i1: "img byt ?s (1024 + i) = ?sb ! i" if "i < SIZEOF_SUPERBLOCK" for i
    using that gb by (simp add: im SIZEOF_SUPERBLOCK_def)
  have i2: "img byt ?s (bsz s + i) = bgdt s ! i" if "i < length (bgdt s)" for i using that by (simp add: im)
  show ?thesis using sm bl map_upt_eqI[OF w(2)[symmetric] i1] map_upt_eqI[OF refl i2] by blast
qed

subsection \<open>Bitmaps\<close>

lemma not_zero_iff: "NOT (x :: u64) = 0 \<longleftrightarrow> x = -1"
  by (metis bit.compl_zero bit.double_compl)

lemma low_bit_spec: "w \<noteq> -1 \<Longrightarrow> low_bit (NOT w) < 64 \<and> \<not> bit w (low_bit (NOT w))"
proof -
  assume "w \<noteq> -1"
  moreover have "w = -1" if "\<forall>i < 64. bit w i" using that by (intro bit_eqI) (simp add: possible_bit_def)
  ultimately obtain i where i: "\<not> bit w i" "i < 64" by blast
  then have "find (bit (NOT w)) [0 ..< 64] \<noteq> None" by (auto simp: find_None_iff bit_not_iff_eq)
  then obtain j where j: "find (bit (NOT w)) [0 ..< 64] = Some j" by auto
  then have "low_bit (NOT w) = j" by (simp add: low_bit_def)
  then show ?thesis using j by (auto simp: find_Some_iff bit_not_iff_eq)
qed

lemma bitmap_scan_ok:
  assumes g: "good_disk D byt" "geo s" "valid s bb" "unat n \<le> bsz s" "8 dvd unat n"
    and "8 dvd unat off" "unat off \<le> unat n" "off \<noteq> 0 \<longrightarrow> bm = Some (blk byt s bb)"
  shows "\<exists>r. bitmap_scan D (of_nat bb) n off bm s = done_with r \<and>
    (case r of None \<Rightarrow> \<forall>w. unat off \<le> 8 * w \<and> 8 * w < unat n \<longrightarrow> field64 (blk byt s bb) (8 * w) = -1
     | Some (off', b) \<Rightarrow> \<exists>w. off' = of_nat (8 * w) \<and> b = blk byt s bb \<and> 8 * w < unat n \<and> field64 b (8 * w) \<noteq> -1)"
  using assms(6-)
proof (induction "unat n - unat off" arbitrary: off bm rule: less_induct)
  case less
  note b = geo_bounds[OF g(2)]
  show ?case
  proof (cases "off < n")
    case False
    then have "unat off = unat n" using less.prems(2) by (simp add: word_less_nat_alt)
    then show ?thesis using False by (subst bitmap_scan.simps) auto
  next
    case True
    then have lt: "unat off < unat n" by (simp add: word_less_nat_alt)
    have l8: "unat off + 8 \<le> unat n" using lt less.prems(1) g(5) by (auto elim!: dvdE)
    have "unat (off mod block_size s) = unat off" "unat (off div block_size s) = 0"
      using lt g(4) by (simp_all add: unat_mod unat_div bsz_def)
    then have m: "off mod block_size s = off" "off div block_size s = 0" by (simp_all only: unat_inject unat_eq_0)
    let ?f = "field64 (blk byt s bb) (unat off)"
    have u: "bitmap_scan D (of_nat bb) n off bm s =
        (if ?f = -1 then bitmap_scan D (of_nat bb) n (off + 8) (Some (blk byt s bb)) s else done_with (Some (off, blk byt s bb)))"
      using True b(5) m less.prems(3) read_block_blk[OF g(1-3)] l8 g(4)
      by (subst bitmap_scan.simps) (auto simp: Let_def not_zero_iff)
    obtain w where w: "unat off = 8 * w" using less.prems(1) by (auto elim!: dvdE)
    show ?thesis
    proof (cases "?f = -1")
      case full: True
      have u8: "unat (off + 8) = unat off + 8" using l8 g(4) b(2) by (simp add: unat_word_ariths(1))
      have "\<exists>r. bitmap_scan D (of_nat bb) n (off + 8) (Some (blk byt s bb)) s = done_with r \<and>
        (case r of None \<Rightarrow> \<forall>w. unat (off + 8) \<le> 8 * w \<and> 8 * w < unat n \<longrightarrow> field64 (blk byt s bb) (8 * w) = -1
         | Some (off', b) \<Rightarrow> \<exists>w. off' = of_nat (8 * w) \<and> b = blk byt s bb \<and> 8 * w < unat n \<and> field64 b (8 * w) \<noteq> -1)"
        using l8 u8 less.prems(1) by (intro less.hyps) auto
      moreover have "field64 (blk byt s bb) (8 * v) = -1" if "unat off \<le> 8 * v" "\<not> unat (off + 8) \<le> 8 * v" for v
      proof -
        have "v = w" using that w u8 by simp
        then show ?thesis using full w by simp
      qed
      ultimately show ?thesis using u full by (fastforce split: option.splits)
    next
      case False
      have "off = of_nat (8 * w)" using w by (metis of_nat_unat ucast_id)
      then show ?thesis using u False w lt by auto
    qed
  qed
qed

lemma bg_off_of_nat: "g < 2 ^ 64 \<Longrightarrow> bg_off (of_nat g) = 32 * g"
  by (simp add: bg_off_def SIZEOF_BG_DESC_def unat_of_nat take_bit_nat_eq_self)

lemma geometry_free:
  assumes "bg_off g + 32 \<le> length (bgdt s)" "length (superblock s) = SIZEOF_SUPERBLOCK"
  shows "geometry (s\<lparr>bgdt := put16 (bg_free_off k g) v (bgdt s), superblock := put32 (s_free_off k) w (superblock s)\<rparr>) = geometry s"
proof -
  have o: "bg_off x + 32 \<le> bg_off g \<or> bg_off g + 32 \<le> bg_off x \<or> bg_off x = bg_off g" for x
    by (cases "unat x" "unat g" rule: linorder_cases) (auto simp: bg_off_def SIZEOF_BG_DESC_def)
  have "field32 (put16 (bg_free_off k g) v (bgdt s)) (bg_off x + i) = field32 (bgdt s) (bg_off x + i)" if "i \<le> 8" for x i
    using that o[of x] assms(1) by (cases k) (auto intro!: field_put_other(2))
  from this[of 0] this[of 4] this[of 8]
  have "bg_block_bitmap (put16 (bg_free_off k g) v (bgdt s)) = bg_block_bitmap (bgdt s)"
    "bg_inode_bitmap (put16 (bg_free_off k g) v (bgdt s)) = bg_inode_bitmap (bgdt s)"
    "bg_inode_table (put16 (bg_free_off k g) v (bgdt s)) = bg_inode_table (bgdt s)"
    by (simp_all add: fun_eq_iff bg_block_bitmap_def bg_inode_bitmap_def bg_inode_table_def)
  moreover have "length (put16 (bg_free_off k g) v (bgdt s)) = length (bgdt s)" using assms(1) by (cases k) simp_all
  moreover have "field32 (put32 (s_free_off k) w (superblock s)) i = field32 (superblock s) i" if "i + 4 \<le> 12 \<or> 20 \<le> i" for i
    using that assms(2) by (cases k) (auto simp: SIZEOF_SUPERBLOCK_def)
  moreover have "field16 (put32 (s_free_off k) w (superblock s)) 88 = field16 (superblock s) 88"
    using assms(2) by (cases k) (auto simp: SIZEOF_SUPERBLOCK_def)
  moreover have "length (put32 (s_free_off k) w (superblock s)) = length (superblock s)"
    using assms(2) by (cases k) (simp_all add: SIZEOF_SUPERBLOCK_def)
  ultimately show ?thesis
    by (simp add: geometry_def s_inodes_count_def s_blocks_count_def s_log_block_size_def s_blocks_per_group_def s_inodes_per_group_def
        s_inode_size_def)
qed

text \<open>Taking a bit of the bitmap of group \<open>g\<close>.\<close>

lemma take_bit_at_ok:
  assumes D: "good_disk D byt" and wf: "alloc_wf s" and g: "g < ngroups s" and w: "64 * w < bpg s" and f: "word_of byt s g w \<noteq> -1"
  shows "\<exists>n s'. take_bit_at D Blocks (of_nat g) (of_nat (8 * w)) (blk byt s (bmb s g)) s = Inr (of_nat (g * bpg s + 64 * w + n), s')
    \<and> n < 64 \<and> \<not> bit (word_of byt s g w) n \<and> geometry s' = geometry s \<and> lock s' = lock s
    \<and> (\<forall>x \<ge> gdt_end s. blk byt s' x =
         (if x = bmb s g then put64 (8 * w) (word_of byt s g w OR push_bit n 1) (blk byt s (bmb s g)) else blk byt s x))"
proof -
  note d = alloc_wfD[OF wf] and b = geo_bounds[OF alloc_wfD(1)[OF wf]]
  define n where "n = low_bit (NOT (word_of byt s g w))"
  have n: "n < 64" "\<not> bit (word_of byt s g w) n" using low_bit_spec[OF f] by (simp_all add: n_def)
  have v: "valid s (bmb s g)" "gdt_end s \<le> bmb s g" using alloc_wf_bitmap[OF wf g] by auto
  have w8: "8 * w + 8 \<le> bsz s" using w d(8,9) by (auto elim!: dvdE)
  have g64: "g * bpg s + bpg s \<le> 2 ^ 32"
  proof -
    have "Suc g * bpg s \<le> ngroups s * bpg s" using g by (intro mult_right_mono) auto
    then show ?thesis using d(11) by simp
  qed
  have "g \<le> g * bpg s" using d(7) by simp
  then have "g \<le> 2 ^ 32" using g64 by linarith
  then have gu: "g < 2 ^ 64" by simp
  let ?G = "of_nat g :: u64"
  define o8 :: u64 where "o8 = of_nat (8 * w)"
  have uo: "unat o8 = 8 * w" unfolding o8_def using w8 b(2) by (intro unat_of_nat_u64) simp
  have "unat (o8 mod block_size s) = 8 * w" "unat (o8 div block_size s) = 0"
    unfolding unat_mod unat_div uo using w8 by (simp_all add: bsz_def)
  then have om: "unat (o8 mod block_size s) = 8 * w" "o8 div block_size s = 0" by (simp_all only: unat_eq_0)
  have off: "bg_off ?G + 32 \<le> length (bgdt s)" using g d(12) bg_off_of_nat[OF gu] by (simp add: SIZEOF_BG_DESC_def)
  define s1 where "s1 = s\<lparr>bgdt := put16 (bg_free_off Blocks ?G) (bg_free Blocks (bgdt s) ?G - 1) (bgdt s),
    superblock := put32 (s_free_off Blocks) (field32 (superblock s) (s_free_off Blocks) - 1) (superblock s)\<rparr>"
  have geo1: "geometry s1 = geometry s" unfolding s1_def by (rule geometry_free[OF off d(2)])
  note c1 = geometry_cong[OF geo1]
  define b' where "b' = put64 (8 * w) (word_of byt s g w OR push_bit n 1) (blk byt s (bmb s g))"
  have bl1: "blk byt s1 = blk byt s" by (simp add: fun_eq_iff blk_def img_def bsz_def s1_def)
  have "geo s1" "valid s1 (bmb s g)" "length b' = bsz s1" using c1 d(1) v(1) w8 by (simp_all add: b'_def)
  from write_block_blk[OF D this] obtain d2 where d2: "write_block D (of_nat (bmb s g)) b' s1 = (True, s1\<lparr>disk := d2\<rparr>)"
    "\<And>x. blk byt (s1\<lparr>disk := d2\<rparr>) x = (if x = bmb s g then b' else blk byt s1 x)" by blast
  have geo2: "geometry (s1\<lparr>disk := d2\<rparr>) = geometry s" by (simp add: geo1)
  have "alloc_wf (s1\<lparr>disk := d2\<rparr>)" "gdt_end (s1\<lparr>disk := d2\<rparr>) = gdt_end s" using geometry_cong[OF geo2] wf by simp_all
  from sync_meta_blk[OF D this(1)] this(2) obtain d3 where d3: "sync_meta D (s1\<lparr>disk := d2\<rparr>) = Inr (s1\<lparr>disk := d2, disk := d3\<rparr>)"
    "\<And>x. gdt_end s \<le> x \<Longrightarrow> blk byt (s1\<lparr>disk := d2, disk := d3\<rparr>) x = blk byt (s1\<lparr>disk := d2\<rparr>) x" by auto
  let ?s = "s1\<lparr>disk := d2, disk := d3\<rparr>"
  have num: "ucast (?G * ucast (s_blocks_per_group (superblock s)) + o8 * 8 + of_nat n) = (of_nat (g * bpg s + 64 * w + n) :: u32)"
  proof -
    have "?G * ucast (s_blocks_per_group (superblock s)) + o8 * 8 + of_nat n = (of_nat (g * bpg s + 64 * w + n) :: u64)"
      by (simp add: bpg_def o8_def)
    then show ?thesis by (simp only: ucast_of_nat_32)
  qed
  have e: "bitmap_block Blocks (bgdt s) ?G + o8 div block_size s = of_nat (bmb s g)" by (simp add: om(2) bmb_def)
  have p: "per_group Blocks (superblock s) = s_blocks_per_group (superblock s)" by simp
  have "take_bit_at D Blocks ?G o8 (blk byt s (bmb s g)) s = Inr (of_nat (g * bpg s + 64 * w + n), ?s)"
    unfolding take_bit_at_def Let_def om(1) e word_of_def[symmetric] n_def[symmetric] b'_def[symmetric] s1_def[symmetric] d2(1) snd_conv d3(1) p
    by (simp only: sum.case num) (simp add: num)
  moreover have "geometry ?s = geometry s" "lock ?s = lock s" using geo1 by (simp_all add: s1_def)
  moreover have "\<forall>x \<ge> gdt_end s. blk byt ?s x = (if x = bmb s g then b' else blk byt s x)" using d2(2) d3(2) bl1 by simp
  ultimately show ?thesis using n unfolding b'_def o8_def by blast
qed

lemma in_use_take:
  assumes wf: "alloc_wf s" and g: "g < ngroups s" and w: "64 * w < bpg s" and n: "n < 64" and ge: "geometry s' = geometry s"
    and bl: "\<forall>x \<ge> gdt_end s. blk byt s' x =
      (if x = bmb s g then put64 (8 * w) (word_of byt s g w OR push_bit n 1) (blk byt s (bmb s g)) else blk byt s x)"
  shows "in_use byt s' x \<longleftrightarrow> in_use byt s x \<or> x = g * bpg s + 64 * w + n"
proof -
  note d = alloc_wfD[OF wf] and c = geometry_cong[OF ge]
  have w8: "64 * v + 64 \<le> bpg s" if "64 * v < bpg s" for v using that d(8) by (auto elim!: dvdE)
  have wo: "word_of byt s' a v = (if a = g \<and> v = w then word_of byt s g w OR push_bit n 1 else word_of byt s a v)"
    if "a < ngroups s" "64 * v < bpg s" for a v
  proof -
    have l: "8 * v + 8 \<le> bsz s" "8 * w + 8 \<le> bsz s" using w8[OF that(2)] w8[OF w] d(9) by auto
    have b: "bmb s a = bmb s g \<longleftrightarrow> a = g" using d(13) that(1) g by (auto simp: inj_on_def)
    have "8 * v + 8 \<le> 8 * w \<or> 8 * w + 8 \<le> 8 * v" if "v \<noteq> w" using that by linarith
    then show ?thesis using bl alloc_wf_bitmap[OF wf that(1)] l b unfolding word_of_def c by auto
  qed
  let ?q = "x mod bpg s div 64" and ?m = "x mod bpg s mod 64"
  have q: "64 * ?q < bpg s"
  proof -
    have "64 * ?q \<le> x mod bpg s" by simp
    also have "\<dots> < bpg s" using d(7) by simp
    finally show ?thesis .
  qed
  have eq: "x = g * bpg s + 64 * w + n \<longleftrightarrow> x div bpg s = g \<and> ?q = w \<and> ?m = n"
  proof
    assume x: "x = g * bpg s + 64 * w + n"
    have "64 * w + n < bpg s" using w8[OF w] n by simp
    then have "x div bpg s = g" "x mod bpg s = 64 * w + n" using x by (simp_all add: add.assoc)
    then show "x div bpg s = g \<and> ?q = w \<and> ?m = n" using n by simp
  next
    assume "x div bpg s = g \<and> ?q = w \<and> ?m = n"
    then show "x = g * bpg s + 64 * w + n" using div_mult_mod_eq[of x "bpg s"] div_mult_mod_eq[of "x mod bpg s" 64]
      by (metis add.assoc mult.commute)
  qed
  show ?thesis
  proof (cases "x div bpg s < ngroups s")
    case True
    have "bit (push_bit n (1 :: u64)) ?m \<longleftrightarrow> ?m = n" using n by (auto simp: bit_exp_iff possible_bit_def)
    then show ?thesis unfolding in_use_def c eq using True wo[OF True q] by (auto simp: bit_or_iff)
  next
    case False
    then show ?thesis unfolding in_use_def c eq using g by auto
  qed
qed

subsection \<open>Groups\<close>

text \<open>What an allocation achieves: the block was free, it is marked, and no block outside of the metadata changes.\<close>

definition allocated :: "('d \<Rightarrow> nat \<Rightarrow> u8) \<Rightarrow> 'd ext2_t \<Rightarrow> nat \<Rightarrow> 'd ext2_t \<Rightarrow> bool" where
  "allocated byt s b s' \<longleftrightarrow> \<not> in_use byt s b \<and> b div bpg s < ngroups s - 1 \<and> geometry s' = geometry s \<and> lock s' = lock s
     \<and> (\<forall>x. in_use byt s' x \<longleftrightarrow> in_use byt s x \<or> x = b)
     \<and> (\<forall>x \<ge> gdt_end s. x \<notin> bmb s ` {..< ngroups s} \<longrightarrow> blk byt s' x = blk byt s x)"

definition group_full :: "('d \<Rightarrow> nat \<Rightarrow> u8) \<Rightarrow> 'd ext2_t \<Rightarrow> nat \<Rightarrow> bool" where
  "group_full byt s g \<longleftrightarrow> bg_free Blocks (bgdt s) (of_nat g) = 0 \<or> (\<forall>b. b div bpg s = g \<longrightarrow> in_use byt s b)"

lemma group_scan:
  assumes D: "good_disk D byt" and wf: "alloc_wf s" and g: "g < ngroups s"
  shows "\<exists>r. bitmap_scan D (bitmap_block Blocks (bgdt s) (of_nat g)) (ucast (per_group Blocks (superblock s) div 8)) 0 None s = done_with r \<and>
    (case r of None \<Rightarrow> \<forall>b. b div bpg s = g \<longrightarrow> in_use byt s b
     | Some (off, b) \<Rightarrow> \<exists>w. off = of_nat (8 * w) \<and> b = blk byt s (bmb s g) \<and> 64 * w < bpg s \<and> word_of byt s g w \<noteq> -1)"
proof -
  note d = alloc_wfD[OF wf]
  define n :: u64 where "n = ucast (s_blocks_per_group (superblock s) div 8)"
  have n: "unat n = bpg s div 8"
  proof -
    have "unat (s_blocks_per_group (superblock s)) div 8 < 2 ^ 64"
      using unat_u32_less[of "s_blocks_per_group (superblock s)"] by simp
    then show ?thesis by (simp add: n_def unsigned_ucast_eq unat_div bpg_def take_bit_nat_eq_self)
  qed
  have n8: "8 * unat n = bpg s" "8 dvd unat n" using d(8) n by (auto elim!: dvdE)
  have le: "unat n \<le> bsz s" using n8(1) d(9) by linarith
  obtain r where r: "bitmap_scan D (of_nat (bmb s g)) n 0 None s = done_with r"
    "case r of None \<Rightarrow> \<forall>w. unat (0 :: u64) \<le> 8 * w \<and> 8 * w < unat n \<longrightarrow> field64 (blk byt s (bmb s g)) (8 * w) = -1
     | Some (off', b) \<Rightarrow> \<exists>w. off' = of_nat (8 * w) \<and> b = blk byt s (bmb s g) \<and> 8 * w < unat n \<and> field64 b (8 * w) \<noteq> -1"
    using bitmap_scan_ok[OF D d(1) conjunct1[OF alloc_wf_bitmap[OF wf g]] le n8(2), of 0 None] by auto
  have lt: "8 * w < unat n \<longleftrightarrow> 64 * w < bpg s" for w unfolding n8(1)[symmetric] by linarith
  have e: "bitmap_block Blocks (bgdt s) (of_nat g) = of_nat (bmb s g)" "ucast (per_group Blocks (superblock s) div 8) = n"
    by (simp_all add: bmb_def n_def)
  have full: "in_use byt s b" if "\<forall>w. 8 * w < unat n \<longrightarrow> word_of byt s g w = -1" "b div bpg s = g" for b
  proof -
    have "64 * (b mod bpg s div 64) \<le> b mod bpg s" by simp
    also have "\<dots> < bpg s" using d(7) by simp
    finally have "word_of byt s g (b mod bpg s div 64) = -1" using that(1) lt by blast
    then show ?thesis using that(2) g by (simp add: in_use_def)
  qed
  show ?thesis unfolding e using r full by (auto simp: word_of_def lt split: option.splits)
qed

lemma next_group:
  assumes "N < 2 ^ 63" "g0 < N" "j < N"
  defines "g \<equiv> (g0 + j) mod N" and "g' \<equiv> (g0 + Suc j) mod N"
  shows "(if of_nat g + 1 = (of_nat (Suc N) :: u64) - 1 then 0 else of_nat g + 1) = (of_nat g' :: u64)"
    "of_nat g0 = (of_nat g' :: u64) \<longleftrightarrow> Suc j = N"
proof -
  have inj: "(of_nat a :: u64) = of_nat b \<longleftrightarrow> a = b" if "a < 2 ^ 64" "b < 2 ^ 64" for a b
    using unat_of_nat_u64[OF that(1)] unat_of_nat_u64[OF that(2)] by metis
  have g: "g < N" "g' < N" using assms(2) by (simp_all add: g_def g'_def)
  have "(of_nat (Suc g) :: u64) = of_nat N \<longleftrightarrow> Suc g = N" using g assms(1) by (intro inj) simp_all
  then have "of_nat g + 1 = (of_nat (Suc N) :: u64) - 1 \<longleftrightarrow> Suc g = N" by (simp add: add.commute)
  moreover have "g' = (if Suc g = N then 0 else Suc g)" using mod_Suc[of "g0 + j" N] by (simp add: g_def g'_def)
  ultimately show "(if of_nat g + 1 = (of_nat (Suc N) :: u64) - 1 then 0 else of_nat g + 1) = (of_nat g' :: u64)"
    by (simp add: add.commute)
  have "of_nat g0 = (of_nat g' :: u64) \<longleftrightarrow> g0 = g'" using g assms(1,2) by (intro inj) simp_all
  also have "\<dots> \<longleftrightarrow> Suc j = N"
  proof (cases "g0 + Suc j < N")
    case False
    then have "g' = g0 + Suc j - N" using assms(2,3) by (simp add: g'_def le_mod_geq)
    then show ?thesis using False assms(2,3) by auto
  qed (simp add: g'_def)
  finally show "of_nat g0 = (of_nat g' :: u64) \<longleftrightarrow> Suc j = N" .
qed

lemma alloc_groups_ok:
  assumes D: "good_disk D byt" and wf: "alloc_wf s" and N: "N = ngroups s - 1" and g0: "g0 < N" and "j < N"
  shows "(\<exists>b s'. alloc_groups D Blocks (of_nat (ngroups s)) (of_nat g0) (of_nat ((g0 + j) mod N)) s = done_with (of_nat b, s') \<and> allocated byt s b s')
    \<or> alloc_groups D Blocks (of_nat (ngroups s)) (of_nat g0) (of_nat ((g0 + j) mod N)) s = done_with (0, s)
      \<and> (\<forall>i. j \<le> i \<and> i < N \<longrightarrow> group_full byt s ((g0 + i) mod N))"
  using assms(5)
proof (induction "N - j" arbitrary: j rule: less_induct)
  case less
  note d = alloc_wfD[OF wf]
  define g where "g = (g0 + j) mod N"
  have G: "ngroups s = Suc N" "0 < N" using d(10) N g0 by auto
  have g: "g < N" using G(2) by (simp add: g_def)
  then have g2: "g < ngroups s" using G(1) by simp
  note g = g g2
  have "ngroups s \<le> ngroups s * bpg s" using d(7) by simp
  then have "ngroups s \<le> 2 ^ 32" using d(11) by linarith
  then have small: "ngroups s < 2 ^ 64" by simp
  have off: "bg_off (of_nat g) + SIZEOF_BG_DESC \<le> length (bgdt s)"
    using bg_off_of_nat[of g] g(2) small d(12) by (simp add: SIZEOF_BG_DESC_def)
  obtain r where r: "bitmap_scan D (bitmap_block Blocks (bgdt s) (of_nat g)) (ucast (per_group Blocks (superblock s) div 8)) 0 None s = done_with r"
    "case r of None \<Rightarrow> \<forall>b. b div bpg s = g \<longrightarrow> in_use byt s b
     | Some (off, b) \<Rightarrow> \<exists>w. off = of_nat (8 * w) \<and> b = blk byt s (bmb s g) \<and> 64 * w < bpg s \<and> word_of byt s g w \<noteq> -1"
    using group_scan[OF D wf g(2)] by blast
  have "N < 2 ^ 63" using \<open>ngroups s \<le> 2 ^ 32\<close> G(1) by simp
  note ng = next_group[OF this g0 less.prems, folded G(1) g_def]
  let ?next = "if Suc j = N then done_with (0, s) else alloc_groups D Blocks (of_nat (ngroups s)) (of_nat g0) (of_nat ((g0 + Suc j) mod N)) s"
  have u: "alloc_groups D Blocks (of_nat (ngroups s)) (of_nat g0) (of_nat g) s =
      (if bg_free Blocks (bgdt s) (of_nat g) \<noteq> 0 then case r of Some (off, b) \<Rightarrow> Some (take_bit_at D Blocks (of_nat g) off b s) | None \<Rightarrow> ?next
       else ?next)"
  proof -
    have nl: "\<not> length (bgdt s) < bg_off (of_nat g) + SIZEOF_BG_DESC" using off by simp
    show ?thesis
      by (subst alloc_groups.simps, cases "bg_free Blocks (bgdt s) (of_nat g) = 0")
        (simp_all only: nl r(1) Let_def ng if_False if_True andthen_simps option.case simp_thms)
  qed
  show ?case
  proof (cases "bg_free Blocks (bgdt s) (of_nat g) \<noteq> 0 \<and> r \<noteq> None")
    case True
    then obtain w where w: "r = Some (of_nat (8 * w), blk byt s (bmb s g))" "64 * w < bpg s" "word_of byt s g w \<noteq> -1" using r(2) by auto
    obtain n s' where t: "take_bit_at D Blocks (of_nat g) (of_nat (8 * w)) (blk byt s (bmb s g)) s = Inr (of_nat (g * bpg s + 64 * w + n), s')"
      "n < 64" "\<not> bit (word_of byt s g w) n" "geometry s' = geometry s" "lock s' = lock s"
      "\<forall>x \<ge> gdt_end s. blk byt s' x =
         (if x = bmb s g then put64 (8 * w) (word_of byt s g w OR push_bit n 1) (blk byt s (bmb s g)) else blk byt s x)"
      using take_bit_at_ok[OF D wf g(2) w(2,3)] by blast
    let ?b = "g * bpg s + 64 * w + n"
    have "64 * w + n < bpg s" using w(2) t(2) d(8) by (auto elim!: dvdE)
    then have b: "?b div bpg s = g" "?b mod bpg s = 64 * w + n" by (simp_all add: add.assoc)
    have "allocated byt s ?b s'"
      unfolding allocated_def using in_use_take[OF wf g(2) w(2) t(2,4,6)] t(2-6) b g N by (auto simp: in_use_def)
    moreover have "alloc_groups D Blocks (of_nat (ngroups s)) (of_nat g0) (of_nat g) s = done_with (of_nat ?b, s')"
      unfolding u w(1) using True t(1) by (simp del: of_nat_add of_nat_mult)
    ultimately show ?thesis unfolding g_def by blast
  next
    case False
    then have full: "group_full byt s g" using r(2) by (cases r) (auto simp: group_full_def)
    have un: "alloc_groups D Blocks (of_nat (ngroups s)) (of_nat g0) (of_nat g) s = ?next" unfolding u using False by (cases r) simp_all
    have up: "(\<forall>i. j \<le> i \<and> i < N \<longrightarrow> group_full byt s ((g0 + i) mod N))"
      if "\<forall>i. Suc j \<le> i \<and> i < N \<longrightarrow> group_full byt s ((g0 + i) mod N)"
      using that full by (metis Suc_leI g_def le_neq_implies_less)
    show ?thesis
    proof (cases "Suc j = N")
      case True
      then have "\<forall>i. j \<le> i \<and> i < N \<longrightarrow> group_full byt s ((g0 + i) mod N)" by (intro up) auto
      then show ?thesis using un True unfolding g_def by simp
    next
      case False
      then have s: "Suc j < N" using less.prems by simp
      have e: "alloc_groups D Blocks (of_nat (ngroups s)) (of_nat g0) (of_nat ((g0 + j) mod N)) s
          = alloc_groups D Blocks (of_nat (ngroups s)) (of_nat g0) (of_nat ((g0 + Suc j) mod N)) s"
        using un False unfolding g_def by simp
      have "N - Suc j < N - j" using s by simp
      from less.hyps[OF this s] show ?thesis
      proof (elim disjE conjE)
        assume "alloc_groups D Blocks (of_nat (ngroups s)) (of_nat g0) (of_nat ((g0 + Suc j) mod N)) s = done_with (0, s)"
          "\<forall>i. Suc j \<le> i \<and> i < N \<longrightarrow> group_full byt s ((g0 + i) mod N)"
        then show ?thesis unfolding e using up by blast
      qed (simp only: e simp_thms)
    qed
  qed
qed

theorem alloc_block_ok:
  assumes "good_disk D byt" "alloc_wf s" "g0 < ngroups s - 1"
  shows "(\<exists>b s'. alloc_block D (of_nat g0) s = done_with (of_nat b, s') \<and> allocated byt s b s')
    \<or> alloc_block D (of_nat g0) s = done_with (0, s) \<and> (\<forall>g < ngroups s - 1. group_full byt s g)"
proof -
  define N where "N = ngroups s - 1"
  let ?N = N
  have "ucast (s_inodes_count (superblock s) div s_inodes_per_group (superblock s)) = (of_nat (ngroups s) :: u64)"
    unfolding ngroups_def by (rule ucast32_of_nat)
  then have u: "alloc_block D (of_nat g0) s = alloc_groups D Blocks (of_nat (ngroups s)) (of_nat g0) (of_nat ((g0 + 0) mod ?N)) s"
    using alloc_wfD(6)[OF assms(2)] assms(3) by (simp add: N_def alloc_block_def alloc_bit_def Let_def)
  have "group_full byt s g" if "\<forall>i. 0 \<le> i \<and> i < ?N \<longrightarrow> group_full byt s ((g0 + i) mod ?N)" "g < ?N" for g
  proof -
    define i where "i = (g + (?N - g0)) mod ?N"
    have "(g0 + i) mod ?N = (g0 + (g + (?N - g0))) mod ?N" by (simp add: i_def mod_add_right_eq)
    also have "\<dots> = (g + ?N) mod ?N" using assms(3) by (simp add: N_def add.commute add.left_commute)
    finally have "(g0 + i) mod ?N = g" using that(2) by simp
    moreover have "i < ?N" using that(2) by (simp add: i_def)
    ultimately show ?thesis using that(1) by blast
  qed
  moreover have "0 < ?N" using assms(3) by (simp add: N_def)
  ultimately show ?thesis unfolding u using alloc_groups_ok[OF assms(1,2) N_def, of g0 0] assms(3) unfolding N_def by blast
qed

end
