(* ===== verification/Ext2File.thy ===== *)
theory Ext2File
  imports Ext2Alloc
begin

section \<open>The ext2 driver: files that are written\<close>

text \<open>
  A write fills holes of the file with new blocks, and indirect blocks on the way to them, then overwrites bytes of the blocks.  The
  blocks of a file form a tree in which no block occurs twice and every block is in use; a block that is allocated was not in use and so
  is no block of any tree.  The write is shown to implement the update of a byte sequence.
\<close>

definition data_block :: "'d ext2_t \<Rightarrow> nat \<Rightarrow> bool" where
  "data_block s x \<longleftrightarrow> gdt_end s \<le> x \<and> x \<notin> bmb s ` {..< ngroups s}"

definition fs_ok :: "('d \<Rightarrow> nat \<Rightarrow> u8) \<Rightarrow> 'd ext2_t \<Rightarrow> bool" where
  "fs_ok byt s \<longleftrightarrow> alloc_wf s \<and> (\<forall>x. \<not> data_block s x \<longrightarrow> in_use byt s x) \<and> (\<forall>x. x div bpg s < ngroups s - 1 \<longrightarrow> valid s x)"

definition zeros :: "'d ext2_t \<Rightarrow> bytes" where "zeros s = replicate (bsz s) 0"

definition new_block :: "('d \<Rightarrow> nat \<Rightarrow> u8) \<Rightarrow> 'd ext2_t \<Rightarrow> nat \<Rightarrow> 'd ext2_t \<Rightarrow> bool" where
  "new_block byt s b s' \<longleftrightarrow> 0 < b \<and> b < 2 ^ 32 \<and> \<not> in_use byt s b \<and> valid s b \<and> data_block s b \<and> geometry s' = geometry s \<and> lock s' = lock s
     \<and> (\<forall>x. in_use byt s' x \<longleftrightarrow> in_use byt s x \<or> x = b)
     \<and> (\<forall>x. data_block s x \<longrightarrow> blk byt s' x = (if x = b then zeros s else blk byt s x))"

definition disk_full :: "('d \<Rightarrow> nat \<Rightarrow> u8) \<Rightarrow> 'd ext2_t \<Rightarrow> bool" where
  "disk_full byt s \<longleftrightarrow> (\<forall>g < ngroups s - 1. group_full byt s g)"

lemma data_block_cong: "geometry s' = geometry s \<Longrightarrow> data_block s' = data_block s \<and> zeros s' = zeros s"
  using geometry_cong[of s' s] by (auto simp: data_block_def zeros_def fun_eq_iff)

lemma fs_okD:
  assumes "fs_ok byt s"
  shows "alloc_wf s" "geo s" "\<not> data_block s x \<Longrightarrow> in_use byt s x" "x div bpg s < ngroups s - 1 \<Longrightarrow> valid s x"
  using assms alloc_wfD(1) unfolding fs_ok_def by blast+

lemma alloc_and_zero_block_ok:
  assumes D: "good_disk D byt" and f: "fs_ok byt s" and g: "g < ngroups s - 1"
  shows "(\<exists>b s'. alloc_and_zero_block D (of_nat g) s = done_with (of_nat b, s') \<and> new_block byt s b s' \<and> fs_ok byt s')
    \<or> alloc_and_zero_block D (of_nat g) s = done_with (0, s) \<and> disk_full byt s"
proof -
  note wf = fs_okD(1)[OF f]
  note d = alloc_wfD[OF wf]
  consider b s1 where "alloc_block D (of_nat g) s = done_with (of_nat b, s1)" "allocated byt s b s1"
    | "alloc_block D (of_nat g) s = done_with (0, s)" "disk_full byt s"
    using alloc_block_ok[OF D wf g] unfolding disk_full_def by blast
  then show ?thesis
  proof cases
    case 1
    note a = 1(2)[unfolded allocated_def]
    have db: "data_block s b" using a fs_okD(3)[OF f] by blast
    then have b0: "0 < b" by (simp add: data_block_def gdt_end_def)
    have v: "valid s b" using a fs_okD(4)[OF f] by blast
    then have b32: "b < 2 ^ 32" by (simp add: valid_def)
    have ub: "unat (of_nat b :: u32) = b" using b32 by (simp add: unat_of_nat take_bit_nat_eq_self)
    then have nz: "(of_nat b :: u32) \<noteq> 0" using b0 unat_eq_0[of "of_nat b :: u32"] by (metis less_irrefl)
    have ge: "geometry s1 = geometry s" using a by blast
    note c = geometry_cong[OF ge]
    have "geo s1" "valid s1 b" "length (replicate (unat (block_size s)) 0 :: bytes) = bsz s1"
      using c d(1) v by (simp_all add: bsz_def)
    from write_block_blk[OF D this] obtain d2 where w: "write_block D (of_nat b) (replicate (unat (block_size s)) 0) s1 = (True, s1\<lparr>disk := d2\<rparr>)"
      "\<And>x. blk byt (s1\<lparr>disk := d2\<rparr>) x = (if x = b then replicate (unat (block_size s)) 0 else blk byt s1 x)" by blast
    let ?s = "s1\<lparr>disk := d2\<rparr>"
    have ge2: "geometry ?s = geometry s" using ge by simp
    have bm: "bmb s x \<noteq> b" if "x < ngroups s" for x using db that by (auto simp: data_block_def)
    have iu: "in_use byt ?s x \<longleftrightarrow> in_use byt s x \<or> x = b" for x
    proof -
      have "in_use byt ?s x = in_use byt s1 x"
        unfolding in_use_def word_of_def geometry_cong[OF ge2] c w(2) using bm by auto
      then show ?thesis using a by blast
    qed
    have "\<forall>x. data_block s x \<longrightarrow> blk byt ?s x = (if x = b then zeros s else blk byt s x)"
      using a w(2) by (simp add: data_block_def zeros_def bsz_def)
    then have "new_block byt s b ?s" unfolding new_block_def using b0 b32 a v db ge2 iu by auto
    moreover have "fs_ok byt ?s"
      using f iu unfolding fs_ok_def geometry_cong[OF ge2] conjunct1[OF data_block_cong[OF ge2]] by blast
    moreover have "alloc_and_zero_block D (of_nat g) s = done_with (of_nat b, ?s)"
      using 1(1) nz w(1) ucast32_of_nat[of "of_nat b"] ub by (simp add: alloc_and_zero_block_def)
    ultimately show ?thesis by blast
  qed (simp add: alloc_and_zero_block_def)
qed

subsection \<open>The tree of blocks\<close>

definition ftree_ok :: "('d \<Rightarrow> nat \<Rightarrow> u8) \<Rightarrow> 'd ext2_t \<Rightarrow> nat \<Rightarrow> bytes \<Rightarrow> bool" where
  "ftree_ok byt s ib ino \<longleftrightarrow>
     (\<forall>k js. slot s k js \<and> node byt s ino k js \<noteq> 0 \<longrightarrow>
        (let x = node byt s ino k js in valid s x \<and> in_use byt s x \<and> data_block s x \<and> x \<noteq> ib
          \<and> (\<forall>k' js'. slot s k' js' \<and> node byt s ino k' js' = x \<longrightarrow> k' = k \<and> js' = js)))"

lemma ftree_okD:
  assumes "ftree_ok byt s ib ino" "slot s k js" "node byt s ino k js \<noteq> 0"
  shows "valid s (node byt s ino k js)" "in_use byt s (node byt s ino k js)" "data_block s (node byt s ino k js)" "node byt s ino k js \<noteq> ib"
    "\<And>k' js'. slot s k' js' \<Longrightarrow> node byt s ino k' js' = node byt s ino k js \<Longrightarrow> k' = k \<and> js' = js"
  using assms unfolding ftree_ok_def Let_def by blast+

lemma tree_map_ok: "ftree_ok byt s ib ino \<Longrightarrow> map_ok byt s ino"
  unfolding map_ok_def using ftree_okD(1) by blast

lemma node_snoc: "node byt s ino k (js @ [i]) = (let x = node byt s ino k js in if x = 0 then 0 else entry byt s x i)"
proof -
  have "descend byt s b (js @ [i]) = (let x = descend byt s b js in if x = 0 then 0 else entry byt s x i)" for b
    by (induction js arbitrary: b) (auto simp: Let_def)
  then show ?thesis by (simp add: node_def)
qed

lemma slot_snoc: "slot s k (js @ [i]) \<longleftrightarrow> slot s k js \<and> length js < k - 11 \<and> i < ppb s"
  by (auto simp: slot_def)

text \<open>Filling one hole of the tree, at the path \<open>(k, p)\<close>.\<close>

lemma node_fill:
  assumes "ppb s' = ppb s" "b \<noteq> 0" "node byt s ino k p = 0"
    "\<And>k'. k' \<le> 14 \<Longrightarrow> unat (i_block ino' k') = (if k' = k \<and> p = [] then b else unat (i_block ino k'))"
    "\<And>k' js j. slot s k' (js @ [j]) \<Longrightarrow> node byt s ino k' js \<noteq> 0 \<Longrightarrow>
       entry byt s' (node byt s ino k' js) j = (if k' = k \<and> p = js @ [j] then b else entry byt s (node byt s ino k' js) j)"
    "\<And>j. j < ppb s \<Longrightarrow> entry byt s' b j = 0"
    "slot s k' js" "\<And>js j. p = js @ [j] \<Longrightarrow> node byt s ino k js \<noteq> 0"
  shows "node byt s' ino' k' js = (if k' = k \<and> js = p then b else node byt s ino k' js)"
  using assms(7)
proof (induction js rule: rev_induct)
  case Nil
  then show ?case using assms(4)[of k'] by (auto simp: node_def slot_def)
next
  case (snoc j js)
  then have sl: "slot s k' js" "j < ppb s" by (auto simp: slot_snoc)
  show ?case
  proof (cases "k' = k \<and> js = p")
    case True
    then have "node byt s' ino' k' js = b" using snoc.IH[OF sl(1)] by simp
    then show ?thesis using True assms(2,3,6) sl(2) by (auto simp: node_snoc Let_def)
  next
    case False
    then have "node byt s' ino' k' js = node byt s ino k' js" using snoc.IH[OF sl(1)] by auto
    then show ?thesis using assms(3,8) assms(5)[OF snoc.prems] by (auto simp: node_snoc Let_def)
  qed
qed

subsection \<open>Growing a file\<close>

definition content :: "('d \<Rightarrow> nat \<Rightarrow> u8) \<Rightarrow> 'd ext2_t \<Rightarrow> bytes \<Rightarrow> nat \<Rightarrow> nat list \<Rightarrow> bytes" where
  "content byt s ino k js = (let x = node byt s ino k js in if x = 0 then zeros s else blk byt s x)"

definition nodes :: "('d \<Rightarrow> nat \<Rightarrow> u8) \<Rightarrow> 'd ext2_t \<Rightarrow> bytes \<Rightarrow> nat set" where
  "nodes byt s ino = {x. x \<noteq> 0 \<and> (\<exists>k js. slot s k js \<and> node byt s ino k js = x)}"

text \<open>The file has got more blocks: old blocks stay where they were and the bytes of the file are the same; blocks in use that are not of
  this file are the same.\<close>

definition grown :: "('d \<Rightarrow> nat \<Rightarrow> u8) \<Rightarrow> nat \<Rightarrow> 'd ext2_t \<Rightarrow> bytes \<Rightarrow> 'd ext2_t \<Rightarrow> bytes \<Rightarrow> bool" where
  "grown byt ib s ino s' ino' \<longleftrightarrow> geometry s' = geometry s \<and> lock s' = lock s \<and> fs_ok byt s' \<and> ftree_ok byt s' ib ino'
     \<and> (\<forall>x. in_use byt s x \<longrightarrow> in_use byt s' x)
     \<and> (\<forall>k js. slot s k js \<and> node byt s ino k js \<noteq> 0 \<longrightarrow> node byt s' ino' k js = node byt s ino k js)
     \<and> (\<forall>k js. slot s k js \<and> length js = k - 11 \<longrightarrow> content byt s' ino' k js = content byt s ino k js)
     \<and> (\<forall>x \<in> nodes byt s' ino'. x \<in> nodes byt s ino \<or> \<not> in_use byt s x)
     \<and> (\<forall>x. data_block s x \<and> in_use byt s x \<and> x \<notin> nodes byt s ino \<longrightarrow> blk byt s' x = blk byt s x)
     \<and> length ino' = length ino \<and> inode_size ino' = inode_size ino"

lemma grown_refl: "fs_ok byt s \<Longrightarrow> ftree_ok byt s ib ino \<Longrightarrow> grown byt ib s ino s ino"
  by (simp add: grown_def)

lemma grown_trans:
  assumes "grown byt ib s ino s1 ino1" "grown byt ib s1 ino1 s2 ino2"
  shows "grown byt ib s ino s2 ino2"
proof -
  note a = assms(1)[unfolded grown_def] and b = assms(2)[unfolded grown_def]
  have g: "geometry s1 = geometry s" using a by blast
  have sl: "slot s1 = slot s" and db: "data_block s1 = data_block s" using geometry_cong(6)[OF g] data_block_cong[OF g] by auto
  show ?thesis unfolding grown_def
  proof (intro conjI allI impI ballI)
    show "blk byt s2 x = blk byt s x" if x: "data_block s x \<and> in_use byt s x \<and> x \<notin> nodes byt s ino" for x
    proof -
      have "x \<notin> nodes byt s1 ino1" "in_use byt s1 x" "data_block s1 x" using a x db by auto
      then have "blk byt s2 x = blk byt s1 x" using b by blast
      then show ?thesis using a x by simp
    qed
    show "node byt s2 ino2 k js = node byt s ino k js" if "slot s k js \<and> node byt s ino k js \<noteq> 0" for k js
      using that a b unfolding sl by metis
    show "x \<in> nodes byt s ino \<or> \<not> in_use byt s x" if "x \<in> nodes byt s2 ino2" for x using that a b by blast
  qed (use a b sl in auto)
qed

text \<open>The new block replaces a hole.\<close>

lemma grown_fill:
  assumes f: "fs_ok byt s" "ftree_ok byt s ib ino" "fs_ok byt s'" "in_use byt s ib"
    and sl: "slot s k p" and hole: "node byt s ino k p = 0"
    and b: "\<not> in_use byt s b" "b \<noteq> 0" "valid s b" "data_block s b"
    and ge: "geometry s' = geometry s" "lock s' = lock s"
    and iu: "\<And>x. in_use byt s' x \<longleftrightarrow> in_use byt s x \<or> x = b"
    and nd: "\<And>k' js. slot s k' js \<Longrightarrow> node byt s' ino' k' js = (if k' = k \<and> js = p then b else node byt s ino k' js)"
    and bl: "\<And>x. data_block s x \<Longrightarrow> x = b \<or> (\<forall>js j. p = js @ [j] \<longrightarrow> x \<noteq> node byt s ino k js) \<Longrightarrow> blk byt s' x = (if x = b then zeros s else blk byt s x)"
    and ino: "length ino' = length ino" "inode_size ino' = inode_size ino"
  shows "grown byt ib s ino s' ino'"
proof -
  have c: "slot s' = slot s" "valid s' = valid s" "data_block s' = data_block s" "zeros s' = zeros s"
    using geometry_cong[OF ge(1)] data_block_cong[OF ge(1)] by auto
  have other: "node byt s ino k' js \<noteq> b" if "slot s k' js" "node byt s ino k' js \<noteq> 0" for k' js
    using ftree_okD(2)[OF f(2) that] b(1) by metis
  have uniq: "k'' = k \<and> js' = p" if "slot s k'' js'" "node byt s' ino' k'' js' = b" for k'' js'
    using nd[OF that(1)] that(2) other[OF that(1)] b(2) by (auto split: if_splits)
  have tree: "ftree_ok byt s' ib ino'" unfolding ftree_ok_def c Let_def
  proof (intro allI impI)
    fix k' js assume "slot s k' js \<and> node byt s' ino' k' js \<noteq> 0"
    then have s: "slot s k' js" and nz: "node byt s' ino' k' js \<noteq> 0" by auto
    show "valid s (node byt s' ino' k' js) \<and> in_use byt s' (node byt s' ino' k' js) \<and> data_block s (node byt s' ino' k' js)
      \<and> node byt s' ino' k' js \<noteq> ib \<and> (\<forall>k'' js'. slot s k'' js' \<and> node byt s' ino' k'' js' = node byt s' ino' k' js \<longrightarrow> k'' = k' \<and> js' = js)"
    proof (cases "k' = k \<and> js = p")
      case True
      then have e: "node byt s' ino' k' js = b" using nd[OF s] by simp
      show ?thesis unfolding e using True b iu f(4) uniq by auto
    next
      case False
      then have e: "node byt s' ino' k' js = node byt s ino k' js" "node byt s ino k' js \<noteq> 0" using nd[OF s] nz by auto
      show ?thesis unfolding e(1) using ftree_okD[OF f(2) s e(2)] iu nd other[OF s e(2)] by (metis (full_types))
    qed
  qed
  have con: "content byt s' ino' k' js = content byt s ino k' js" if "slot s k' js \<and> length js = k' - 11" for k' js
  proof (cases "k' = k \<and> js = p")
    case True
    then show ?thesis using that nd[of k' js] hole b bl[of b] c(4) by (auto simp: content_def)
  next
    case False
    have e: "node byt s' ino' k' js = node byt s ino k' js" using nd[of k' js] that False by simp
    have "blk byt s' (node byt s ino k' js) = blk byt s (node byt s ino k' js)" if nz: "node byt s ino k' js \<noteq> 0"
    proof -
      have s: "slot s k' js" "length js = k' - 11" using \<open>slot s k' js \<and> length js = k' - 11\<close> by auto
      have "node byt s ino k' js \<noteq> node byt s ino k q" if "p = q @ [j]" for q j
      proof
        assume q: "node byt s ino k' js = node byt s ino k q"
        have "slot s k q" "length q < k - 11" using sl that by (auto simp: slot_snoc)
        then have "k = k' \<and> q = js" using ftree_okD(5)[OF f(2) s(1) nz] q by metis
        then show False using \<open>length q < k - 11\<close> s(2) by simp
      qed
      then show ?thesis using bl[OF ftree_okD(3)[OF f(2) s(1) nz]] other[OF s(1) nz] by auto
    qed
    then show ?thesis using e c(4) by (simp add: content_def Let_def)
  qed
  have nodes: "x \<in> nodes byt s ino \<or> \<not> in_use byt s x" if "x \<in> nodes byt s' ino'" for x
  proof -
    obtain k' js where x: "slot s k' js" "node byt s' ino' k' js = x" "x \<noteq> 0" using \<open>x \<in> nodes byt s' ino'\<close> unfolding nodes_def c by blast
    show ?thesis
    proof (cases "k' = k \<and> js = p")
      case True
      then show ?thesis using nd[OF x(1)] x(2) b(1) by simp
    next
      case False
      then show ?thesis using nd[OF x(1)] x unfolding nodes_def by auto
    qed
  qed
  have fr: "blk byt s' x = blk byt s x" if x: "data_block s x \<and> in_use byt s x \<and> x \<notin> nodes byt s ino" for x
  proof -
    have "x \<noteq> b" using x b(1) by auto
    moreover have "x \<noteq> node byt s ino k q" if "p = q @ [j]" for q j
    proof (cases "node byt s ino k q = 0")
      case True
      then show ?thesis using x by (auto simp: data_block_def gdt_end_def)
    next
      case False
      have "slot s k q" using sl that by (simp add: slot_snoc)
      then show ?thesis using False x unfolding nodes_def by auto
    qed
    ultimately show ?thesis using bl[of x] x by simp
  qed
  show ?thesis unfolding grown_def using ge f(3) tree iu nd hole con nodes fr ino by auto
qed

subsection \<open>Assigning blocks\<close>

lemma inode_fields:
  assumes "length ino = SIZEOF_INODE" "k \<le> 14"
  shows "length (charge s ino) = SIZEOF_INODE" "inode_size (charge s ino) = inode_size ino" "k' \<le> 14 \<Longrightarrow> i_block (charge s ino) k' = i_block ino k'"
    "length (set_i_block k b ino) = SIZEOF_INODE" "inode_size (set_i_block k b ino) = inode_size ino"
    "k' \<le> 14 \<Longrightarrow> i_block (set_i_block k b ino) k' = (if k' = k then b else i_block ino k')"
proof -
  note d = charge_def set_i_block_def inode_size_def i_size_def i_dir_acl_def i_block_def SIZEOF_INODE_def
  show "length (charge s ino) = SIZEOF_INODE" "inode_size (charge s ino) = inode_size ino" "k' \<le> 14 \<Longrightarrow> i_block (charge s ino) k' = i_block ino k'"
    "length (set_i_block k b ino) = SIZEOF_INODE" "inode_size (set_i_block k b ino) = inode_size ino"
    using assms by (simp_all add: d)
  have "40 + 4 * k' + 4 \<le> 40 + 4 * k \<or> 40 + 4 * k + 4 \<le> 40 + 4 * k'" if "k' \<noteq> k" using that by linarith
  then show "i_block (set_i_block k b ino) k' = (if k' = k then b else i_block ino k')" if "k' \<le> 14" using assms by (auto simp: d)
qed

lemma of_nat_u32: "b < 2 ^ 32 \<Longrightarrow> unat (of_nat b :: u32) = b" "b < 2 ^ 32 \<Longrightarrow> (of_nat b :: u32) = 0 \<longleftrightarrow> b = 0"
    "b < 2 ^ 32 \<Longrightarrow> (ucast (of_nat b :: u32) :: u64) = of_nat b"
proof -
  show u: "unat (of_nat b :: u32) = b" if "b < 2 ^ 32" using that by (simp add: unat_of_nat take_bit_nat_eq_self)
  show "(of_nat b :: u32) = 0 \<longleftrightarrow> b = 0" if "b < 2 ^ 32" using u[OF that] unat_eq_0[of "of_nat b :: u32"] by simp
  show "(ucast (of_nat b :: u32) :: u64) = of_nat b" if "b < 2 ^ 32" using ucast32_of_nat[of "of_nat b"] u[OF that] by simp
qed

lemma entry_less: "entry byt s x i < 2 ^ 32"
  unfolding entry_def by (rule unat_u32_less)

lemma node_less: "node byt s ino k js < 2 ^ 32"
proof (cases js rule: rev_cases)
  case Nil
  then show ?thesis using unat_u32_less[of "i_block ino k"] by (simp add: node_def)
next
  case (snoc qs j)
  then show ?thesis using entry_less[of byt s "node byt s ino k qs" j] by (simp add: node_snoc Let_def)
qed

lemma entry_zeros: "geo s \<Longrightarrow> blk byt s b = zeros s \<Longrightarrow> i < ppb s \<Longrightarrow> entry byt s b i = 0"
proof -
  assume "geo s" "blk byt s b = zeros s" "i < ppb s"
  then have "take 4 (drop (4 * i) (blk byt s b)) = replicate 4 0" using ppb_bounds(4)[of s] by (simp add: zeros_def min_def)
  then show ?thesis by (simp add: entry_def field32_def le_nat_def numeral_eq_Suc)
qed

lemma root_step_ok:
  assumes D: "good_disk D byt" and f: "fs_ok byt s" "ftree_ok byt s ib ino" "in_use byt s ib" and g: "g < ngroups s - 1"
    and l: "length ino = SIZEOF_INODE" and k: "k \<le> 14"
  shows "\<exists>b ino' s'. root_step D (of_nat g) k ino s = done_with (of_nat b, ino', s') \<and> grown byt ib s ino s' ino' \<and> node byt s' ino' k [] = b
    \<and> (b = 0 \<longrightarrow> s' = s \<and> ino' = ino \<and> disk_full byt s)"
proof (cases "i_block ino k = 0")
  case False
  then have "root_step D (of_nat g) k ino s = done_with (of_nat (unat (i_block ino k)), ino, s)" by (simp add: root_step_def)
  then show ?thesis using False grown_refl[OF f(1,2)] unat_eq_0[of "i_block ino k"] by (intro exI conjI) (auto simp: node_def)
next
  case True
  then have hole: "node byt s ino k [] = 0" by (simp add: node_def)
  consider b s' where "alloc_and_zero_block D (of_nat g) s = done_with (of_nat b, s')" "new_block byt s b s'" "fs_ok byt s'"
    | "alloc_and_zero_block D (of_nat g) s = done_with (0, s)" "disk_full byt s"
    using alloc_and_zero_block_ok[OF D f(1) g] by blast
  then show ?thesis
  proof cases
    case 1
    note n = 1(2)[unfolded new_block_def]
    let ?ino = "charge s (set_i_block k (of_nat b) ino)"
    note fi = inode_fields[OF l k] and fi2 = inode_fields[OF inode_fields(4)[OF l k] k]
    have b: "b < 2 ^ 32" "b \<noteq> 0" using n by auto
    have ge: "geometry s' = geometry s" using n by blast
    note c = geometry_cong[OF ge]
    have nd: "node byt s' ?ino k' js = (if k' = k \<and> js = [] then b else node byt s ino k' js)" if "slot s k' js" for k' js
    proof (rule node_fill[OF c(4) b(2) hole _ _ _ that])
      show "unat (i_block ?ino k') = (if k' = k \<and> [] = [] then b else unat (i_block ino k'))" if "k' \<le> 14" for k'
        unfolding fi2(3)[OF that] fi(6)[OF that] using of_nat_u32(1)[OF b(1)] by simp
      show "entry byt s' (node byt s ino k' js) j = (if k' = k \<and> [] = js @ [j] then b else entry byt s (node byt s ino k' js) j)"
        if "slot s k' (js @ [j])" "node byt s ino k' js \<noteq> 0" for k' js j
      proof -
        have "slot s k' js" using that(1) by (simp add: slot_snoc)
        then have "in_use byt s (node byt s ino k' js)" "data_block s (node byt s ino k' js)" using ftree_okD(2,3)[OF f(2)] that(2) by auto
        then show ?thesis using n by (auto simp: entry_def)
      qed
      show "entry byt s' b j = 0" if "j < ppb s" for j
        using n that c data_block_cong[OF ge] fs_okD(2)[OF f(1)] by (intro entry_zeros) auto
    qed simp
    have "grown byt ib s ino s' ?ino"
      by (rule grown_fill[OF f(1,2) 1(3) f(3) _ hole, of b]) (use n nd k l fi fi2 in \<open>auto simp: slot_def\<close>)
    moreover have "node byt s' ?ino k [] = b" using nd[of k "[]"] k by (simp add: slot_def)
    moreover have "root_step D (of_nat g) k ino s = done_with (of_nat b, ?ino, s')" using True 1(1) b of_nat_u32(2) by (simp add: root_step_def)
    ultimately show ?thesis using b(2) by blast
  next
    case 2
    then show ?thesis using True grown_refl[OF f(1,2)] hole by (intro exI[of _ 0] exI[of _ ino] exI[of _ s]) (simp add: root_step_def)
  qed
qed

text \<open>A write that changes no block changes nothing.\<close>

lemma same_blocks:
  assumes "geometry s' = geometry s" "blk byt s' = blk byt s"
  shows "node byt s' ino = node byt s ino" "in_use byt s' = in_use byt s" "fs_ok byt s' = fs_ok byt s" "ftree_ok byt s' ib ino = ftree_ok byt s ib ino"
    "bgdt s' = bgdt s \<Longrightarrow> disk_full byt s' = disk_full byt s"
proof -
  note c = geometry_cong[OF assms(1)] data_block_cong[OF assms(1)]
  have "descend byt s' b js = descend byt s b js" for b js by (induction js arbitrary: b) (auto simp: entry_def assms(2))
  then show n: "node byt s' ino = node byt s ino" by (simp add: node_def fun_eq_iff)
  show i: "in_use byt s' = in_use byt s" using c assms(2) by (simp add: fun_eq_iff in_use_def word_of_def)
  show "fs_ok byt s' = fs_ok byt s" using c i by (simp add: fs_ok_def)
  show "ftree_ok byt s' ib ino = ftree_ok byt s ib ino" using c i n by (simp add: ftree_ok_def)
  show "disk_full byt s' = disk_full byt s" if "bgdt s' = bgdt s" using c i that by (simp add: disk_full_def group_full_def)
qed

lemma grown_same:
  assumes "fs_ok byt s" "ftree_ok byt s ib ino" "geometry s' = geometry s" "lock s' = lock s" "blk byt s' = blk byt s"
  shows "grown byt ib s ino s' ino"
  using assms same_blocks[OF assms(3,5)] geometry_cong(6)[OF assms(3)] data_block_cong[OF assms(3)]
  by (simp add: grown_def content_def nodes_def Let_def)

text \<open>Filling a slot of an indirect block.\<close>

lemma fill_entry:
  assumes D: "good_disk D byt" and f: "fs_ok byt s" "ftree_ok byt s ib ino" "in_use byt s ib"
    and l: "length ino = SIZEOF_INODE" and sl: "slot s k (q @ [i])"
    and B: "node byt s ino k q = B" "B \<noteq> 0" "entry byt s B i = 0"
    and n: "new_block byt s b s1" "fs_ok byt s1"
  shows "\<exists>s2. write_block D (of_nat B) (put32 (4 * i) (of_nat b) (blk byt s B)) s1 = (True, s2) \<and> grown byt ib s ino s2 (charge s ino)
    \<and> node byt s2 (charge s ino) k (q @ [i]) = b"
proof -
  note nb = n(1)[unfolded new_block_def] and geo = fs_okD(2)[OF f(1)]
  have b: "b < 2 ^ 32" "b \<noteq> 0" "\<not> in_use byt s b" using nb by auto
  have ge: "geometry s1 = geometry s" using nb by blast
  note c = geometry_cong[OF ge]
  have q: "slot s k q" "i < ppb s" using sl by (auto simp: slot_snoc)
  note tB = ftree_okD[OF f(2) q(1), unfolded B(1), OF B(2)]
  have i4: "4 * i + 4 \<le> bsz s" using q(2) ppb_bounds(4)[OF geo] by simp
  have "geo s1" "valid s1 B" "length (put32 (4 * i) (of_nat b) (blk byt s B)) = bsz s1" using c geo tB(1) i4 by simp_all
  from write_block_blk[OF D this] obtain d where w: "write_block D (of_nat B) (put32 (4 * i) (of_nat b) (blk byt s B)) s1 = (True, s1\<lparr>disk := d\<rparr>)"
    "\<And>x. blk byt (s1\<lparr>disk := d\<rparr>) x = (if x = B then put32 (4 * i) (of_nat b) (blk byt s B) else blk byt s1 x)" by blast
  let ?s = "s1\<lparr>disk := d\<rparr>"
  have ge2: "geometry ?s = geometry s" using ge by simp
  note c2 = geometry_cong[OF ge2] data_block_cong[OF ge2]
  have Bb: "B \<noteq> b" using tB(2) b(3) by auto
  have bl: "blk byt ?s x = (if x = b then zeros s else if x = B then put32 (4 * i) (of_nat b) (blk byt s B) else blk byt s x)" if "data_block s x" for x
    using that nb w(2) Bb by auto
  have hole: "node byt s ino k (q @ [i]) = 0" using B by (simp add: node_snoc)
  have nd: "node byt ?s (charge s ino) k' js = (if k' = k \<and> js = q @ [i] then b else node byt s ino k' js)" if "slot s k' js" for k' js
  proof (rule node_fill[OF c2(4) b(2) hole _ _ _ that])
    show "unat (i_block (charge s ino) k') = (if k' = k \<and> q @ [i] = [] then b else unat (i_block ino k'))" if "k' \<le> 14" for k'
      using inode_fields(3)[OF l that that] by simp
    show "entry byt ?s (node byt s ino k' js) j = (if k' = k \<and> q @ [i] = js @ [j] then b else entry byt s (node byt s ino k' js) j)"
      if s: "slot s k' (js @ [j])" "node byt s ino k' js \<noteq> 0" for k' js j
    proof -
      have sj: "slot s k' js" "j < ppb s" using s(1) by (auto simp: slot_snoc)
      note t = ftree_okD[OF f(2) sj(1) s(2)]
      show ?thesis
      proof (cases "node byt s ino k' js = B")
        case True
        then have "k = k' \<and> q = js" using t(5)[OF q(1)] B(1) by simp
        moreover have "4 * j + 4 \<le> 4 * i \<or> 4 * i + 4 \<le> 4 * j" if "j \<noteq> i" using that by linarith
        ultimately show ?thesis using True bl[OF tB(3)] Bb i4 of_nat_u32(1)[OF b(1)] by (auto simp: entry_def)
      next
        case False
        then have "\<not> (k' = k \<and> q = js)" using B(1) by auto
        then show ?thesis using False bl[OF t(3)] t(2) b(3) by (auto simp: entry_def)
      qed
    qed
    show "entry byt ?s b j = 0" if "j < ppb s" for j
      using that c2 geo bl[of b] nb by (intro entry_zeros) auto
    show "node byt s ino k js \<noteq> 0" if "q @ [i] = js @ [j]" for js j using that B by simp
  qed
  have iu: "in_use byt ?s x \<longleftrightarrow> in_use byt s x \<or> x = b" for x
  proof -
    have "bmb s y \<noteq> B" if "y < ngroups s" for y using tB(3) that by (auto simp: data_block_def)
    then have "in_use byt ?s x = in_use byt s1 x" unfolding in_use_def word_of_def c2 c w(2) by auto
    then show ?thesis using nb by blast
  qed
  have nv: "valid s b" "data_block s b" and nl: "lock ?s = lock s" using nb by simp_all
  have fs: "fs_ok byt ?s" using f(1) iu unfolding fs_ok_def geometry_cong[OF ge2] conjunct1[OF data_block_cong[OF ge2]] by blast
  have "grown byt ib s ino ?s (charge s ino)"
  proof (rule grown_fill[OF f(1,2) fs f(3) sl hole b(3,2) nv ge2 nl iu nd])
    show "blk byt ?s x = (if x = b then zeros s else blk byt s x)"
      if "data_block s x" "x = b \<or> (\<forall>js j. q @ [i] = js @ [j] \<longrightarrow> x \<noteq> node byt s ino k js)" for x
      using bl[OF that(1)] that(2) B(1) by auto
  qed (simp_all add: l inode_fields(1,2)[OF l, of 0])
  moreover have "node byt ?s (charge s ino) k (q @ [i]) = b" using nd[OF sl] by simp
  ultimately show ?thesis using w(1) by (intro exI[of _ ?s]) simp
qed

lemma child_steps_ok:
  assumes D: "good_disk D byt" and "fs_ok byt s" "ftree_ok byt s ib ino" "in_use byt s ib" "g < ngroups s - 1"
    and "length ino = SIZEOF_INODE" "slot s k (q @ map unat js)" "node byt s ino k q = b"
  shows "\<exists>c ino' s'. child_steps D (of_nat g) js (of_nat b) ino s = done_with (of_nat c, ino', s') \<and> grown byt ib s ino s' ino'
    \<and> node byt s' ino' k (q @ map unat js) = c \<and> (b \<noteq> 0 \<and> c = 0 \<longrightarrow> disk_full byt s')"
  using assms(2-)
proof (induction js arbitrary: q b ino s)
  case Nil
  then show ?case using grown_refl[OF Nil.prems(1,2)] by (intro exI[of _ b] exI[of _ ino] exI[of _ s]) auto
next
  case (Cons i js)
  note f = Cons.prems(1-3) and geo = fs_okD(2)[OF Cons.prems(1)]
  have b: "b < 2 ^ 32" using node_less[of byt s ino k q] Cons.prems(7) by simp
  have zero: "node byt s ino k (q @ x # xs) = 0" if "b = 0 \<or> entry byt s b x = 0" for x xs
  proof -
    have "descend byt s 0 ys = 0" for ys by (cases ys) auto
    moreover have "descend byt s a (q @ ys) = descend byt s (descend byt s a q) ys" for a ys
      by (induction q arbitrary: a) (auto, metis calculation)
    ultimately show ?thesis using that Cons.prems(7) by (auto simp: node_def)
  qed
  show ?case
  proof (cases "b = 0")
    case True
    then show ?thesis using grown_refl[OF f(1,2)] zero by (intro exI[of _ 0] exI[of _ ino] exI[of _ s]) simp
  next
    case False
    have sl: "slot s k (q @ [unat i])" "slot s k (q @ [unat i] @ map unat js)" and q: "slot s k q"
      using Cons.prems(6) by (auto simp: slot_def)
    note tB = ftree_okD[OF f(2) q, unfolded Cons.prems(7), OF False]
    have i: "unat i < ppb s" "4 * unat i + 4 \<le> bsz s" using sl(1) ppb_bounds(4)[OF geo] by (auto simp: slot_snoc)
    have rb: "read_block D (ucast (of_nat b :: u32)) s = Some (blk byt s b)"
      unfolding of_nat_u32(3)[OF b] by (rule read_block_blk[OF D geo tB(1)])
    let ?e = "entry byt s b (unat i)"
    have e: "field32 (blk byt s b) (4 * unat i) = of_nat ?e" by (simp add: entry_def)
    have u: "child_steps D (of_nat g) (i # js) (of_nat b) ino s =
      (if ?e \<noteq> 0 then child_steps D (of_nat g) js (of_nat ?e) ino s
       else andthen (alloc_and_zero_block D (of_nat g) s)
         (\<lambda>(block, s1). child_steps D (of_nat g) js block (if block = 0 then ino else charge s ino)
            (snd (write_block D (of_nat b) (put32 (4 * unat i) block (blk byt s b)) s1))))"
      using False of_nat_u32(2,3)[OF b] rb i(2) of_nat_u32(2)[OF entry_less[of byt s b "unat i"]] by (simp add: e)
    show ?thesis
    proof (cases "?e = 0")
      case False
      have "node byt s ino k (q @ [unat i]) = ?e" using \<open>b \<noteq> 0\<close> Cons.prems(7) by (simp add: node_snoc)
      from Cons.IH[OF f Cons.prems(4,5) _ this] sl(2) False show ?thesis unfolding u by auto
    next
      case hole: True
      consider c s1 where "alloc_and_zero_block D (of_nat g) s = done_with (of_nat c, s1)" "new_block byt s c s1" "fs_ok byt s1"
        | "alloc_and_zero_block D (of_nat g) s = done_with (0, s)" "disk_full byt s"
        using alloc_and_zero_block_ok[OF D f(1) Cons.prems(4)] by blast
      then show ?thesis
      proof cases
        case 1
        have c: "(of_nat c :: u32) \<noteq> 0" "c \<noteq> 0" using 1(2) of_nat_u32(2)[of c] by (auto simp: new_block_def)
        obtain s2 where s2: "write_block D (of_nat b) (put32 (4 * unat i) (of_nat c) (blk byt s b)) s1 = (True, s2)"
          "grown byt ib s ino s2 (charge s ino)" "node byt s2 (charge s ino) k (q @ [unat i]) = c"
          using fill_entry[OF D f Cons.prems(5) sl(1) Cons.prems(7) False hole 1(2,3)] by blast
        note gr = s2(2)[unfolded grown_def]
        have ge: "geometry s2 = geometry s" using gr by blast
        have "\<exists>x ino' s'. child_steps D (of_nat g) js (of_nat c) (charge s ino) s2 = done_with (of_nat x, ino', s') \<and> grown byt ib s2 (charge s ino) s' ino'
          \<and> node byt s' ino' k ((q @ [unat i]) @ map unat js) = x \<and> (c \<noteq> 0 \<and> x = 0 \<longrightarrow> disk_full byt s')"
          using gr f(3) Cons.prems(4,5) geometry_cong[OF ge] sl(2) s2(3) inode_fields(1)[OF Cons.prems(5), of 0]
          by (intro Cons.IH) auto
        then show ?thesis unfolding u using hole 1(1) c s2(1) grown_trans[OF s2(2)] by auto
      next
        case 2
        have "put32 (4 * unat i) 0 (blk byt s b) = blk byt s b" using put32_self[of "4 * unat i" "blk byt s b"] i(2) hole e by simp
        with write_block_blk[OF D geo tB(1), of "blk byt s b"] obtain d where
          w: "write_block D (of_nat b) (put32 (4 * unat i) 0 (blk byt s b)) s = (True, s\<lparr>disk := d\<rparr>)" "blk byt (s\<lparr>disk := d\<rparr>) = blk byt s"
          by (auto simp: fun_eq_iff)
        have z: "child_steps D (of_nat g) js 0 ino (s\<lparr>disk := d\<rparr>) = done_with (0, ino, s\<lparr>disk := d\<rparr>)" by (cases js) auto
        note sb = same_blocks[OF geometry_disk(1) w(2)]
        have "grown byt ib s ino (s\<lparr>disk := d\<rparr>) ino" by (rule grown_same[OF f(1,2) _ _ w(2)]) simp_all
        moreover have "disk_full byt (s\<lparr>disk := d\<rparr>)" using sb(5) 2(2) by simp
        ultimately show ?thesis unfolding u using hole 2(1) w(1) z zero[of "unat i"] sb(1)
          by (intro exI[of _ 0] exI[of _ ino] exI[of _ "s\<lparr>disk := d\<rparr>"]) simp
      qed
    qed
  qed
qed

subsection \<open>The inode on the disk\<close>

definition stored :: "('d \<Rightarrow> nat \<Rightarrow> u8) \<Rightarrow> 'd ext2_t \<Rightarrow> u64 \<Rightarrow> nat \<Rightarrow> nat \<Rightarrow> bytes \<Rightarrow> bool" where
  "stored byt s idx ib off ino \<longleftrightarrow> inode_place idx s = Inr (of_nat ib, off) \<and> valid s ib \<and> data_block s ib \<and> in_use byt s ib
     \<and> off + SIZEOF_INODE \<le> bsz s \<and> take SIZEOF_INODE (drop off (blk byt s ib)) = ino"

lemma stored_length: "stored byt s idx ib off ino \<Longrightarrow> length ino = SIZEOF_INODE"
  by (auto simp: stored_def)

lemma get_inode_stored: "good_disk D byt \<Longrightarrow> geo s \<Longrightarrow> stored byt s idx ib off ino \<Longrightarrow> get_inode D idx s = Inr (Some ino)"
  using read_block_blk[of D byt s ib] by (auto simp: stored_def get_inode_def)

text \<open>Writing a block that is no indirect block of the file: nothing but its bytes changes.\<close>

lemma block_write:
  assumes f: "fs_ok byt s" "ftree_ok byt s ib ino" and db: "data_block s y"
    and ge: "geometry s' = geometry s" "bgdt s' = bgdt s" and bl: "\<forall>x. x \<noteq> y \<longrightarrow> blk byt s' x = blk byt s x"
    and leaf: "\<forall>k js. slot s k js \<and> node byt s ino k js = y \<longrightarrow> length js = k - 11"
  shows "slot s k js \<Longrightarrow> node byt s' ino k js = node byt s ino k js" "in_use byt s' = in_use byt s" "fs_ok byt s'" "ftree_ok byt s' ib ino"
    "disk_full byt s' = disk_full byt s"
proof -
  have c: "slot s' = slot s" "valid s' = valid s" "data_block s' = data_block s" using geometry_cong[OF ge(1)] data_block_cong[OF ge(1)] by auto
  show nd: "node byt s' ino k js = node byt s ino k js" if "slot s k js" for k js using that
  proof (induction js rule: rev_induct)
    case (snoc j js)
    then have s: "slot s k js" "length js < k - 11" by (auto simp: slot_snoc)
    then have "node byt s ino k js \<noteq> y" using leaf by fastforce
    then show ?case using snoc.IH[OF s(1)] bl by (simp add: node_snoc Let_def entry_def)
  qed (simp add: node_def)
  have "bmb s g \<noteq> y" if "g < ngroups s" for g using db that by (auto simp: data_block_def)
  then show iu: "in_use byt s' = in_use byt s"
    unfolding fun_eq_iff in_use_def word_of_def geometry_cong[OF ge(1)] using bl by auto
  show "fs_ok byt s'" using f(1) unfolding fs_ok_def iu c geometry_cong[OF ge(1)] .
  show "ftree_ok byt s' ib ino" using f(2) nd unfolding ftree_ok_def iu c by (smt (verit, best))
  show "disk_full byt s' = disk_full byt s" unfolding disk_full_def group_full_def geometry_cong[OF ge(1)] iu ge(2) ..
qed

text \<open>The file system after a change of this file, as far as the rest of it is concerned.\<close>

definition wrote :: "('d \<Rightarrow> nat \<Rightarrow> u8) \<Rightarrow> u64 \<Rightarrow> nat \<Rightarrow> nat \<Rightarrow> 'd ext2_t \<Rightarrow> bytes \<Rightarrow> 'd ext2_t \<Rightarrow> bytes \<Rightarrow> bool" where
  "wrote byt idx ib off s ino s' ino' \<longleftrightarrow> geometry s' = geometry s \<and> lock s' = lock s \<and> fs_ok byt s' \<and> ftree_ok byt s' ib ino'
     \<and> stored byt s' idx ib off ino' \<and> (\<forall>x. in_use byt s x \<longrightarrow> in_use byt s' x)
     \<and> (\<forall>x \<in> nodes byt s' ino'. x \<in> nodes byt s ino \<or> \<not> in_use byt s x)
     \<and> (\<forall>x. data_block s x \<and> in_use byt s x \<and> x \<notin> nodes byt s ino \<and> x \<noteq> ib \<longrightarrow> blk byt s' x = blk byt s x)
     \<and> blk byt s' ib = overlay off ino' (blk byt s ib)"

lemma overlay_twice: "length a = length b \<Longrightarrow> off + length b \<le> length buf \<Longrightarrow> overlay off a (overlay off b buf) = overlay off a buf"
  by (simp add: overlay_def)

lemma wrote_refl:
  assumes "fs_ok byt s" "ftree_ok byt s ib ino" "stored byt s idx ib off ino"
  shows "wrote byt idx ib off s ino s ino"
  using assms overlay_self[of off SIZEOF_INODE "blk byt s ib"] by (auto simp: wrote_def stored_def)

lemma wrote_trans:
  assumes "wrote byt idx ib off s ino s1 ino1" "wrote byt idx ib off s1 ino1 s2 ino2"
  shows "wrote byt idx ib off s ino s2 ino2"
proof -
  note a = assms(1)[unfolded wrote_def] and b = assms(2)[unfolded wrote_def]
  have db: "data_block s1 = data_block s" "bsz s1 = bsz s" using data_block_cong[of s1 s] geometry_cong(1)[of s1 s] a by auto
  have l: "length ino1 = SIZEOF_INODE" "length ino2 = SIZEOF_INODE" "off + SIZEOF_INODE \<le> bsz s"
    using a b stored_length db(2) by (auto simp: stored_def)
  show ?thesis unfolding wrote_def
  proof (intro conjI allI impI ballI)
    show "blk byt s2 x = blk byt s x" if x: "data_block s x \<and> in_use byt s x \<and> x \<notin> nodes byt s ino \<and> x \<noteq> ib" for x
    proof -
      have "x \<notin> nodes byt s1 ino1" "in_use byt s1 x" "data_block s1 x" using a x db by auto
      then have "blk byt s2 x = blk byt s1 x" using b x by blast
      then show ?thesis using a x by simp
    qed
    show "x \<in> nodes byt s ino \<or> \<not> in_use byt s x" if "x \<in> nodes byt s2 ino2" for x using that a b by blast
    show "blk byt s2 ib = overlay off ino2 (blk byt s ib)" using a b l overlay_twice[of ino2 ino1 off "blk byt s ib"] by simp
  qed (use a b in auto)
qed

lemma set_inode_ok:
  assumes D: "good_disk D byt" and f: "fs_ok byt s" "ftree_ok byt s ib ino'" "length ino' = SIZEOF_INODE"
    and st: "inode_place idx s = Inr (of_nat ib, off)" "valid s ib" "data_block s ib" "in_use byt s ib" "off + SIZEOF_INODE \<le> bsz s"
  shows "\<exists>s'. set_inode D idx ino' s = Inr (True, s') \<and> geometry s' = geometry s \<and> lock s' = lock s \<and> fs_ok byt s' \<and> ftree_ok byt s' ib ino'
    \<and> stored byt s' idx ib off ino' \<and> in_use byt s' = in_use byt s \<and> (disk_full byt s' = disk_full byt s)
    \<and> (\<forall>k js. slot s k js \<longrightarrow> node byt s' ino' k js = node byt s ino' k js)
    \<and> (\<forall>x. blk byt s' x = (if x = ib then overlay off ino' (blk byt s ib) else blk byt s x))"
proof -
  note geo = fs_okD(2)[OF f(1)]
  have "length (overlay off ino' (blk byt s ib)) = bsz s" using f(3) st(5) by simp
  from write_block_blk[OF D geo st(2) this] obtain d where w: "write_block D (of_nat ib) (overlay off ino' (blk byt s ib)) s = (True, s\<lparr>disk := d\<rparr>)"
    "\<And>x. blk byt (s\<lparr>disk := d\<rparr>) x = (if x = ib then overlay off ino' (blk byt s ib) else blk byt s x)" by blast
  let ?s = "s\<lparr>disk := d\<rparr>"
  have "ib \<noteq> 0" using st(3) by (auto simp: data_block_def gdt_end_def)
  then have leaf: "\<forall>k js. slot s k js \<and> node byt s ino' k js = ib \<longrightarrow> length js = k - 11" using ftree_okD(4)[OF f(2)] by auto
  have bg: "bgdt ?s = bgdt s" by simp
  have ne: "\<forall>x. x \<noteq> ib \<longrightarrow> blk byt ?s x = blk byt s x" using w(2) by simp
  note bw = block_write[OF f(1,2) st(3) geometry_disk(1) bg ne leaf]
  have "set_inode D idx ino' s = Inr (True, ?s)" using st w(1) read_block_blk[OF D geo st(2)] by (simp add: set_inode_def)
  moreover have "stored byt ?s idx ib off ino'"
  proof -
    have g: "geometry ?s = geometry s" by simp
    have "take SIZEOF_INODE (drop off (blk byt ?s ib)) = ino'" using overlay_same[of off ino' "blk byt s ib"] f(3) st(5) w(2) by simp
    then show ?thesis unfolding stored_def geometry_cong[OF g] conjunct1[OF data_block_cong[OF g]] bw(2) using st by simp
  qed
  ultimately show ?thesis using bw w(2) by (intro exI[of _ ?s]) simp
qed

text \<open>Whether the lock is held does not matter to what is stored.\<close>

lemma blk_lock [simp]: "blk byt (s\<lparr>lock := l\<rparr>) = blk byt s"
  by (simp add: fun_eq_iff blk_def img_def bsz_def)

lemma lock_simps [simp]:
  "node byt (s\<lparr>lock := l\<rparr>) ino = node byt s ino" "in_use byt (s\<lparr>lock := l\<rparr>) = in_use byt s" "fs_ok byt (s\<lparr>lock := l\<rparr>) = fs_ok byt s"
  "ftree_ok byt (s\<lparr>lock := l\<rparr>) ib ino = ftree_ok byt s ib ino" "disk_full byt (s\<lparr>lock := l\<rparr>) = disk_full byt s"
  "slot (s\<lparr>lock := l\<rparr>) = slot s" "data_block (s\<lparr>lock := l\<rparr>) = data_block s" "zeros (s\<lparr>lock := l\<rparr>) = zeros s" "ngroups (s\<lparr>lock := l\<rparr>) = ngroups s"
  "geo (s\<lparr>lock := l\<rparr>) = geo s" "content byt (s\<lparr>lock := l\<rparr>) ino = content byt s ino" "nodes byt (s\<lparr>lock := l\<rparr>) ino = nodes byt s ino"
  "stored byt (s\<lparr>lock := l\<rparr>) idx ib off ino = stored byt s idx ib off ino"
proof -
  have g: "geometry (s\<lparr>lock := l\<rparr>) = geometry s" by simp
  note sb = same_blocks[OF g blk_lock] and c = geometry_cong[OF g] data_block_cong[OF g]
  show "node byt (s\<lparr>lock := l\<rparr>) ino = node byt s ino" "in_use byt (s\<lparr>lock := l\<rparr>) = in_use byt s" "fs_ok byt (s\<lparr>lock := l\<rparr>) = fs_ok byt s"
    "ftree_ok byt (s\<lparr>lock := l\<rparr>) ib ino = ftree_ok byt s ib ino" "disk_full byt (s\<lparr>lock := l\<rparr>) = disk_full byt s" using sb by simp_all
  show "slot (s\<lparr>lock := l\<rparr>) = slot s" "data_block (s\<lparr>lock := l\<rparr>) = data_block s" "zeros (s\<lparr>lock := l\<rparr>) = zeros s" "ngroups (s\<lparr>lock := l\<rparr>) = ngroups s"
    "geo (s\<lparr>lock := l\<rparr>) = geo s" using c by auto
  show "content byt (s\<lparr>lock := l\<rparr>) ino = content byt s ino" "nodes byt (s\<lparr>lock := l\<rparr>) ino = nodes byt s ino"
    "stored byt (s\<lparr>lock := l\<rparr>) idx ib off ino = stored byt s idx ib off ino"
    using sb c by (simp_all add: fun_eq_iff content_def nodes_def stored_def Let_def)
qed

lemma fpath_leaf: "geo s \<Longrightarrow> i < 2 ^ 63 \<Longrightarrow> fpath s i = Some (k, js) \<Longrightarrow> length js = k - 11"
  by (auto simp: fpath_eq split: if_splits)

definition same_content :: "('d \<Rightarrow> nat \<Rightarrow> u8) \<Rightarrow> 'd ext2_t \<Rightarrow> bytes \<Rightarrow> 'd ext2_t \<Rightarrow> bytes \<Rightarrow> bool" where
  "same_content byt s ino s' ino' \<longleftrightarrow> inode_size ino' = inode_size ino
     \<and> (\<forall>k js. slot s k js \<and> length js = k - 11 \<longrightarrow> content byt s' ino' k js = content byt s ino k js)"

text \<open>The walk from the inode to the block, without the lock and the inode's own block.\<close>

lemma assign_walk_ok:
  assumes D: "good_disk D byt" and f: "fs_ok byt s" "ftree_ok byt s ib ino" "in_use byt s ib" and g: "g < ngroups s - 1"
    and l: "length ino = SIZEOF_INODE" and sl: "slot s k (map unat js)"
  shows "\<exists>c ino' s'. andthen (root_step D (of_nat g) k ino s) (\<lambda>(block, ino1, s1). child_steps D (of_nat g) js block ino1 s1) = done_with (of_nat c, ino', s')
    \<and> grown byt ib s ino s' ino' \<and> node byt s' ino' k (map unat js) = c \<and> (c = 0 \<longrightarrow> disk_full byt s')"
proof -
  have k: "k \<le> 14" using sl by (simp add: slot_def)
  obtain b ino1 s1 where r: "root_step D (of_nat g) k ino s = done_with (of_nat b, ino1, s1)" "grown byt ib s ino s1 ino1" "node byt s1 ino1 k [] = b"
    "b = 0 \<longrightarrow> s1 = s \<and> ino1 = ino \<and> disk_full byt s" using root_step_ok[OF D f g l k] by (elim exE conjE) (rule that)
  note gr = r(2)[unfolded grown_def]
  have ge: "geometry s1 = geometry s" using gr by blast
  have p: "fs_ok byt s1" "ftree_ok byt s1 ib ino1" "in_use byt s1 ib" "g < ngroups s1 - 1" "length ino1 = SIZEOF_INODE" "slot s1 k ([] @ map unat js)"
    using gr f(3) g l sl geometry_cong[OF ge] by auto
  obtain c ino2 s2 where c: "child_steps D (of_nat g) js (of_nat b) ino1 s1 = done_with (of_nat c, ino2, s2)" "grown byt ib s1 ino1 s2 ino2"
    "node byt s2 ino2 k ([] @ map unat js) = c" "b \<noteq> 0 \<and> c = 0 \<longrightarrow> disk_full byt s2"
    using child_steps_ok[OF D p r(3)] by (elim exE conjE) (rule that)
  have "disk_full byt s2" if "c = 0"
  proof (cases "b = 0")
    case True
    then have "child_steps D (of_nat g) js (of_nat b) ino1 s1 = done_with (0, ino, s)" using r(4) by (cases js) auto
    then show ?thesis using c(1) r(4) True by simp
  qed (use c(4) that in simp)
  then show ?thesis using r(1) c grown_trans[OF r(2)] by auto
qed

text \<open>Writing the inode of a file that has grown.\<close>

lemma grown_set_inode:
  assumes D: "good_disk D byt" and st: "stored byt s idx ib off ino" and f: "ftree_ok byt s ib ino" and gr: "grown byt ib s ino s2 ino2"
  shows "\<exists>s3. set_inode D idx ino2 s2 = Inr (True, s3) \<and> wrote byt idx ib off s ino s3 ino2 \<and> same_content byt s ino s3 ino2
    \<and> disk_full byt s3 = disk_full byt s2 \<and> (\<forall>k js. slot s k js \<longrightarrow> node byt s3 ino2 k js = node byt s2 ino2 k js)"
proof -
  note g = gr[unfolded grown_def] and S = st[unfolded stored_def]
  have ge: "geometry s2 = geometry s" using g by blast
  note c = geometry_cong[OF ge] data_block_cong[OF ge]
  have st2: "inode_place idx s2 = Inr (of_nat ib, off)" "valid s2 ib" "data_block s2 ib" "in_use byt s2 ib" "off + SIZEOF_INODE \<le> bsz s2"
    using S g c by simp_all
  have "fs_ok byt s2" "ftree_ok byt s2 ib ino2" "length ino2 = SIZEOF_INODE" using g stored_length[OF st] by simp_all
  from set_inode_ok[OF D this st2] obtain s3 where s3: "set_inode D idx ino2 s2 = Inr (True, s3)" "geometry s3 = geometry s2" "lock s3 = lock s2"
    "fs_ok byt s3" "ftree_ok byt s3 ib ino2" "stored byt s3 idx ib off ino2" "in_use byt s3 = in_use byt s2" "disk_full byt s3 = disk_full byt s2"
    "\<forall>k js. slot s2 k js \<longrightarrow> node byt s3 ino2 k js = node byt s2 ino2 k js"
    "\<forall>x. blk byt s3 x = (if x = ib then overlay off ino2 (blk byt s2 ib) else blk byt s2 x)" by blast
  have "ib \<notin> nodes byt s ino" using ftree_okD(4)[OF f] by (auto simp: nodes_def)
  then have ib: "blk byt s2 ib = blk byt s ib" using g S by blast
  have sl3: "slot s3 = slot s" "slot s2 = slot s" "zeros s3 = zeros s2" using c s3(2) geometry_cong(6)[OF s3(2)] data_block_cong[OF s3(2)] by auto
  have nd: "nodes byt s3 ino2 = nodes byt s2 ino2" unfolding nodes_def sl3 using s3(9)[unfolded sl3] by (intro Collect_cong) metis
  have con: "content byt s3 ino2 k js = content byt s2 ino2 k js" if "slot s k js" for k js
  proof -
    have "node byt s3 ino2 k js = node byt s2 ino2 k js" using s3(9) sl3 that by simp
    moreover have "node byt s2 ino2 k js \<noteq> ib" if "node byt s2 ino2 k js \<noteq> 0" using ftree_okD(4)[of byt s2 ib ino2 k js] that g sl3 \<open>slot s k js\<close> by simp
    ultimately show ?thesis using s3(10) sl3 by (auto simp: content_def Let_def)
  qed
  have "same_content byt s ino s3 ino2" using con g by (simp add: same_content_def)
  moreover have "wrote byt idx ib off s ino s3 ino2" unfolding wrote_def nd s3(7) using g s3(2-6,10) ib by auto
  ultimately show ?thesis using s3(1,8,9) sl3 by auto
qed

lemma wrote_lock: "wrote byt idx ib off (s\<lparr>lock := l\<rparr>) ino s' ino' \<Longrightarrow> wrote byt idx ib off s ino (s'\<lparr>lock := lock s\<rparr>) ino'"
  by (simp add: wrote_def)

lemma assign_block_ok:
  assumes D: "good_disk D byt" and f: "fs_ok byt s" "ftree_ok byt s ib ino" and st: "stored byt s idx ib off ino" and lk: "\<not> lock s"
    and g: "unat ((idx - 1) div ucast (s_inodes_per_group (superblock s))) < ngroups s - 1" and i: "i < max_blocks s"
  shows "\<exists>c ino' s'. assign_block D idx (of_nat i) any False s = done_with (of_nat c, ino', s') \<and> wrote byt idx ib off s ino s' ino'
    \<and> same_content byt s ino s' ino' \<and> fblock byt s' ino' i = c \<and> (c = 0 \<longrightarrow> disk_full byt s')"
proof -
  note geo = fs_okD(2)[OF f(1)]
  let ?per = "ucast (s_inodes_per_group (superblock s)) :: u64" and ?s0 = "s\<lparr>lock := True\<rparr>"
  have per: "?per \<noteq> 0" using alloc_wfD(6)[OF fs_okD(1)[OF f(1)]] unat_eq_0[of "s_inodes_per_group (superblock s)"]
    of_nat_zero[OF unat_u32_less[of "s_inodes_per_group (superblock s)"]] ucast32_of_nat[of "s_inodes_per_group (superblock s)"] by metis
  define gn where "gn = unat ((idx - 1) div ?per)"
  have gn: "(idx - 1) div ?per = of_nat gn" "gn < ngroups s - 1" using g by (simp_all add: gn_def)
  have i63: "i < 2 ^ 63" using i max_blocks_bound[OF geo] by simp
  obtain k js where p: "block_path (block_size s div 4) (of_nat i) = Some (k, js)" "fpath s i = Some (k, map unat js)"
    using fpath_some[OF geo i i63] by (auto simp: fpath_def)
  have sl: "slot s k (map unat js)" by (rule fpath_slot[OF geo i63 p(2)])
  have st0: "stored byt ?s0 idx ib off ino" using st by simp
  have gi: "get_inode D idx ?s0 = Inr (Some ino)" using geo by (intro get_inode_stored[OF D _ st0]) simp
  have "fs_ok byt ?s0" "ftree_ok byt ?s0 ib ino" "in_use byt ?s0 ib" "gn < ngroups ?s0 - 1" "slot ?s0 k (map unat js)"
    using f st gn(2) sl by (simp_all add: stored_def)
  from assign_walk_ok[OF D this(1-4) stored_length[OF st] this(5)] obtain c ino2 s2 where
    w: "andthen (root_step D (of_nat gn) k ino ?s0) (\<lambda>(block, ino1, s1). child_steps D (of_nat gn) js block ino1 s1) = done_with (of_nat c, ino2, s2)"
    "grown byt ib ?s0 ino s2 ino2" "node byt s2 ino2 k (map unat js) = c" "c = 0 \<longrightarrow> disk_full byt s2" by (elim exE conjE) (rule that)
  have "ftree_ok byt ?s0 ib ino" using f(2) by simp
  from grown_set_inode[OF D st0 this w(2)] obtain s3 where s3: "set_inode D idx ino2 s2 = Inr (True, s3)" "wrote byt idx ib off ?s0 ino s3 ino2"
    "same_content byt ?s0 ino s3 ino2" "disk_full byt s3 = disk_full byt s2" "\<forall>k js. slot s k js \<longrightarrow> node byt s3 ino2 k js = node byt s2 ino2 k js"
    by auto
  let ?s = "s3\<lparr>lock := False\<rparr>"
  have run: "assign_block D idx (of_nat i) any False s = done_with (of_nat c, ino2, ?s)"
  proof -
    have "c < 2 ^ 32" using node_less[of byt s2 ino2 k "map unat js"] w(3) by simp
    then have "(ucast (of_nat c :: u32) :: u64) = of_nat c" by (rule of_nat_u32(3))
    then show ?thesis using per lk gi p(1) w(1) s3(1) by (simp add: assign_block_def Let_def gn(1))
  qed
  have wr: "wrote byt idx ib off s ino ?s ino2" using wrote_lock[OF s3(2)] lk by simp
  then have "geometry ?s = geometry s" by (simp add: wrote_def)
  then have "fpath ?s i = Some (k, map unat js)" using p(2) geometry_cong(1)[of ?s s] by (simp add: fpath_def geometry_def)
  then have "fblock byt ?s ino2 i = c" using s3(5) sl w(3) by (simp add: fblock_def)
  moreover have "same_content byt s ino ?s ino2" using s3(3) by (simp add: same_content_def)
  ultimately show ?thesis using run wr w(4) s3(4) by auto
qed

end
