(* ===== verification/Ext2Write.thy ===== *)
theory Ext2Write
  imports Ext2File
begin

section \<open>The ext2 driver: writes implement the update of a byte sequence\<close>

text \<open>
  The bytes of a file after a write are the bytes before it with the written ones put at the position of the handle.  The loop of the driver
  does this block by block; a block that is a hole is allocated first.
\<close>

definition updated :: "('d \<Rightarrow> nat \<Rightarrow> u8) \<Rightarrow> 'd ext2_t \<Rightarrow> bytes \<Rightarrow> nat \<Rightarrow> bytes \<Rightarrow> 'd ext2_t \<Rightarrow> bytes \<Rightarrow> bool" where
  "updated byt s ino p ds s' ino' \<longleftrightarrow> inode_size ino' = inode_size ino \<and> (\<forall>q < bsz s * max_blocks s.
     fbyte byt s' ino' q = (if p \<le> q \<and> q < p + length ds then ds ! (q - p) else fbyte byt s ino q))"

lemma updated_nil: "updated byt s ino p [] s' ino' \<longleftrightarrow> inode_size ino' = inode_size ino \<and> (\<forall>q < bsz s * max_blocks s. fbyte byt s' ino' q = fbyte byt s ino q)"
  by (auto simp: updated_def)

lemma updated_trans:
  assumes "updated byt s ino p as s1 ino1" "updated byt s1 ino1 (p + length as) bs s2 ino2" "geometry s1 = geometry s"
  shows "updated byt s ino p (as @ bs) s2 ino2"
  using assms(1,2) unfolding updated_def geometry_cong[OF assms(3)] by (auto simp: nth_append)

lemma updated_same:
  assumes "updated byt s ino p [] s1 ino1" "updated byt s1 ino1 p bs s2 ino2" "geometry s1 = geometry s"
  shows "updated byt s ino p bs s2 ino2"
  using updated_trans[of byt s ino p "[]" s1 ino1 bs s2 ino2] assms by simp

subsection \<open>Blocks of the file\<close>

lemma fblock_path:
  assumes "geo s" "i < max_blocks s"
  obtains k js where "fpath s i = Some (k, js)" "slot s k js" "length js = k - 11" "fblock byt s ino i = node byt s ino k js"
proof -
  have i: "i < 2 ^ 63" using assms max_blocks_bound[OF assms(1)] by simp
  obtain k js where p: "fpath s i = Some (k, js)" using fpath_some[OF assms i] by blast
  show ?thesis using that[OF p fpath_slot[OF assms(1) i p] fpath_leaf[OF assms(1) i p]] p by (simp add: fblock_def)
qed

lemma fpath_inj:
  assumes "geo s" "i < max_blocks s" "j < max_blocks s" "fpath s i = fpath s j"
  shows "i = j"
proof -
  have b: "i < 2 ^ 63" "j < 2 ^ 63" using assms max_blocks_bound[OF assms(1)] by simp_all
  obtain p where "fpath s i = Some p" using fpath_some[OF assms(1,2) b(1)] by auto
  then show ?thesis using path_index_fpath[OF assms(1) b(1)] path_index_fpath[OF assms(1) b(2)] assms(4) by metis
qed

lemma fblock_inj:
  assumes "geo s" "ftree_ok byt s ib ino" "i < max_blocks s" "j < max_blocks s" "fblock byt s ino i = fblock byt s ino j" "fblock byt s ino i \<noteq> 0"
  shows "i = j"
proof -
  obtain k js where p: "fpath s i = Some (k, js)" "slot s k js" "fblock byt s ino i = node byt s ino k js" using fblock_path[OF assms(1,3)] by metis
  obtain k' js' where q: "fpath s j = Some (k', js')" "slot s k' js'" "fblock byt s ino j = node byt s ino k' js'" using fblock_path[OF assms(1,4)] by metis
  have "k' = k \<and> js' = js" using ftree_okD(5)[OF assms(2) p(2) _ q(2)] p q assms(5,6) by metis
  then show ?thesis using fpath_inj[OF assms(1,3,4)] p q by simp
qed

lemma same_content_updated:
  assumes "geo s" "same_content byt s ino s' ino'" "geometry s' = geometry s"
  shows "updated byt s ino p [] s' ino'"
proof -
  note c = geometry_cong[OF assms(3)] data_block_cong[OF assms(3)]
  have "fbyte byt s' ino' q = fbyte byt s ino q" if q: "q < bsz s * max_blocks s" for q
  proof -
    have "q div bsz s < max_blocks s" using q by (simp add: less_mult_imp_div_less mult.commute)
    then obtain k js where p: "fpath s (q div bsz s) = Some (k, js)" "slot s k js" "length js = k - 11" using fblock_path[OF assms(1)] by metis
    then have e: "content byt s' ino' k js = content byt s ino k js" using assms(2) by (simp add: same_content_def)
    have "fbyte byt t i q = content byt t i k js ! (q mod bsz s)" if "t = s \<or> t = s'" for t i
      using that p(1) c geo_bounds(4)[OF assms(1)] by (auto simp: fbyte_def fblock_def content_def zeros_def Let_def)
    then show ?thesis using e by simp
  qed
  then show ?thesis using assms(2) by (simp add: updated_nil same_content_def)
qed

text \<open>Overwriting a block of the file.\<close>

lemma fblock_write:
  assumes D: "good_disk D byt" and f: "fs_ok byt s" "ftree_ok byt s ib ino" and st: "stored byt s idx ib off ino" and i: "i < max_blocks s"
    and nz: "fblock byt s ino i \<noteq> 0" and l: "a + length ds \<le> bsz s"
  defines "c \<equiv> fblock byt s ino i"
  shows "\<exists>s'. write_block D (of_nat c) (overlay a ds (blk byt s c)) s = (True, s') \<and> wrote byt idx ib off s ino s' ino
    \<and> updated byt s ino (i * bsz s + a) ds s' ino"
proof -
  note geo = fs_okD(2)[OF f(1)]
  obtain k js where p: "slot s k js" "length js = k - 11" "c = node byt s ino k js" using fblock_path[OF geo i] c_def by metis
  note t = ftree_okD[OF f(2) p(1) nz[folded c_def, unfolded p(3)], folded p(3)]
  have "length (overlay a ds (blk byt s c)) = bsz s" using l by simp
  from write_block_blk[OF D geo t(1) this] obtain d where w: "write_block D (of_nat c) (overlay a ds (blk byt s c)) s = (True, s\<lparr>disk := d\<rparr>)"
    "\<And>x. blk byt (s\<lparr>disk := d\<rparr>) x = (if x = c then overlay a ds (blk byt s c) else blk byt s x)" by blast
  let ?s = "s\<lparr>disk := d\<rparr>"
  have ge: "geometry ?s = geometry s" by simp
  note cg = geometry_cong[OF ge] data_block_cong[OF ge]
  have leaf: "\<forall>k' js'. slot s k' js' \<and> node byt s ino k' js' = c \<longrightarrow> length js' = k' - 11" using t(5) p(2) by metis
  have bl: "\<forall>x. x \<noteq> c \<longrightarrow> blk byt ?s x = blk byt s x" and bg: "bgdt ?s = bgdt s" using w(2) by simp_all
  note bw = block_write[OF f t(3) ge bg bl leaf]
  have cn: "c \<in> nodes byt s ino" using p nz c_def by (auto simp: nodes_def)
  have nd: "nodes byt ?s ino = nodes byt s ino" unfolding nodes_def cg using bw(1) by (intro Collect_cong) metis
  have st': "stored byt ?s idx ib off ino" using st t(4) using cg by (simp add: stored_def bw(2) w(2))
  have "wrote byt idx ib off s ino ?s ino"
    unfolding wrote_def nd bw(2) using bw(3,4) st' cn t(4) w(2) wrote_refl[OF f st] by (auto simp: wrote_def)
  moreover have "updated byt s ino (i * bsz s + a) ds ?s ino" unfolding updated_def
  proof (intro conjI refl allI impI)
    fix q assume q: "q < bsz s * max_blocks s"
    then have j: "q div bsz s < max_blocks s" by (simp add: less_mult_imp_div_less mult.commute)
    obtain k' js' where "slot s k' js'" "fpath s (q div bsz s) = Some (k', js')" using fblock_path[OF geo j] by metis
    then have fb: "fblock byt ?s ino (q div bsz s) = fblock byt s ino (q div bsz s)" using cg bw(1) by (simp add: fblock_def)
    have qe: "q = q div bsz s * bsz s + q mod bsz s" "q mod bsz s < bsz s" using geo_bounds(4)[OF geo] by simp_all
    show "fbyte byt ?s ino q = (if i * bsz s + a \<le> q \<and> q < i * bsz s + a + length ds then ds ! (q - (i * bsz s + a)) else fbyte byt s ino q)"
    proof (cases "q div bsz s = i")
      case True
      have "fbyte byt ?s ino q = overlay a ds (blk byt s c) ! (q mod bsz s)" "fbyte byt s ino q = blk byt s c ! (q mod bsz s)"
        using True fb nz w(2) cg(1) by (simp_all add: fbyte_def Let_def c_def)
      moreover obtain r where "q mod bsz s = r" "q = i * bsz s + r" using qe(1) True by metis
      ultimately show ?thesis using nth_overlay[of a ds "blk byt s c" "q mod bsz s"] l qe(2) by simp
    next
      case False
      then have "\<not> (i * bsz s + a \<le> q \<and> q < i * bsz s + a + length ds)"
        using block_disjoint[of i "q div bsz s" "q mod bsz s" "bsz s"] qe l by linarith
      moreover have "fblock byt s ino (q div bsz s) \<noteq> c \<or> fblock byt s ino (q div bsz s) = 0"
        using fblock_inj[OF geo f(2) j i] False c_def by blast
      ultimately show ?thesis using fb w(2) cg(1) by (auto simp: fbyte_def Let_def)
    qed
  qed
  ultimately show ?thesis using w(1) by blast
qed

subsection \<open>The loop\<close>

text \<open>The state the loop keeps: a file whose tree and inode are in order, in a file system without a held lock.\<close>

definition writable :: "('d \<Rightarrow> nat \<Rightarrow> u8) \<Rightarrow> u64 \<Rightarrow> nat \<Rightarrow> nat \<Rightarrow> 'd ext2_t \<Rightarrow> bytes \<Rightarrow> bool" where
  "writable byt idx ib off s ino \<longleftrightarrow> fs_ok byt s \<and> ftree_ok byt s ib ino \<and> stored byt s idx ib off ino \<and> \<not> lock s
     \<and> unat ((idx - 1) div ucast (s_inodes_per_group (superblock s))) < ngroups s - 1"

lemma writableD:
  assumes "writable byt idx ib off s ino"
  shows "fs_ok byt s" "ftree_ok byt s ib ino" "stored byt s idx ib off ino" "\<not> lock s" "geo s" "map_ok byt s ino"
    "unat ((idx - 1) div ucast (s_inodes_per_group (superblock s))) < ngroups s - 1"
  using assms fs_okD(2) tree_map_ok unfolding writable_def by blast+

lemma wrote_writable: "writable byt idx ib off s ino \<Longrightarrow> wrote byt idx ib off s ino s' ino' \<Longrightarrow> writable byt idx ib off s' ino'"
  using geometry_cong(8)[of s' s] unfolding writable_def wrote_def by (auto simp: geometry_def)

lemma get_block_beyond:
  assumes "geo s" "i < 2 ^ 63" "max_blocks s \<le> i"
  shows "get_block D ino (of_nat i) s = Inr (BLOCK_ERROR, 0)"
proof -
  have "fpath s i = None" using assms by (auto simp: fpath_eq max_blocks_def)
  then show ?thesis by (auto simp: fpath_def get_block_def)
qed

text \<open>Finding the block, or allocating it.\<close>

lemma ensure_block_ok:
  assumes D: "good_disk D byt" and w: "writable byt idx ib off s ino" and i: "i < max_blocks s"
  defines "st \<equiv> (if fblock byt s ino i = 0 then BLOCK_SPARSE else BLOCK_OK)"
  shows "\<exists>c ino' s'. (if st = BLOCK_SPARSE then assign_block D idx (of_nat i) ino False s else done_with (of_nat (fblock byt s ino i), ino, s)) = done_with (of_nat c, ino', s')
    \<and> c = fblock byt s' ino' i \<and> wrote byt idx ib off s ino s' ino' \<and> updated byt s ino p [] s' ino' \<and> (c = 0 \<longrightarrow> disk_full byt s')"
proof (cases "fblock byt s ino i = 0")
  case True
  note wd = writableD[OF w]
  from assign_block_ok[OF D wd(1-4,7) i, of ino] obtain c ino' s' where a: "assign_block D idx (of_nat i) ino False s = done_with (of_nat c, ino', s')"
    "wrote byt idx ib off s ino s' ino'" "same_content byt s ino s' ino'" "fblock byt s' ino' i = c" "c = 0 \<longrightarrow> disk_full byt s'"
    by (elim exE conjE) (rule that)
  moreover have "updated byt s ino p [] s' ino'" using a(2) by (intro same_content_updated[OF wd(5) a(3)]) (simp add: wrote_def)
  ultimately show ?thesis using True by (auto simp: st_def)
next
  case False
  then show ?thesis using wrote_refl[OF writableD(1-3)[OF w]] by (auto simp: st_def updated_nil)
qed

text \<open>One turn of the loop: it stops on a full disk, or writes a part and goes on.\<close>

lemma write_turn:
  assumes D: "good_disk D byt" and w: "writable byt (inode_index h) ib off s ino" and i: "unat (seek_block h) < max_blocks s"
    and sk: "unat (seek h) < bsz s" and d: "data \<noteq> []" "length data < 2 ^ 62"
  defines "len \<equiv> chunk_len (block_size s) (of_nat (length data)) (seek h)"
  shows "\<exists>s' ino'. wrote byt (inode_index h) ib off s ino s' ino' \<and>
    (write_loop D data ino full n h s = done_with (n, full, ino', h, s') \<and> disk_full byt s' \<and> updated byt s ino (fpos h s) [] s' ino' \<or>
     write_loop D data ino full n h s = write_loop D (drop (unat len) data) ino' (full + len) (n + len) (advance (block_size s) len h) s'
       \<and> updated byt s ino (fpos h s) (take (unat len) data) s' ino')"
proof -
  note wd = writableD[OF w]
  let ?i = "unat (seek_block h)" and ?e = "fblock byt s ino (unat (seek_block h))"
  have gb: "get_block D ino (seek_block h) s = Inr (if ?e = 0 then BLOCK_SPARSE else BLOCK_OK, of_nat ?e)"
    using get_block_fblock[OF D wd(5,6), of ?i] i max_blocks_bound[OF wd(5)] by simp
  from ensure_block_ok[OF D w i, of "fpos h s"] obtain c ino1 s1 where e:
    "(if (if ?e = 0 then BLOCK_SPARSE else BLOCK_OK) = BLOCK_SPARSE then assign_block D (inode_index h) (of_nat ?i) ino False s else done_with (of_nat ?e, ino, s)) = done_with (of_nat c, ino1, s1)"
    "c = fblock byt s1 ino1 ?i" "wrote byt (inode_index h) ib off s ino s1 ino1" "updated byt s ino (fpos h s) [] s1 ino1" "c = 0 \<longrightarrow> disk_full byt s1"
    by (elim exE conjE) (rule that)
  have ge: "geometry s1 = geometry s" using e(3) by (simp add: wrote_def)
  note cg = geometry_cong[OF ge] and wd1 = writableD[OF wrote_writable[OF w e(3)]]
  have c32: "c < 2 ^ 32" using e(2) fblock_valid[OF wd1(5,6), of ?i] i cg by (cases "c = 0") (auto simp: valid_def)
  have ld: "unat (of_nat (length data) :: u64) = length data" using d(2) by (intro unat_of_nat_u64) simp
  have len: "unat len = min (length data) (bsz s - unat (seek h))" unfolding len_def chunk_len_nat[OF wd(5) sk] ld ..
  have unfold: "write_loop D data ino full n h s = (if c = 0 then done_with (n, full, ino1, h, s1) else case read_block D (of_nat c) s1 of
      None \<Rightarrow> done_with (n, full, ino1, h, s1)
    | Some b \<Rightarrow> if length b < unat (seek h) + unat len \<or> length data < unat len then failed Undefined
                else let (ok, s2) = write_block D (of_nat c) (overlay (unat (seek h)) (take (unat len) data) b) s1
                     in if \<not> ok then done_with (n, full, ino1, h, s2)
                        else write_loop D (drop (unat len) data) ino1 (full + len) (n + len) (advance (block_size s) len h) s2)"
    using d(1) gb e(1) of_nat_zero[OF c32] unfolding len_def by (subst write_loop.simps, cases "?e = 0") (auto simp: Let_def)
  show ?thesis
  proof (cases "c = 0")
    case True
    then show ?thesis using unfold e by auto
  next
    case False
    have r: "read_block D (of_nat c) s1 = Some (blk byt s1 c)"
      using fblock_valid[OF wd1(5,6), of ?i] i cg e(2) False by (intro read_block_blk[OF D wd1(5)]) simp
    have "unat (seek h) + length (take (unat len) data) \<le> bsz s1" using len sk cg by simp
    from fblock_write[OF D wd1(1-3) _ False[unfolded e(2)] this] i cg obtain s2 where w2:
      "write_block D (of_nat c) (overlay (unat (seek h)) (take (unat len) data) (blk byt s1 c)) s1 = (True, s2)"
      "wrote byt (inode_index h) ib off s1 ino1 s2 ino1" "updated byt s1 ino1 (?i * bsz s1 + unat (seek h)) (take (unat len) data) s2 ino1"
      unfolding e(2) by auto
    have "updated byt s ino (fpos h s) (take (unat len) data) s2 ino1"
      using w2(3) cg by (intro updated_same[OF e(4) _ ge]) (simp add: fpos_def)
    then show ?thesis using unfold False r w2(1) len sk cg wrote_trans[OF e(3) w2(2)] by auto
  qed
qed

text \<open>The whole loop: \<open>n\<close> bytes are written, all of them unless the disk is full or the largest file size is reached.\<close>

definition write_result :: "('d \<Rightarrow> nat \<Rightarrow> u8) \<Rightarrow> nat \<Rightarrow> nat \<Rightarrow> ext2_inode_handle_t \<Rightarrow> bytes \<Rightarrow> 'd ext2_t \<Rightarrow> bytes
    \<Rightarrow> nat \<Rightarrow> ext2_inode_handle_t \<Rightarrow> 'd ext2_t \<Rightarrow> bytes \<Rightarrow> bool" where
  "write_result byt ib off h data s ino n h' s' ino' \<longleftrightarrow> n \<le> length data \<and> wrote byt (inode_index h) ib off s ino s' ino'
     \<and> updated byt s ino (fpos h s) (take n data) s' ino'
     \<and> (n < length data \<longrightarrow> disk_full byt s' \<or> bsz s * max_blocks s \<le> fpos h s + n)
     \<and> (n = 0 \<or> fpos h s + n \<le> bsz s * max_blocks s)
     \<and> fpos h' s = fpos h s + n \<and> unat (seek h') < bsz s \<and> inode_index h' = inode_index h"

lemma write_result_step:
  assumes w: "wrote byt (inode_index h) ib off s ino s1 ino1" and u: "updated byt s ino (fpos h s) (take k data) s1 ino1"
    and h: "fpos h1 s = fpos h s + k" "inode_index h1 = inode_index h" "k \<le> length data" "fpos h s + k \<le> bsz s * max_blocks s"
    and r: "write_result byt ib off h1 (drop k data) s1 ino1 n h' s' ino'"
  shows "write_result byt ib off h data s ino (k + n) h' s' ino'"
proof -
  have ge: "geometry s1 = geometry s" using w by (simp add: wrote_def)
  note c = geometry_cong[OF ge] and rr = r[unfolded write_result_def c h]
  have "updated byt s ino (fpos h s) (take k data @ take n (drop k data)) s' ino'"
    using rr h(3) by (intro updated_trans[OF u _ ge]) simp
  then have "updated byt s ino (fpos h s) (take (k + n) data) s' ino'" by (simp add: take_add)
  moreover have "wrote byt (inode_index h) ib off s ino s' ino'" using wrote_trans[OF w] rr by blast
  ultimately show ?thesis using rr h(3,4) unfolding write_result_def by auto
qed

lemma write_loop_ok:
  assumes D: "good_disk D byt" and "writable byt (inode_index h) ib off s ino" "unat (seek h) < bsz s" "fpos h s + length data < 2 ^ 62"
  shows "\<exists>n ino' h' s'. write_loop D data ino (of_nat (fpos h s)) (of_nat m) h s = done_with (of_nat (m + n), of_nat (fpos h s + n), ino', h', s')
    \<and> write_result byt ib off h data s ino n h' s' ino'"
  using assms(2-)
proof (induction "length data" arbitrary: data h s ino m rule: less_induct)
  case less
  note w = less.prems(1) and wd = writableD[OF less.prems(1)] and sk = less.prems(2)
  let ?p = "fpos h s"
  have stop: "write_result byt ib off h data s ino 0 h s' ino'" if "wrote byt (inode_index h) ib off s ino s' ino'" "updated byt s ino ?p [] s' ino'"
    "data = [] \<or> disk_full byt s' \<or> bsz s * max_blocks s \<le> ?p" for s' ino'
    using that sk by (auto simp: write_result_def)
  have self: "wrote byt (inode_index h) ib off s ino s ino" "updated byt s ino ?p [] s ino" using wrote_refl[OF wd(1-3)] by (simp_all add: updated_nil)
  have "unat (seek_block h) \<le> ?p" using geo_bounds(4)[OF wd(5)] by (auto simp: fpos_def intro: order.trans[of _ "unat (seek_block h) * bsz s"])
  then have sb: "unat (seek_block h) < 2 ^ 62" using less.prems(3) by simp
  consider "data = []" | "data \<noteq> []" "max_blocks s \<le> unat (seek_block h)" | "data \<noteq> []" "unat (seek_block h) < max_blocks s" by linarith
  then show ?case
  proof cases
    case 1
    then show ?thesis using stop[OF self] by (intro exI[of _ 0] exI[of _ ino] exI[of _ h] exI[of _ s]) (simp add: write_loop.simps)
  next
    case 2
    have "get_block D ino (seek_block h) s = Inr (BLOCK_ERROR, 0)" using get_block_beyond[OF wd(5) _ 2(2), of D ino] sb by simp
    moreover have "bsz s * max_blocks s \<le> bsz s * unat (seek_block h)" using 2(2) by (rule mult_left_mono) simp
    then have "bsz s * max_blocks s \<le> ?p" unfolding fpos_def by (metis trans_le_add1 mult.commute)
    ultimately show ?thesis using 2(1) stop[OF self] by (intro exI[of _ 0] exI[of _ ino] exI[of _ h] exI[of _ s]) (simp add: write_loop.simps)
  next
    case 3
    define len where "len = chunk_len (block_size s) (of_nat (length data)) (seek h)"
    have ld: "length data < 2 ^ 62" using less.prems(3) by simp
    then have "unat (of_nat (length data) :: u64) = length data" by (intro unat_of_nat_u64) simp
    then have len: "unat len = min (length data) (bsz s - unat (seek h))" unfolding len_def chunk_len_nat[OF wd(5) sk] by simp
    let ?h = "advance (block_size s) len h"
    have p62: "?p < 2 ^ 62" "unat len \<le> bsz s - unat (seek h)" "0 < unat len" using less.prems(3) len 3(1) sk by auto
    note ad = advance_pos[OF wd(5) sk p62(2,1)]
    have "?p + unat len \<le> Suc (unat (seek_block h)) * bsz s" using len sk by (simp add: fpos_def)
    also have "\<dots> \<le> max_blocks s * bsz s" using 3(2) by (intro mult_le_mono1) simp
    finally have lim: "?p + unat len \<le> bsz s * max_blocks s" by (simp add: mult.commute)
    from write_turn[OF D w 3(2) sk 3(1) ld, folded len_def, of "of_nat ?p" "of_nat m"] obtain s1 ino1 where t: "wrote byt (inode_index h) ib off s ino s1 ino1"
      "write_loop D data ino (of_nat ?p) (of_nat m) h s = done_with (of_nat m, of_nat ?p, ino1, h, s1) \<and> disk_full byt s1 \<and> updated byt s ino ?p [] s1 ino1 \<or>
       write_loop D data ino (of_nat ?p) (of_nat m) h s = write_loop D (drop (unat len) data) ino1 (of_nat ?p + len) (of_nat m + len) ?h s1
         \<and> updated byt s ino ?p (take (unat len) data) s1 ino1" by blast
    have ge: "geometry s1 = geometry s" using t(1) by (simp add: wrote_def)
    note cg = geometry_cong[OF ge] and w1 = wrote_writable[OF w t(1)]
    show ?thesis using t(2)
    proof (elim disjE conjE)
      assume a: "write_loop D data ino (of_nat ?p) (of_nat m) h s = done_with (of_nat m, of_nat ?p, ino1, h, s1)" "disk_full byt s1" "updated byt s ino ?p [] s1 ino1"
      then show ?thesis using stop[OF t(1) a(3)] by (intro exI[of _ 0] exI[of _ ino1] exI[of _ h] exI[of _ s1]) simp
    next
      assume a: "write_loop D data ino (of_nat ?p) (of_nat m) h s = write_loop D (drop (unat len) data) ino1 (of_nat ?p + len) (of_nat m + len) ?h s1"
        "updated byt s ino ?p (take (unat len) data) s1 ino1"
      have e: "(of_nat ?p + len :: u64) = of_nat (fpos ?h s1)" "(of_nat m + len :: u64) = of_nat (m + unat len)" using ad(1) cg by simp_all
      have "length (drop (unat len) data) < length data" "writable byt (inode_index ?h) ib off s1 ino1" "unat (seek ?h) < bsz s1"
        "fpos ?h s1 + length (drop (unat len) data) < 2 ^ 62" using p62 len 3(1) w1 ad cg less.prems(3) by simp_all
      from less.hyps[OF this, of "m + unat len"] obtain n ino' h' s' where r:
        "write_loop D (drop (unat len) data) ino1 (of_nat (fpos ?h s1)) (of_nat (m + unat len)) ?h s1 = done_with (of_nat (m + unat len + n), of_nat (fpos ?h s1 + n), ino', h', s')"
        "write_result byt ib off ?h (drop (unat len) data) s1 ino1 n h' s' ino'" by (elim exE conjE) (rule that)
      have "write_result byt ib off h data s ino (unat len + n) h' s' ino'"
        using ad len lim by (intro write_result_step[OF t(1) a(2) _ _ _ _ r(2)]) simp_all
      moreover have pn: "fpos ?h s1 + n = ?p + (unat len + n)" using ad(1) cg by simp
      have "write_loop D data ino (of_nat ?p) (of_nat m) h s = done_with (of_nat (m + (unat len + n)), of_nat (?p + (unat len + n)), ino', h', s')"
        using a(1) unfolding e r(1) pn add.assoc .
      ultimately show ?thesis by blast
    qed
  qed
qed

subsection \<open>The write\<close>

lemma inode_size_set:
  assumes "length ino = SIZEOF_INODE"
  shows "inode_size (set_inode_size n ino) = n" "length (set_inode_size n ino) = SIZEOF_INODE" "k \<le> 14 \<Longrightarrow> i_block (set_inode_size n ino) k = i_block ino k"
proof -
  have "(ucast (ucast n :: u32) :: u64) OR push_bit 32 (ucast (ucast (drop_bit 32 n) :: u32)) = n"
    by (intro bit_word_eqI) (auto simp: bit_simps)
  then show "inode_size (set_inode_size n ino) = n" using assms by (simp add: inode_size_def i_size_def i_dir_acl_def set_inode_size_def SIZEOF_INODE_def)
  show "length (set_inode_size n ino) = SIZEOF_INODE" "k \<le> 14 \<Longrightarrow> i_block (set_inode_size n ino) k = i_block ino k"
    using assms by (simp_all add: i_block_def set_inode_size_def SIZEOF_INODE_def)
qed

lemma set_size_tree:
  assumes "length ino = SIZEOF_INODE"
  shows "slot s k js \<Longrightarrow> node byt s (set_inode_size n ino) k js = node byt s ino k js"
    "ftree_ok byt s ib (set_inode_size n ino) = ftree_ok byt s ib ino" "nodes byt s (set_inode_size n ino) = nodes byt s ino"
proof -
  show nd: "slot s k js \<Longrightarrow> node byt s (set_inode_size n ino) k js = node byt s ino k js" for k js
    using inode_size_set(3)[OF assms] by (simp add: node_def slot_def)
  show "ftree_ok byt s ib (set_inode_size n ino) = ftree_ok byt s ib ino" using nd unfolding ftree_ok_def Let_def by (simp cong: conj_cong imp_cong)
  show "nodes byt s (set_inode_size n ino) = nodes byt s ino" unfolding nodes_def using nd by (intro Collect_cong) metis
qed

lemma set_size_ok:
  assumes D: "good_disk D byt" and w: "writable byt idx ib off s ino"
  shows "\<exists>s'. set_inode D idx (set_inode_size n ino) s = Inr (True, s') \<and> wrote byt idx ib off s ino s' (set_inode_size n ino)
    \<and> (disk_full byt s' = disk_full byt s) \<and> (\<forall>q < bsz s * max_blocks s. fbyte byt s' (set_inode_size n ino) q = fbyte byt s ino q)"
proof -
  note wd = writableD[OF w]
  let ?ino = "set_inode_size n ino"
  have l: "length ino = SIZEOF_INODE" "length ?ino = SIZEOF_INODE" using stored_length[OF wd(3)] inode_size_set(2) by auto
  note tr = set_size_tree[OF l(1)] and st = wd(3)[unfolded stored_def]
  have f: "ftree_ok byt s ib ?ino" using wd(2) by (simp add: tr(2))
  from set_inode_ok[OF D wd(1) f l(2)] st obtain s' where s': "set_inode D idx ?ino s = Inr (True, s')" "geometry s' = geometry s" "lock s' = lock s"
    "fs_ok byt s'" "ftree_ok byt s' ib ?ino" "stored byt s' idx ib off ?ino" "in_use byt s' = in_use byt s" "disk_full byt s' = disk_full byt s"
    "\<forall>k js. slot s k js \<longrightarrow> node byt s' ?ino k js = node byt s ?ino k js"
    "\<forall>x. blk byt s' x = (if x = ib then overlay off ?ino (blk byt s ib) else blk byt s x)" by blast
  note c = geometry_cong[OF s'(2)]
  have tr1: "slot s k js \<Longrightarrow> node byt s ?ino k js = node byt s ino k js" for k js by (rule tr(1))
  have nd: "nodes byt s' ?ino = nodes byt s ino" unfolding nodes_def c using s'(9) tr1 by (intro Collect_cong) metis
  have "wrote byt idx ib off s ino s' ?ino" unfolding wrote_def nd s'(7) using s' by simp
  moreover have "fbyte byt s' ?ino q = fbyte byt s ino q" if q: "q < bsz s * max_blocks s" for q
  proof -
    have "q div bsz s < max_blocks s" using q by (simp add: less_mult_imp_div_less mult.commute)
    then obtain k js where p: "fpath s (q div bsz s) = Some (k, js)" "slot s k js" using fblock_path[OF wd(5)] by metis
    have fb: "fblock byt s' ?ino (q div bsz s) = fblock byt s ino (q div bsz s)" using p s'(9) tr1 c by (simp add: fblock_def)
    moreover have "fblock byt s ino (q div bsz s) \<noteq> ib" if "fblock byt s ino (q div bsz s) \<noteq> 0"
      using that ftree_okD(4)[OF wd(2) p(2)] p(1) by (simp add: fblock_def)
    ultimately show ?thesis using s'(10) c(1) by (auto simp: fbyte_def Let_def)
  qed
  ultimately show ?thesis using s'(1,8) by blast
qed

text \<open>What a caller sees of a file: its size and its bytes; a write at a position changes bytes there and may extend it.\<close>

record afile =
  asize :: nat
  abyte :: "nat \<Rightarrow> u8"

definition file_of :: "('d \<Rightarrow> nat \<Rightarrow> u8) \<Rightarrow> 'd ext2_t \<Rightarrow> bytes \<Rightarrow> afile" where
  "file_of byt s ino = \<lparr>asize = fsize ino, abyte = (\<lambda>q. if q < bsz s * max_blocks s then fbyte byt s ino q else 0)\<rparr>"

definition awrite :: "nat \<Rightarrow> bytes \<Rightarrow> afile \<Rightarrow> afile" where
  "awrite p ds f = \<lparr>asize = max (asize f) (p + length ds), abyte = (\<lambda>q. if p \<le> q \<and> q < p + length ds then ds ! (q - p) else abyte f q)\<rparr>"

definition aread :: "nat \<Rightarrow> nat \<Rightarrow> afile \<Rightarrow> bytes" where
  "aread p n f = map (abyte f) [p ..< p + min n (asize f - p)]"

lemma get_seek_nat: "ext2_get_seek h s = of_nat (fpos h s)"
  by (simp add: ext2_get_seek_def fpos_def bsz_def)

lemma file_of_awrite:
  assumes "\<forall>q < bsz s * max_blocks s. fbyte byt s' ino' q = (if p \<le> q \<and> q < p + length ds then ds ! (q - p) else fbyte byt s ino q)"
    "ds = [] \<or> p + length ds \<le> bsz s * max_blocks s" "geometry s' = geometry s" "fsize ino' = max (fsize ino) (p + length ds)"
  shows "file_of byt s' ino' = awrite p ds (file_of byt s ino)"
  using assms(1,2,4) unfolding file_of_def awrite_def geometry_cong[OF assms(3)] by (auto simp: fun_eq_iff)

lemma ext2_write_ok:
  assumes D: "good_disk D byt" and w: "writable byt (inode_index h) ib off s ino" and sk: "unat (seek h) < bsz s" "fpos h s + length data < 2 ^ 62"
  shows "\<exists>n h' s' ino'. ext2_write D h data s = done_with (of_nat n, h', s') \<and> n \<le> length data
    \<and> (n < length data \<longrightarrow> disk_full byt s' \<or> bsz s * max_blocks s \<le> fpos h s + n) \<and> (n = 0 \<or> fpos h s + n \<le> bsz s * max_blocks s)
    \<and> wrote byt (inode_index h) ib off s ino s' ino'
    \<and> file_of byt s' ino' = awrite (fpos h s) (take n data) (file_of byt s ino)
    \<and> fpos h' s' = fpos h s + n \<and> unat (seek h') < bsz s' \<and> inode_index h' = inode_index h"
proof -
  note wd = writableD[OF w]
  let ?p = "fpos h s"
  from write_loop_ok[OF D w sk, of 0] obtain n ino1 h1 s1 where
    l: "write_loop D data ino (of_nat ?p) (of_nat 0) h s = done_with (of_nat (0 + n), of_nat (?p + n), ino1, h1, s1)"
      "write_result byt ib off h data s ino n h1 s1 ino1" by (elim exE conjE) (rule that)
  note r = l(2)[unfolded write_result_def]
  have w1: "wrote byt (inode_index h) ib off s ino s1 ino1" and ge: "geometry s1 = geometry s" and n: "n \<le> length data"
    and hi: "inode_index h1 = inode_index h" and size: "inode_size ino1 = inode_size ino"
    using r by (simp_all add: wrote_def updated_def)
  note cg = geometry_cong[OF ge] and ww = wrote_writable[OF w w1]
  have pn: "unat (of_nat (?p + n) :: u64) = ?p + n" using sk(2) n by (intro unat_of_nat_u64) simp
  have less: "inode_size ino < of_nat (?p + n) \<longleftrightarrow> fsize ino < ?p + n" by (simp only: word_less_nat_alt pn fsize_def)
  have gi: "get_inode D (inode_index h) s = Inr (Some ino)" by (rule get_inode_stored[OF D wd(5,3)])
  have upd: "\<forall>q < bsz s * max_blocks s. fbyte byt s1 ino1 q = (if ?p \<le> q \<and> q < ?p + length (take n data) then take n data ! (q - ?p) else fbyte byt s ino q)"
    and lim: "take n data = [] \<or> ?p + length (take n data) \<le> bsz s * max_blocks s" using r n by (auto simp: updated_def)
  have rest: "n < length data \<longrightarrow> disk_full byt s1 \<or> bsz s * max_blocks s \<le> ?p + n" "n = 0 \<or> ?p + n \<le> bsz s * max_blocks s" "fpos h1 s = ?p + n" "unat (seek h1) < bsz s" using r by blast+
  have run: "ext2_write D h data s = (if fsize ino < ?p + n
      then case set_inode D (inode_index h) (set_inode_size (of_nat (?p + n)) ino1) s1 of Inl e \<Rightarrow> failed e | Inr (_, s2) \<Rightarrow> done_with (of_nat n, h1, s2)
      else done_with (of_nat n, h1, s1))"
    using gi l(1) hi less by (simp add: ext2_write_def get_seek_nat)
  show ?thesis
  proof (cases "fsize ino < ?p + n")
    case False
    then have "file_of byt s1 ino1 = awrite ?p (take n data) (file_of byt s ino)"
      using size n by (intro file_of_awrite[OF upd lim ge]) (simp add: fsize_def)
    then show ?thesis using run False n rest w1 cg hi by (intro exI[of _ n] exI[of _ h1] exI[of _ s1] exI[of _ ino1]) simp
  next
    case True
    let ?ino = "set_inode_size (of_nat (?p + n)) ino1"
    from set_size_ok[OF D ww, of "of_nat (?p + n)"] obtain s2 where s2: "set_inode D (inode_index h) ?ino s1 = Inr (True, s2)"
      "wrote byt (inode_index h) ib off s1 ino1 s2 ?ino" "disk_full byt s2 = disk_full byt s1"
      "\<forall>q < bsz s1 * max_blocks s1. fbyte byt s2 ?ino q = fbyte byt s1 ino1 q" by blast
    have ge2: "geometry s2 = geometry s" using s2(2) ge by (simp add: wrote_def)
    have l1: "length ino1 = SIZEOF_INODE" using stored_length[OF writableD(3)[OF ww]] .
    have "fsize ?ino = ?p + n" using inode_size_set(1)[OF l1] pn by (simp only: fsize_def)
    then have "file_of byt s2 ?ino = awrite ?p (take n data) (file_of byt s ino)"
      using True n upd s2(4)[unfolded cg] by (intro file_of_awrite[OF _ lim ge2]) simp_all
    then show ?thesis using run True s2(1) n rest wrote_trans[OF w1 s2(2)] geometry_cong[OF ge2] hi
      by (intro exI[of _ n] exI[of _ h1] exI[of _ s2] exI[of _ ?ino]) (simp add: s2(3))
  qed
qed

end
