(* ===== verification/Ext2Spec.thy ===== *)
theory Ext2Spec
  imports Ext2Write
begin

section \<open>The ext2 driver: what a caller may rely on\<close>

text \<open>
  Reads and writes against the byte sequence of a file, writing and reading back, and that a write to one file does not change another.  The
  sample file system at the start shows that the hypotheses can hold: two groups of 64 blocks of two kilobytes on a disk held in memory, with
  an empty file and a file of five bytes in a hole.
\<close>

subsection \<open>A sample file system\<close>

definition ram_disk :: "(nat \<Rightarrow> u8) disk_ops" where
  "ram_disk = \<lparr>disk_read = (\<lambda>l n d. Some (map d [512 * unat l ..< 512 * unat l + 512 * unat n])),
     disk_write = (\<lambda>l n buf d. (True, \<lambda>a. if 512 * unat l \<le> a \<and> a < 512 * unat l + 512 * unat n then buf ! (a - 512 * unat l) else d a))\<rparr>"

definition sample_superblock :: bytes where
  "sample_superblock = put32 0 16 (put32 4 128 (put32 24 1 (put32 32 64 (put32 40 8 (put16 56 0xEF53 (put16 88 128 (replicate 1024 0)))))))"

definition sample_bgdt :: bytes where
  "sample_bgdt = put32 0 2 (put32 8 4 (put16 12 59 (put32 32 3 (replicate 512 0))))"

definition sample :: "(nat \<Rightarrow> u8) ext2_t" where
  "sample = \<lparr>start_lba = 0, end_lba = 512, superblock = sample_superblock, bgdt = sample_bgdt,
     disk = (\<lambda>a. if a = 4096 then 0x1F else if a = 8324 then 5 else 0), block_size = 2048, devid = 0, lock = False\<rparr>"

definition sample_handle :: ext2_inode_handle_t where
  "sample_handle = \<lparr>inode_index = 1, seek = 0, seek_block = 0, ext2_mode = 0, next_seek = 0\<rparr>"

lemma ram_disk_good: "good_disk ram_disk (\<lambda>d. d)"
  by (simp add: good_disk_def ram_disk_def)

lemma sample_fields:
  "s_inodes_count sample_superblock = 16" "s_blocks_count sample_superblock = 128" "s_log_block_size sample_superblock = 1"
  "s_blocks_per_group sample_superblock = 64" "s_inodes_per_group sample_superblock = 8" "s_inode_size sample_superblock = 128"
  "length sample_superblock = 1024" "length sample_bgdt = 512" "bg_block_bitmap sample_bgdt 0 = 2" "bg_block_bitmap sample_bgdt 1 = 3"
  "bg_inode_table sample_bgdt 0 = 4"
  by (simp_all add: sample_superblock_def sample_bgdt_def s_inodes_count_def s_blocks_count_def s_log_block_size_def s_blocks_per_group_def
      s_inodes_per_group_def s_inode_size_def bg_block_bitmap_def bg_inode_table_def bg_off_def SIZEOF_BG_DESC_def)

lemma sample_geo: "bsz sample = 2048" "geo sample" "bpg sample = 64" "ngroups sample = 2" "gdt_end sample = 2" "valid sample b \<longleftrightarrow> b \<le> 128"
  "bgdt_size sample_superblock = 512"
proof -
  show b: "bsz sample = 2048" by (simp add: bsz_def sample_def)
  show "geo sample" unfolding geo_def b by (intro exI[of _ 1]) (simp add: sample_def sample_fields)
  show "bpg sample = 64" "ngroups sample = 2" by (simp_all add: bpg_def ngroups_def sample_def sample_fields)
  show "gdt_end sample = 2" unfolding gdt_end_def b by (simp add: sample_def sample_fields)
  show "valid sample b \<longleftrightarrow> b \<le> 128" unfolding valid_def b by (auto simp: sample_def)
  show "bgdt_size sample_superblock = 512" by (simp add: bgdt_size_def sample_fields SIZEOF_BG_DESC_def)
qed

lemma sample_bitmap: "bmb sample 0 = 2" "bmb sample (Suc 0) = 3"
  by (simp_all add: bmb_def sample_def sample_fields)

lemma sample_sel: "superblock sample = sample_superblock" "bgdt sample = sample_bgdt" "lock sample = False" "block_size sample = 2048"
  by (simp_all add: sample_def)

lemma sample_alloc_wf: "alloc_wf sample"
  unfolding alloc_wf_def sample_geo sample_sel
  by (auto simp: sample_geo sample_fields sample_bitmap SIZEOF_SUPERBLOCK_def SIZEOF_BG_DESC_def inj_on_def less_2_cases_iff)

lemma sample_img: "img (\<lambda>d. d) sample a = (if a = 4096 then 0x1F else if a = 8324 then 5 else 0)"
  by (simp add: img_def sample_def)

lemma sample_word: "word_of (\<lambda>d. d) sample 0 0 = 0x1F"
proof -
  have "take 8 (drop 0 (blk (\<lambda>d. d) sample 2)) = [0x1F, 0, 0, 0, 0, 0, 0, 0]"
  proof (rule nth_equalityI)
    show "take 8 (drop 0 (blk (\<lambda>d. d) sample 2)) ! i = [0x1F, 0, 0, 0, 0, 0, 0, 0] ! i" if "i < length (take 8 (drop 0 (blk (\<lambda>d. d) sample 2)))" for i
      using that by (cases i) (auto simp: nth_blk sample_geo sample_img nth_Cons' )
  qed (simp add: sample_geo)
  then show ?thesis by (simp add: word_of_def sample_bitmap field64_def le_nat_def)
qed

lemma sample_in_use: "x \<le> 4 \<Longrightarrow> in_use (\<lambda>d. d) sample x"
proof -
  assume x: "x \<le> 4"
  have "bit (0x1F :: u64) x" using x by (auto simp: numeral_eq_Suc le_Suc_eq)
  then show ?thesis using x sample_word by (simp add: in_use_def sample_geo)
qed

definition sample_ino :: "nat \<Rightarrow> bytes" where
  "sample_ino k = (if k = 0 then replicate 128 0 else put32 4 5 (replicate 128 0))"

lemma le_nat_zeros: "le_nat (replicate n 0) = 0"
  by (induction n) (auto simp: le_nat_def)

lemma sample_ino_fields: "length (sample_ino k) = 128" "j \<le> 14 \<Longrightarrow> i_block (sample_ino k) j = 0" "fsize (sample_ino 0) = 0" "fsize (sample_ino 1) = 5"
proof -
  have z: "field32 (replicate 128 0) off = 0" for off using le_nat_zeros by (simp add: field32_def)
  then show "length (sample_ino k) = 128" "j \<le> 14 \<Longrightarrow> i_block (sample_ino k) j = 0" "fsize (sample_ino 0) = 0" "fsize (sample_ino 1) = 5"
    by (simp_all add: sample_ino_def i_block_def fsize_def inode_size_def i_size_def i_dir_acl_def)
qed

lemma sample_inode: "k < 2 \<Longrightarrow> stored (\<lambda>d. d) sample (1 + of_nat k) 4 (128 * k) (sample_ino k)"
proof -
  assume k: "k < 2"
  have "inode_place (1 + of_nat k) sample = Inr (of_nat 4, 128 * k)"
    using k by (auto simp: less_2_cases_iff inode_place_def sample_sel sample_fields bg_off_def SIZEOF_BG_DESC_def)
  moreover have "take 128 (drop (128 * k) (blk (\<lambda>d. d) sample 4)) = sample_ino k"
  proof (rule nth_equalityI)
    fix i assume "i < length (take 128 (drop (128 * k) (blk (\<lambda>d. d) sample 4)))"
    then have i: "i < 128" by simp
    have "(4 :: nat) = Suc (Suc (Suc (Suc 0)))" by simp
    then have "le_bytes 4 5 = [5, 0, 0, 0]" by (simp only: le_bytes.simps) simp
    then have "put32 4 5 (replicate 128 0) ! i = (if 4 \<le> i \<and> i < 8 then [5, 0, 0, 0] ! (i - 4) else 0)"
      using i nth_overlay[of 4 "[5, 0, 0, 0] :: bytes" "replicate 128 0" i] by (simp add: put32_def)
    also have "\<dots> = (if i = 4 then 5 else 0)" by (auto simp: nth_Cons')
    finally have put: "put32 4 5 (replicate 128 0) ! i = (if i = 4 then 5 else 0)" .
    have "sample_ino k ! i = (if k = 1 \<and> i = 4 then 5 else 0)" using k i put by (auto simp: sample_ino_def)
    moreover have "take 128 (drop (128 * k) (blk (\<lambda>d. d) sample 4)) ! i = (if k = 1 \<and> i = 4 then 5 else 0)"
      using i k by (auto simp: sample_geo nth_blk sample_img) presburger+
    ultimately show "take 128 (drop (128 * k) (blk (\<lambda>d. d) sample 4)) ! i = sample_ino k ! i" by simp
  qed (use k in \<open>simp add: sample_geo sample_ino_fields\<close>)
  moreover have "data_block sample 4" by (auto simp: data_block_def sample_geo sample_bitmap less_2_cases_iff)
  ultimately show ?thesis using sample_in_use[of 4] k by (simp add: stored_def sample_geo SIZEOF_INODE_def)
qed

lemma sample_node: "slot sample k js \<Longrightarrow> node (\<lambda>d. d) sample (sample_ino i) k js = 0"
  by (cases js) (auto simp: node_def slot_def sample_ino_fields)

lemma sample_nodes: "nodes (\<lambda>d. d) sample (sample_ino i) = {}"
  using sample_node by (auto simp: nodes_def)

lemma sample_writable: "k < 2 \<Longrightarrow> writable (\<lambda>d. d) (1 + of_nat k) 4 (128 * k) sample (sample_ino k)"
proof -
  assume k: "k < 2"
  have "in_use (\<lambda>d. d) sample x" if "\<not> data_block sample x" for x
  proof -
    have "x \<le> 4" using that by (auto simp: data_block_def sample_geo sample_bitmap less_2_cases_iff)
    then show ?thesis by (rule sample_in_use)
  qed
  moreover have "valid sample x" if "x div 64 < 1" for x using that by (simp add: sample_geo div_eq_0_iff)
  ultimately have "fs_ok (\<lambda>d. d) sample" using sample_alloc_wf by (simp add: fs_ok_def sample_geo)
  moreover have "ftree_ok (\<lambda>d. d) sample 4 (sample_ino k)" using sample_node by (auto simp: ftree_ok_def)
  moreover have "unat ((1 + of_nat k - 1 :: u64) div 8) < 1" using k by (auto simp: less_2_cases_iff)
  ultimately show ?thesis using sample_inode[OF k] by (simp add: writable_def sample_geo sample_sel sample_fields)
qed

subsection \<open>Reading and writing\<close>

lemma ext2_read_ok:
  assumes D: "good_disk D byt" and g: "geo s" "map_ok byt s ino" "stored byt s (inode_index h) ib off ino" "fsize ino \<le> bsz s * max_blocks s"
    and h: "unat (seek h) < bsz s" "fpos h s < 2 ^ 62" and t: "tail_ok byt s ino (fpos h s + unat count)"
  shows "\<exists>h'. ext2_read D h count s = done_with (aread (fpos h s) (unat count) (file_of byt s ino), h')
    \<and> fpos h' s = fpos h s + min (unat count) (fsize ino - fpos h s) \<and> unat (seek h') < bsz s"
proof -
  let ?n = "min (unat count) (fsize ino - fpos h s)"
  have "map (fbyte byt s ino) [fpos h s ..< fpos h s + ?n] = aread (fpos h s) (unat count) (file_of byt s ino)"
    using g(4) by (auto simp: aread_def file_of_def)
  then show ?thesis using read_loop_ok[OF D g(1,2,4) h t, of "[]"] get_inode_stored[OF D g(1,3)]
    by (auto simp: ext2_read_def get_seek_nat Let_def)
qed

lemma ext2_seek_ok:
  assumes "geo s" "p < 2 ^ 64"
  shows "\<exists>h'. ext2_seek h (of_nat p) s = Inr (FILE_OK, h') \<and> fpos h' s = p \<and> unat (seek h') < bsz s \<and> inode_index h' = inode_index h"
proof -
  have u: "unat (of_nat p :: u64) = p" using assms(2) by (rule unat_of_nat_u64)
  have b: "block_size s \<noteq> 0" "0 < bsz s" using geo_bounds[OF assms(1)] by auto
  have "unat (of_nat p div block_size s) = p div bsz s" "unat (of_nat p mod block_size s) = p mod bsz s"
    by (simp_all only: unat_div unat_mod u bsz_def)
  then show ?thesis using b by (simp add: ext2_seek_def fpos_def)
qed

lemma aread_awrite: "aread p (length ds) (awrite p ds f) = ds"
  by (rule nth_equalityI) (auto simp: aread_def awrite_def)

text \<open>A second file: its tree, its inode and so its bytes are not those of the file that is written.\<close>

definition separate :: "('d \<Rightarrow> nat \<Rightarrow> u8) \<Rightarrow> 'd ext2_t \<Rightarrow> nat \<Rightarrow> nat \<Rightarrow> bytes \<Rightarrow> nat \<Rightarrow> nat \<Rightarrow> bytes \<Rightarrow> bool" where
  "separate byt s ib off ino ib2 off2 ino2 \<longleftrightarrow> nodes byt s ino \<inter> nodes byt s ino2 = {} \<and> ib \<notin> nodes byt s ino2 \<and> ib2 \<notin> nodes byt s ino
     \<and> (ib2 = ib \<longrightarrow> off2 + SIZEOF_INODE \<le> off \<or> off + SIZEOF_INODE \<le> off2)"

lemma tree_unchanged:
  assumes geo: "geo s" and ge: "geometry s' = geometry s" and bl: "\<forall>x \<in> nodes byt s ino. blk byt s' x = blk byt s x"
  shows "slot s k js \<Longrightarrow> node byt s' ino k js = node byt s ino k js" "nodes byt s' ino = nodes byt s ino" "file_of byt s' ino = file_of byt s ino"
proof -
  note c = geometry_cong[OF ge]
  show nd: "node byt s' ino k js = node byt s ino k js" if "slot s k js" for k js using that
  proof (induction js rule: rev_induct)
    case (snoc j js)
    then have s: "slot s k js" by (simp add: slot_snoc)
    then have "node byt s ino k js \<noteq> 0 \<longrightarrow> blk byt s' (node byt s ino k js) = blk byt s (node byt s ino k js)" using bl by (auto simp: nodes_def)
    then show ?case using snoc.IH[OF s] by (simp add: node_snoc Let_def entry_def)
  qed (simp add: node_def)
  show "nodes byt s' ino = nodes byt s ino" unfolding nodes_def c using nd by (intro Collect_cong) metis
  have "fbyte byt s' ino q = fbyte byt s ino q" if q: "q < bsz s * max_blocks s" for q
  proof -
    have "q div bsz s < max_blocks s" using q by (simp add: less_mult_imp_div_less mult.commute)
    then obtain k js where p: "fpath s (q div bsz s) = Some (k, js)" "slot s k js" using fblock_path[OF geo] by metis
    have "fblock byt s' ino (q div bsz s) = fblock byt s ino (q div bsz s)" using p nd c by (simp add: fblock_def)
    moreover have "fblock byt s ino (q div bsz s) \<noteq> 0 \<Longrightarrow> fblock byt s ino (q div bsz s) \<in> nodes byt s ino" using p by (auto simp: nodes_def fblock_def)
    ultimately show ?thesis using bl c(1) by (auto simp: fbyte_def Let_def)
  qed
  then show "file_of byt s' ino = file_of byt s ino" using c by (auto simp: file_of_def fun_eq_iff)
qed

lemma wrote_other:
  assumes geo: "geo s" and w: "wrote byt idx ib off s ino s' ino'" and st: "stored byt s idx ib off ino"
    and f2: "ftree_ok byt s ib2 ino2" "stored byt s idx2 ib2 off2 ino2" and sep: "separate byt s ib off ino ib2 off2 ino2"
  shows "ftree_ok byt s' ib2 ino2" "stored byt s' idx2 ib2 off2 ino2" "file_of byt s' ino2 = file_of byt s ino2" "separate byt s' ib off ino' ib2 off2 ino2"
proof -
  note W = w[unfolded wrote_def] and S = sep[unfolded separate_def] and T = f2(2)[unfolded stored_def]
  have ge: "geometry s' = geometry s" using W by blast
  note c = geometry_cong[OF ge] data_block_cong[OF ge]
  have n2: "data_block s x \<and> in_use byt s x" if "x \<in> nodes byt s ino2" for x using that ftree_okD(2,3)[OF f2(1)] by (auto simp: nodes_def)
  have bl: "\<forall>x \<in> nodes byt s ino2. blk byt s' x = blk byt s x" using W S n2 by (metis disjoint_iff)
  note t = tree_unchanged[OF geo ge bl]
  show "file_of byt s' ino2 = file_of byt s ino2" by (rule t(3))
  have mono: "in_use byt s x \<longrightarrow> in_use byt s' x" for x using W by blast
  show "ftree_ok byt s' ib2 ino2" using f2(1) t(1) mono unfolding ftree_ok_def Let_def c conjunct1[OF data_block_cong[OF ge]] by (smt (verit, ccfv_SIG))
  have "take SIZEOF_INODE (drop off2 (blk byt s' ib2)) = ino2"
  proof (cases "ib2 = ib")
    case True
    have "length ino' = SIZEOF_INODE" "off + SIZEOF_INODE \<le> bsz s" using W stored_length st by (auto simp: stored_def)
    then have "take SIZEOF_INODE (drop off2 (overlay off ino' (blk byt s ib))) = take SIZEOF_INODE (drop off2 (blk byt s ib))"
      using S True by (intro overlay_other) auto
    then show ?thesis using W T True by simp
  next
    case False
    then have "blk byt s' ib2 = blk byt s ib2" using W T S by blast
    then show ?thesis using T by simp
  qed
  then show "stored byt s' idx2 ib2 off2 ino2" using T mono c by (simp add: stored_def)
  show "separate byt s' ib off ino' ib2 off2 ino2" using S W T n2 unfolding separate_def t(2) by blast
qed

subsection \<open>Properties\<close>

text \<open>C8 \<^verbatim>\<open>ext2_write\<close> implements the write to a byte sequence.  On a disk without errors, for a file whose block tree and inode are in order, the call
  returns; the number it returns is short only when no group may give a block or the largest file size is reached; size and bytes of the file are then
  those of the abstract write of that many bytes at the position of the handle (holes are filled, the inode on the disk and the tree are in order
  again), the handle stands behind them, and blocks in use that belong to neither the file nor its inode keep their bytes.\<close>

theorem ext2_write_refines:
  assumes "good_disk D byt" "writable byt (inode_index h) ib off s ino" "unat (seek h) < bsz s" "fpos h s + length data < 2 ^ 62"
  shows "\<exists>n h' s' ino'. ext2_write D h data s = done_with (of_nat n, h', s') \<and> n \<le> length data
    \<and> (n < length data \<longrightarrow> disk_full byt s' \<or> bsz s * max_blocks s \<le> fpos h s + n)
    \<and> writable byt (inode_index h) ib off s' ino' \<and> file_of byt s' ino' = awrite (fpos h s) (take n data) (file_of byt s ino)
    \<and> fpos h' s' = fpos h s + n \<and> unat (seek h') < bsz s'
    \<and> (\<forall>x. data_block s x \<and> in_use byt s x \<and> x \<notin> nodes byt s ino \<and> x \<noteq> ib \<longrightarrow> in_use byt s' x \<and> blk byt s' x = blk byt s x)"
proof -
  from ext2_write_ok[OF assms] obtain n h' s' ino' where r: "ext2_write D h data s = done_with (of_nat n, h', s')" "n \<le> length data"
    "n < length data \<longrightarrow> disk_full byt s' \<or> bsz s * max_blocks s \<le> fpos h s + n" and w: "wrote byt (inode_index h) ib off s ino s' ino'"
    and f: "file_of byt s' ino' = awrite (fpos h s) (take n data) (file_of byt s ino)" "fpos h' s' = fpos h s + n" "unat (seek h') < bsz s'"
    by (elim exE conjE) (rule that)
  have "\<forall>x. data_block s x \<and> in_use byt s x \<and> x \<notin> nodes byt s ino \<and> x \<noteq> ib \<longrightarrow> in_use byt s' x \<and> blk byt s' x = blk byt s x"
    using w unfolding wrote_def by blast
  then show ?thesis using r f wrote_writable[OF assms(2) w] by blast
qed

theorem ext2_write_refines_witness:
  "\<exists>n h' s' ino'. ext2_write ram_disk sample_handle [1, 2, 3] sample = done_with (of_nat n, h', s') \<and> n \<le> 3
    \<and> file_of (\<lambda>d. d) s' ino' = awrite 0 (take n [1, 2, 3]) (file_of (\<lambda>d. d) sample (sample_ino 0))"
proof -
  have a: "writable (\<lambda>d. d) (inode_index sample_handle) 4 0 sample (sample_ino 0)" "unat (seek sample_handle) < bsz sample" "fpos sample_handle sample = 0"
    using sample_writable[of 0] by (simp_all add: sample_handle_def sample_geo fpos_def)
  then have "fpos sample_handle sample + length [1, 2, 3 :: u8] < 2 ^ 62" by simp
  from ext2_write_refines[OF ram_disk_good a(1,2) this] obtain n h' s' ino' where
    "ext2_write ram_disk sample_handle [1, 2, 3] sample = done_with (of_nat n, h', s')" "n \<le> length [1, 2, 3 :: u8]"
    "file_of (\<lambda>d. d) s' ino' = awrite 0 (take n [1, 2, 3]) (file_of (\<lambda>d. d) sample (sample_ino 0))" unfolding a(3) by (elim exE conjE) (rule that)
  moreover from this(2) have "n \<le> 3" by simp
  ultimately show ?thesis by blast
qed

text \<open>C11 \<^verbatim>\<open>ext2_read\<close> returns the bytes of the file from the position of the handle, as many as were asked for and the file has, holes as zeros,
  and moves the handle behind them, unless the file ends inside a hole that the read comes to.\<close>

theorem ext2_read_returns:
  assumes "good_disk D byt" "geo s" "map_ok byt s ino" "stored byt s (inode_index h) ib off ino" "fsize ino \<le> bsz s * max_blocks s"
    "unat (seek h) < bsz s" "fpos h s < 2 ^ 62" "tail_ok byt s ino (fpos h s + unat count)"
  shows "\<exists>h'. ext2_read D h count s = done_with (aread (fpos h s) (unat count) (file_of byt s ino), h')
    \<and> fpos h' s = fpos h s + min (unat count) (fsize ino - fpos h s) \<and> unat (seek h') < bsz s"
  by (rule ext2_read_ok[OF assms])

theorem ext2_read_returns_witness:
  "\<exists>h'. ext2_read ram_disk (sample_handle\<lparr>inode_index := 2\<rparr>) 4 sample = done_with (aread 0 4 (file_of (\<lambda>d. d) sample (sample_ino 1)), h')"
proof -
  let ?h = "sample_handle\<lparr>inode_index := 2\<rparr>"
  have h: "unat (seek ?h) < bsz sample" "fpos ?h sample = 0" "inode_index ?h = 2" by (simp_all add: sample_handle_def sample_geo fpos_def)
  have "512 \<le> ppb sample" using ppb_bounds(1)[OF sample_geo(2)] .
  then have "fsize (sample_ino 1) \<le> bsz sample * max_blocks sample" "tail_ok (\<lambda>d. d) sample (sample_ino 1) (fpos ?h sample + unat (4 :: u64))"
    using h sample_ino_fields by (auto simp: tail_ok_def sample_geo max_blocks_def)
  moreover have "map_ok (\<lambda>d. d) sample (sample_ino 1)" using sample_node by (auto simp: map_ok_def)
  moreover have "stored (\<lambda>d. d) sample (inode_index ?h) 4 128 (sample_ino 1)" using sample_inode[of 1] h(3) by simp
  ultimately show ?thesis using ext2_read_returns[OF ram_disk_good sample_geo(2), of "sample_ino 1" ?h 4 128 4] h by auto
qed

text \<open>C10 Writing bytes, seeking back to where they were written and reading as many as the write reported returns them.\<close>

theorem ext2_write_read:
  assumes "good_disk D byt" "writable byt (inode_index h) ib off s ino" "unat (seek h) < bsz s" "fpos h s + length data < 2 ^ 62"
    "fsize ino \<le> bsz s * max_blocks s"
  shows "\<exists>w h' s' h2 h3. ext2_write D h data s = done_with (w, h', s') \<and> ext2_seek h' (of_nat (fpos h s)) s' = Inr (FILE_OK, h2)
    \<and> ext2_read D h2 w s' = done_with (take (unat w) data, h3)"
proof -
  let ?p = "fpos h s"
  from ext2_write_ok[OF assms(1-4)] obtain n h' s' ino' where r: "ext2_write D h data s = done_with (of_nat n, h', s')" "n \<le> length data"
    and lim: "n = 0 \<or> ?p + n \<le> bsz s * max_blocks s" and w: "wrote byt (inode_index h) ib off s ino s' ino'"
    and f: "file_of byt s' ino' = awrite ?p (take n data) (file_of byt s ino)" and hi: "inode_index h' = inode_index h" by (elim exE conjE) (rule that)
  note wd = writableD[OF wrote_writable[OF assms(2) w]]
  have un: "unat (of_nat n :: u64) = n" using assms(4) r(2) by (intro unat_of_nat_u64) simp
  have "?p < 2 ^ 64" using assms(4) by simp
  from ext2_seek_ok[OF wd(5) this, of h'] obtain h2 where h2: "ext2_seek h' (of_nat ?p) s' = Inr (FILE_OK, h2)" "fpos h2 s' = ?p" "unat (seek h2) < bsz s'"
    "inode_index h2 = inode_index h" unfolding hi by (elim exE conjE) (rule that)
  have ge: "geometry s' = geometry s" using w by (simp add: wrote_def)
  have sz: "fsize ino' = max (fsize ino) (?p + n)" using f r(2) by (simp add: file_of_def awrite_def)
  have st: "stored byt s' (inode_index h2) ib off ino'" using wd(3) h2(4) by simp
  have "\<exists>h3. ext2_read D h2 (of_nat n) s' = done_with (take n data, h3)"
  proof (cases "n = 0")
    case True
    then show ?thesis using get_inode_stored[OF assms(1) wd(5) st] by (simp add: ext2_read_def read_loop_done)
  next
    case False
    then have "fsize ino' \<le> bsz s' * max_blocks s'" "tail_ok byt s' ino' (fpos h2 s' + unat (of_nat n :: u64))" "fpos h2 s' < 2 ^ 62"
      using sz lim assms(4,5) geometry_cong[OF ge] unfolding un h2(2) tail_ok_def by auto
    from ext2_read_ok[OF assms(1) wd(5,6) st this(1) h2(3) this(3,2)]
    show ?thesis using aread_awrite[of ?p "take n data"] f r(2) unfolding un h2(2) by auto
  qed
  then obtain h3 where "ext2_read D h2 (of_nat n) s' = done_with (take (unat (of_nat n :: u64)) data, h3)" unfolding un by blast
  then show ?thesis using r(1) h2(1) by blast
qed

theorem ext2_write_read_witness:
  "\<exists>w h' s' h2 h3. ext2_write ram_disk sample_handle [1, 2, 3] sample = done_with (w, h', s') \<and> ext2_seek h' 0 s' = Inr (FILE_OK, h2)
    \<and> ext2_read ram_disk h2 w s' = done_with (take (unat w) [1, 2, 3], h3)"
proof -
  have "writable (\<lambda>d. d) (inode_index sample_handle) 4 0 sample (sample_ino 0)" "unat (seek sample_handle) < bsz sample" "fpos sample_handle sample = 0"
    using sample_writable[of 0] by (simp_all add: sample_handle_def sample_geo fpos_def)
  then show ?thesis using ext2_write_read[OF ram_disk_good, of sample_handle 4 0 sample "sample_ino 0" "[1, 2, 3]"] sample_ino_fields(3) by simp
qed

text \<open>C9 A write to one file does not change another: when the blocks and inodes of two files are separate, a write to the first, which may allocate
  blocks and rewrite the block both inodes lie in, leaves the second with the same size and bytes, in order, and separate from the first.\<close>

theorem ext2_write_isolated:
  assumes "good_disk D byt" "writable byt (inode_index h) ib off s ino" "unat (seek h) < bsz s" "fpos h s + length data < 2 ^ 62"
    "writable byt idx2 ib2 off2 s ino2" "separate byt s ib off ino ib2 off2 ino2"
  shows "\<exists>w h' s' ino'. ext2_write D h data s = done_with (w, h', s') \<and> writable byt (inode_index h) ib off s' ino'
    \<and> writable byt idx2 ib2 off2 s' ino2 \<and> file_of byt s' ino2 = file_of byt s ino2 \<and> separate byt s' ib off ino' ib2 off2 ino2"
proof -
  from ext2_write_ok[OF assms(1-4)] obtain n h' s' ino' where r: "ext2_write D h data s = done_with (of_nat n, h', s')"
    and w: "wrote byt (inode_index h) ib off s ino s' ino'" by (elim exE conjE) (rule that)
  note o = wrote_other[OF writableD(5)[OF assms(2)] w writableD(3)[OF assms(2)] writableD(2,3)[OF assms(5)] assms(6)]
  have ge: "geometry s' = geometry s" and k: "lock s' = lock s" "fs_ok byt s'" using w by (simp_all add: wrote_def)
  have "writable byt idx2 ib2 off2 s' ino2"
    using assms(5) o(1,2) k ge geometry_cong(8)[OF ge] unfolding writable_def by (auto simp: geometry_def)
  then show ?thesis using r o(3,4) wrote_writable[OF assms(2) w] by blast
qed

theorem ext2_write_isolated_witness:
  "\<exists>w h' s'. ext2_write ram_disk sample_handle [1, 2, 3] sample = done_with (w, h', s')
    \<and> file_of (\<lambda>d. d) s' (sample_ino 1) = file_of (\<lambda>d. d) sample (sample_ino 1)"
proof -
  have "writable (\<lambda>d. d) (inode_index sample_handle) 4 0 sample (sample_ino 0)" "unat (seek sample_handle) < bsz sample" "fpos sample_handle sample = 0"
    "writable (\<lambda>d. d) 2 4 128 sample (sample_ino 1)" "separate (\<lambda>d. d) sample 4 0 (sample_ino 0) 4 128 (sample_ino 1)"
    using sample_writable[of 0] sample_writable[of 1] by (simp_all add: sample_handle_def sample_geo fpos_def separate_def sample_nodes SIZEOF_INODE_def)
  then show ?thesis using ext2_write_isolated[OF ram_disk_good, of sample_handle 4 0 sample "sample_ino 0" "[1, 2, 3]" 2 4 128 "sample_ino 1"] by auto
qed

text \<open>C13 \<^verbatim>\<open>alloc_block\<close> ends on every well-formed file system: either it gives a block that was free, in a group it may use, marks that block and
  no other as used, and leaves the bytes of all blocks behind the descriptor table alone that are no bitmaps; or it gives 0, changes nothing, and
  every group it may use is full (by its counter or by its bitmap).\<close>

theorem alloc_block_fresh:
  assumes "good_disk D byt" "alloc_wf s" "g < ngroups s - 1"
  shows "(\<exists>b s'. alloc_block D (of_nat g) s = done_with (of_nat b, s') \<and> \<not> in_use byt s b \<and> b div bpg s < ngroups s - 1
      \<and> (\<forall>x. in_use byt s' x \<longleftrightarrow> in_use byt s x \<or> x = b) \<and> alloc_wf s'
      \<and> (\<forall>x. gdt_end s \<le> x \<and> x \<notin> bmb s ` {..< ngroups s} \<longrightarrow> blk byt s' x = blk byt s x))
    \<or> alloc_block D (of_nat g) s = done_with (0, s)
      \<and> (\<forall>i < ngroups s - 1. bg_free Blocks (bgdt s) (of_nat i) = 0 \<or> (\<forall>b. b div bpg s = i \<longrightarrow> in_use byt s b))"
  using alloc_block_ok[OF assms] geometry_cong(12) assms(2) unfolding allocated_def group_full_def by (smt (verit))

theorem alloc_block_fresh_witness:
  "(\<exists>b s'. alloc_block ram_disk (of_nat 0) sample = done_with (of_nat b, s') \<and> \<not> in_use (\<lambda>d. d) sample b)
    \<or> alloc_block ram_disk (of_nat 0) sample = done_with (0, sample)"
  using alloc_block_fresh[OF ram_disk_good sample_alloc_wf, of 0] unfolding sample_geo by auto

text \<open>C35 A read that comes to the end of a file inside a hole does not stop there: it returns zeros for all bytes that were asked for in that block,
  also those beyond the size of the file, and counts them.\<close>

theorem ext2_read_past_end:
  assumes "good_disk D byt" "geo s" "map_ok byt s ino" "stored byt s (inode_index h) ib off ino" "fsize ino \<le> bsz s * max_blocks s"
    "unat (seek h) < bsz s" "fpos h s < fsize ino" "fblock byt s ino (unat (seek_block h)) = 0" "count \<noteq> 0" "unat count \<le> bsz s - unat (seek h)"
  shows "\<exists>h'. ext2_read D h count s = done_with (replicate (unat count) 0, h') \<and> fpos h' s = fpos h s + unat count"
proof -
  have z: "fsize ino < 2 ^ 62"
  proof -
    have "bsz s * max_blocks s \<le> 65536 * 2 ^ 43" using geo_bounds(2)[OF assms(2)] max_blocks_bound[OF assms(2)] by (intro mult_mono) auto
    then show ?thesis using assms(5) by simp
  qed
  then have p: "unat (of_nat (fpos h s) :: u64) = fpos h s" using assms(7) by (intro unat_of_nat_u64) simp
  then have nd: "\<not> inode_size ino \<le> of_nat (fpos h s)" using assms(7) by (simp add: word_le_nat_alt fsize_def)
  have sb: "unat (seek_block h) < max_blocks s"
    using assms(5,7) unfolding fpos_div(1)[OF assms(6), symmetric] by (intro less_mult_imp_div_less) (auto simp: mult.commute)
  have gb: "get_block D ino (seek_block h) s = Inr (BLOCK_SPARSE, 0)"
    using get_block_fblock[OF assms(1-3), of "unat (seek_block h)"] sb max_blocks_bound[OF assms(2)] assms(8) by simp
  have "unat (chunk_len (block_size s) count (seek h)) = unat count" using chunk_len_nat[OF assms(2,6)] assms(10) by simp
  then have len: "chunk_len (block_size s) count (seek h) = count" by simp
  have "ext2_read D h count s = done_with (replicate (unat count) 0, advance (block_size s) count h)"
    using get_inode_stored[OF assms(1,2,4)] nd gb assms(9) len
    by (simp add: ext2_read_def get_seek_nat read_loop_done read_loop.simps[of D ino count])
  then show ?thesis using advance_pos(1)[OF assms(2,6,10)] assms(7) z by simp
qed

theorem ext2_read_past_end_witness:
  "fsize (sample_ino 1) = 5 \<and> (\<exists>h'. ext2_read ram_disk (sample_handle\<lparr>inode_index := 2\<rparr>) 100 sample = done_with (replicate 100 0, h'))"
proof -
  let ?h = "sample_handle\<lparr>inode_index := 2\<rparr>"
  have h: "unat (seek ?h) < bsz sample" "fpos ?h sample = 0" "inode_index ?h = 2" "seek_block ?h = 0" "unat (100 :: u64) \<le> bsz sample - unat (seek ?h)"
    by (simp_all add: sample_handle_def sample_geo fpos_def)
  have "512 \<le> ppb sample" using ppb_bounds(1)[OF sample_geo(2)] .
  then have b: "fsize (sample_ino 1) \<le> bsz sample * max_blocks sample" using sample_ino_fields by (simp add: sample_geo max_blocks_def)
  have m: "map_ok (\<lambda>d. d) sample (sample_ino 1)" using sample_node by (auto simp: map_ok_def)
  have st: "stored (\<lambda>d. d) sample (inode_index ?h) 4 128 (sample_ino 1)" using sample_inode[of 1] h(3) by simp
  have f: "fblock (\<lambda>d. d) sample (sample_ino 1) (unat (seek_block ?h)) = 0"
    using fblock_path[OF sample_geo(2), of 0 "\<lambda>d. d" "sample_ino 1"] sample_node h(4) by (auto simp: max_blocks_def)
  show ?thesis using ext2_read_past_end[OF ram_disk_good sample_geo(2) m st b h(1) _ f _ h(5)] h(2) sample_ino_fields(4) by auto
qed

text \<open>On a file system with blocks of one kilobyte the driver takes the sectors of the superblock for those of the descriptor table, which is one block
  further: whatever \<^verbatim>\<open>sync_meta\<close> writes as the superblock is overwritten with the table.\<close>

lemma sync_meta_small_blocks:
  assumes "good_disk D byt" "s_log_block_size (superblock s) = 0" "s_blocks_per_group (superblock s) \<noteq> 0" "length (superblock s) = SIZEOF_SUPERBLOCK"
    "length (bgdt s) = unat (bgdt_size (superblock s))" "unat (bgdt_size (superblock s)) < 2 ^ 25" "512 dvd unat (bgdt_size (superblock s))"
    "unat (start_lba s) + 2 < 2 ^ 64"
  shows "\<exists>s'. sync_meta D s = Inr s' \<and> map (img byt s') [1024 ..< 1024 + length (bgdt s)] = bgdt s"
proof -
  let ?sb = "superblock s"
  define n where "n = unat (bgdt_size ?sb)"
  obtain q where q: "n = 512 * q" "n < 2 ^ 25" using assms(6,7) by (auto simp: n_def)
  have sh: "bgdt_shift ?sb = 1" using assms(2) by (simp add: bgdt_shift_def)
  have lba: "bgdt_start_lba (start_lba s) ?sb = start_lba s + 2" by (simp add: bgdt_start_lba_def sh)
  have l2: "unat (start_lba s + 2) = unat (start_lba s) + 2" using assms(8) by (simp add: unat_word_ariths(1))
  have "unat (bgdt_size ?sb div 512) = q" using q by (simp add: unat_div n_def[symmetric])
  then have sec: "unat (ucast (bgdt_size ?sb div 512) :: u16) = q" using q by (simp add: unsigned_ucast_eq take_bit_nat_eq_self)
  let ?d1 = "snd (disk_write D (start_lba s + SUPERBLOCK_LBA) SUPERBLOCK_SECTORS ?sb (disk s))"
  let ?d = "snd (disk_write D (start_lba s + 2) (ucast (bgdt_size ?sb div 512)) (bgdt s) ?d1)"
  have run: "sync_meta D s = Inr (s\<lparr>disk := ?d\<rparr>)" using sh assms(3) lba by (simp add: sync_meta_def Let_def)
  have "byt ?d a = bgdt s ! (a - 512 * (unat (start_lba s) + 2))" if "512 * (unat (start_lba s) + 2) \<le> a" "a < 512 * (unat (start_lba s) + 2) + n" for a
    using good_disk_write(2)[OF assms(1), of "ucast (bgdt_size ?sb div 512)" "bgdt s" "start_lba s + 2" ?d1] that assms(5) sec q l2 by (simp add: n_def[symmetric])
  then have "img byt (s\<lparr>disk := ?d\<rparr>) (1024 + i) = bgdt s ! i" if "i < n" for i using that by (simp add: img_def)
  then have "map (img byt (s\<lparr>disk := ?d\<rparr>)) [1024 ..< 1024 + length (bgdt s)] = bgdt s" using assms(5) by (intro nth_equalityI) (simp_all add: n_def)
  then show ?thesis using run by blast
qed

end
