(* ===== verification/Ext2Dir.thy ===== *)
theory Ext2Dir
  imports Ext2
begin

section \<open>The ext2 driver: directories and paths\<close>

text \<open>
  What a directory holds is the list of its names and inode numbers, in the order of the entries.  The search of the driver finds the first
  entry of a name, and the resolution of a path follows the names from the root directory.
\<close>

definition next_entry :: "bytes \<Rightarrow> ext2_inode_handle_t \<Rightarrow> 'd ext2_t \<Rightarrow> ext2_inode_handle_t" where
  "next_entry buf h s = snd (ext2_next_dir (h\<lparr>next_seek := seek h + ucast (entry_rec_len buf (unat (seek h)))\<rparr>) s)"

inductive listing :: "'d disk_ops \<Rightarrow> bytes \<Rightarrow> 'd ext2_t \<Rightarrow> ext2_inode_handle_t \<Rightarrow> (bytes \<times> u64) list \<Rightarrow> bool" for D ino s where
  at_end: "inode_size ino \<le> ext2_get_seek h s \<Longrightarrow> listing D ino s h []"
| hole: "ext2_get_seek h s < inode_size ino \<Longrightarrow> get_block D ino (seek_block h) s = Inr (BLOCK_SPARSE, b)
    \<Longrightarrow> listing D ino s (h\<lparr>seek_block := seek_block h + 1, seek := 0\<rparr>) es \<Longrightarrow> listing D ino s h es"
| free: "ext2_get_seek h s < inode_size ino \<Longrightarrow> get_block D ino (seek_block h) s = Inr (BLOCK_OK, b) \<Longrightarrow> read_block D b s = Some buf
    \<Longrightarrow> unat (seek h) + 8 \<le> length buf \<Longrightarrow> entry_inode buf (unat (seek h)) = 0
    \<Longrightarrow> listing D ino s (next_entry buf h s) es \<Longrightarrow> listing D ino s h es"
| used: "ext2_get_seek h s < inode_size ino \<Longrightarrow> get_block D ino (seek_block h) s = Inr (BLOCK_OK, b) \<Longrightarrow> read_block D b s = Some buf
    \<Longrightarrow> unat (seek h) + 8 + entry_name_len buf (unat (seek h)) \<le> length buf \<Longrightarrow> entry_inode buf (unat (seek h)) \<noteq> 0
    \<Longrightarrow> listing D ino s (next_entry buf h s) es
    \<Longrightarrow> listing D ino s h ((takeWhile (\<lambda>c. c \<noteq> 0) (entry_name buf (unat (seek h))), ucast (entry_inode buf (unat (seek h)))) # es)"

lemma next_dir_keeps: "inode_index (snd (ext2_next_dir h s)) = inode_index h" "ext2_mode (snd (ext2_next_dir h s)) = ext2_mode h" "fst (ext2_next_dir h s) = FILE_OK"
  by (simp_all add: ext2_next_dir_def)

text \<open>Reading one entry takes the head of the list, or says that there is none.\<close>

fun read_spec :: "'d disk_ops \<Rightarrow> bytes \<Rightarrow> 'd ext2_t \<Rightarrow> ext2_inode_handle_t \<Rightarrow> (bytes \<times> u64) list \<Rightarrow> file_status_t \<times> dir_info_t \<times> ext2_inode_handle_t \<Rightarrow> bool" where
  "read_spec D ino s h [] (sts, info, h') \<longleftrightarrow> sts = FILE_DNE"
| "read_spec D ino s h ((nm, i) # es) (sts, info, h') \<longleftrightarrow> sts = FILE_OK \<and> cname info = nm \<and> inode_num info = i
     \<and> listing D ino s (snd (ext2_next_dir h' s)) es"

lemma read_dir_loop_ok:
  assumes "listing D ino s h es"
  shows "\<exists>sts info' h'. read_dir_loop D ino info h s = done_with (sts, info', h') \<and> read_spec D ino s h es (sts, info', h')
    \<and> inode_index h' = inode_index h \<and> ext2_mode h' = ext2_mode h"
  using assms
proof (induction arbitrary: info)
  case (at_end h)
  then show ?case by (simp add: read_dir_loop.simps[of D ino _ h] Let_def)
next
  case (hole h b es)
  obtain sts info' h' where "read_dir_loop D ino (info\<lparr>seek_pos := ext2_get_seek h s\<rparr>) (h\<lparr>seek_block := seek_block h + 1, seek := 0\<rparr>) s = done_with (sts, info', h')"
    "read_spec D ino s (h\<lparr>seek_block := seek_block h + 1, seek := 0\<rparr>) es (sts, info', h')" "inode_index h' = inode_index h" "ext2_mode h' = ext2_mode h"
    using hole.IH[of "info\<lparr>seek_pos := ext2_get_seek h s\<rparr>"] by auto
  then show ?case using hole.hyps(1,2) by (cases es) (auto simp: read_dir_loop.simps[of D ino _ h] Let_def)
next
  case (free h b buf es)
  obtain sts info' h' where "read_dir_loop D ino (info\<lparr>seek_pos := ext2_get_seek h s\<rparr>) (next_entry buf h s) s = done_with (sts, info', h')"
    "read_spec D ino s (next_entry buf h s) es (sts, info', h')" "inode_index h' = inode_index h" "ext2_mode h' = ext2_mode h"
    using free.IH[of "info\<lparr>seek_pos := ext2_get_seek h s\<rparr>"] by (auto simp: next_entry_def next_dir_keeps)
  then show ?case using free.hyps(1-5) by (cases es) (auto simp: read_dir_loop.simps[of D ino _ h] Let_def next_entry_def)
next
  case (used h b buf es)
  then show ?case by (simp add: read_dir_loop.simps[of D ino _ h] Let_def next_entry_def cname_def)
qed

lemma read_dir_next_ok:
  assumes "listing D ino s h es" "get_inode D (inode_index h) s = Inr (Some ino)" "ext2_mode h AND MODE_DIR \<noteq> 0"
  shows "\<exists>sts info' h'. ext2_read_dir_next D info h s = done_with (sts, info', h') \<and> inode_index h' = inode_index h \<and> ext2_mode h' = ext2_mode h
    \<and> (case es of [] \<Rightarrow> sts = FILE_DNE | (nm, i) # es' \<Rightarrow> sts = FILE_OK \<and> cname info' = nm \<and> inode_num info' = i \<and> listing D ino s h' es')"
proof -
  obtain sts info' h' where r: "read_dir_loop D ino info h s = done_with (sts, info', h')" "read_spec D ino s h es (sts, info', h')"
    "inode_index h' = inode_index h" "ext2_mode h' = ext2_mode h" using read_dir_loop_ok[OF assms(1)] by blast
  then have "ext2_read_dir D info h s = done_with (sts, info', h')" using assms(2,3) by (simp add: ext2_read_dir_def)
  then show ?thesis using r(2-4) next_dir_keeps[of h' s]
    by (cases es) (auto simp: ext2_read_dir_next_def split_def)
qed

text \<open>The search.\<close>

lemma search_dir_ok:
  assumes "listing D ino s h es" "get_inode D (inode_index h) s = Inr (Some ino)" "ext2_mode h AND MODE_DIR \<noteq> 0"
  shows "\<exists>info' h'. search_dir D name info h s = done_with (map_of es name \<noteq> None, info', h') \<and> inode_index h' = inode_index h \<and> ext2_mode h' = ext2_mode h
    \<and> (\<forall>i. map_of es name = Some i \<longrightarrow> inode_num info' = i)"
  using assms
proof (induction es arbitrary: h info rule: list.induct)
  case Nil
  then show ?case using read_dir_next_ok[OF Nil.prems, of info] by (auto simp: search_dir.simps[of D name info])
next
  case (Cons e es)
  obtain nm i where e: "e = (nm, i)" by force
  obtain info' h' where r: "ext2_read_dir_next D info h s = done_with (FILE_OK, info', h')" "inode_index h' = inode_index h" "ext2_mode h' = ext2_mode h"
    "cname info' = nm" "inode_num info' = i" "listing D ino s h' es"
    using read_dir_next_ok[OF Cons.prems, of info] e by auto
  show ?case
  proof (cases "nm = name")
    case True
    then show ?thesis using r e by (simp add: search_dir.simps[of D name info])
  next
    case False
    then show ?thesis using r e Cons.prems(2,3) Cons.IH[OF r(6), of info'] by (simp add: search_dir.simps[of D name info])
  qed
qed

subsection \<open>Paths\<close>

definition dir_of :: "'d disk_ops \<Rightarrow> 'd ext2_t \<Rightarrow> u64 \<Rightarrow> (bytes \<times> u64) list \<Rightarrow> bool" where
  "dir_of D s i es \<longleftrightarrow> (\<exists>ino. get_inode D i s = Inr (Some ino) \<and> i_mode ino AND S_IFDIR \<noteq> 0
     \<and> (\<forall>h. inode_index h = i \<and> seek h = 0 \<and> seek_block h = 0 \<longrightarrow> listing D ino s h es))"

text \<open>Following names from a directory as far as they exist: the names that are left, and where they are missing.\<close>

inductive walk :: "'d disk_ops \<Rightarrow> 'd ext2_t \<Rightarrow> u64 \<Rightarrow> bytes list \<Rightarrow> bytes list \<Rightarrow> u64 \<Rightarrow> bool" for D s where
  walk_nil: "walk D s i [] [] i"
| walk_file: "get_inode D i s = Inr (Some ino) \<Longrightarrow> i_mode ino AND S_IFDIR = 0 \<Longrightarrow> walk D s i (c # cs) (c # cs) i"
| walk_miss: "dir_of D s i es \<Longrightarrow> map_of es c = None \<Longrightarrow> walk D s i (c # cs) (c # cs) i"
| walk_step: "dir_of D s i es \<Longrightarrow> map_of es c = Some j \<Longrightarrow> walk D s j cs cs' k \<Longrightarrow> walk D s i (c # cs) cs' k"

fun joinp :: "bytes list \<Rightarrow> bytes" where
  "joinp [] = []"
| "joinp [c] = c"
| "joinp (c # cs) = c @ SLASH # joinp cs"

definition names_ok :: "bytes list \<Rightarrow> bool" where
  "names_ok cs \<longleftrightarrow> (\<forall>c \<in> set cs. c \<noteq> [] \<and> SLASH \<notin> set c)"

lemma joinp_split:
  assumes "names_ok (c # cs)"
  shows "joinp (c # cs) \<noteq> []" "takeWhile (\<lambda>x. x \<noteq> SLASH) (joinp (c # cs)) = c"
    "(let q = drop (length c) (joinp (c # cs)) in if q \<noteq> [] then tl q else q) = joinp cs"
proof -
  have c: "c \<noteq> []" "\<forall>x \<in> set c. x \<noteq> SLASH" using assms by (auto simp: names_ok_def)
  then show "joinp (c # cs) \<noteq> []" "takeWhile (\<lambda>x. x \<noteq> SLASH) (joinp (c # cs)) = c"
    "(let q = drop (length c) (joinp (c # cs)) in if q \<noteq> [] then tl q else q) = joinp cs"
    by (cases cs; simp add: takeWhile_append2 takeWhile_eq_all_conv[THEN iffD2])+
qed

lemma dir_mode: "((m :: u8) OR MODE_DIR) AND MODE_DIR \<noteq> 0" "(m AND NOT MODE_DIR) AND MODE_DIR = 0"
proof -
  have "bit ((m OR MODE_DIR) AND MODE_DIR) 0" by (simp add: MODE_DIR_def bit_simps)
  then show "(m OR MODE_DIR) AND MODE_DIR \<noteq> 0" by force
  show "(m AND NOT MODE_DIR) AND MODE_DIR = 0" by (rule bit_word_eqI) (auto simp: bit_simps)
qed

lemma open_dir_of:
  assumes "dir_of D s (inode_index h) es"
  shows "\<exists>h'. ext2_open_dir D h s = Inr (FILE_OK, h') \<and> inode_index h' = inode_index h
    \<and> (\<exists>info' h2. search_dir D c info h' s = done_with (map_of es c \<noteq> None, info', h2) \<and> inode_index h2 = inode_index h
        \<and> (\<forall>i. map_of es c = Some i \<longrightarrow> inode_num info' = i))"
proof -
  obtain ino where g: "get_inode D (inode_index h) s = Inr (Some ino)" "i_mode ino AND S_IFDIR \<noteq> 0"
    "\<forall>h'. inode_index h' = inode_index h \<and> seek h' = 0 \<and> seek_block h' = 0 \<longrightarrow> listing D ino s h' es" using assms by (auto simp: dir_of_def)
  let ?h = "h\<lparr>seek := 0, seek_block := 0, ext2_mode := ext2_mode h OR MODE_DIR\<rparr>"
  have o: "ext2_open_dir D h s = Inr (FILE_OK, ?h)" using g(1,2) by (simp add: ext2_open_dir_def ext2_stat_def)
  have "listing D ino s ?h es" using g(3) by simp
  from search_dir_ok[OF this, of c info] show ?thesis using g(1) o dir_mode(1)[of "ext2_mode h"] by simp blast
qed

lemma reduce_loop_ok:
  assumes "walk D s i cs cs' k" "names_ok cs" "inode_index h = i"
  shows "\<exists>h'. reduce_loop D (joinp cs) info h s = done_with (joinp cs', h') \<and> inode_index h' = k"
  using assms
proof (induction arbitrary: h info)
  case (walk_nil i)
  then show ?case by (simp add: reduce_loop.simps)
next
  case (walk_file i ino c cs)
  then show ?case using joinp_split(1)[OF walk_file.prems(1)]
    by (simp add: reduce_loop.simps[of D "joinp (c # cs)"] ext2_open_dir_def ext2_stat_def)
next
  case (walk_miss i es c cs)
  note j = joinp_split[OF walk_miss.prems(1)]
  obtain h' info' h2 where "ext2_open_dir D h s = Inr (FILE_OK, h')" "search_dir D c info h' s = done_with (False, info', h2)" "inode_index h2 = i"
    using open_dir_of[of D s h es c info] walk_miss.hyps walk_miss.prems(2) by auto
  then show ?case using j by (simp add: reduce_loop.simps[of D "joinp (c # cs)"])
next
  case (walk_step i es c j cs cs' k)
  note jp = joinp_split[OF walk_step.prems(1)]
  have "dir_of D s (inode_index h) es" using walk_step.hyps(1) walk_step.prems(2) by simp
  from open_dir_of[OF this, of c info] obtain h' info' h2 where o: "ext2_open_dir D h s = Inr (FILE_OK, h')"
    "search_dir D c info h' s = done_with (map_of es c \<noteq> None, info', h2)" "\<forall>i. map_of es c = Some i \<longrightarrow> inode_num info' = i" by (elim exE conjE) (rule that)
  have "names_ok cs" using walk_step.prems(1) by (simp add: names_ok_def)
  moreover have "reduce_loop D (joinp (c # cs)) info h s = reduce_loop D (joinp cs) info' ((ext2_reset_dir h2)\<lparr>inode_index := j\<rparr>) s"
    unfolding reduce_loop.simps[of D "joinp (c # cs)"] jp(2) jp(3)[unfolded Let_def] Let_def o(1) using o(2,3) jp(1) walk_step.hyps(2) by simp
  ultimately show ?case using walk_step.IH[of "(ext2_reset_dir h2)\<lparr>inode_index := j\<rparr>" info'] by simp
qed

lemma reduce_path_ok:
  assumes "walk D s EXT2_ROOT_INO cs cs' k" "names_ok cs"
  shows "\<exists>h'. reduce_path D h0 info0 (joinp cs) s = done_with (joinp cs', h') \<and> inode_index h' = k \<and> seek h' = 0 \<and> seek_block h' = 0
    \<and> ext2_mode h' AND MODE_DIR = 0"
proof -
  obtain h' where "reduce_loop D (joinp cs) info0 (h0\<lparr>inode_index := EXT2_ROOT_INO, ext2_mode := 0\<rparr>) s = done_with (joinp cs', h')" "inode_index h' = k"
    using reduce_loop_ok[OF assms, of "h0\<lparr>inode_index := EXT2_ROOT_INO, ext2_mode := 0\<rparr>" info0] by auto
  then show ?thesis using dir_mode(2)[of "ext2_mode h'"] by (simp add: reduce_path_def ext2_reset_dir_def)
qed

lemma walk_rest: "walk D s i cs cs' k \<Longrightarrow> names_ok cs \<Longrightarrow> names_ok cs' \<and> (joinp cs' = [] \<longleftrightarrow> cs' = [])"
proof (induction rule: walk.induct)
  case (walk_step i es c j cs cs' k)
  have "names_ok cs" using walk_step.prems by (simp add: names_ok_def)
  then show ?case by (rule walk_step.IH)
qed (use joinp_split(1) in auto)

end
