(* ===== verification/Ext2Open.thy ===== *)
theory Ext2Open
  imports Ext2Dir Ext2Spec
begin

section \<open>The ext2 driver: opening by path\<close>

text \<open>
  Opening a path returns a handle on the inode the names lead to.  When the last name is missing and a file is to be created, the driver
  resolves what is left of the path from the root directory again.  The sample disk has a root directory with one empty directory in it.
\<close>

subsection \<open>A sample directory\<close>

definition dir_table :: bytes where
  "dir_table = put16 128 0x4000 (put32 132 2048 (put32 168 5 (put16 256 0x4000 (replicate 2048 0))))"

definition dir_block :: bytes where
  "dir_block = overlay 6 [1, 2, 97] (put16 4 2048 (put32 0 3 (replicate 2048 0)))"

definition dir_disk :: "unit disk_ops" where
  "dir_disk = \<lparr>disk_read = (\<lambda>l n d. Some (if l = 16 then dir_table else if l = 20 then dir_block else replicate 2048 0)),
     disk_write = (\<lambda>l n buf d. (True, ()))\<rparr>"

definition dir_fs :: "unit ext2_t" where
  "dir_fs = \<lparr>start_lba = 0, end_lba = 512, superblock = sample_superblock, bgdt = sample_bgdt, disk = (), block_size = 2048, devid = 0, lock = False\<rparr>"

lemma field_slice: "k + 2 \<le> n \<Longrightarrow> field16 (take n (drop off b)) k = field16 b (off + k)"
  "k + 4 \<le> n \<Longrightarrow> field32 (take n (drop off b)) k = field32 b (off + k)"
  by (simp_all add: field16_def field32_def drop_take min_def add.commute)

lemma field_zeros: "field16 (replicate n 0) off = 0" "field32 (replicate n 0) off = 0"
  using le_nat_zeros by (simp_all add: field16_def field32_def)

definition dir_ino :: "nat \<Rightarrow> bytes" where "dir_ino k = take 128 (drop (128 * (k - 1)) dir_table)"

lemma dir_read: "read_block dir_disk b dir_fs = (if 512 < b * 2048 div 512 then None
    else Some (if b * 2048 div 512 = 16 then dir_table else if b * 2048 div 512 = 20 then dir_block else replicate 2048 0))"
  by (auto simp: read_block_def block_lba_def dir_disk_def dir_fs_def)

lemma dir_inode: "k = 2 \<or> k = 3 \<Longrightarrow> get_inode dir_disk (of_nat k) dir_fs = Inr (Some (dir_ino k))"
proof -
  assume k: "k = 2 \<or> k = 3"
  then have "inode_place (of_nat k) dir_fs = Inr (4, 128 * (k - 1))"
    by (auto simp: inode_place_def dir_fs_def sample_fields bg_off_def SIZEOF_BG_DESC_def)
  moreover have "length dir_table = 2048" by (simp add: dir_table_def)
  ultimately show ?thesis using k by (auto simp: get_inode_def dir_read dir_ino_def SIZEOF_INODE_def)
qed

lemma dir_ino_fields: "i_mode (dir_ino 2) = 0x4000" "i_mode (dir_ino 3) = 0x4000" "inode_size (dir_ino 2) = 2048" "inode_size (dir_ino 3) = 0" "i_block (dir_ino 2) 0 = 5"
  by (simp_all add: i_mode_def inode_size_def i_size_def i_dir_acl_def i_block_def dir_ino_def field_slice dir_table_def field_zeros)

lemma dir_entry_fields: "length dir_block = 2048" "entry_inode dir_block 0 = 3" "entry_rec_len dir_block 0 = 2048" "entry_name_len dir_block 0 = 1" "entry_name dir_block 0 = [97]"
proof -
  let ?b = "put16 4 2048 (put32 0 3 (replicate 2048 0)) :: bytes"
  have l: "length ?b = 2048" by simp
  show ll: "length dir_block = 2048" unfolding dir_block_def by simp
  show "entry_inode dir_block 0 = 3" "entry_rec_len dir_block 0 = 2048"
  proof -
    have "field32 dir_block 0 = field32 ?b 0" unfolding dir_block_def by (intro field_cong overlay_other) simp_all
    then show "entry_inode dir_block 0 = 3" by (simp add: entry_inode_def)
    have "field16 dir_block 4 = field16 ?b 4" unfolding dir_block_def by (intro field_cong overlay_other) simp_all
    then show "entry_rec_len dir_block 0 = 2048" by (simp add: entry_rec_len_def)
  qed
  have n: "dir_block ! 6 = 1" "dir_block ! 8 = 97" unfolding dir_block_def by (simp_all add: nth_overlay)
  then show nl: "entry_name_len dir_block 0 = 1" by (simp add: entry_name_len_def)
  show "entry_name dir_block 0 = [97]" using n(2) ll by (simp add: entry_name_def nl take_Suc hd_drop_conv_nth)
qed

lemma dir_root: "dir_of dir_disk dir_fs EXT2_ROOT_INO [([97], 3)]"
proof -
  have "listing dir_disk (dir_ino 2) dir_fs h [([97], 3)]" if h: "seek h = 0" "seek_block h = 0" for h
  proof -
    have sel: "block_size dir_fs = 2048" by (simp add: dir_fs_def)
    have sk: "ext2_get_seek h dir_fs = 0" using h by (simp add: ext2_get_seek_def)
    have gb: "get_block dir_disk (dir_ino 2) (seek_block h) dir_fs = Inr (BLOCK_OK, 5)"
      using h by (simp add: get_block_def block_path_def DIRECT_BLOCKS_def sel dir_ino_fields)
    have n: "next_entry dir_block h dir_fs = h\<lparr>next_seek := 2048, seek := 0, seek_block := 1\<rparr>"
      using h by (simp add: next_entry_def ext2_next_dir_def dir_entry_fields sel)
    have e: "listing dir_disk (dir_ino 2) dir_fs (next_entry dir_block h dir_fs) []"
      unfolding n by (rule listing.at_end) (simp add: dir_ino_fields ext2_get_seek_def sel)
    have "takeWhile (\<lambda>c. c \<noteq> 0) (entry_name dir_block (unat (seek h))) = [97]" "ucast (entry_inode dir_block (unat (seek h))) = (3 :: u64)"
      using h by (simp_all add: dir_entry_fields)
    moreover have "listing dir_disk (dir_ino 2) dir_fs h ((takeWhile (\<lambda>c. c \<noteq> 0) (entry_name dir_block (unat (seek h))), ucast (entry_inode dir_block (unat (seek h)))) # [])"
      by (rule listing.used[OF _ gb _ _ _ e]) (simp_all add: sk dir_ino_fields dir_read dir_entry_fields h)
    ultimately show ?thesis by simp
  qed
  then show ?thesis using dir_inode[of 2] by (auto simp: dir_of_def EXT2_ROOT_INO_def dir_ino_fields S_IFDIR_def)
qed

lemma dir_sub: "dir_of dir_disk dir_fs 3 []"
proof -
  have "listing dir_disk (dir_ino 3) dir_fs h []" for h by (rule listing.at_end) (simp add: dir_ino_fields)
  then show ?thesis using dir_inode[of 3] by (auto simp: dir_of_def dir_ino_fields S_IFDIR_def)
qed

lemma dir_walks: "walk dir_disk dir_fs EXT2_ROOT_INO [[97], [102]] [[102]] 3" "walk dir_disk dir_fs EXT2_ROOT_INO [[102]] [[102]] EXT2_ROOT_INO"
  by (rule walk.walk_step[OF dir_root _ walk.walk_miss[OF dir_sub]] walk.walk_miss[OF dir_root]; simp)+

subsection \<open>Properties\<close>



text \<open>C34 A file that is to be created in a directory is created in the root directory: when the last name of a path does not exist in its directory, and not
  in the root either, opening the path with \<^verbatim>\<open>O_CREAT\<close> does exactly what opening the bare name does.\<close>

theorem ext2_open_creates_in_root:
  assumes "walk D s EXT2_ROOT_INO cs [f] k" "walk D s EXT2_ROOT_INO [f] [f] EXT2_ROOT_INO" "names_ok cs" "flags AND O_CREAT \<noteq> 0"
  shows "ext2_open D h0 info0 (joinp cs) flags s = ext2_open D h0 info0 f flags s"
proof -
  have f: "names_ok [f]" "f \<noteq> []" using walk_rest[OF assms(1,3)] by (auto simp: names_ok_def)
  obtain h h' where "reduce_path D h0 info0 (joinp cs) s = done_with (joinp [f], h)" "reduce_path D h0 info0 (joinp [f]) s = done_with (joinp [f], h')"
    using reduce_path_ok[OF assms(1,3)] reduce_path_ok[OF assms(2) f(1)] by blast
  then show ?thesis using f(2) by (simp add: ext2_open.simps[of D h0 info0 "joinp cs"] ext2_open.simps[of D h0 info0 f])
qed

theorem ext2_open_creates_in_root_witness:
  "\<forall>h0 info0. ext2_open dir_disk h0 info0 [97, 47, 102] O_CREAT dir_fs = ext2_open dir_disk h0 info0 [102] O_CREAT dir_fs"
  using ext2_open_creates_in_root[OF dir_walks, of O_CREAT] by (simp add: names_ok_def SLASH_def O_CREAT_def)

end
