(* ===== verification/Elf.thy ===== *)
theory Elf
  imports ByteFields Paging Process
begin

section \<open>The ELF loader (kernel/core/elf.c)\<close>

text \<open>
  The file is an argument: the two functions of the file layer the loader uses, on a state of that layer.  While an image is loaded the processor
  runs on the new page tables, so memory is written through them: \<open>lmem\<close> is the byte at a virtual address of the new address space, and a store
  to an address that does not translate is \<open>Inl Undefined\<close> (pages of the image get frames of their own, so no two addresses name one
  byte).  A header buffer that a short read leaves partly unwritten keeps what it held.  The argument strings are byte lists without their
  terminators; \<^verbatim>\<open>kmalloc\<close> does not fail.
\<close>

definition SIZEOF_EHDR :: nat where "SIZEOF_EHDR = 64"
definition SIZEOF_PHDR :: nat where "SIZEOF_PHDR = 56"
definition EI_CLASS :: nat where "EI_CLASS = 4"
definition EI_DATA :: nat where "EI_DATA = 5"
definition ELFCLASS64 :: u8 where "ELFCLASS64 = 2"
definition ELFDATA2LSB :: u8 where "ELFDATA2LSB = 1"
definition ET_EXEC :: u16 where "ET_EXEC = 2"
definition EM_X86_64 :: u16 where "EM_X86_64 = 62"
definition PT_LOAD :: u32 where "PT_LOAD = 1"
definition PF_X :: u32 where "PF_X = 1"
definition PF_W :: u32 where "PF_W = 2"
definition INIT_USERLAND_RSP :: u64 where "INIT_USERLAND_RSP = 0x800000000000"
definition INIT_USERLAND_SB :: u64 where "INIT_USERLAND_SB = 0x7FFFFF800000"
definition USER_STACK_SIZE :: u64 where "USER_STACK_SIZE = 0x8000"
definition elf_magic :: bytes where "elf_magic = [0x7F, 0x45, 0x4C, 0x46]"

text \<open>Members of \<^verbatim>\<open>Elf64_Ehdr\<close> and \<^verbatim>\<open>Elf64_Phdr\<close>.\<close>

definition e_type :: "bytes \<Rightarrow> u16" where "e_type eh = field16 eh 16"
definition e_machine :: "bytes \<Rightarrow> u16" where "e_machine eh = field16 eh 18"
definition e_entry :: "bytes \<Rightarrow> u64" where "e_entry eh = field64 eh 24"
definition e_phoff :: "bytes \<Rightarrow> u64" where "e_phoff eh = field64 eh 32"
definition e_phentsize :: "bytes \<Rightarrow> u16" where "e_phentsize eh = field16 eh 54"
definition e_phnum :: "bytes \<Rightarrow> u16" where "e_phnum eh = field16 eh 56"
definition p_type :: "bytes \<Rightarrow> u32" where "p_type ph = field32 ph 0"
definition p_flags :: "bytes \<Rightarrow> u32" where "p_flags ph = field32 ph 4"
definition p_offset :: "bytes \<Rightarrow> u64" where "p_offset ph = field64 ph 8"
definition p_vaddr :: "bytes \<Rightarrow> u64" where "p_vaddr ph = field64 ph 16"
definition p_filesz :: "bytes \<Rightarrow> u64" where "p_filesz ph = field64 ph 32"
definition p_memsz :: "bytes \<Rightarrow> u64" where "p_memsz ph = field64 ph 40"

record 'f file_ops =
  f_seek :: "u64 \<Rightarrow> 'f \<Rightarrow> bool \<times> 'f"
  f_read :: "u64 \<Rightarrow> 'f \<Rightarrow> bytes \<times> 'f"

record mem_reg_t =
  reg_base :: u64
  reg_top :: u64
  reg_perms :: u64

record 'f load_state =
  lvm :: vm
  lfile :: 'f
  lmem :: "u64 \<Rightarrow> u8"

subsection \<open>Headers\<close>

definition check_valid :: "'f file_ops \<Rightarrow> 'f \<Rightarrow> bytes option \<times> 'f" where
  "check_valid F f =
     (let (ok, f1) = f_seek F 0 f
      in if \<not> ok then (None, f1)
         else let (eh, f2) = f_read F (of_nat SIZEOF_EHDR) f1
              in if length eh \<noteq> SIZEOF_EHDR \<or> take 4 eh \<noteq> elf_magic \<or> eh ! EI_CLASS \<noteq> ELFCLASS64 \<or> eh ! EI_DATA \<noteq> ELFDATA2LSB
                    \<or> e_type eh \<noteq> ET_EXEC \<or> e_machine eh \<noteq> EM_X86_64
                 then (None, f2) else (Some eh, f2))"

text \<open>The result is 0 for an executable.\<close>

definition elf_is_elf :: "'f file_ops \<Rightarrow> 'f \<Rightarrow> u8 \<times> 'f" where
  "elf_is_elf F f = (let (r, f1) = check_valid F f in (if r = None then 1 else 0, f1))"

definition read_phdr :: "'f file_ops \<Rightarrow> u64 \<Rightarrow> bytes \<Rightarrow> 'f \<Rightarrow> bytes \<times> 'f" where
  "read_phdr F off ph f =
     (let (_, f1) = f_seek F off f; (bs, f2) = f_read F (of_nat SIZEOF_PHDR) f1 in (overlay 0 bs ph, f2))"

definition segment_flags :: "bytes \<Rightarrow> u64" where
  "segment_flags ph =
     PAGE_PRESENT OR PAGE_US OR (if p_flags ph AND PF_W \<noteq> 0 then PAGE_RW else 0) OR (if p_flags ph AND PF_X = 0 then PAGE_XD else 0)"

definition segment_region :: "bytes \<Rightarrow> mem_reg_t" where
  "segment_region ph =
     (let base = p_vaddr ph; top = p_vaddr ph + p_memsz ph
      in \<lparr>reg_base = base - base mod PAGE_SIZE_4K,
          reg_top = (if top mod PAGE_SIZE_4K \<noteq> 0 then top + (PAGE_SIZE_4K - top mod PAGE_SIZE_4K) else top),
          reg_perms = segment_flags ph\<rparr>)"

fun insert_reg :: "mem_reg_t \<Rightarrow> mem_reg_t list \<Rightarrow> mem_reg_t list" where
  "insert_reg r [] = [r]"
| "insert_reg r (j # js) = (if reg_base r < reg_base j then r # j # js else j # insert_reg r js)"

text \<open>The first pass over \<open>n\<close> headers; no list when the image is refused.\<close>

fun scan_headers :: "'f file_ops \<Rightarrow> bytes \<Rightarrow> nat \<Rightarrow> u64 \<Rightarrow> bytes \<Rightarrow> mem_reg_t list \<Rightarrow> 'f \<Rightarrow> mem_reg_t list option \<times> bytes \<times> 'f" where
  "scan_headers F eh 0 ph_off ph rs f = (Some rs, ph, f)"
| "scan_headers F eh (Suc n) ph_off ph rs f =
     (let (ph1, f1) = read_phdr F ph_off ph f; off1 = ph_off + ucast (e_phentsize eh)
      in if p_type ph1 \<noteq> PT_LOAD then scan_headers F eh n off1 ph1 rs f1
         else if INIT_USERLAND_SB \<le> p_vaddr ph1 + p_memsz ph1 then (None, ph1, f1)
         else scan_headers F eh n off1 ph1 (insert_reg (segment_region ph1) rs) f1)"

text \<open>The loop that merges overlapping regions; none when permissions differ.  After a merge it goes on behind the merged region.\<close>

fun merge_regs :: "mem_reg_t list \<Rightarrow> mem_reg_t list option" where
  "merge_regs (j # k # js) =
     (if reg_base k < reg_top j
      then if reg_perms j \<noteq> reg_perms k then None
           else map_option ((#) (j\<lparr>reg_top := if reg_top k < reg_top j then reg_top j else reg_top k\<rparr>)) (merge_regs js)
      else map_option ((#) j) (merge_regs (k # js)))"
| "merge_regs js = Some js"

subsection \<open>Pages\<close>

text \<open>Offsets \<open>0, 4096, \<dots>\<close> below a length.\<close>

definition page_offsets :: "u64 \<Rightarrow> u64 list" where
  "page_offsets len = map (\<lambda>i. of_nat i * PAGE_SIZE_4K) [0 ..< (unat len + 4095) div 4096]"

fun map_pages :: "u64 \<Rightarrow> u64 \<Rightarrow> u64 list \<Rightarrow> vm \<Rightarrow> vm option" where
  "map_pages flg pml4 [] s = Some s"
| "map_pages flg pml4 (va # vas) s =
     (let (paddr, m1) = mm_alloc_p PAGE_SIZE_4K (vmm s)
      in if paddr = 0 then None
         else map_pages flg pml4 vas (snd (paging_map_proc va paddr flg PAGE_4K pml4 (s\<lparr>vmm := m1\<rparr>))))"

definition region_pages :: "mem_reg_t \<Rightarrow> u64 list" where
  "region_pages r = map ((+) (reg_base r)) (page_offsets (reg_top r - reg_base r))"

definition memtop_of :: "mem_reg_t list \<Rightarrow> u64" where
  "memtop_of rs = fold (\<lambda>r m. if m < reg_top r then reg_top r else m) rs 0"

definition user_store :: "u64 \<Rightarrow> u64 \<Rightarrow> bytes \<Rightarrow> 'f load_state \<Rightarrow> 'f load_state outcome" where
  "user_store pml4 a bs st =
     (if list_all (\<lambda>i. translate pml4 (pmem (lvm st)) (a + of_nat i) \<noteq> None) [0 ..< length bs]
      then Inr (st\<lparr>lmem := (\<lambda>x. if unat (x - a) < length bs then bs ! unat (x - a) else lmem st x)\<rparr>)
      else Inl Undefined)"

text \<open>The program headers in the image, the stack, and the segments.\<close>

fun copy_headers :: "'f file_ops \<Rightarrow> u64 \<Rightarrow> bytes \<Rightarrow> u64 \<Rightarrow> nat \<Rightarrow> u64 \<Rightarrow> 'f load_state \<Rightarrow> 'f load_state outcome" where
  "copy_headers F pml4 eh pheaders_base 0 ph_off st = Inr st"
| "copy_headers F pml4 eh pheaders_base (Suc n) ph_off st =
     (let (_, f1) = f_seek F (ph_off + e_phoff eh) (lfile st); (bs, f2) = f_read F (of_nat SIZEOF_PHDR) f1
      in case user_store pml4 (pheaders_base + ph_off) bs (st\<lparr>lfile := f2\<rparr>) of
           Inl e \<Rightarrow> Inl e
         | Inr st1 \<Rightarrow> copy_headers F pml4 eh pheaders_base n (ph_off + ucast (e_phentsize eh)) st1)"

fun map_user_stack :: "u64 \<Rightarrow> u64 list \<Rightarrow> 'f load_state \<Rightarrow> 'f load_state outcome" where
  "map_user_stack pml4 [] st = Inr st"
| "map_user_stack pml4 (va # vas) st =
     (case map_pages (PAGE_PRESENT OR PAGE_RW OR PAGE_US OR PAGE_XD) pml4 [va] (lvm st) of
        None \<Rightarrow> Inl Undefined
      | Some s1 \<Rightarrow>
          (case user_store pml4 va (replicate 4096 0) (st\<lparr>lvm := s1\<rparr>) of
             Inl e \<Rightarrow> Inl e
           | Inr st1 \<Rightarrow> map_user_stack pml4 vas st1))"

definition copy_segment :: "'f file_ops \<Rightarrow> u64 \<Rightarrow> bytes \<Rightarrow> 'f load_state \<Rightarrow> 'f load_state outcome" where
  "copy_segment F pml4 ph st =
     (let (_, f1) = f_seek F (p_offset ph) (lfile st); (bs, f2) = f_read F (p_filesz ph) f1
      in case user_store pml4 (p_vaddr ph) bs (st\<lparr>lfile := f2\<rparr>) of
           Inl e \<Rightarrow> Inl e
         | Inr st1 \<Rightarrow> user_store pml4 (p_vaddr ph + p_filesz ph) (replicate (unat (p_memsz ph - p_filesz ph)) 0) st1)"

fun copy_segments :: "'f file_ops \<Rightarrow> u64 \<Rightarrow> bytes \<Rightarrow> nat \<Rightarrow> u64 \<Rightarrow> bytes \<Rightarrow> 'f load_state \<Rightarrow> 'f load_state outcome" where
  "copy_segments F pml4 eh 0 ph_off ph st = Inr st"
| "copy_segments F pml4 eh (Suc n) ph_off ph st =
     (let (ph1, f1) = read_phdr F ph_off ph (lfile st); off1 = ph_off + ucast (e_phentsize eh)
      in if p_type ph1 \<noteq> PT_LOAD then copy_segments F pml4 eh n off1 ph1 (st\<lparr>lfile := f1\<rparr>)
         else case copy_segment F pml4 ph1 (st\<lparr>lfile := f1\<rparr>) of
                Inl e \<Rightarrow> Inl e
              | Inr st1 \<Rightarrow> copy_segments F pml4 eh n off1 ph1 st1)"

definition update_perms :: "u64 \<Rightarrow> mem_reg_t list \<Rightarrow> vm \<Rightarrow> vm" where
  "update_perms pml4 = fold (\<lambda>r. fold (\<lambda>va s. snd (paging_update_perms va (reg_perms r) PAGE_4K pml4 s)) (region_pages r))"

subsection \<open>The initial stack\<close>

definition SIZEOF_AUXV :: nat where "SIZEOF_AUXV = 16"

definition default_auxv :: "(u32 \<times> u64) list" where
  "default_auxv = [(3, 0), (4, 0), (5, 0), (6, PAGE_SIZE_4K), (11, 0), (12, 0), (13, 0), (14, 0), (23, 0), (25, 0), (17, 100), (0, 0)]"

definition AT_INDEX_PHDR :: nat where "AT_INDEX_PHDR = 0"
definition AT_INDEX_PHENT :: nat where "AT_INDEX_PHENT = 1"
definition AT_INDEX_PHNUM :: nat where "AT_INDEX_PHNUM = 2"
definition AT_INDEX_RANDOM :: nat where "AT_INDEX_RANDOM = 9"

definition auxv_bytes :: "(u32 \<times> u64) list \<Rightarrow> bytes" where
  "auxv_bytes av = concat (map (\<lambda>(ty, v). le_bytes 4 (unat ty) @ [0, 0, 0, 0] @ le_bytes 8 (unat v)) av)"

definition store_word :: "u64 \<Rightarrow> u64 \<Rightarrow> u64 \<Rightarrow> 'f load_state \<Rightarrow> 'f load_state outcome" where
  "store_word pml4 a v st = user_store pml4 a (le_bytes 8 (unat v)) st"

text \<open>A list of stores, in order.\<close>

fun store_words :: "u64 \<Rightarrow> (u64 \<times> u64) list \<Rightarrow> 'f load_state \<Rightarrow> 'f load_state outcome" where
  "store_words pml4 [] st = Inr st"
| "store_words pml4 ((a, v) # ws) st = (case store_word pml4 a v st of Inl e \<Rightarrow> Inl e | Inr st1 \<Rightarrow> store_words pml4 ws st1)"

text \<open>The strings, last first: the text at \<^verbatim>\<open>data_char\<close>, the pointer to it below \<^verbatim>\<open>stack_builder\<close>.\<close>

fun push_strings :: "u64 \<Rightarrow> bytes list \<Rightarrow> u64 \<Rightarrow> u64 \<Rightarrow> 'f load_state \<Rightarrow> (u64 \<times> u64 \<times> 'f load_state) outcome" where
  "push_strings pml4 [] data_char sp st = Inr (data_char, sp, st)"
| "push_strings pml4 (str # strs) data_char sp st =
     (case user_store pml4 data_char (str @ [0]) st of
        Inl e \<Rightarrow> Inl e
      | Inr st1 \<Rightarrow>
          (case store_word pml4 (sp - 8) data_char st1 of
             Inl e \<Rightarrow> Inl e
           | Inr st2 \<Rightarrow> push_strings pml4 strs (data_char + of_nat (length str) + 1) (sp - 8) st2))"

definition strings_len :: "bytes list \<Rightarrow> nat" where
  "strings_len strs = sum_list (map (\<lambda>s. length s + 1) strs)"

definition env_address :: "bytes list \<Rightarrow> bytes list \<Rightarrow> u64" where
  "env_address argv envp =
     (let invoke_addr = INIT_USERLAND_RSP - of_nat (strings_len argv);
          env_addr = invoke_addr - of_nat (strings_len envp);
          env_addr1 = env_addr - env_addr mod 16
      in if (length argv + length envp) mod 2 = 0 then env_addr1 - 8 else env_addr1)"

text \<open>\<open>t1\<close> and \<open>t2\<close> are the two readings of the clock.\<close>

definition build_stack :: "u64 \<Rightarrow> bytes \<Rightarrow> u64 \<Rightarrow> u64 \<Rightarrow> u64 \<Rightarrow> bytes list \<Rightarrow> bytes list \<Rightarrow> 'f load_state \<Rightarrow> (u64 \<times> 'f load_state) outcome" where
  "build_stack pml4 eh pheaders_base t1 t2 argv envp st =
     (let env_addr = env_address argv envp;
          random_addr = env_addr - 16;
          auxv_addr = random_addr - of_nat (SIZEOF_AUXV * length default_auxv);
          val = (\<lambda>i. auxv_addr + of_nat (SIZEOF_AUXV * i + 8))
      in case user_store pml4 auxv_addr (auxv_bytes default_auxv) st of Inl e \<Rightarrow> Inl e
         | Inr st1 \<Rightarrow>
             (case store_words pml4
                     [(random_addr, t1), (random_addr + 8, t2 XOR of_nat (strings_len argv) * of_nat (strings_len envp)),
                      (val AT_INDEX_PHDR, pheaders_base), (val AT_INDEX_PHENT, ucast (e_phentsize eh)),
                      (val AT_INDEX_PHNUM, ucast (e_phnum eh)), (val AT_INDEX_RANDOM, random_addr),
                      (auxv_addr - 8, 0)] st1 of Inl e \<Rightarrow> Inl e
              | Inr st2 \<Rightarrow>
                  (case push_strings pml4 (rev envp) env_addr (auxv_addr - 8) st2 of Inl e \<Rightarrow> Inl e
                   | Inr (data1, sp1, st3) \<Rightarrow>
                       (case store_word pml4 (sp1 - 8) 0 st3 of Inl e \<Rightarrow> Inl e
                        | Inr st4 \<Rightarrow>
                            (case push_strings pml4 (rev argv) data1 (sp1 - 8) st4 of Inl e \<Rightarrow> Inl e
                             | Inr (data2, sp2, st5) \<Rightarrow>
                                 (case store_word pml4 (sp2 - 8) (of_nat (length argv)) st5 of Inl e \<Rightarrow> Inl e
                                  | Inr st6 \<Rightarrow> Inr (sp2 - 8, st6)))))))"

subsection \<open>Loading\<close>

text \<open>Running out of pages leads to \<^verbatim>\<open>restore_cr3\<close> with a pointer that was never set, which is undefined; so is a signed product of the header sizes that
  overflows.  \<open>ph0\<close> is what the header buffer on the stack held.\<close>

definition load_image :: "'f file_ops \<Rightarrow> bytes \<Rightarrow> bytes \<Rightarrow> u64 \<Rightarrow> mem_reg_t list \<Rightarrow> 'f load_state \<Rightarrow> (u64 \<times> u64 \<times> 'f load_state) outcome" where
  "load_image F eh ph pml4 rs st =
     (case map_pages (PAGE_PRESENT OR PAGE_RW) pml4 (concat (map region_pages rs)) (lvm st) of
        None \<Rightarrow> Inl Undefined
      | Some s1 \<Rightarrow>
          let pheaders_base = memtop_of rs + PAGE_SIZE_4K;
              total = unat (e_phentsize eh) * unat (e_phnum eh);
              offs = page_offsets (of_nat total)
          in if 2 ^ 31 \<le> total then Inl Undefined
             else (case map_pages (PAGE_PRESENT OR PAGE_RW OR PAGE_US OR PAGE_XD) pml4 (map ((+) pheaders_base) offs) s1 of
                     None \<Rightarrow> Inl Undefined
                   | Some s2 \<Rightarrow>
                       (case copy_headers F pml4 eh pheaders_base (unat (e_phnum eh)) 0 (st\<lparr>lvm := s2\<rparr>) of
                          Inl e \<Rightarrow> Inl e
                        | Inr st1 \<Rightarrow>
                            (case map_user_stack pml4 (map ((+) (INIT_USERLAND_RSP - USER_STACK_SIZE)) (page_offsets USER_STACK_SIZE)) st1 of
                               Inl e \<Rightarrow> Inl e
                             | Inr st2 \<Rightarrow>
                                 (case copy_segments F pml4 eh (unat (e_phnum eh)) (e_phoff eh) ph st2 of
                                    Inl e \<Rightarrow> Inl e
                                  | Inr st3 \<Rightarrow>
                                      Inr (pheaders_base, pheaders_base + of_nat (length offs) * PAGE_SIZE_4K + PAGE_SIZE_4K,
                                           st3\<lparr>lvm := update_perms pml4 rs (lvm st3)\<rparr>))))))"

definition load_base :: "'f file_ops \<Rightarrow> u64 \<Rightarrow> u64 \<Rightarrow> nat \<Rightarrow> u64 \<Rightarrow> u64 \<Rightarrow> bytes \<Rightarrow> bytes list \<Rightarrow> bytes list \<Rightarrow> u64 \<Rightarrow> u64 \<Rightarrow> u64 \<Rightarrow> nat option
    \<Rightarrow> 'f load_state \<Rightarrow> 'v procs \<Rightarrow> (nat option \<times> 'f load_state \<times> 'v procs) outcome" where
  "load_base F kernel_pml4 syscall_return open_root t1 t2 ph0 argv envp stack_vaddr stack_paddr pid0 source st ps =
     (case check_valid F (lfile st) of
        (None, f1) \<Rightarrow> Inr (None, st\<lparr>lfile := f1\<rparr>, ps)
      | (Some eh, f1) \<Rightarrow>
          (case paging_create_pml4 kernel_pml4 (lvm st) of
             (pml4, s1) \<Rightarrow>
               if pml4 = 0 then Inr (None, st\<lparr>lfile := f1, lvm := s1\<rparr>, ps)
               else (case scan_headers F eh (unat (e_phnum eh)) (e_phoff eh) ph0 [] f1 of
                       (None, ph1, f2) \<Rightarrow> Inr (None, st\<lparr>lfile := f2, lvm := s1\<rparr>, ps)
                     | (Some rs0, ph1, f2) \<Rightarrow>
                         (case merge_regs rs0 of
                            None \<Rightarrow> Inr (None, st\<lparr>lfile := f2, lvm := s1\<rparr>, ps)
                          | Some rs \<Rightarrow>
                              (case load_image F eh ph1 pml4 rs (st\<lparr>lfile := f2, lvm := s1\<rparr>) of Inl e \<Rightarrow> Inl e
                               | Inr (pheaders_base, memtop, st1) \<Rightarrow>
                                   (case build_stack pml4 eh pheaders_base t1 t2 argv envp st1 of Inl e \<Rightarrow> Inl e
                                    | Inr (sp, st2) \<Rightarrow>
                                        (case process_create_userland_pcb syscall_return (e_entry eh) sp stack_vaddr stack_paddr pml4
                                                open_root source memtop pid0 ps of
                                           Inl e \<Rightarrow> Inl e
                                         | Inr (p, ps1) \<Rightarrow> Inr (Some p, st2, ps1))))))))"

definition elf_load :: "'f file_ops \<Rightarrow> u64 \<Rightarrow> u64 \<Rightarrow> nat \<Rightarrow> u64 \<Rightarrow> u64 \<Rightarrow> bytes \<Rightarrow> u64 \<Rightarrow> bytes list \<Rightarrow> bytes list
    \<Rightarrow> 'f load_state \<Rightarrow> 'v procs \<Rightarrow> (nat option \<times> 'f load_state \<times> 'v procs) outcome" where
  "elf_load F kernel_pml4 syscall_return open_root t1 t2 ph0 pid0 invoker env st ps =
     (case process_create_guarded_stack kernel_pml4 (lvm st) of Inl e \<Rightarrow> Inl e
      | Inr (None, s1) \<Rightarrow> Inr (None, st\<lparr>lvm := s1\<rparr>, ps)
      | Inr (Some (stack_vaddr, stack_paddr), s1) \<Rightarrow>
          load_base F kernel_pml4 syscall_return open_root t1 t2 ph0 invoker env stack_vaddr stack_paddr pid0 None (st\<lparr>lvm := s1\<rparr>) ps)"

text \<open>The arguments are copied out of the memory of the caller first, so they are values here.\<close>

definition elf_overwrite :: "'f file_ops \<Rightarrow> u64 \<Rightarrow> u64 \<Rightarrow> nat \<Rightarrow> u64 \<Rightarrow> u64 \<Rightarrow> bytes \<Rightarrow> nat \<Rightarrow> bytes list \<Rightarrow> bytes list
    \<Rightarrow> 'f load_state \<Rightarrow> 'v procs \<Rightarrow> (nat option \<times> 'f load_state \<times> 'v procs) outcome" where
  "elf_overwrite F kernel_pml4 syscall_return open_root t1 t2 ph0 current invoker env st ps =
     load_base F kernel_pml4 syscall_return open_root t1 t2 ph0 invoker env 0 0 0 (Some current) st ps"

end
