(* ===== verification/ElfStack.thy ===== *)
theory ElfStack
  imports Elf
begin

section \<open>The ELF loader: the stack a program starts with\<close>

text \<open>
  The memory of the new address space by natural addresses, and what the stores of the loader do to it.  A program finds the number of its arguments,
  pointers to the argument and environment strings with their terminators, and the auxiliary vector, at an aligned stack pointer.
\<close>

definition view :: "'f load_state \<Rightarrow> nat \<Rightarrow> u8" where
  "view st x = (if x < 2 ^ 48 then lmem st (of_nat x) else 0)"

definition mapped :: "u64 \<Rightarrow> 'f load_state \<Rightarrow> nat \<Rightarrow> nat \<Rightarrow> bool" where
  "mapped pml4 st lo hi \<longleftrightarrow> (\<forall>x. lo \<le> x \<and> x < hi \<longrightarrow> translate pml4 (pmem (lvm st)) (of_nat x) \<noteq> None)"

definition put :: "nat \<Rightarrow> bytes \<Rightarrow> (nat \<Rightarrow> u8) \<Rightarrow> nat \<Rightarrow> u8" where
  "put a bs v x = (if a \<le> x \<and> x < a + length bs then bs ! (x - a) else v x)"

definition word_at :: "(nat \<Rightarrow> u8) \<Rightarrow> nat \<Rightarrow> u64" where
  "word_at v a = of_nat (le_nat (map v [a ..< a + 8]))"

definition cstr_at :: "(nat \<Rightarrow> u8) \<Rightarrow> nat \<Rightarrow> bytes \<Rightarrow> bool" where
  "cstr_at v a s \<longleftrightarrow> map v [a ..< a + (length s + 1)] = s @ [0]"

lemma map_put_same: "map (put a bs v) [a ..< a + length bs] = bs"
  by (rule nth_equalityI) (auto simp: put_def)

lemma map_put_other: "c + n \<le> a \<or> a + length bs \<le> c \<Longrightarrow> map (put a bs v) [c ..< c + n] = map v [c ..< c + n]"
  by (auto simp: put_def)

lemma word_at_cong: "\<forall>x. a \<le> x \<and> x < a + 8 \<longrightarrow> v x = w x \<Longrightarrow> word_at v a = word_at w a"
proof -
  assume "\<forall>x. a \<le> x \<and> x < a + 8 \<longrightarrow> v x = w x"
  then have "map v [a ..< a + 8] = map w [a ..< a + 8]" by auto
  then show ?thesis by (simp only: word_at_def)
qed

lemma cstr_at_cong: "\<forall>x. a \<le> x \<and> x < a + (length s + 1) \<longrightarrow> v x = w x \<Longrightarrow> cstr_at v a s = cstr_at w a s"
proof -
  assume "\<forall>x. a \<le> x \<and> x < a + (length s + 1) \<longrightarrow> v x = w x"
  then have "map v [a ..< a + (length s + 1)] = map w [a ..< a + (length s + 1)]" by auto
  then show ?thesis by (simp only: cstr_at_def)
qed

lemma word_at_put: "word_at (put a (le_bytes 8 (unat w)) v) a = w"
  using map_put_same[of a "le_bytes 8 (unat w)" v] le_nat_word[where 'a = 64 and k = 8 and v = w] by (simp add: word_at_def)

lemma cstr_at_put: "cstr_at (put a (s @ [0]) v) a s"
  using map_put_same[of a "s @ [0]" v] by (simp add: cstr_at_def)

lemma word_diff:
  assumes "x < 2 ^ 48" "a < 2 ^ 48" "n \<le> 2 ^ 48"
  shows "unat (of_nat x - of_nat a :: u64) < n \<longleftrightarrow> a \<le> x \<and> x < a + n" "a \<le> x \<Longrightarrow> unat (of_nat x - of_nat a :: u64) = x - a"
proof -
  have u: "unat (of_nat x :: u64) = x" "unat (of_nat a :: u64) = a" using assms by (simp_all add: unat_of_nat take_bit_nat_eq_self)
  show d: "a \<le> x \<Longrightarrow> unat (of_nat x - of_nat a :: u64) = x - a" using u by (simp add: unat_sub word_le_nat_alt)
  have "unat (of_nat x - of_nat a :: u64) = 2 ^ 64 + x - a" if "x < a"
  proof -
    have e: "(of_nat x - of_nat a :: u64) = of_nat (2 ^ 64 + x - a)" using that assms(2) by (simp add: of_nat_diff)
    have "2 ^ 64 + x - a < 2 ^ LENGTH(64)" using that by simp
    then show ?thesis unfolding e by (simp only: unat_of_nat mod_less)
  qed
  then show "unat (of_nat x - of_nat a :: u64) < n \<longleftrightarrow> a \<le> x \<and> x < a + n" using d assms by (cases "a \<le> x") auto
qed

lemma user_store_ok:
  assumes "mapped pml4 st a (a + length bs)" "a + length bs < 2 ^ 48"
  shows "\<exists>st'. user_store pml4 (of_nat a) bs st = Inr st' \<and> lvm st' = lvm st \<and> lfile st' = lfile st \<and> view st' = put a bs (view st)"
proof -
  have t: "list_all (\<lambda>i. translate pml4 (pmem (lvm st)) (of_nat a + of_nat i) \<noteq> None) [0 ..< length bs]"
    using assms(1) unfolding mapped_def list_all_iff by (auto simp flip: of_nat_add)
  have "view (st\<lparr>lmem := (\<lambda>x. if unat (x - of_nat a) < length bs then bs ! unat (x - of_nat a) else lmem st x)\<rparr>) x = put a bs (view st) x" for x
    using word_diff[of x a "length bs"] assms(2) by (auto simp: view_def put_def)
  then show ?thesis using t by (auto simp: user_store_def)
qed

lemma mapped_cong: "lvm st' = lvm st \<Longrightarrow> mapped pml4 st' = mapped pml4 st"
  by (simp add: mapped_def fun_eq_iff)

lemma mapped_mono: "mapped pml4 st lo hi \<Longrightarrow> lo \<le> lo' \<Longrightarrow> hi' \<le> hi \<Longrightarrow> mapped pml4 st lo' hi'"
  by (auto simp: mapped_def)

lemma store_word_ok:
  assumes "mapped pml4 st lo hi" "lo \<le> a" "a + 8 \<le> hi" "hi < 2 ^ 48"
  shows "\<exists>st'. store_word pml4 (of_nat a) w st = Inr st' \<and> lvm st' = lvm st \<and> lfile st' = lfile st \<and> view st' = put a (le_bytes 8 (unat w)) (view st)"
proof -
  have "mapped pml4 st a (a + length (le_bytes 8 (unat w)))" using mapped_mono[OF assms(1)] assms(2,3) by simp
  then show ?thesis using user_store_ok[of pml4 st a "le_bytes 8 (unat w)"] assms(3,4) by (simp add: store_word_def)
qed

text \<open>The pointers go down from \<open>S\<close> and the strings up from \<open>D\<close>.\<close>

lemma push_strings_ok:
  assumes "mapped pml4 st lo hi" "hi < 2 ^ 48" "lo + 8 * length strs \<le> S" "S \<le> D" "D + strings_len strs \<le> hi"
  shows "\<exists>st'. push_strings pml4 strs (of_nat D) (of_nat S) st = Inr (of_nat (D + strings_len strs), of_nat (S - 8 * length strs), st')
    \<and> lvm st' = lvm st \<and> lfile st' = lfile st
    \<and> (\<forall>x. \<not> (S - 8 * length strs \<le> x \<and> x < S \<or> D \<le> x \<and> x < D + strings_len strs) \<longrightarrow> view st' x = view st x)
    \<and> (\<forall>k < length strs. word_at (view st') (S - 8 * (k + 1)) = of_nat (D + strings_len (take k strs))
        \<and> cstr_at (view st') (D + strings_len (take k strs)) (strs ! k))"
  using assms
proof (induction strs arbitrary: D S st)
  case Nil
  then show ?case by (simp add: strings_len_def)
next
  case (Cons s strs)
  let ?D = "D + length s + 1" and ?S = "S - 8"
  have sl: "strings_len (s # strs) = length s + 1 + strings_len strs" by (simp add: strings_len_def)
  have "mapped pml4 st D (D + length (s @ [0]))" using mapped_mono[OF Cons.prems(1)] Cons.prems(3-5) sl by simp
  from user_store_ok[OF this] obtain st1 where 1: "user_store pml4 (of_nat D) (s @ [0]) st = Inr st1" "lvm st1 = lvm st" "lfile st1 = lfile st"
    "view st1 = put D (s @ [0]) (view st)" using Cons.prems(2,5) sl by auto
  have m1: "mapped pml4 st1 lo hi" using mapped_cong[OF 1(2)] Cons.prems(1) by simp
  have S8: "(of_nat S - 8 :: u64) = of_nat (S - 8)" using Cons.prems(3) by (simp add: of_nat_diff)
  have "lo \<le> S - 8" "S - 8 + 8 \<le> hi" using Cons.prems(3-5) sl by simp_all
  from store_word_ok[OF m1 this Cons.prems(2), of "of_nat D"] obtain st2 where 2: "store_word pml4 (of_nat (S - 8)) (of_nat D) st1 = Inr st2" "lvm st2 = lvm st1" "lfile st2 = lfile st1"
    "view st2 = put (S - 8) (le_bytes 8 (unat (of_nat D :: u64))) (view st1)" by blast
  have m2: "mapped pml4 st2 lo hi" using mapped_cong[OF 2(2)] m1 by simp
  have "lo + 8 * length strs \<le> ?S" "?S \<le> ?D" "?D + strings_len strs \<le> hi" using Cons.prems(3-5) sl by simp_all
  from Cons.IH[OF m2 Cons.prems(2) this] obtain st' where
    r: "push_strings pml4 strs (of_nat ?D) (of_nat ?S) st2 = Inr (of_nat (?D + strings_len strs), of_nat (?S - 8 * length strs), st')"
      "lvm st' = lvm st2" "lfile st' = lfile st2"
      "\<forall>x. \<not> (?S - 8 * length strs \<le> x \<and> x < ?S \<or> ?D \<le> x \<and> x < ?D + strings_len strs) \<longrightarrow> view st' x = view st2 x"
      "\<forall>k < length strs. word_at (view st') (?S - 8 * (k + 1)) = of_nat (?D + strings_len (take k strs)) \<and> cstr_at (view st') (?D + strings_len (take k strs)) (strs ! k)"
    by (elim exE conjE) (rule that)
  have run: "push_strings pml4 (s # strs) (of_nat D) (of_nat S) st = Inr (of_nat (D + strings_len (s # strs)), of_nat (S - 8 * length (s # strs)), st')"
    using 1(1) 2(1) r(1) sl by (simp add: S8 ac_simps)
  have frame: "view st' x = view st x" if "\<not> (S - 8 * length (s # strs) \<le> x \<and> x < S \<or> D \<le> x \<and> x < D + strings_len (s # strs))" for x
  proof -
    have "\<not> (?S - 8 * length strs \<le> x \<and> x < ?S \<or> ?D \<le> x \<and> x < ?D + strings_len strs)" using that sl by auto
    then have "view st' x = view st2 x" using r(4) by blast
    then show ?thesis using 2(4) 1(4) that sl Cons.prems(3) by (auto simp: put_def)
  qed
  have fr: "view st' x = view st2 x" if "?S \<le> x" "x < ?D" for x using r(4) that by force
  have "word_at (view st') (S - 8 * (k + 1)) = of_nat (D + strings_len (take k (s # strs))) \<and> cstr_at (view st') (D + strings_len (take k (s # strs))) ((s # strs) ! k)"
    if k: "k < length (s # strs)" for k
  proof (cases k)
    case 0
    have "word_at (view st') (S - 8) = word_at (view st2) (S - 8)" using Cons.prems(3,4) by (intro word_at_cong allI impI fr) auto
    moreover have "word_at (view st2) (S - 8) = of_nat D" using 2(4) word_at_put by simp
    moreover have "cstr_at (view st') D s = cstr_at (view st2) D s" using Cons.prems(3,4) by (intro cstr_at_cong allI impI fr) auto
    moreover have "cstr_at (view st2) D s = cstr_at (put D (s @ [0]) (view st)) D s"
      using 2(4) 1(4) Cons.prems(3,4) by (intro cstr_at_cong) (auto simp: put_def)
    ultimately show ?thesis using 0 cstr_at_put by (simp add: strings_len_def)
  next
    case (Suc j)
    then have j: "j < length strs" using k by simp
    have e: "S - 8 * (Suc j + 1) = ?S - 8 * (j + 1)" "D + strings_len (take (Suc j) (s # strs)) = ?D + strings_len (take j strs)"
      by (simp_all add: strings_len_def)
    show ?thesis unfolding Suc e nth_Cons_Suc by (rule r(5)[rule_format, OF j])
  qed
  then have ptr: "\<forall>k < length (s # strs). word_at (view st') (S - 8 * (k + 1)) = of_nat (D + strings_len (take k (s # strs)))
      \<and> cstr_at (view st') (D + strings_len (take k (s # strs))) ((s # strs) ! k)" by blast
  have "lvm st' = lvm st" "lfile st' = lfile st" using r(2,3) 2(2,3) 1(2,3) by simp_all
  then show ?case using run frame ptr by - (rule exI[of _ st'], intro conjI allI impI, assumption+, blast+)
qed

subsection \<open>The auxiliary vector\<close>

definition aux_at :: "(nat \<Rightarrow> u8) \<Rightarrow> nat \<Rightarrow> u32 \<times> u64" where
  "aux_at v a = (of_nat (le_nat (map v [a ..< a + 4])), word_at v (a + 8))"

lemma aux_at_cong: "\<forall>x. a \<le> x \<and> x < a + 16 \<longrightarrow> v x = w x \<Longrightarrow> aux_at v a = aux_at w a"
proof -
  assume c: "\<forall>x. a \<le> x \<and> x < a + 16 \<longrightarrow> v x = w x"
  then have "map v [a ..< a + 4] = map w [a ..< a + 4]" "word_at v (a + 8) = word_at w (a + 8)" by (auto intro!: word_at_cong)
  then show ?thesis by (simp only: aux_at_def)
qed

lemma length_auxv_bytes [simp]: "length (auxv_bytes av) = 16 * length av"
  by (induction av) (auto simp: auxv_bytes_def)

lemma aux_put:
  assumes "i < length av"
  shows "aux_at (put a (auxv_bytes av) v) (a + 16 * i) = av ! i"
  using assms
proof (induction av arbitrary: a i)
  case (Cons e av)
  obtain ty w where e: "e = (ty, w)" by force
  let ?b = "le_bytes 4 (unat ty) @ [0, 0, 0, 0] @ le_bytes 8 (unat w) :: bytes" and ?m = "put a (auxv_bytes (e # av)) v"
  have bs: "auxv_bytes (e # av) = ?b @ auxv_bytes av" and lb: "length ?b = 16" by (simp_all add: auxv_bytes_def e)
  show ?case
  proof (cases i)
    case 0
    have x: "?m (a + k) = ?b ! k" if "k < 16" for k using that lb by (simp add: put_def bs nth_append[of ?b "auxv_bytes av"] del: append_assoc append.simps)
    have "map ?m [a ..< a + 4] = le_bytes 4 (unat ty)" by (rule nth_equalityI) (auto simp: x nth_append)
    moreover have "map ?m [a + 8 ..< a + 8 + 8] = le_bytes 8 (unat w)"
    proof (rule nth_equalityI)
      show "map ?m [a + 8 ..< a + 8 + 8] ! k = le_bytes 8 (unat w) ! k" if "k < length (map ?m [a + 8 ..< a + 8 + 8])" for k
        using x[of "8 + k"] that by (simp add: nth_append add.assoc)
    qed simp
    ultimately show ?thesis using 0 e le_nat_word[where 'a = 32 and k = 4 and v = ty] le_nat_word[where 'a = 64 and k = 8 and v = w]
      by (simp add: aux_at_def word_at_def)
  next
    case (Suc j)
    have "?m x = put (a + 16) (auxv_bytes av) v x" if "a + 16 * i \<le> x" for x
    proof -
      have "\<not> x - a < 16" using that Suc by simp
      then show ?thesis using that Suc bs lb nth_append[of ?b "auxv_bytes av" "x - a"] by (simp add: put_def)
    qed
    then have "aux_at ?m (a + 16 * i) = aux_at (put (a + 16) (auxv_bytes av) v) (a + 16 * i)" by (intro aux_at_cong) simp
    also have "\<dots> = av ! j" using Cons.IH[of j "a + 16"] Cons.prems Suc by (simp add: add.assoc)
    finally show ?thesis using Suc by simp
  qed
qed simp

text \<open>\<open>av\<close> stands at \<open>a\<close>; a store to a value of it, or elsewhere.\<close>

definition aux_ok :: "(nat \<Rightarrow> u8) \<Rightarrow> nat \<Rightarrow> (u32 \<times> u64) list \<Rightarrow> bool" where
  "aux_ok v a av \<longleftrightarrow> (\<forall>i < length av. aux_at v (a + 16 * i) = av ! i)"

lemma aux_ok_put: "aux_ok (put a (auxv_bytes av) v) a av"
  using aux_put by (simp add: aux_ok_def)

lemma aux_ok_frame:
  assumes "aux_ok v a av" "\<forall>x. a \<le> x \<and> x < a + 16 * length av \<longrightarrow> w x = v x"
  shows "aux_ok w a av"
  unfolding aux_ok_def
proof (intro allI impI)
  fix i assume "i < length av"
  then have "a + 16 * i + 16 \<le> a + 16 * length av" by simp
  then have "aux_at w (a + 16 * i) = aux_at v (a + 16 * i)" using assms(2) by (intro aux_at_cong) auto
  then show "aux_at w (a + 16 * i) = av ! i" using assms(1) \<open>i < length av\<close> by (simp add: aux_ok_def)
qed

lemma aux_ok_set:
  assumes "aux_ok v a av" "k < length av"
  shows "aux_ok (put (a + (16 * k + 8)) (le_bytes 8 (unat w)) v) a (av[k := (fst (av ! k), w)])"
  unfolding aux_ok_def
proof (intro allI impI)
  fix i assume "i < length (av[k := (fst (av ! k), w)])"
  then have i: "i < length av" by simp
  let ?m = "put (a + (16 * k + 8)) (le_bytes 8 (unat w)) v"
  show "aux_at ?m (a + 16 * i) = av[k := (fst (av ! k), w)] ! i"
  proof (cases "i = k")
    case True
    have e: "map ?m [a + 16 * k ..< a + 16 * k + 4] = map v [a + 16 * k ..< a + 16 * k + 4]" by (rule map_put_other) simp
    have "word_at ?m (a + 16 * k + 8) = w" using word_at_put[of "a + (16 * k + 8)" w v] by (simp add: add.assoc)
    moreover have "fst (av ! k) = of_nat (le_nat (map v [a + 16 * k ..< a + 16 * k + 4]))"
      using assms unfolding aux_ok_def by (metis aux_at_def fst_conv)
    ultimately show ?thesis using assms(2) True by (simp add: aux_at_def e)
  next
    case False
    have "?m x = v x" if "a + 16 * i \<le> x \<and> x < a + 16 * i + 16" for x
    proof -
      have "16 * i + 16 \<le> 16 * k \<or> 16 * k + 16 \<le> 16 * i" using False by linarith
      then show ?thesis using that by (auto simp: put_def)
    qed
    then have "aux_at ?m (a + 16 * i) = aux_at v (a + 16 * i)" by (intro aux_at_cong) simp
    then show ?thesis using assms False i by (simp add: aux_ok_def)
  qed
qed

subsection \<open>The whole stack\<close>

text \<open>What a program finds at the stack pointer \<open>r\<close>.\<close>

definition start_stack :: "(nat \<Rightarrow> u8) \<Rightarrow> nat \<Rightarrow> bytes list \<Rightarrow> bytes list \<Rightarrow> (u32 \<times> u64) list \<Rightarrow> bool" where
  "start_stack v r argv envp aux \<longleftrightarrow>
     word_at v r = of_nat (length argv)
     \<and> (\<forall>i < length argv. cstr_at v (unat (word_at v (r + 8 * (i + 1)))) (argv ! i))
     \<and> word_at v (r + 8 * (length argv + 1)) = 0
     \<and> (\<forall>i < length envp. cstr_at v (unat (word_at v (r + 8 * (length argv + 2 + i)))) (envp ! i))
     \<and> word_at v (r + 8 * (length argv + length envp + 2)) = 0
     \<and> aux_ok v (r + 8 * (length argv + length envp + 3)) aux"

definition env_addr :: "bytes list \<Rightarrow> bytes list \<Rightarrow> nat" where
  "env_addr argv envp = (let e = 2 ^ 47 - (strings_len argv + strings_len envp); e1 = e - e mod 16
     in if even (length argv + length envp) then e1 - 8 else e1)"

definition args_fit :: "bytes list \<Rightarrow> bytes list \<Rightarrow> bool" where
  "args_fit argv envp \<longleftrightarrow> strings_len argv + strings_len envp + 8 * (length argv + length envp) + 260 \<le> 0x8000"

lemma env_address_nat:
  assumes "args_fit argv envp"
  shows "env_address argv envp = of_nat (env_addr argv envp)" "env_addr argv envp + strings_len argv + strings_len envp \<le> 2 ^ 47"
    "2 ^ 47 - 0x8000 + 8 * (length argv + length envp) + 232 \<le> env_addr argv envp"
    "even (length argv + length envp) \<longleftrightarrow> env_addr argv envp mod 16 = 8" "env_addr argv envp mod 8 = 0"
proof -
  define T where "T = strings_len argv + strings_len envp"
  have T: "T + 8 * (length argv + length envp) + 260 \<le> 0x8000" using assms by (simp add: args_fit_def T_def)
  define e where "e = 2 ^ 47 - T"
  have e: "2 ^ 47 - 0x8000 \<le> e" "e \<le> 2 ^ 47" using T by (simp_all add: e_def)
  have E: "env_addr argv envp = (if even (length argv + length envp) then e - e mod 16 - 8 else e - e mod 16)"
    by (simp add: env_addr_def Let_def T_def e_def)
  have w: "INIT_USERLAND_RSP - of_nat (strings_len argv) - of_nat (strings_len envp) = of_nat e"
    using T by (simp add: INIT_USERLAND_RSP_def e_def T_def of_nat_diff)
  have u: "unat (of_nat e :: u64) = e" using e by (simp add: unat_of_nat take_bit_nat_eq_self)
  have "unat (of_nat e mod 16 :: u64) = e mod 16" by (simp add: unat_mod u)
  then have m: "(of_nat e mod 16 :: u64) = of_nat (e mod 16)" by (metis of_nat_unat ucast_id)
  have le: "e mod 16 \<le> e" "e mod 16 < 16" by simp_all
  have "(of_nat e - of_nat (e mod 16) :: u64) = of_nat (e - e mod 16)" by (simp add: of_nat_diff)
  moreover have "24 \<le> e" using e(1) by simp
  then have e8: "8 \<le> e - e mod 16" using le by simp
  ultimately show "env_address argv envp = of_nat (env_addr argv envp)"
    unfolding env_address_def Let_def w m E using e8 by (simp add: of_nat_diff even_iff_mod_2_eq_zero)
  show "env_addr argv envp + strings_len argv + strings_len envp \<le> 2 ^ 47"
    using T le unfolding E e_def T_def by auto
  have "2 ^ 47 - 0x8000 + 8 * (length argv + length envp) + 232 \<le> e - 24" using T unfolding e_def by simp
  then show "2 ^ 47 - 0x8000 + 8 * (length argv + length envp) + 232 \<le> env_addr argv envp" using le unfolding E by auto
  have "(e - e mod 16) mod 16 = 0" by simp
  then obtain q where q: "e - e mod 16 = 16 * q" by (metis mod_0_imp_dvd dvd_def)
  then obtain p where p: "q = Suc p" using e8 by (cases q) auto
  have "(16 * q - 8) mod 16 = 8" "(16 * q - 8) mod 8 = 0" unfolding p by simp_all
  then show "even (length argv + length envp) \<longleftrightarrow> env_addr argv envp mod 16 = 8" "env_addr argv envp mod 8 = 0" unfolding E q by auto
qed

definition start_auxv :: "u64 \<Rightarrow> bytes \<Rightarrow> u64 \<Rightarrow> (u32 \<times> u64) list" where
  "start_auxv pheaders_base eh random_addr =
     [(3, pheaders_base), (4, ucast (e_phentsize eh)), (5, ucast (e_phnum eh)), (6, 4096), (11, 0), (12, 0), (13, 0), (14, 0), (23, 0),
      (25, random_addr), (17, 100), (0, 0)]"

lemma store_words_ok:
  assumes "mapped pml4 st lo hi" "hi < 2 ^ 48" "\<forall>(a, w) \<in> set ws. lo \<le> a \<and> a + 8 \<le> hi"
  shows "\<exists>st'. store_words pml4 (map (\<lambda>(a, w). (of_nat a, w)) ws) st = Inr st' \<and> lvm st' = lvm st \<and> lfile st' = lfile st
    \<and> view st' = fold (\<lambda>(a, w). put a (le_bytes 8 (unat w))) ws (view st)"
  using assms(1,3)
proof (induction ws arbitrary: st)
  case (Cons aw ws)
  obtain a w where aw: "aw = (a, w)" by force
  obtain st1 where 1: "store_word pml4 (of_nat a) w st = Inr st1" "lvm st1 = lvm st" "lfile st1 = lfile st" "view st1 = put a (le_bytes 8 (unat w)) (view st)"
    using store_word_ok[OF Cons.prems(1) _ _ assms(2), of a w] Cons.prems(2) aw by auto
  have "mapped pml4 st1 lo hi" using mapped_cong[OF 1(2)] Cons.prems(1) by simp
  from Cons.IH[OF this] Cons.prems(2) obtain st' where "store_words pml4 (map (\<lambda>(a, w). (of_nat a, w)) ws) st1 = Inr st'" "lvm st' = lvm st1" "lfile st' = lfile st1"
    "view st' = fold (\<lambda>(a, w). put a (le_bytes 8 (unat w))) ws (view st1)" by auto
  then show ?case using 1 aw by simp
qed simp

lemma fold_put_other: "\<forall>(a, w) \<in> set ws. x < a \<or> a + 8 \<le> x \<Longrightarrow> fold (\<lambda>(a, w). put a (le_bytes 8 (unat w))) ws v x = v x"
  by (induction ws arbitrary: v) (auto simp: put_def)

text \<open>The vector after its four values are set, between other stores.\<close>

lemma aux_set_up:
  assumes "X + 192 = R" "8 \<le> X"
  shows "aux_ok (fold (\<lambda>(a, w). put a (le_bytes 8 (unat w)))
      [(R, t1), (R + 8, t2), (X + 8, pb), (X + 24, ucast (e_phentsize eh)), (X + 40, ucast (e_phnum eh)), (X + 152, of_nat R), (X - 8, 0)]
      (put X (auxv_bytes default_auxv) v)) X (start_auxv pb eh (of_nat R))"
proof -
  define p where "p a w = put a (le_bytes 8 (unat (w :: u64)))" for a w
  have l: "length default_auxv = 12" by (simp add: default_auxv_def)
  have 0: "aux_ok (put X (auxv_bytes default_auxv) v) X default_auxv" by (rule aux_ok_put)
  have out: "aux_ok (p a w m) X av" if "aux_ok m X av" "length av = 12" "R \<le> a \<or> a + 8 \<le> X" for a w m av
    by (rule aux_ok_frame[OF that(1)]) (use that assms(1) in \<open>auto simp: p_def put_def\<close>)
  have set: "aux_ok (p (X + (16 * k + 8)) w m) X (av[k := (fst (av ! k), w)])" if "aux_ok m X av" "k < length av" for k w m av
    unfolding p_def by (rule aux_ok_set[OF that])
  note 1 = out[OF out[OF 0 l, of R t1] l, of "R + 8" t2]
  note 2 = set[OF set[OF set[OF set[OF 1, of 0 pb], of 1 "ucast (e_phentsize eh)"], of 2 "ucast (e_phnum eh)"], of 9 "of_nat R"]
  have "aux_ok (p (X + 152) (of_nat R) (p (X + 40) (ucast (e_phnum eh)) (p (X + 24) (ucast (e_phentsize eh)) (p (X + 8) pb
      (p (R + 8) t2 (p R t1 (put X (auxv_bytes default_auxv) v))))))) X (start_auxv pb eh (of_nat R))"
    using 2 l by (simp add: default_auxv_def start_auxv_def PAGE_SIZE_4K_def)
  from out[OF this, of "X - 8" 0] show ?thesis using assms(2) by (simp add: p_def start_auxv_def)
qed

text \<open>A run of strings in terms of the words it leaves, lowest first.\<close>

definition ptrs_ok :: "(nat \<Rightarrow> u8) \<Rightarrow> nat \<Rightarrow> bytes list \<Rightarrow> nat \<Rightarrow> nat \<Rightarrow> bool" where
  "ptrs_ok v T strs D D' \<longleftrightarrow> (\<forall>i < length strs. \<exists>a. D \<le> a \<and> a + length (strs ! i) + 1 \<le> D' \<and> word_at v (T + 8 * i) = of_nat a \<and> cstr_at v a (strs ! i))"

lemma ptrs_ok_cong:
  assumes "ptrs_ok v T strs D D'" "\<forall>x. T \<le> x \<and> x < T + 8 * length strs \<longrightarrow> w x = v x" "\<forall>x. D \<le> x \<and> x < D' \<longrightarrow> w x = v x"
  shows "ptrs_ok w T strs D D'"
  unfolding ptrs_ok_def
proof (intro allI impI)
  fix i assume i: "i < length strs"
  then obtain a where a: "D \<le> a" "a + length (strs ! i) + 1 \<le> D'" "word_at v (T + 8 * i) = of_nat a" "cstr_at v a (strs ! i)"
    using assms(1) unfolding ptrs_ok_def by blast
  have "word_at w (T + 8 * i) = word_at v (T + 8 * i)" using assms(2) i by (intro word_at_cong) auto
  moreover have "cstr_at w a (strs ! i) = cstr_at v a (strs ! i)" using assms(3) a(1,2) by (intro cstr_at_cong) auto
  ultimately show "\<exists>a. D \<le> a \<and> a + length (strs ! i) + 1 \<le> D' \<and> word_at w (T + 8 * i) = of_nat a \<and> cstr_at w a (strs ! i)" using a by auto
qed

lemma strings_len_take:
  assumes "k < length strs"
  shows "strings_len (take k strs) + length (strs ! k) + 1 \<le> strings_len strs"
proof -
  have "strings_len strs = strings_len (take k strs @ strs ! k # drop (Suc k) strs)" using id_take_nth_drop[OF assms] by simp
  then show ?thesis by (simp add: strings_len_def)
qed

lemma push_rev_ok:
  assumes "mapped pml4 st lo hi" "hi < 2 ^ 48" "lo \<le> T" "T + 8 * length strs \<le> D" "D + strings_len strs \<le> hi"
  shows "\<exists>st'. push_strings pml4 (rev strs) (of_nat D) (of_nat (T + 8 * length strs)) st = Inr (of_nat (D + strings_len strs), of_nat T, st')
    \<and> lvm st' = lvm st \<and> lfile st' = lfile st
    \<and> (\<forall>x. \<not> (T \<le> x \<and> x < T + 8 * length strs \<or> D \<le> x \<and> x < D + strings_len strs) \<longrightarrow> view st' x = view st x)
    \<and> ptrs_ok (view st') T strs D (D + strings_len strs)"
proof -
  have sr: "strings_len (rev strs) = strings_len strs" by (simp add: strings_len_def rev_map[symmetric] sum_list_rev)
  let ?S = "T + 8 * length (rev strs)"
  have "lo + 8 * length (rev strs) \<le> ?S" "?S \<le> D" "D + strings_len (rev strs) \<le> hi" using assms(3-5) sr by simp_all
  from push_strings_ok[OF assms(1,2) this] obtain st' where
    r: "push_strings pml4 (rev strs) (of_nat D) (of_nat ?S) st = Inr (of_nat (D + strings_len (rev strs)), of_nat (?S - 8 * length (rev strs)), st')"
      "lvm st' = lvm st" "lfile st' = lfile st"
      "\<forall>x. \<not> (?S - 8 * length (rev strs) \<le> x \<and> x < ?S \<or> D \<le> x \<and> x < D + strings_len (rev strs)) \<longrightarrow> view st' x = view st x"
      "\<forall>k < length (rev strs). word_at (view st') (?S - 8 * (k + 1)) = of_nat (D + strings_len (take k (rev strs)))
         \<and> cstr_at (view st') (D + strings_len (take k (rev strs))) (rev strs ! k)" by (elim exE conjE) (rule that)
  have "ptrs_ok (view st') T strs D (D + strings_len strs)" unfolding ptrs_ok_def
  proof (intro allI impI)
    fix i assume i: "i < length strs"
    define k where "k = length strs - Suc i"
    have k: "k < length (rev strs)" "rev strs ! k = strs ! i" "?S - 8 * (k + 1) = T + 8 * i" using i by (simp_all add: k_def rev_nth)
    note p = r(5)[rule_format, OF k(1), unfolded k(2,3)]
    have "strings_len (take k (rev strs)) + length (strs ! i) + 1 \<le> strings_len strs" using strings_len_take[OF k(1)] k(2) sr by simp
    then show "\<exists>a. D \<le> a \<and> a + length (strs ! i) + 1 \<le> D + strings_len strs \<and> word_at (view st') (T + 8 * i) = of_nat a \<and> cstr_at (view st') a (strs ! i)"
      using p by (intro exI[of _ "D + strings_len (take k (rev strs))"]) simp
  qed
  then show ?thesis using r(1-4) sr by (intro exI[of _ st']) simp
qed

text \<open>The two runs with their terminating words, and the count.\<close>

lemma push_args_ok:
  assumes m: "mapped pml4 st lo hi" "hi < 2 ^ 48" and r: "lo \<le> r" "r + 8 * (length argv + length envp) + 16 \<le> E"
    and hi: "E + strings_len envp + strings_len argv \<le> hi"
  defines "T1 \<equiv> r + 8 * length argv + 16" and "T2 \<equiv> r + 8"
  shows "\<exists>st3 st4 st5 st6. push_strings pml4 (rev envp) (of_nat E) (of_nat (T1 + 8 * length envp)) st = Inr (of_nat (E + strings_len envp), of_nat T1, st3)
    \<and> store_word pml4 (of_nat (T2 + 8 * length argv)) 0 st3 = Inr st4
    \<and> push_strings pml4 (rev argv) (of_nat (E + strings_len envp)) (of_nat (T2 + 8 * length argv)) st4 = Inr (of_nat (E + strings_len envp + strings_len argv), of_nat T2, st5)
    \<and> store_word pml4 (of_nat r) (of_nat (length argv)) st5 = Inr st6 \<and> lvm st6 = lvm st \<and> lfile st6 = lfile st
    \<and> (\<forall>x. \<not> (r \<le> x \<and> x < T1 + 8 * length envp \<or> E \<le> x \<and> x < hi) \<longrightarrow> view st6 x = view st x)
    \<and> word_at (view st6) r = of_nat (length argv) \<and> word_at (view st6) (T2 + 8 * length argv) = 0
    \<and> ptrs_ok (view st6) T2 argv E hi \<and> ptrs_ok (view st6) T1 envp E hi"
proof -
  let ?D = "E + strings_len envp" and ?a = "T2 + 8 * length argv"
  have pw: "ptrs_ok v T strs D D' \<Longrightarrow> E \<le> D \<Longrightarrow> D' \<le> hi \<Longrightarrow> ptrs_ok v T strs E hi" for v T strs D D' unfolding ptrs_ok_def by (meson order.trans)
  have p1: "lo \<le> T1" "T1 + 8 * length envp \<le> E" "?D \<le> hi" using r hi by (simp_all add: T1_def)
  from push_rev_ok[OF m p1] obtain st3 where 3: "push_strings pml4 (rev envp) (of_nat E) (of_nat (T1 + 8 * length envp)) st = Inr (of_nat ?D, of_nat T1, st3)"
    "lvm st3 = lvm st" "lfile st3 = lfile st" "\<forall>x. \<not> (T1 \<le> x \<and> x < T1 + 8 * length envp \<or> E \<le> x \<and> x < ?D) \<longrightarrow> view st3 x = view st x"
    "ptrs_ok (view st3) T1 envp E ?D" by (elim exE conjE) (rule that)
  have m3: "mapped pml4 st3 lo hi" using mapped_cong[OF 3(2)] m(1) by simp
  have "lo \<le> ?a" "?a + 8 \<le> hi" using r hi by (simp_all add: T2_def)
  from store_word_ok[OF m3 this m(2), of 0] obtain st4 where 4: "store_word pml4 (of_nat ?a) 0 st3 = Inr st4" "lvm st4 = lvm st3" "lfile st4 = lfile st3"
    "view st4 = put ?a (le_bytes 8 (unat (0 :: u64))) (view st3)" by (elim exE conjE) (rule that)
  have m4: "mapped pml4 st4 lo hi" using mapped_cong[OF 4(2)] m3 by simp
  have p2: "lo \<le> T2" "?a \<le> ?D" "?D + strings_len argv \<le> hi" using r hi by (simp_all add: T2_def)
  from push_rev_ok[OF m4 m(2) p2] obtain st5 where 5: "push_strings pml4 (rev argv) (of_nat ?D) (of_nat ?a) st4 = Inr (of_nat (?D + strings_len argv), of_nat T2, st5)"
    "lvm st5 = lvm st4" "lfile st5 = lfile st4" "\<forall>x. \<not> (T2 \<le> x \<and> x < ?a \<or> ?D \<le> x \<and> x < ?D + strings_len argv) \<longrightarrow> view st5 x = view st4 x"
    "ptrs_ok (view st5) T2 argv ?D (?D + strings_len argv)" by (elim exE conjE) (rule that)
  have m5: "mapped pml4 st5 lo hi" using mapped_cong[OF 5(2)] m4 by simp
  have "r + 8 \<le> hi" using r hi by simp
  from store_word_ok[OF m5 r(1) this m(2), of "of_nat (length argv)"] obtain st6 where 6: "store_word pml4 (of_nat r) (of_nat (length argv)) st5 = Inr st6"
    "lvm st6 = lvm st5" "lfile st6 = lfile st5" "view st6 = put r (le_bytes 8 (unat (of_nat (length argv) :: u64))) (view st5)" by (elim exE conjE) (rule that)
  have f6: "view st6 x = view st5 x" if "r + 8 \<le> x" for x using 6(4) that by (simp add: put_def)
  have f5: "view st5 x = view st4 x" if "x < T2 \<or> ?a \<le> x" "x < ?D \<or> ?D + strings_len argv \<le> x" for x using 5(4) that by force
  have f4: "view st4 x = view st3 x" if "x < ?a \<or> ?a + 8 \<le> x" for x using 4(4) that by (auto simp: put_def)
  have f3: "view st3 x = view st x" if "x < T1 \<or> T1 + 8 * length envp \<le> x" "x < E \<or> ?D \<le> x" for x using 3(4) that by force
  have w6: "word_at (view st6) r = of_nat (length argv)" unfolding 6(4) by (rule word_at_put)
  have "word_at (view st6) ?a = word_at (view st4) ?a" using r(2) by (intro word_at_cong) (auto simp: f6 f5 T2_def)
  then have wa: "word_at (view st6) ?a = 0" unfolding 4(4) word_at_put .
  have pa: "ptrs_ok (view st6) T2 argv ?D (?D + strings_len argv)" using r(2) by (intro ptrs_ok_cong[OF 5(5)]) (auto simp: f6 T2_def)
  have pe: "ptrs_ok (view st6) T1 envp E ?D" using r(2) by (intro ptrs_ok_cong[OF 3(5)]) (auto simp: f6 f5 f4 T1_def T2_def)
  have frame: "view st6 x = view st x" if "\<not> (r \<le> x \<and> x < T1 + 8 * length envp \<or> E \<le> x \<and> x < hi)" for x
  proof -
    have "view st6 x = view st5 x" using 6(4) that r hi by (auto simp: put_def T1_def)
    also have "\<dots> = view st4 x" using that r hi by (intro f5) (auto simp: T1_def T2_def)
    also have "\<dots> = view st3 x" using that r hi by (intro f4) (auto simp: T1_def T2_def)
    also have "\<dots> = view st x" using that r hi by (intro f3) (auto simp: T1_def T2_def)
    finally show ?thesis .
  qed
  have "lvm st6 = lvm st" "lfile st6 = lfile st" using 6 5 4 3 by simp_all
  moreover have "\<forall>x. \<not> (r \<le> x \<and> x < T1 + 8 * length envp \<or> E \<le> x \<and> x < hi) \<longrightarrow> view st6 x = view st x" using frame by blast
  moreover have "ptrs_ok (view st6) T2 argv E hi" "ptrs_ok (view st6) T1 envp E hi" using pw[OF pa] pw[OF pe] hi by simp_all
  ultimately show ?thesis using 3(1) 4(1) 5(1) 6(1) w6 wa
    by - (rule exI[of _ st3], rule exI[of _ st4], rule exI[of _ st5], rule exI[of _ st6], intro conjI, assumption+)
qed

lemma build_stack_ok:
  assumes m: "mapped pml4 st (2 ^ 47 - 0x8000) (2 ^ 47)" and fit: "args_fit argv envp"
  defines "r \<equiv> env_addr argv envp - 232 - 8 * (length argv + length envp)"
  shows "\<exists>st'. build_stack pml4 eh pb t1 t2 argv envp st = Inr (of_nat r, st') \<and> lvm st' = lvm st \<and> lfile st' = lfile st
    \<and> start_stack (view st') r argv envp (start_auxv pb eh (of_nat (env_addr argv envp - 16))) \<and> r mod 16 = 0
    \<and> (\<forall>x. \<not> (2 ^ 47 - 0x8000 \<le> x \<and> x < 2 ^ 47) \<longrightarrow> view st' x = view st x)"
proof -
  define E lo hi :: nat where "E = env_addr argv envp" and "lo = 2 ^ 47 - 0x8000" and "hi = 2 ^ 47"
  note en = env_address_nat[OF fit, folded E_def]
  let ?na = "length argv" and ?ne = "length envp"
  define X where "X = r + 8 * (?na + ?ne) + 24"
  have lo: "lo \<le> r" "E = X + 208" and hi: "E + strings_len envp + strings_len argv \<le> hi" and h48: "hi < 2 ^ 48"
    using en(2,3) by (simp_all add: lo_def hi_def r_def X_def E_def)
  have m': "mapped pml4 st lo hi" using m by (simp add: lo_def hi_def)
  have w: "of_nat E - 16 = (of_nat (X + 192) :: u64)" "of_nat (X + 192) - of_nat (SIZEOF_AUXV * length default_auxv) = (of_nat X :: u64)"
    "of_nat (X + 192) + 8 = (of_nat (X + 192 + 8) :: u64)" "of_nat X - 8 = (of_nat (X - 8) :: u64)" using lo
    by (simp_all add: SIZEOF_AUXV_def default_auxv_def X_def of_nat_diff)
  let ?ws = "[(X + 192, t1), (X + 192 + 8, t2 XOR of_nat (strings_len argv) * of_nat (strings_len envp)), (X + 8, pb), (X + 24, ucast (e_phentsize eh)),
    (X + 40, ucast (e_phnum eh)), (X + 152, of_nat (X + 192)), (X - 8, 0)] :: (nat \<times> u64) list"
  have la: "length (auxv_bytes default_auxv) = 192" by (simp add: default_auxv_def)
  have "mapped pml4 st X (X + length (auxv_bytes default_auxv))" using mapped_mono[OF m', of X "X + 192"] lo hi la by (simp add: X_def)
  from user_store_ok[OF this] obtain st1 where 1: "user_store pml4 (of_nat X) (auxv_bytes default_auxv) st = Inr st1" "lvm st1 = lvm st" "lfile st1 = lfile st"
    "view st1 = put X (auxv_bytes default_auxv) (view st)" using lo hi h48 la by auto
  have m1: "mapped pml4 st1 lo hi" using mapped_cong[OF 1(2)] m' by simp
  have "\<forall>(a, v) \<in> set ?ws. lo \<le> a \<and> a + 8 \<le> hi" using lo hi by (simp add: X_def)
  from store_words_ok[OF m1 h48 this] obtain st2 where 2: "store_words pml4 (map (\<lambda>(a, v). (of_nat a, v)) ?ws) st1 = Inr st2" "lvm st2 = lvm st1"
    "lfile st2 = lfile st1" "view st2 = fold (\<lambda>(a, v). put a (le_bytes 8 (unat v))) ?ws (view st1)" by (elim exE conjE) (rule that)
  have m2: "mapped pml4 st2 lo hi" using mapped_cong[OF 2(2)] m1 by simp
  have ax: "aux_ok (view st2) X (start_auxv pb eh (of_nat (X + 192)))" unfolding 2(4) 1(4) by (rule aux_set_up) (simp_all add: X_def)
  have zero: "word_at (view st2) (X - 8) = 0" unfolding 2(4) using word_at_put[of "X - 8" 0] by simp
  have f2: "view st2 x = view st x" if "x < X - 8 \<or> X + 208 \<le> x" for x
  proof -
    have "\<forall>(a, v) \<in> set ?ws. x < a \<or> a + 8 \<le> x" using that by auto
    then have "view st2 x = view st1 x" unfolding 2(4) by (rule fold_put_other)
    also have "\<dots> = view st x" unfolding 1(4) put_def la using that by auto
    finally show ?thesis .
  qed
  have p: "r + 8 * (?na + ?ne) + 16 \<le> E" using lo by (simp add: X_def)
  let ?T1 = "r + 8 * ?na + 16" and ?T2 = "r + 8"
  from push_args_ok[OF m2 h48 lo(1) p hi] obtain st3 st4 st5 st6 where
    a: "push_strings pml4 (rev envp) (of_nat E) (of_nat (?T1 + 8 * ?ne)) st2 = Inr (of_nat (E + strings_len envp), of_nat ?T1, st3)"
      "store_word pml4 (of_nat (?T2 + 8 * ?na)) 0 st3 = Inr st4"
      "push_strings pml4 (rev argv) (of_nat (E + strings_len envp)) (of_nat (?T2 + 8 * ?na)) st4 = Inr (of_nat (E + strings_len envp + strings_len argv), of_nat ?T2, st5)"
      "store_word pml4 (of_nat r) (of_nat ?na) st5 = Inr st6" "lvm st6 = lvm st2" "lfile st6 = lfile st2"
      "\<forall>x. \<not> (r \<le> x \<and> x < ?T1 + 8 * ?ne \<or> E \<le> x \<and> x < hi) \<longrightarrow> view st6 x = view st2 x"
      "word_at (view st6) r = of_nat ?na" "word_at (view st6) (?T2 + 8 * ?na) = 0" "ptrs_ok (view st6) ?T2 argv E hi" "ptrs_ok (view st6) ?T1 envp E hi"
    by (elim exE conjE) (rule that)
  have x8: "?T1 + 8 * ?ne = X - 8" by (simp add: X_def)
  have f6: "view st6 x = view st2 x" if "x < r \<or> X - 8 \<le> x" "x < E \<or> hi \<le> x" for x using a(7) that x8 by force
  have run: "build_stack pml4 eh pb t1 t2 argv envp st = Inr (of_nat r, st6)"
  proof -
    have v: "of_nat X + of_nat (SIZEOF_AUXV * AT_INDEX_PHDR + 8) = (of_nat (X + 8) :: u64)" "of_nat X + of_nat (SIZEOF_AUXV * AT_INDEX_PHENT + 8) = (of_nat (X + 24) :: u64)"
      "of_nat X + of_nat (SIZEOF_AUXV * AT_INDEX_PHNUM + 8) = (of_nat (X + 40) :: u64)" "of_nat X + of_nat (SIZEOF_AUXV * AT_INDEX_RANDOM + 8) = (of_nat (X + 152) :: u64)"
      by (simp_all add: SIZEOF_AUXV_def AT_INDEX_PHDR_def AT_INDEX_PHENT_def AT_INDEX_PHNUM_def AT_INDEX_RANDOM_def)
    have s: "of_nat ?T1 - 8 = (of_nat (?T2 + 8 * ?na) :: u64)" "of_nat ?T2 - 8 = (of_nat r :: u64)" by simp_all
    note st2 = 2(1)[unfolded list.map prod.case]
    show ?thesis unfolding build_stack_def Let_def en(1) w v 1(1) sum.case st2 a(1)[unfolded x8] prod.case s a(2,3,4) ..
  qed
  have "start_stack (view st6) r argv envp (start_auxv pb eh (of_nat (E - 16)))"
  proof -
    have ptr: "\<forall>i < length strs. cstr_at (view st6) (unat (word_at (view st6) (T + 8 * i))) (strs ! i)" if po: "ptrs_ok (view st6) T strs E hi" for T strs
    proof (intro allI impI)
      fix i assume "i < length strs"
      then obtain q where q: "q + length (strs ! i) + 1 \<le> hi" "word_at (view st6) (T + 8 * i) = of_nat q" "cstr_at (view st6) q (strs ! i)"
        using po unfolding ptrs_ok_def by blast
      have "unat (of_nat q :: u64) = q" using q(1) h48 by (simp add: unat_of_nat take_bit_nat_eq_self)
      then show "cstr_at (view st6) (unat (word_at (view st6) (T + 8 * i))) (strs ! i)" using q by simp
    qed
    have "word_at (view st6) (X - 8) = word_at (view st2) (X - 8)" using lo(2) by (intro word_at_cong allI impI f6) auto
    then have z6: "word_at (view st6) (X - 8) = 0" using zero by simp
    have a6: "aux_ok (view st6) X (start_auxv pb eh (of_nat (X + 192)))"
      using lo(2) by (intro aux_ok_frame[OF ax] allI impI f6) (auto simp: start_auxv_def)
    have q1: "E - 16 = X + 192" "r + 8 * (?na + ?ne + 2) = X - 8" "r + 8 * (?na + ?ne + 3) = X" using lo by (simp_all add: X_def)
    have q2: "r + 8 * (i + 1) = ?T2 + 8 * i" "r + 8 * (?na + 2 + i) = ?T1 + 8 * i" for i by simp_all
    show ?thesis unfolding start_stack_def q1 q2 using z6 a6 a(8,9) ptr[OF a(10)] ptr[OF a(11)] by (intro conjI)
  qed
  moreover have "r mod 16 = 0"
  proof -
    have "r + 8 * (29 + (?na + ?ne)) = E" using lo by (simp add: X_def)
    then show ?thesis using en(4,5) by presburger
  qed
  moreover have "\<forall>x. \<not> (2 ^ 47 - 0x8000 \<le> x \<and> x < 2 ^ 47) \<longrightarrow> view st6 x = view st x"
  proof (intro allI impI)
    fix x assume x: "\<not> (2 ^ 47 - 0x8000 \<le> x \<and> x < (2 ^ 47 :: nat))"
    then have "x < lo \<or> hi \<le> x" by (auto simp: lo_def hi_def)
    then have "x < r \<or> hi \<le> x" "X + 208 \<le> hi" using lo hi by auto
    then show "view st6 x = view st x" using f6[of x] f2[of x] lo by (auto simp: X_def)
  qed
  ultimately show ?thesis using run a(5,6) 1(2,3) 2(2,3) unfolding E_def by (intro exI[of _ st6]) simp
qed

end
