(* ===== verification/ElfLoad.thy ===== *)
theory ElfLoad
  imports ElfStack
begin

section \<open>The ELF loader: what is loaded and what is refused\<close>

text \<open>
  A file whose functions behave as the file layer documents: a seek sets the position, a read gives the bytes from there.  Over it, the segments of a
  well-formed executable are in memory after the copy; the checks before it accept segments they should refuse.
\<close>

definition good_file :: "'f file_ops \<Rightarrow> ('f \<Rightarrow> u64) \<Rightarrow> bytes \<Rightarrow> bool" where
  "good_file F fpos content \<longleftrightarrow> (\<forall>k f. fst (f_seek F k f) \<and> fpos (snd (f_seek F k f)) = k)
     \<and> (\<forall>n f. fst (f_read F n f) = take (unat n) (drop (unat (fpos f)) content))"

fun headers :: "bytes \<Rightarrow> bytes \<Rightarrow> u64 \<Rightarrow> nat \<Rightarrow> bytes list" where
  "headers content eh off 0 = []"
| "headers content eh off (Suc n) = take SIZEOF_PHDR (drop (unat off) content) # headers content eh (off + ucast (e_phentsize eh)) n"

definition segments :: "bytes list \<Rightarrow> bytes list" where
  "segments hs = filter (\<lambda>h. p_type h = PT_LOAD) hs"

definition seg_span :: "bytes \<Rightarrow> nat set" where
  "seg_span h = {unat (p_vaddr h) ..< unat (p_vaddr h) + unat (p_memsz h)}"

definition seg_ok :: "bytes \<Rightarrow> bytes \<Rightarrow> bool" where
  "seg_ok content h \<longleftrightarrow> p_filesz h \<le> p_memsz h \<and> unat (p_vaddr h) + unat (p_memsz h) < 2 ^ 47
     \<and> unat (p_offset h) + unat (p_filesz h) \<le> length content"

definition seg_loaded :: "bytes \<Rightarrow> (nat \<Rightarrow> u8) \<Rightarrow> bytes \<Rightarrow> bool" where
  "seg_loaded content v h \<longleftrightarrow> (\<forall>k < unat (p_memsz h). v (unat (p_vaddr h) + k) =
     (if k < unat (p_filesz h) then content ! (unat (p_offset h) + k) else 0))"

definition apart :: "bytes \<Rightarrow> bytes \<Rightarrow> bool" where
  "apart a b \<longleftrightarrow> seg_span a \<inter> seg_span b = {}"

lemma file_simps [simp]: "view (st\<lparr>lfile := f\<rparr>) = view st" "mapped pml4 (st\<lparr>lfile := f\<rparr>) = mapped pml4 st"
  by (simp_all add: view_def mapped_def fun_eq_iff)

lemma read_phdr_good:
  assumes "good_file F fpos content" "length ph = SIZEOF_PHDR" "length (take SIZEOF_PHDR (drop (unat off) content)) = SIZEOF_PHDR"
  shows "\<exists>f'. read_phdr F off ph f = (take SIZEOF_PHDR (drop (unat off) content), f')"
  using assms unfolding good_file_def read_phdr_def by (simp add: split_def overlay_def SIZEOF_PHDR_def)

lemma copy_segment_ok:
  assumes F: "good_file F fpos content" and s: "seg_ok content h" and m: "mapped pml4 st (unat (p_vaddr h)) (unat (p_vaddr h) + unat (p_memsz h))"
  shows "\<exists>st'. copy_segment F pml4 h st = Inr st' \<and> lvm st' = lvm st \<and> seg_loaded content (view st') h
    \<and> (\<forall>x. x \<notin> seg_span h \<longrightarrow> view st' x = view st x)"
proof -
  let ?a = "unat (p_vaddr h)" and ?n = "unat (p_filesz h)" and ?m = "unat (p_memsz h)"
  have nm: "?n \<le> ?m" "?a + ?m < 2 ^ 47" and len: "unat (p_offset h) + ?n \<le> length content" using s by (auto simp: seg_ok_def word_le_nat_alt)
  define bs where "bs = take ?n (drop (unat (p_offset h)) content)"
  have lb: "length bs = ?n" using len by (simp add: bs_def)
  obtain f1 f2 where f: "f_seek F (p_offset h) (lfile st) = (True, f1)" "f_read F (p_filesz h) f1 = (bs, f2)"
    using F unfolding good_file_def bs_def by (metis prod.collapse)
  have "mapped pml4 (st\<lparr>lfile := f2\<rparr>) ?a (?a + length bs)" using mapped_mono[OF m] nm lb by simp
  from user_store_ok[OF this] obtain st1 where 1: "user_store pml4 (p_vaddr h) bs (st\<lparr>lfile := f2\<rparr>) = Inr st1" "lvm st1 = lvm st" "view st1 = put ?a bs (view st)"
    using nm lb by auto
  have sub: "unat (p_memsz h - p_filesz h) = ?m - ?n" using nm(1) by (simp add: unat_sub word_le_nat_alt)
  have ad: "p_vaddr h + p_filesz h = of_nat (?a + ?n)" by simp
  let ?z = "replicate (?m - ?n) (0 :: u8)"
  have "mapped pml4 st1 (?a + ?n) (?a + ?n + length ?z)" using mapped_mono[OF m] nm mapped_cong[OF 1(2)] by simp
  from user_store_ok[OF this] obtain st2 where 2: "user_store pml4 (p_vaddr h + p_filesz h) ?z st1 = Inr st2" "lvm st2 = lvm st1" "view st2 = put (?a + ?n) ?z (view st1)"
    using nm unfolding ad by auto
  have "copy_segment F pml4 h st = Inr st2" using f 1(1) 2(1) sub by (simp add: copy_segment_def)
  moreover have "seg_loaded content (view st2) h" unfolding seg_loaded_def
    using 2(3) 1(3) lb len by (auto simp: put_def bs_def)
  moreover have "view st2 x = view st x" if "x \<notin> seg_span h" for x using 2(3) 1(3) lb nm(1) that by (auto simp: put_def seg_span_def)
  ultimately show ?thesis using 1(2) 2(2) by auto
qed

lemma seg_loaded_cong: "\<forall>x \<in> seg_span h. v x = w x \<Longrightarrow> seg_loaded content v h = seg_loaded content w h"
  by (auto simp: seg_loaded_def seg_span_def)

lemma copy_segments_ok:
  assumes F: "good_file F fpos content" and "length ph = SIZEOF_PHDR" "\<forall>h \<in> set (headers content eh off n). length h = SIZEOF_PHDR"
    "\<forall>h \<in> set (segments (headers content eh off n)). seg_ok content h \<and> mapped pml4 st (unat (p_vaddr h)) (unat (p_vaddr h) + unat (p_memsz h))"
    "sorted_wrt apart (segments (headers content eh off n))"
  shows "\<exists>st'. copy_segments F pml4 eh n off ph st = Inr st' \<and> lvm st' = lvm st
    \<and> (\<forall>h \<in> set (segments (headers content eh off n)). seg_loaded content (view st') h)
    \<and> (\<forall>x. (\<forall>h \<in> set (segments (headers content eh off n)). x \<notin> seg_span h) \<longrightarrow> view st' x = view st x)"
  using assms(2-)
proof (induction n arbitrary: off ph st)
  case 0
  then show ?case by (simp add: segments_def)
next
  case (Suc n)
  define h where "h = take SIZEOF_PHDR (drop (unat off) content)"
  let ?off = "off + ucast (e_phentsize eh)" and ?hs = "headers content eh (off + ucast (e_phentsize eh)) n"
  have hl: "length h = SIZEOF_PHDR" using Suc.prems(2) by (simp add: h_def)
  obtain f' where r: "read_phdr F off ph (lfile st) = (h, f')" using read_phdr_good[OF F Suc.prems(1)] hl unfolding h_def by blast
  let ?st = "st\<lparr>lfile := f'\<rparr>"
  have v0: "view ?st = view st" "mapped pml4 ?st = mapped pml4 st" by simp_all
  have hs: "headers content eh off (Suc n) = h # ?hs" by (simp add: h_def)
  have h2: "\<forall>h \<in> set ?hs. length h = SIZEOF_PHDR" using Suc.prems(2) by simp
  show ?case
  proof (cases "p_type h = PT_LOAD")
    case False
    then have sg: "segments (headers content eh off (Suc n)) = segments ?hs" unfolding hs by (simp add: segments_def)
    have "\<exists>st'. copy_segments F pml4 eh n ?off h ?st = Inr st' \<and> lvm st' = lvm ?st \<and> (\<forall>h \<in> set (segments ?hs). seg_loaded content (view st') h)
      \<and> (\<forall>x. (\<forall>h \<in> set (segments ?hs). x \<notin> seg_span h) \<longrightarrow> view st' x = view ?st x)"
      using Suc.prems(3,4) unfolding sg by (intro Suc.IH[OF hl h2]) (simp_all add: v0)
    then show ?thesis unfolding sg using r False v0 by simp
  next
    case True
    then have sg: "segments (headers content eh off (Suc n)) = h # segments ?hs" unfolding hs by (simp add: segments_def)
    note p = Suc.prems(3,4)[unfolded sg]
    have "seg_ok content h" "mapped pml4 ?st (unat (p_vaddr h)) (unat (p_vaddr h) + unat (p_memsz h))" using p(1) v0 by simp_all
    from copy_segment_ok[OF F this] obtain st1 where 1: "copy_segment F pml4 h ?st = Inr st1" "lvm st1 = lvm st" "seg_loaded content (view st1) h"
      "\<forall>x. x \<notin> seg_span h \<longrightarrow> view st1 x = view st x" using v0 by auto
    have m1: "mapped pml4 st1 = mapped pml4 st" by (rule mapped_cong[OF 1(2)])
    have "\<exists>st'. copy_segments F pml4 eh n ?off h st1 = Inr st' \<and> lvm st' = lvm st1 \<and> (\<forall>h \<in> set (segments ?hs). seg_loaded content (view st') h)
      \<and> (\<forall>x. (\<forall>h \<in> set (segments ?hs). x \<notin> seg_span h) \<longrightarrow> view st' x = view st1 x)"
      using p m1 by (intro Suc.IH[OF hl h2]) simp_all
    then obtain st' where 2: "copy_segments F pml4 eh n ?off h st1 = Inr st'" "lvm st' = lvm st1" "\<forall>h \<in> set (segments ?hs). seg_loaded content (view st') h"
      "\<forall>x. (\<forall>h \<in> set (segments ?hs). x \<notin> seg_span h) \<longrightarrow> view st' x = view st1 x" by blast
    have "\<forall>x \<in> seg_span h. view st' x = view st1 x" using 2(4) p(2) by (auto simp: apart_def)
    then have "seg_loaded content (view st') h" using 1(3) seg_loaded_cong by blast
    then have "\<forall>h' \<in> set (h # segments ?hs). seg_loaded content (view st') h'" using 2(3) by simp
    moreover have "copy_segments F pml4 eh (Suc n) off ph st = Inr st'" using r True 1(1) 2(1) by simp
    ultimately show ?thesis unfolding sg using 1(2,4) 2(2,4) by auto
  qed
qed

subsection \<open>A sample file and address space\<close>

definition list_file :: "bytes \<Rightarrow> u64 file_ops" where
  "list_file content = \<lparr>f_seek = (\<lambda>k f. (True, k)), f_read = (\<lambda>n f. (take (unat n) (drop (unat f) content), f + n))\<rparr>"

lemma list_file_good: "good_file (list_file content) (\<lambda>f. f) content"
  by (simp add: good_file_def list_file_def)

definition full_map :: "u64 load_state" where
  "full_map = \<lparr>lvm = \<lparr>pmem = (\<lambda>_. 0x81), vmm = blank_mm\<rparr>, lfile = 0, lmem = (\<lambda>_. 0)\<rparr>"

lemma full_map_translates: "translate pml4 (pmem (lvm full_map)) a \<noteq> None"
  by (simp add: translate_def full_map_def eval_nat_numeral stops_def PAGE_PRESENT_def PAGE_PS_def)

lemma full_map_mapped: "mapped pml4 full_map lo hi"
  using full_map_translates by (simp add: mapped_def)

definition sample_phdr :: "u64 \<Rightarrow> u64 \<Rightarrow> bytes" where
  "sample_phdr va memsz = put32 0 1 (put64 8 58 (put64 16 va (put64 32 2 (put64 40 memsz (replicate 56 0)))))"

lemma sample_phdr_fields:
  "length (sample_phdr va memsz) = 56" "p_type (sample_phdr va memsz) = PT_LOAD" "p_offset (sample_phdr va memsz) = 58" "p_vaddr (sample_phdr va memsz) = va"
  "p_filesz (sample_phdr va memsz) = 2" "p_memsz (sample_phdr va memsz) = memsz"
  by (simp_all add: sample_phdr_def p_type_def p_offset_def p_vaddr_def p_filesz_def p_memsz_def PT_LOAD_def)

subsection \<open>Properties\<close>

text \<open>C14: The stack a program starts with.  When the pages of the stack are mapped and the arguments fit into them, building the stack succeeds; at the stack
  pointer, which is a multiple of 16, lie the number of arguments, a pointer to each argument string, a zero, a pointer to each environment string, a
  zero, and the auxiliary vector with the address, size and number of the program headers; the pointers lead to the strings with their
  terminators, and no byte outside of the stack has changed.\<close>

theorem elf_stack_layout:
  assumes "mapped pml4 st (2 ^ 47 - 0x8000) (2 ^ 47)" "args_fit argv envp"
  shows "\<exists>r st'. build_stack pml4 eh pheaders_base t1 t2 argv envp st = Inr (of_nat r, st') \<and> r mod 16 = 0
    \<and> start_stack (view st') r argv envp (start_auxv pheaders_base eh (of_nat (env_addr argv envp - 16)))
    \<and> (\<forall>x. \<not> (2 ^ 47 - 0x8000 \<le> x \<and> x < 2 ^ 47) \<longrightarrow> view st' x = view st x)"
proof -
  from build_stack_ok[OF assms, of eh pheaders_base t1 t2] obtain r st' where
    "build_stack pml4 eh pheaders_base t1 t2 argv envp st = Inr (of_nat r, st')" "r mod 16 = 0"
    "start_stack (view st') r argv envp (start_auxv pheaders_base eh (of_nat (env_addr argv envp - 16)))"
    "\<forall>x. \<not> (2 ^ 47 - 0x8000 \<le> x \<and> x < 2 ^ 47) \<longrightarrow> view st' x = view st x" by (elim exE conjE) (rule that)
  then show ?thesis by (intro exI[of _ r] exI[of _ st'] conjI)
qed

theorem elf_stack_layout_witness:
  "\<exists>r st'. build_stack 0 [] 0 0 0 [[97]] [] full_map = Inr (of_nat r, st') \<and> r mod 16 = 0 \<and> word_at (view st') r = 1
    \<and> cstr_at (view st') (unat (word_at (view st') (r + 8))) [97]"
proof -
  have "args_fit [[97]] []" by (simp add: args_fit_def strings_len_def)
  from elf_stack_layout[OF full_map_mapped[of 0] this, of "[]" 0 0 0] obtain r and st' :: "u64 load_state"
    where 1: "build_stack 0 [] 0 0 0 [[97]] [] full_map = Inr (of_nat r, st')" "r mod 16 = 0"
      "start_stack (view st') r [[97]] [] (start_auxv 0 [] (of_nat (env_addr [[97]] [] - 16)))" by (elim exE conjE) (rule that)
  have "word_at (view st') r = 1" "cstr_at (view st') (unat (word_at (view st') (r + 8))) [97]" using 1(3) by (simp_all add: start_stack_def)
  with 1(1,2) show ?thesis by (intro exI[of _ r] exI[of _ st'] conjI)
qed

text \<open>C15: The segments of an executable whose headers are complete, whose segments lie apart in mapped user memory and hold no more bytes in the file than
  in memory are copied: every byte of a segment is the byte of the file, or zero beyond those, and no other byte changes.\<close>

theorem elf_segments_loaded:
  assumes "good_file F fpos content" "length ph = SIZEOF_PHDR" "\<forall>h \<in> set (headers content eh off n). length h = SIZEOF_PHDR"
    "\<forall>h \<in> set (segments (headers content eh off n)). seg_ok content h \<and> mapped pml4 st (unat (p_vaddr h)) (unat (p_vaddr h) + unat (p_memsz h))"
    "sorted_wrt apart (segments (headers content eh off n))"
  shows "\<exists>st'. copy_segments F pml4 eh n off ph st = Inr st'
    \<and> (\<forall>h \<in> set (segments (headers content eh off n)). seg_loaded content (view st') h)
    \<and> (\<forall>x. (\<forall>h \<in> set (segments (headers content eh off n)). x \<notin> seg_span h) \<longrightarrow> view st' x = view st x)"
  using copy_segments_ok[OF assms] by blast

theorem elf_segments_loaded_witness:
  "\<exists>st'. copy_segments (list_file (sample_phdr 0x1000 3 @ [0, 0, 7, 8])) 0 [] 1 0 (replicate 56 0) full_map = Inr st'
    \<and> view st' 0x1000 = 7 \<and> view st' 0x1001 = 8 \<and> view st' 0x1002 = 0"
proof -
  let ?p = "sample_phdr 0x1000 3" and ?c = "sample_phdr 0x1000 3 @ [0, 0, 7, 8]"
  have h: "headers ?c [] 0 1 = [?p]" by (simp add: SIZEOF_PHDR_def sample_phdr_fields)
  have s: "segments [?p] = [?p]" by (simp add: segments_def sample_phdr_fields)
  have "\<exists>st'. copy_segments (list_file ?c) 0 [] 1 0 (replicate 56 0) full_map = Inr st'
    \<and> (\<forall>h \<in> set (segments (headers ?c [] 0 1)). seg_loaded ?c (view st') h)
    \<and> (\<forall>x. (\<forall>h \<in> set (segments (headers ?c [] 0 1)). x \<notin> seg_span h) \<longrightarrow> view st' x = view full_map x)"
    by (rule elf_segments_loaded[OF list_file_good]) (simp_all only: h s, simp_all add: SIZEOF_PHDR_def sample_phdr_fields seg_ok_def full_map_mapped)
  then obtain st' where st': "copy_segments (list_file ?c) 0 [] 1 0 (replicate 56 0) full_map = Inr st'" "seg_loaded ?c (view st') ?p" unfolding h s by auto
  have b: "view st' (0x1000 + k) = (if k < 2 then ?c ! (58 + k) else 0)" if "k < 3" for k
    using st'(2) that by (simp add: seg_loaded_def sample_phdr_fields)
  show ?thesis using st'(1) b[of 0] b[of 1] b[of 2] by (simp add: nth_append sample_phdr_fields)
qed



text \<open>The pass that merges overlapping regions accepts an image in which a writable page and an executable one overlap: after a merge it goes on behind
  the merged region without comparing it with the next one.\<close>

lemma elf_overlap_accepted:
  "merge_regs [\<lparr>reg_base = 0x1000, reg_top = 0x4000, reg_perms = PAGE_PRESENT OR PAGE_US OR PAGE_RW OR PAGE_XD\<rparr>, \<lparr>reg_base = 0x2000, reg_top = 0x3000, reg_perms = PAGE_PRESENT OR PAGE_US OR PAGE_RW OR PAGE_XD\<rparr>,
      \<lparr>reg_base = 0x3000, reg_top = 0x5000, reg_perms = PAGE_PRESENT OR PAGE_US\<rparr>]
    = Some [\<lparr>reg_base = 0x1000, reg_top = 0x4000, reg_perms = PAGE_PRESENT OR PAGE_US OR PAGE_RW OR PAGE_XD\<rparr>, \<lparr>reg_base = 0x3000, reg_top = 0x5000, reg_perms = PAGE_PRESENT OR PAGE_US\<rparr>]
  \<and> merge_regs [\<lparr>reg_base = 0x1000, reg_top = 0x4000, reg_perms = PAGE_PRESENT OR PAGE_US OR PAGE_RW OR PAGE_XD\<rparr>, \<lparr>reg_base = 0x3000, reg_top = 0x5000, reg_perms = PAGE_PRESENT OR PAGE_US\<rparr>] = None"
  by (simp add: PAGE_PRESENT_def PAGE_US_def PAGE_RW_def PAGE_XD_def)

end
