(* ===== verification/Devfs.thy ===== *)
theory Devfs
  imports Vfs Tty ByteFields
begin

section \<open>The device file system (kernel/devfs/devfs.c)\<close>

text \<open>
  The tree of devices and the driver functions of the mount \<^verbatim>\<open>/dev\<close>, on a driver state that holds the terminals and the handles the driver has
  given out.  A handle is the address of its \<^verbatim>\<open>dev_handle_t\<close>, 0 the null pointer; \<open>dev_stale\<close> records the use of a handle that is not allocated.  The
  list of a node's children is the chain of its \<^verbatim>\<open>co\<close> links, and a position in it what is left of the list.  What the code takes from memory it has
  not written, and how a read goes on that has to wait for input, are arguments.
\<close>

datatype dev_type = DEV_TYPE_DIR | DEV_TYPE_TTY nat

datatype devfs_tree_node_t = DevNode (dn_name: bytes) (dn_inode: u64) (dn_type: dev_type) (dn_sub: "devfs_tree_node_t list")

record dev_handle_t =
  dh_node :: devfs_tree_node_t
  dh_index :: "devfs_tree_node_t list"

record devfs =
  devfs_root :: devfs_tree_node_t
  dev_handles :: "nat \<Rightarrow> dev_handle_t option"
  next_dev_handle :: nat
  ttys :: "tty_handle_t list"
  dev_id :: u64
  dev_inode_num :: u64
  dev_stale :: bool

text \<open>\<open>junk_cntrl\<close>: what the variable \<^verbatim>\<open>cntrl\<close> of \<^verbatim>\<open>devfs_open\<close> held; \<open>junk_index\<close>: what new memory held for \<^verbatim>\<open>read_index\<close>; \<open>resume\<close>: the bytes a waiting read
  still delivers, and the terminal after it.\<close>

record dev_env =
  junk_cntrl :: bool
  junk_index :: "devfs_tree_node_t list"
  resume :: "nat \<Rightarrow> tty_handle_t \<Rightarrow> bytes \<times> tty_handle_t"

definition TTY_READ_BUFFER_SIZE :: u64 where "TTY_READ_BUFFER_SIZE = 0x4000"
definition S_IFCHR :: u32 where "S_IFCHR = 0x2000"
definition S_IFDIR_DEV :: u32 where "S_IFDIR_DEV = 0x4000"
definition DT_CHR :: u8 where "DT_CHR = 2"
definition DT_DIR :: u8 where "DT_DIR = 4"
definition SIZEOF_STAT :: nat where "SIZEOF_STAT = 144"
definition SIZEOF_DEV_HANDLE :: u64 where "SIZEOF_DEV_HANDLE = 16"

text \<open>A status as the number that is returned where the caller expects a size.\<close>

fun status_num :: "file_status_t \<Rightarrow> u64" where
  "status_num FILE_OK = 0"
| "status_num FILE_ERROR = 1"
| "status_num FILE_DNE = 2"
| "status_num FILE_BUSY = 3"
| "status_num FILE_NO_SUPPORT = 4"
| "status_num FILE_BAD_FLAGS = 5"
| "status_num FILE_NOT_DIR = 6"

subsection \<open>Opening\<close>

definition path_entry_len :: "bytes \<Rightarrow> nat" where
  "path_entry_len p = length (takeWhile (\<lambda>c. c \<noteq> 0 \<and> c \<noteq> SLASH) p)"

definition skip_entry :: "bytes \<Rightarrow> bytes" where
  "skip_entry p = (let rest = drop (path_entry_len p) p in if rest \<noteq> [] \<and> hd rest = SLASH then tl rest else rest)"

lemma skip_entry_shorter: "p \<noteq> [] \<Longrightarrow> hd p \<noteq> 0 \<Longrightarrow> length (skip_entry p) < length p"
  by (cases p) (auto simp: skip_entry_def path_entry_len_def Let_def)

text \<open>The walk down the tree; paths come without their terminator.\<close>

function devfs_walk :: "bool \<Rightarrow> devfs_tree_node_t \<Rightarrow> bytes \<Rightarrow> devfs_tree_node_t option" where
  "devfs_walk cntrl info p =
     (if p = [] \<or> hd p = 0 then if cntrl then None else Some info
      else case find (\<lambda>w. dn_name w = take (path_entry_len p) p) (dn_sub info) of
             None \<Rightarrow> None
           | Some w \<Rightarrow> devfs_walk False w (skip_entry p))"
  by pat_completeness auto
termination
  by (relation "measure (\<lambda>(c, n, p). length p)") (auto simp: skip_entry_shorter)

declare devfs_walk.simps [simp del]

definition devfs_open :: "dev_env \<Rightarrow> u64 \<Rightarrow> bytes \<Rightarrow> u32 \<Rightarrow> u32 \<Rightarrow> devfs \<Rightarrow> nat option \<times> devfs" where
  "devfs_open E c p flags mode d =
     (case devfs_walk (junk_cntrl E) (devfs_root d) p of
        None \<Rightarrow> (None, d)
      | Some info \<Rightarrow>
          (Some (next_dev_handle d),
           d\<lparr>dev_handles := (dev_handles d)(next_dev_handle d \<mapsto> \<lparr>dh_node = info, dh_index = junk_index E\<rparr>),
             next_dev_handle := Suc (next_dev_handle d)\<rparr>))"

text \<open>The handle behind an address, and what is returned for a null one where the code tests it.\<close>

definition at_dev :: "'r \<Rightarrow> (dev_handle_t \<Rightarrow> devfs \<Rightarrow> 'r \<times> devfs) \<Rightarrow> nat \<Rightarrow> devfs \<Rightarrow> 'r \<times> devfs" where
  "at_dev err f h d = (case dev_handles d h of None \<Rightarrow> (err, d\<lparr>dev_stale := True\<rparr>) | Some dh \<Rightarrow> f dh d)"

definition on_dev :: "'r \<Rightarrow> (dev_handle_t \<Rightarrow> devfs \<Rightarrow> 'r \<times> devfs) \<Rightarrow> nat \<Rightarrow> devfs \<Rightarrow> 'r \<times> devfs" where
  "on_dev err f h d = (if h = 0 then (err, d) else at_dev err f h d)"

definition devfs_close :: "nat \<Rightarrow> devfs \<Rightarrow> devfs" where
  "devfs_close h d = snd (on_dev () (\<lambda>_ d. ((), d\<lparr>dev_handles := (dev_handles d)(h := None)\<rparr>)) h d)"

subsection \<open>Operations\<close>

definition dev_stat_bytes :: "devfs \<Rightarrow> devfs_tree_node_t \<Rightarrow> bytes" where
  "dev_stat_bytes d node =
     (let (mode, sz) = (case dn_type node of DEV_TYPE_DIR \<Rightarrow> (S_IFDIR_DEV, SIZEOF_DEV_HANDLE) | DEV_TYPE_TTY _ \<Rightarrow> (S_IFCHR, TTY_READ_BUFFER_SIZE))
      in put64 56 1 (put64 64 sz (put64 48 sz (put32 24 mode (put64 16 1 (put64 8 (dn_inode node)
           (put64 0 (dev_id d) (replicate SIZEOF_STAT 0))))))))"

definition devfs_stat :: "nat \<Rightarrow> devfs \<Rightarrow> (file_status_t \<times> bytes) \<times> devfs" where
  "devfs_stat = on_dev (FILE_ERROR, []) (\<lambda>dh d. ((FILE_OK, dev_stat_bytes d (dh_node dh)), d))"

definition devfs_read :: "dev_env \<Rightarrow> nat \<Rightarrow> u64 \<Rightarrow> devfs \<Rightarrow> (u64 \<times> bytes) \<times> devfs" where
  "devfs_read E h count = on_dev (status_num FILE_ERROR, [])
     (\<lambda>dh d. case dn_type (dh_node dh) of
        DEV_TYPE_DIR \<Rightarrow> ((status_num FILE_NO_SUPPORT, []), d)
      | DEV_TYPE_TTY i \<Rightarrow>
          (case tty_read (unat count) (ttys d ! i) of
             Read_done bs t \<Rightarrow> ((of_nat (length bs), bs), d\<lparr>ttys := (ttys d)[i := t]\<rparr>)
           | Read_wait bs k t \<Rightarrow>
               let (bs1, t1) = resume E k t
               in ((of_nat (length bs + length bs1), bs @ bs1), d\<lparr>ttys := (ttys d)[i := t1]\<rparr>))) h"

definition devfs_write :: "nat \<Rightarrow> bytes \<Rightarrow> devfs \<Rightarrow> u64 \<times> devfs" where
  "devfs_write h buf = on_dev (status_num FILE_ERROR)
     (\<lambda>dh d. case dn_type (dh_node dh) of
        DEV_TYPE_DIR \<Rightarrow> (status_num FILE_NO_SUPPORT, d)
      | DEV_TYPE_TTY i \<Rightarrow> (of_nat (length buf), d\<lparr>ttys := (ttys d)[i := tty_write buf (ttys d ! i)]\<rparr>)) h"

definition devfs_is_interactive :: "nat \<Rightarrow> devfs \<Rightarrow> u8 \<times> devfs" where
  "devfs_is_interactive = on_dev (ucast (status_num FILE_ERROR))
     (\<lambda>dh d. (case dn_type (dh_node dh) of DEV_TYPE_DIR \<Rightarrow> 0 | DEV_TYPE_TTY i \<Rightarrow> 1, d))"

definition devfs_dup :: "nat \<Rightarrow> devfs \<Rightarrow> nat option \<times> devfs" where
  "devfs_dup = on_dev None
     (\<lambda>dh d. (Some (next_dev_handle d),
        d\<lparr>dev_handles := (dev_handles d)(next_dev_handle d \<mapsto> dh), next_dev_handle := Suc (next_dev_handle d)\<rparr>))"

text \<open>A null handle gives 0, which is \<^verbatim>\<open>FILE_OK\<close>.\<close>

definition devfs_open_dir :: "nat \<Rightarrow> devfs \<Rightarrow> file_status_t \<times> devfs" where
  "devfs_open_dir h = on_dev FILE_OK
     (\<lambda>dh d. case dn_type (dh_node dh) of
        DEV_TYPE_DIR \<Rightarrow> (FILE_OK, d\<lparr>dev_handles := (dev_handles d)(h \<mapsto> dh\<lparr>dh_index := dn_sub (dh_node dh)\<rparr>)\<rparr>)
      | DEV_TYPE_TTY _ \<Rightarrow> (FILE_NO_SUPPORT, d)) h"

text \<open>The bytes of a \<^verbatim>\<open>dir_info_t\<close>; what lies behind the terminator of the name is not written.\<close>

definition dir_info_bytes :: "u64 \<Rightarrow> u64 \<Rightarrow> u16 \<Rightarrow> u8 \<Rightarrow> bytes \<Rightarrow> bytes" where
  "dir_info_bytes ino pos rec_len ty name = le_bytes 8 (unat ino) @ le_bytes 8 (unat pos) @ le_bytes 2 (unat rec_len) @ [ty] @ name @ [0]"

definition devfs_read_dir :: "nat \<Rightarrow> devfs \<Rightarrow> (file_status_t \<times> bytes) \<times> devfs" where
  "devfs_read_dir = at_dev (FILE_DNE, [])
     (\<lambda>dh d. case dh_index dh of
        [] \<Rightarrow> ((FILE_DNE, []), d)
      | w # _ \<Rightarrow> ((FILE_OK, dir_info_bytes (dn_inode w) 0 0 (case dn_type w of DEV_TYPE_DIR \<Rightarrow> DT_DIR | DEV_TYPE_TTY _ \<Rightarrow> DT_CHR) (dn_name w)), d))"

definition devfs_next_dir :: "nat \<Rightarrow> devfs \<Rightarrow> file_status_t \<times> devfs" where
  "devfs_next_dir h = at_dev FILE_DNE
     (\<lambda>dh d. case dh_index dh of
        [] \<Rightarrow> (FILE_DNE, d)
      | _ # ws \<Rightarrow> (FILE_OK, d\<lparr>dev_handles := (dev_handles d)(h \<mapsto> dh\<lparr>dh_index := ws\<rparr>)\<rparr>)) h"

subsection \<open>Start-up\<close>

definition dev_path :: bytes where "dev_path = [0x2F, 0x64, 0x65, 0x76]"
definition serial1_name :: bytes where "serial1_name = [0x74, 0x74, 0x79, 0x53, 0x30]"
definition serial2_name :: bytes where "serial2_name = [0x74, 0x74, 0x79, 0x53, 0x31]"

text \<open>\<open>com1\<close> and \<open>com2\<close> are the terminals of the two serial ports.\<close>

definition devfs_tree :: devfs_tree_node_t where
  "devfs_tree = DevNode [] 1 DEV_TYPE_DIR [DevNode serial2_name 3 (DEV_TYPE_TTY 1) [], DevNode serial1_name 2 (DEV_TYPE_TTY 0) []]"

definition devfs_mount :: "dev_env \<Rightarrow> (devfs, nat) fs_mount_t \<Rightarrow> (devfs, nat) fs_mount_t" where
  "devfs_mount E m =
     fs_mount_assign_next_dir (fs_mount_assign_read_dir (fs_mount_assign_open_dir (fs_mount_assign_dup
       (fs_mount_assign_is_interactive (fs_mount_assign_write (fs_mount_assign_read (fs_mount_assign_stat
         (fs_mount_assign_close (fs_mount_assign_open m (devfs_open E)) devfs_close) devfs_stat) (devfs_read E)) devfs_write)
           devfs_is_interactive) devfs_dup) devfs_open_dir) devfs_read_dir) devfs_next_dir"

definition devfs_init :: "dev_env \<Rightarrow> tty_handle_t \<Rightarrow> tty_handle_t \<Rightarrow> (devfs, nat) vfs \<Rightarrow> (devfs, nat) vfs outcome" where
  "devfs_init E com1 com2 s =
     (let s1 = s\<lparr>driver := (driver s)\<lparr>dev_inode_num := 4, devfs_root := devfs_tree, ttys := [com1, com2]\<rparr>\<rparr>
      in case fs_mount dev_path 0 s1 of
           (None, _) \<Rightarrow> Inl Undefined
         | (Some m, s2) \<Rightarrow>
             let (devid, s3) = fs_assign_id (s2\<lparr>mounts := (mounts s2)[m := devfs_mount E (mounts s2 ! m)]\<rparr>)
             in Inr (s3\<lparr>driver := (driver s3)\<lparr>dev_id := devid\<rparr>\<rparr>))"

subsection \<open>A terminal behind its path\<close>

lemma devfs_mount_simps [simp]:
  "m_open (devfs_mount E m) = devfs_open E" "m_read (devfs_mount E m) = devfs_read E" "m_write (devfs_mount E m) = devfs_write"
  "m_is_interactive (devfs_mount E m) = devfs_is_interactive" "m_dup (devfs_mount E m) = devfs_dup" "m_close (devfs_mount E m) = devfs_close"
  "cntx (devfs_mount E m) = cntx m"
  by (simp_all add: devfs_mount_def fs_mount_assign_open_def fs_mount_assign_close_def fs_mount_assign_stat_def fs_mount_assign_read_def
    fs_mount_assign_write_def fs_mount_assign_is_interactive_def fs_mount_assign_dup_def fs_mount_assign_open_dir_def
    fs_mount_assign_read_dir_def fs_mount_assign_next_dir_def)

definition serial_name :: "nat \<Rightarrow> bytes" where
  "serial_name i = (if i = 0 then serial1_name else serial2_name)"

lemma serial_walk:
  assumes "i < 2"
  shows "\<exists>ino. devfs_walk c devfs_tree (serial_name i) = Some (DevNode (serial_name i) ino (DEV_TYPE_TTY i) [])"
proof -
  have n: "i = 0 \<or> i = 1" using assms by auto
  have l: "path_entry_len (serial_name i) = length (serial_name i)" "skip_entry (serial_name i) = []" "serial_name i \<noteq> []" "hd (serial_name i) \<noteq> 0"
    using n by (auto simp: path_entry_len_def skip_entry_def serial_name_def serial1_name_def serial2_name_def SLASH_def)
  have f: "\<exists>ino. find (\<lambda>w. dn_name w = serial_name i) (dn_sub devfs_tree) = Some (DevNode (serial_name i) ino (DEV_TYPE_TTY i) [])"
    using n by (auto simp: devfs_tree_def serial_name_def serial1_name_def serial2_name_def)
  have "devfs_walk False w [] = Some w" for w by (subst devfs_walk.simps) simp
  then show ?thesis using l f by (subst devfs_walk.simps) auto
qed

lemma serial_mount:
  assumes "i < 2" "fs_root s = FsNode [] [FsNode (tl dev_path) [] (Some m)] None"
  shows "find_mount s (dev_path @ SLASH # serial_name i) = (Some (m, serial_name i @ [0]), tl dev_path @ SLASH # serial_name i @ [0])"
proof -
  have n: "i = 0 \<or> i = 1" using assms by auto
  have c: "clean_path (dev_path @ SLASH # serial_name i) = tl dev_path @ SLASH # serial_name i @ [0]"
  proof -
    let ?cs = "[tl dev_path, serial_name i]"
    have ok: "\<forall>c \<in> set ?cs. proper c" "\<forall>c \<in> set ?cs. c \<noteq> [] \<and> c \<noteq> [DOT] \<and> c \<noteq> [DOT, DOT]"
      using n by (auto simp: proper_def dev_path_def serial_name_def serial1_name_def serial2_name_def SLASH_def)
    have z: "0 \<notin> set (join ?cs)" and e: "dev_path @ SLASH # serial_name i = SLASH # join ?cs"
      using n by (auto simp: dev_path_def serial_name_def serial1_name_def serial2_name_def SLASH_def)
    show ?thesis unfolding e using clean_path_join[OF z] comps_join[OF _ ok(1)] normalise_id[OF ok(2)] by simp
  qed
  have p: "path_next (tl dev_path @ SLASH # serial_name i @ [0]) = (tl dev_path, serial_name i @ [0])"
    using n by (auto simp: path_next_def dev_path_def serial_name_def serial1_name_def serial2_name_def SLASH_def)
  have "mount_walk (fs_root s) (tl dev_path @ SLASH # serial_name i @ [0]) None = Some (m, serial_name i @ [0])"
    using p assms(2) by (subst mount_walk.simps) (simp add: Let_def mount_walk_leaf)
  then show ?thesis using c by (simp add: find_mount_def Let_def)
qed

lemma devfs_ready:
  assumes "fs_init d = Inr s0" "devfs_init E com1 com2 s0 = Inr s1"
  shows "vfs_inv s1 []" "fs_root s1 = FsNode [] [FsNode (tl dev_path) [] (Some 0)] None" "mounts s1 = [devfs_mount E (mount_stubs 0)]"
    "ttys (driver s1) = [com1, com2]" "devfs_root (driver s1) = devfs_tree" "next_dev_handle (driver s1) = next_dev_handle d"
proof -
  have ok: "vfs_inv s0 []" using fs_init_ok[OF assms(1)] by (simp add: vfs_ok_def)
  have s0: "fs_root s0 = FsNode [] [] None" "mounts s0 = []" "driver s0 = d" using assms(1) by (auto simp: fs_init_def split: sum.splits)
  have "tl dev_path \<noteq> []" by (simp add: dev_path_def)
  then show "vfs_inv s1 []" "fs_root s1 = FsNode [] [FsNode (tl dev_path) [] (Some 0)] None" "mounts s1 = [devfs_mount E (mount_stubs 0)]"
    "ttys (driver s1) = [com1, com2]" "devfs_root (driver s1) = devfs_tree" "next_dev_handle (driver s1) = next_dev_handle d"
    using assms(2) s0 ok by (auto simp: devfs_init_def fs_mount_def fs_assign_id_def Let_def vfs_inv_def)
qed

lemma devfs_init_starts: "\<exists>s'. devfs_init E com1 com2 s = Inr s'"
  by (cases "fs_root s") (simp add: devfs_init_def fs_mount_def fs_assign_id_def Let_def dev_path_def)

lemma devfs_open_serial:
  assumes "fs_init d = Inr s0" "devfs_init E com1 com2 s0 = Inr s1" "i < 2" "next_dev_handle d \<noteq> 0"
  shows "\<exists>h s2 ino. fs_open (dev_path @ SLASH # serial_name i) O_RDWR s1 = Some (Inr (Some h, s2)) \<and> fh_mount h = 0 \<and> fh_flags h = O_RDWR
    \<and> mounts s2 = [devfs_mount E (mount_stubs 0)] \<and> ttys (driver s2) = [com1, com2] \<and> fh_handle h \<noteq> 0
    \<and> dev_handles (driver s2) (fh_handle h) = Some \<lparr>dh_node = DevNode (serial_name i) ino (DEV_TYPE_TTY i) [], dh_index = junk_index E\<rparr>"
proof -
  note R = devfs_ready[OF assms(1,2)]
  obtain ino where w: "devfs_walk (junk_cntrl E) devfs_tree (serial_name i) = Some (DevNode (serial_name i) ino (DEV_TYPE_TTY i) [])"
    using serial_walk[OF assms(3)] by blast
  let ?n = "next_dev_handle d"
  define d1 where "d1 = (driver s1)\<lparr>dev_handles := (dev_handles (driver s1))(?n \<mapsto>
    \<lparr>dh_node = DevNode (serial_name i) ino (DEV_TYPE_TTY i) [], dh_index = junk_index E\<rparr>), next_dev_handle := Suc ?n\<rparr>"
  have o: "devfs_open E 0 (serial_name i) O_RDWR 0 (driver s1) = (Some ?n, d1)" using w R(5,6) by (simp add: devfs_open_def d1_def)
  have "vfs_inv (s1\<lparr>driver := d1\<rparr>) []" using R(1) by simp
  from lookup_register_ok[OF this, of "tl dev_path @ SLASH # serial_name i"] obtain f s2 where
    l: "lookup_register (tl dev_path @ SLASH # serial_name i) (s1\<lparr>driver := d1\<rparr>) = Some (Inr (f, s2))" "driver s2 = d1" "mounts s2 = mounts s1" by auto
  have "fs_open (dev_path @ SLASH # serial_name i) O_RDWR s1 = Some (Inr (Some \<lparr>fh_mount = 0, fh_handle = ?n, fh_shared = f, fh_flags = O_RDWR\<rparr>, s2))"
    using o l(1) serial_mount[OF assms(3) R(2)] R(3) by (simp add: fs_open_def fs_open_mode_def Let_def mount_stubs_def butlast_append)
  then show ?thesis using l(2,3) R(3,4) assms(4) by (simp add: d1_def)
qed

lemma O_neq [simp]: "O_RDWR \<noteq> O_RDONLY" "O_RDWR \<noteq> O_WRONLY"
  by (simp_all add: O_RDWR_def O_RDONLY_def O_WRONLY_def)

text \<open>C16: A terminal works through its path.  After the start of the file layer and of the device file system, \<^verbatim>\<open>/dev/ttyS0\<close> and \<^verbatim>\<open>/dev/ttyS1\<close> open for
  reading and writing; a write to the handle sends its bytes, with a carriage return before each newline, to that terminal and nothing to the
  other; and a line typed at that terminal is what one read of the handle returns.\<close>

theorem devfs_terminal:
  assumes "fs_init d = Inr s0" "devfs_init E com1 com2 s0 = Inr s1" "i < 2" "next_dev_handle d \<noteq> 0" "t = [com1, com2] ! i"
    "tty_rel t \<lparr>finished = [], line = [], cursor = 0\<rparr>" "tty_idle t" "list_all ordinary l" "length l < 16383" "length l < unat count"
  shows "\<exists>h s2 t'. fs_open (dev_path @ SLASH # serial_name i) O_RDWR s1 = Some (Inr (Some h, s2)) \<and> ttys (driver s2) = [com1, com2]
    \<and> (\<forall>buf. fs_write h buf s2 = (of_nat (length buf), s2\<lparr>driver := (driver s2)\<lparr>ttys := [com1, com2][i := tty_write buf t]\<rparr>\<rparr>))
    \<and> fs_read h count (s2\<lparr>driver := (driver s2)\<lparr>ttys := [com1, com2][i := tty_type (l @ [NL]) t]\<rparr>\<rparr>)
        = ((of_nat (length l + 1), l @ [NL]), s2\<lparr>driver := (driver s2)\<lparr>ttys := [com1, com2][i := t']\<rparr>\<rparr>)
    \<and> fs_is_interactive h s2 = (1, s2)"
proof -
  obtain h s2 ino where 1: "fs_open (dev_path @ SLASH # serial_name i) O_RDWR s1 = Some (Inr (Some h, s2))" "fh_mount h = 0" "fh_flags h = O_RDWR"
    "mounts s2 = [devfs_mount E (mount_stubs 0)]" "ttys (driver s2) = [com1, com2]" "fh_handle h \<noteq> 0"
    "dev_handles (driver s2) (fh_handle h) = Some \<lparr>dh_node = DevNode (serial_name i) ino (DEV_TYPE_TTY i) [], dh_index = junk_index E\<rparr>"
    using devfs_open_serial[OF assms(1-4)] by (elim exE conjE) (rule that)
  obtain t' where t': "tty_read (unat count) (tty_type (l @ [NL]) t) = Read_done (l @ [NL]) t'"
    using type_read_line[OF assms(6-10)] by blast
  note D = on_mount_def on_dev_def at_dev_def
  define ts where "ts = [com1, com2]"
  have ts: "i < length ts" "ttys (driver s2) = ts" using assms(3) 1(5) by (simp_all add: ts_def)
  have "fs_write h buf s2 = (of_nat (length buf), s2\<lparr>driver := (driver s2)\<lparr>ttys := [com1, com2][i := tty_write buf t]\<rparr>\<rparr>)" for buf
    using 1(2-) assms(5) by (simp add: fs_write_def devfs_write_def D)
  moreover have "fs_read h count (s2\<lparr>driver := (driver s2)\<lparr>ttys := [com1, com2][i := tty_type (l @ [NL]) t]\<rparr>\<rparr>)
        = ((of_nat (length l + 1), l @ [NL]), s2\<lparr>driver := (driver s2)\<lparr>ttys := [com1, com2][i := t']\<rparr>\<rparr>)"
    unfolding ts_def[symmetric] using 1(2-4,6,7) t' ts by (simp add: fs_read_def devfs_read_def D)
  moreover have "fs_is_interactive h s2 = (1, s2)" using 1(2-) by (simp add: fs_is_interactive_def devfs_is_interactive_def D)
  ultimately show ?thesis using 1(1,5) by (intro exI[of _ h] exI[of _ s2] exI[of _ t'] conjI allI)
qed

theorem devfs_terminal_witness:
  "\<exists>s0 s1 h s2. fs_init \<lparr>devfs_root = DevNode [] 0 DEV_TYPE_DIR [], dev_handles = Map.empty, next_dev_handle = 1, ttys = [], dev_id = 0, dev_inode_num = 0,
        dev_stale = False\<rparr> = Inr s0
    \<and> devfs_init \<lparr>junk_cntrl = True, junk_index = [], resume = (\<lambda>_ t. ([], t))\<rparr> (tty_init (\<lambda>_. 0)) (tty_init (\<lambda>_. 0)) s0 = Inr s1
    \<and> fs_open (dev_path @ SLASH # serial_name 1) O_RDWR s1 = Some (Inr (Some h, s2))
    \<and> fst (fs_read h 10 (s2\<lparr>driver := (driver s2)\<lparr>ttys := [tty_init (\<lambda>_. 0), tty_type ([0x6C, 0x73] @ [NL]) (tty_init (\<lambda>_. 0))]\<rparr>\<rparr>)) = (3, [0x6C, 0x73] @ [NL])"
proof -
  let ?d = "\<lparr>devfs_root = DevNode [] 0 DEV_TYPE_DIR [], dev_handles = Map.empty, next_dev_handle = 1, ttys = [], dev_id = 0, dev_inode_num = 0, dev_stale = False\<rparr>"
  let ?E = "\<lparr>junk_cntrl = True, junk_index = [], resume = (\<lambda>_ t. ([], t))\<rparr>" and ?t = "tty_init (\<lambda>_. 0)"
  obtain tab :: "nat hash_table_t" where "hash_table_alloc OPEN_TABLE_BUCKETS = Inr tab" using hash_table_alloc_100 by blast
  then obtain s0 :: "(devfs, nat) vfs" where i: "fs_init ?d = Inr s0" by (simp add: fs_init_def)
  obtain s1 where v: "devfs_init ?E ?t ?t s0 = Inr s1" using devfs_init_starts by blast
  have "tty_rel ([?t, ?t] ! 1) \<lparr>finished = [], line = [], cursor = 0\<rparr>" "tty_idle ([?t, ?t] ! 1)" "list_all ordinary [0x6C, 0x73]"
    by (simp_all add: tty_init_def tty_rel_def tty_idle_def ordinary_def ESC_def BS_def DEL_def CR_def NL_def)
  from devfs_terminal[OF i v _ _ refl this, of 10] obtain h s2 t' where "fs_open (dev_path @ SLASH # serial_name 1) O_RDWR s1 = Some (Inr (Some h, s2))"
    "fs_read h 10 (s2\<lparr>driver := (driver s2)\<lparr>ttys := [?t, ?t][1 := tty_type ([0x6C, 0x73] @ [NL]) ([?t, ?t] ! 1)]\<rparr>\<rparr>)
      = ((of_nat (length [0x6C, 0x73 :: u8] + 1), [0x6C, 0x73] @ [NL]), s2\<lparr>driver := (driver s2)\<lparr>ttys := [?t, ?t][1 := t']\<rparr>\<rparr>)"
    by auto
  then show ?thesis using i v by (intro exI[of _ s0] exI[of _ s1] exI[of _ h] exI[of _ s2] conjI) simp_all
qed

text \<open>Opening \<^verbatim>\<open>/dev\<close> itself depends on the value of a variable that was never set, and a read of a directory returns the number of a status as its
  count of bytes.\<close>

lemma devfs_open_root: "fst (devfs_open E c [] fl md d) = (if junk_cntrl E then None else Some (next_dev_handle d))"
  by (simp add: devfs_open_def devfs_walk.simps)

lemma devfs_read_directory:
  "dev_handles d h = Some dh \<Longrightarrow> h \<noteq> 0 \<Longrightarrow> dn_type (dh_node dh) = DEV_TYPE_DIR \<Longrightarrow> devfs_read E h count d = ((4, []), d)"
  by (simp add: devfs_read_def on_dev_def at_dev_def)

end
