(* ===== verification/Syscall.thy ===== *)
theory Syscall
  imports Elf Vfs
begin

section \<open>System calls (kernel/core/syscall_dispatch.c)\<close>

text \<open>
  The handlers over the process structures, the file layer and the page tables.  A file handle is the address of its \<^verbatim>\<open>fs_handle_t\<close>: \<open>handles\<close> holds
  those that are allocated, and 0 is the null pointer.  This is the state \<open>'v\<close> of the file layer in \<open>procs\<close>.  \<open>umem\<close> gives the byte at an address of
  the address space with a given root; a fault on a user address is not part of the model.  Strings a caller passes are byte lists without their
  terminators.  The handler of the current process \<open>p\<close> returns a value, does not return, or waits.  \<open>None\<close> is a run that does not end, and \<open>Inl Undefined\<close> the
  use of a null or freed handle.
\<close>

definition SYSCALL_STS_OK :: u64 where "SYSCALL_STS_OK = 0"
definition SYSCALL_STS_FAIL :: u64 where "SYSCALL_STS_FAIL = -1"
definition AT_FDCWD :: u32 where "AT_FDCWD = -100"
definition WNOHANG :: u64 where "WNOHANG = 1"
definition SIZEOF_DIRENT :: u64 where "SIZEOF_DIRENT = 280"

record ('d, 'h) fsys =
  fvfs :: "('d, 'h) vfs"
  handles :: "nat \<Rightarrow> 'h fs_handle_t option"
  next_handle :: nat
  fs_bad :: bool

record ('d, 'h) sys =
  sprocs :: "('d, 'h) fsys procs"
  svm :: vm
  umem :: "u64 \<Rightarrow> u64 \<Rightarrow> u8"

datatype sys_ret = Returns u64 | No_return | Waits

type_synonym ('d, 'h) sys_result = "(sys_ret \<times> ('d, 'h) sys) outcome option"

abbreviation fsys_of :: "('d, 'h) sys \<Rightarrow> ('d, 'h) fsys" where
  "fsys_of s \<equiv> procs.files (sprocs s)"

definition set_fsys :: "('d, 'h) fsys \<Rightarrow> ('d, 'h) sys \<Rightarrow> ('d, 'h) sys" where
  "set_fsys y s = s\<lparr>sprocs := (sprocs s)\<lparr>procs.files := y\<rparr>\<rparr>"

definition set_vfs :: "('d, 'h) vfs \<Rightarrow> ('d, 'h) sys \<Rightarrow> ('d, 'h) sys" where
  "set_vfs v s = set_fsys ((fsys_of s)\<lparr>fvfs := v\<rparr>) s"

definition copy_out :: "nat \<Rightarrow> u64 \<Rightarrow> bytes \<Rightarrow> ('d, 'h) sys \<Rightarrow> ('d, 'h) sys" where
  "copy_out p a bs s =
     (let c = process_get_cr3 p (sprocs s)
      in s\<lparr>umem := (umem s)(c := (\<lambda>x. if unat (x - a) < length bs then bs ! unat (x - a) else umem s c x))\<rparr>)"

definition copy_in :: "nat \<Rightarrow> u64 \<Rightarrow> u64 \<Rightarrow> ('d, 'h) sys \<Rightarrow> bytes" where
  "copy_in p a n s = map (\<lambda>i. umem s (process_get_cr3 p (sprocs s)) (a + of_nat i)) [0 ..< unat n]"

subsection \<open>Handles\<close>

definition add_handle :: "'h fs_handle_t \<Rightarrow> ('d, 'h) fsys \<Rightarrow> nat \<times> ('d, 'h) fsys" where
  "add_handle h y = (next_handle y, y\<lparr>handles := (handles y)(next_handle y \<mapsto> h), next_handle := Suc (next_handle y)\<rparr>)"

text \<open>\<^verbatim>\<open>fs_dup\<close> and \<^verbatim>\<open>fs_close\<close> of a handle given by its address, as the process layer calls them; \<open>fs_bad\<close> records an address that is not
  allocated.\<close>

definition dup_handle :: "nat \<Rightarrow> ('d, 'h) fsys \<Rightarrow> nat \<times> ('d, 'h) fsys" where
  "dup_handle a y =
     (case handles y a of None \<Rightarrow> (0, y\<lparr>fs_bad := True\<rparr>)
      | Some h \<Rightarrow>
          (case fs_dup h (fvfs y) of
             (None, v) \<Rightarrow> (0, y\<lparr>fvfs := v\<rparr>)
           | (Some h1, v) \<Rightarrow> add_handle h1 (y\<lparr>fvfs := v\<rparr>)))"

definition close_handle :: "nat \<Rightarrow> ('d, 'h) fsys \<Rightarrow> ('d, 'h) fsys" where
  "close_handle a y =
     (case handles y a of None \<Rightarrow> y\<lparr>fs_bad := True\<rparr>
      | Some h \<Rightarrow>
          (case fs_close h (fvfs y) of
             Inl e \<Rightarrow> y\<lparr>fs_bad := True\<rparr>
           | Inr v \<Rightarrow> y\<lparr>fvfs := v, handles := (handles y)(a := None)\<rparr>))"

text \<open>The handle of a descriptor; none for an empty slot.\<close>

definition handle_at :: "nat \<Rightarrow> ('d, 'h) sys \<Rightarrow> (nat \<times> 'h fs_handle_t) option outcome" where
  "handle_at a s =
     (if a = 0 then Inr None
      else case handles (fsys_of s) a of None \<Rightarrow> Inl Undefined | Some h \<Rightarrow> Inr (Some (a, h)))"

definition with_fd :: "u64 \<Rightarrow> nat \<Rightarrow> ('d, 'h) sys \<Rightarrow> (nat \<Rightarrow> 'h fs_handle_t \<Rightarrow> ('d, 'h) sys_result) \<Rightarrow> ('d, 'h) sys_result" where
  "with_fd fd p s f =
     (case process_resolve_fd fd p (sprocs s) of Inl e \<Rightarrow> failed e
      | Inr a \<Rightarrow>
          (case handle_at a s of Inl e \<Rightarrow> failed e
           | Inr None \<Rightarrow> done_with (Returns SYSCALL_STS_FAIL, s)
           | Inr (Some (a1, h)) \<Rightarrow> f a1 h))"

text \<open>A call of the file layer on the handle of a descriptor, and the value made of its result.\<close>

definition fs_call :: "u64 \<Rightarrow> nat \<Rightarrow> ('h fs_handle_t \<Rightarrow> ('d, 'h) vfs \<Rightarrow> 'r \<times> ('d, 'h) vfs) \<Rightarrow> ('r \<Rightarrow> u64) \<Rightarrow> ('d, 'h) sys \<Rightarrow> ('d, 'h) sys_result" where
  "fs_call fd p f val s =
     with_fd fd p s (\<lambda>_ h. let (r, v) = f h (fvfs (fsys_of s)) in done_with (Returns (val r), set_vfs v s))"

definition ok_or_fail :: "bool \<Rightarrow> u64" where
  "ok_or_fail b = (if b then SYSCALL_STS_OK else SYSCALL_STS_FAIL)"

text \<open>\<^verbatim>\<open>fs_openat\<close> with the address of a handle, which is only used for relative paths.\<close>

definition openat_addr :: "bytes \<Rightarrow> u32 \<Rightarrow> nat \<Rightarrow> u32 \<Rightarrow> ('d, 'h) sys \<Rightarrow> ('h fs_handle_t option \<times> ('d, 'h) vfs) outcome option" where
  "openat_addr pth flags a mode s =
     (case handle_at a s of
        Inr (Some (_, at)) \<Rightarrow> fs_openat pth flags at mode (fvfs (fsys_of s))
      | _ \<Rightarrow> if pth \<noteq> [] \<and> hd pth = SLASH then fs_open_mode pth flags mode (fvfs (fsys_of s)) else failed Undefined)"

text \<open>A new handle becomes a descriptor.\<close>

definition install_handle :: "'h fs_handle_t \<Rightarrow> ('d, 'h) vfs \<Rightarrow> nat \<Rightarrow> ('d, 'h) sys \<Rightarrow> ('d, 'h) sys_result" where
  "install_handle h v p s =
     (let (a, y) = add_handle h ((fsys_of s)\<lparr>fvfs := v\<rparr>); s1 = set_fsys y s
      in andthen (process_register_fd a p (sprocs s1)) (\<lambda>(fd, ps). done_with (Returns fd, s1\<lparr>sprocs := ps\<rparr>)))"

subsection \<open>Files\<close>

definition syscall_exit :: "u64 \<Rightarrow> nat \<Rightarrow> ('d, 'h) sys \<Rightarrow> ('d, 'h) sys_result" where
  "syscall_exit arg1 p s = done_with (No_return, s\<lparr>sprocs := process_exit arg1 p (sprocs s)\<rparr>)"

definition syscall_openat :: "bytes \<Rightarrow> u64 \<Rightarrow> u64 \<Rightarrow> u64 \<Rightarrow> nat \<Rightarrow> ('d, 'h) sys \<Rightarrow> ('d, 'h) sys_result" where
  "syscall_openat pth arg2 arg3 arg4 p s =
     (case (if ucast arg3 = AT_FDCWD then Inr (process_get_wd p (sprocs s)) else process_resolve_fd arg3 p (sprocs s)) of
        Inl e \<Rightarrow> failed e
      | Inr a \<Rightarrow>
          if a = 0 then done_with (Returns SYSCALL_STS_FAIL, s)
          else andthen (openat_addr pth (ucast arg2) a (ucast arg4) s)
                 (\<lambda>(r, v). case r of
                    None \<Rightarrow> done_with (Returns SYSCALL_STS_FAIL, set_vfs v s)
                  | Some h \<Rightarrow> install_handle h v p s))"

definition syscall_close :: "u64 \<Rightarrow> nat \<Rightarrow> ('d, 'h) sys \<Rightarrow> ('d, 'h) sys_result" where
  "syscall_close arg1 p s =
     with_fd arg1 p s (\<lambda>a h.
       case fs_close h (fvfs (fsys_of s)) of Inl e \<Rightarrow> failed e
       | Inr v \<Rightarrow>
           let s1 = set_fsys ((fsys_of s)\<lparr>fvfs := v, handles := (handles (fsys_of s))(a := None)\<rparr>) s
           in (case process_remove_fd arg1 p (sprocs s1) of Inl e \<Rightarrow> failed e
               | Inr ps \<Rightarrow> done_with (Returns SYSCALL_STS_OK, s1\<lparr>sprocs := ps\<rparr>)))"

definition syscall_read :: "u64 \<Rightarrow> u64 \<Rightarrow> u64 \<Rightarrow> nat \<Rightarrow> ('d, 'h) sys \<Rightarrow> ('d, 'h) sys_result" where
  "syscall_read arg1 arg2 arg3 p s =
     with_fd arg1 p s (\<lambda>_ h.
       let ((n, bs), v) = fs_read h arg3 (fvfs (fsys_of s)) in done_with (Returns n, copy_out p arg2 bs (set_vfs v s)))"

definition syscall_write :: "u64 \<Rightarrow> u64 \<Rightarrow> u64 \<Rightarrow> nat \<Rightarrow> ('d, 'h) sys \<Rightarrow> ('d, 'h) sys_result" where
  "syscall_write arg1 arg2 arg3 p s = fs_call arg1 p (\<lambda>h. fs_write h (copy_in p arg2 arg3 s)) (\<lambda>n. n) s"

definition syscall_open_dir :: "u64 \<Rightarrow> nat \<Rightarrow> ('d, 'h) sys \<Rightarrow> ('d, 'h) sys_result" where
  "syscall_open_dir arg1 p s = fs_call arg1 p fs_open_dir (\<lambda>r. ok_or_fail (r \<noteq> None)) s"

text \<open>Members of \<^verbatim>\<open>dir_info_t\<close>, and the bytes written for an entry: \<^verbatim>\<open>d_ino\<close> and \<^verbatim>\<open>d_off\<close> pass through 32 bits, the second one signed.\<close>

definition dir_name :: "bytes \<Rightarrow> bytes" where
  "dir_name info = takeWhile (\<lambda>c. c \<noteq> 0) (drop 19 info)"

definition dirent_bytes :: "bytes \<Rightarrow> bytes" where
  "dirent_bytes info =
     le_bytes 8 (unat (ucast (ucast (field64 info 0) :: u32) :: u64)) @ le_bytes 8 (unat (scast (ucast (field64 info 8) :: u32) :: u64))
     @ le_bytes 2 (unat (of_nat (length (dir_name info) + 1) + ucast SIZEOF_DIRENT :: u16)) @ [info ! 18] @ dir_name info @ [0]"

partial_function (option) read_dir_entries :: "u64 \<Rightarrow> u64 \<Rightarrow> u64 \<Rightarrow> 'h fs_handle_t \<Rightarrow> nat \<Rightarrow> ('d, 'h) sys \<Rightarrow> (u64 \<times> ('d, 'h) sys) option" where
  "read_dir_entries arg2 arg3 n h p s =
     (let ((sts, info), v) = fs_read_dir h (fvfs (fsys_of s)); s1 = set_vfs v s; name_len = of_nat (length (dir_name info)) + 1
      in if sts \<noteq> FILE_OK \<or> arg3 < n + name_len + SIZEOF_DIRENT then Some (n, s1)
         else let s2 = copy_out p (arg2 + n) (dirent_bytes info) s1; (_, v2) = fs_next_dir h (fvfs (fsys_of s2))
              in read_dir_entries arg2 arg3 (n + (name_len + SIZEOF_DIRENT)) h p (set_vfs v2 s2))"

definition syscall_read_dir :: "u64 \<Rightarrow> u64 \<Rightarrow> u64 \<Rightarrow> nat \<Rightarrow> ('d, 'h) sys \<Rightarrow> ('d, 'h) sys_result" where
  "syscall_read_dir arg1 arg2 arg3 p s =
     with_fd arg1 p s (\<lambda>_ h. case read_dir_entries arg2 arg3 0 h p s of None \<Rightarrow> None | Some (n, s1) \<Rightarrow> done_with (Returns n, s1))"

definition syscall_truncate :: "u64 \<Rightarrow> u64 \<Rightarrow> nat \<Rightarrow> ('d, 'h) sys \<Rightarrow> ('d, 'h) sys_result" where
  "syscall_truncate arg1 arg2 p s = fs_call arg1 p (\<lambda>h. fs_truncate h arg2) (\<lambda>r. ok_or_fail (r = FILE_OK)) s"

definition syscall_seek :: "u64 \<Rightarrow> u64 \<Rightarrow> nat \<Rightarrow> ('d, 'h) sys \<Rightarrow> ('d, 'h) sys_result" where
  "syscall_seek arg1 arg2 p s = fs_call arg1 p (\<lambda>h v. fs_get_seek h (snd (fs_seek h arg2 v))) (\<lambda>n. n) s"

definition syscall_tell :: "u64 \<Rightarrow> nat \<Rightarrow> ('d, 'h) sys \<Rightarrow> ('d, 'h) sys_result" where
  "syscall_tell arg1 p s = fs_call arg1 p fs_get_seek (\<lambda>n. n) s"

definition syscall_create_dir :: "u64 \<Rightarrow> nat \<Rightarrow> ('d, 'h) sys \<Rightarrow> ('d, 'h) sys_result" where
  "syscall_create_dir arg1 p s = fs_call arg1 p fs_create_dir (\<lambda>r. ok_or_fail (r = FILE_OK)) s"

definition syscall_delete_dir :: "u64 \<Rightarrow> nat \<Rightarrow> ('d, 'h) sys \<Rightarrow> ('d, 'h) sys_result" where
  "syscall_delete_dir arg1 p s = fs_call arg1 p fs_delete_dir (\<lambda>r. ok_or_fail (r = FILE_OK)) s"

definition syscall_is_a_tty :: "u64 \<Rightarrow> nat \<Rightarrow> ('d, 'h) sys \<Rightarrow> ('d, 'h) sys_result" where
  "syscall_is_a_tty arg1 p s = fs_call arg1 p fs_is_interactive ucast s"

definition syscall_gcwd :: "u64 \<Rightarrow> u64 \<Rightarrow> nat \<Rightarrow> ('d, 'h) sys \<Rightarrow> ('d, 'h) sys_result" where
  "syscall_gcwd arg1 arg2 p s =
     (case handle_at (process_get_wd p (sprocs s)) s of
        Inr (Some (_, h)) \<Rightarrow> done_with (Returns SYSCALL_STS_OK, copy_out p arg1 (fs_path h (unat arg2) (fvfs (fsys_of s))) s)
      | _ \<Rightarrow> failed Undefined)"

text \<open>The working directory is closed before the new handle is made; it is null when that fails.\<close>

definition syscall_ccwd :: "u64 \<Rightarrow> nat \<Rightarrow> ('d, 'h) sys \<Rightarrow> ('d, 'h) sys_result" where
  "syscall_ccwd arg1 p s =
     with_fd arg1 p s (\<lambda>a h.
       case handle_at (process_get_wd p (sprocs s)) s of
         Inr (Some (w, hw)) \<Rightarrow>
           (case fs_close hw (fvfs (fsys_of s)) of Inl e \<Rightarrow> failed e
            | Inr v \<Rightarrow>
                let (b, y) = dup_handle a ((fsys_of s)\<lparr>fvfs := v, handles := (handles (fsys_of s))(w := None)\<rparr>); s1 = set_fsys y s
                in done_with (Returns SYSCALL_STS_OK, s1\<lparr>sprocs := process_set_wd b p (sprocs s1)\<rparr>))
       | _ \<Rightarrow> failed Undefined)"

definition syscall_link :: "u64 \<Rightarrow> u64 \<Rightarrow> nat \<Rightarrow> ('d, 'h) sys \<Rightarrow> ('d, 'h) sys_result" where
  "syscall_link arg1 arg2 p s =
     with_fd arg1 p s (\<lambda>_ h1. fs_call arg2 p (\<lambda>h2. fs_link h1 h2) (\<lambda>r. ok_or_fail (r = FILE_OK)) s)"

definition syscall_unlink :: "u64 \<Rightarrow> nat \<Rightarrow> ('d, 'h) sys \<Rightarrow> ('d, 'h) sys_result" where
  "syscall_unlink arg1 p s = fs_call arg1 p fs_unlink (\<lambda>r. ok_or_fail (r = FILE_OK)) s"

definition syscall_stat :: "u64 \<Rightarrow> u64 \<Rightarrow> nat \<Rightarrow> ('d, 'h) sys \<Rightarrow> ('d, 'h) sys_result" where
  "syscall_stat arg1 arg2 p s =
     with_fd arg1 p s (\<lambda>_ h.
       let ((sts, info), v) = fs_stat h (fvfs (fsys_of s)); s1 = set_vfs v s
       in if sts \<noteq> FILE_OK then done_with (Returns SYSCALL_STS_FAIL, s1) else done_with (Returns SYSCALL_STS_OK, copy_out p arg2 info s1))"

definition syscall_dup :: "u64 \<Rightarrow> nat \<Rightarrow> ('d, 'h) sys \<Rightarrow> ('d, 'h) sys_result" where
  "syscall_dup arg1 p s =
     with_fd arg1 p s (\<lambda>_ h.
       case fs_dup h (fvfs (fsys_of s)) of
         (None, v) \<Rightarrow> done_with (Returns SYSCALL_STS_FAIL, set_vfs v s)
       | (Some h1, v) \<Rightarrow> install_handle h1 v p s)"

definition syscall_dup2 :: "u64 \<Rightarrow> u64 \<Rightarrow> nat \<Rightarrow> ('d, 'h) sys \<Rightarrow> ('d, 'h) sys_result" where
  "syscall_dup2 arg1 arg2 p s =
     with_fd arg1 p s (\<lambda>_ h.
       case fs_dup h (fvfs (fsys_of s)) of
         (None, v) \<Rightarrow> done_with (Returns SYSCALL_STS_FAIL, set_vfs v s)
       | (Some h1, v) \<Rightarrow>
           let (a, y) = add_handle h1 ((fsys_of s)\<lparr>fvfs := v\<rparr>); s1 = set_fsys y s
           in (case process_replace_fd arg2 a p (sprocs s1) of Inl e \<Rightarrow> failed e
               | Inr (old, ps) \<Rightarrow>
                   let s2 = s1\<lparr>sprocs := ps\<rparr>
                   in (case handle_at old s2 of Inl e \<Rightarrow> failed e
                       | Inr None \<Rightarrow> done_with (Returns arg2, s2)
                       | Inr (Some (b, ho)) \<Rightarrow>
                           (case fs_close ho (fvfs (fsys_of s2)) of Inl e \<Rightarrow> failed e
                            | Inr v2 \<Rightarrow>
                                done_with (Returns arg2, set_fsys ((fsys_of s2)\<lparr>fvfs := v2, handles := (handles (fsys_of s2))(b := None)\<rparr>) s2)))))"

subsection \<open>Memory and processes\<close>

definition syscall_alloc :: "u64 \<Rightarrow> nat \<Rightarrow> ('d, 'h) sys \<Rightarrow> ('d, 'h) sys_result" where
  "syscall_alloc arg1 p s =
     (let size = (if arg1 mod PAGE_SIZE_4K \<noteq> 0 then arg1 + (PAGE_SIZE_4K - arg1 mod PAGE_SIZE_4K) else arg1);
          (paddr, m1) = mm_alloc_p size (vmm (svm s))
      in if paddr = 0 then done_with (Returns SYSCALL_STS_FAIL, s\<lparr>svm := (svm s)\<lparr>vmm := m1\<rparr>\<rparr>)
         else let vaddr = process_get_mem_top p (sprocs s); root = process_get_cr3 p (sprocs s);
                  vm1 = fold (\<lambda>i st. snd (paging_map_proc (vaddr + i) (paddr + i) (PAGE_PRESENT OR PAGE_RW OR PAGE_US OR PAGE_XD) PAGE_4K root st))
                          (page_offsets size) ((svm s)\<lparr>vmm := m1\<rparr>)
              in done_with (Returns vaddr, s\<lparr>svm := vm1, sprocs := process_set_mem_top (vaddr + size) p (sprocs s)\<rparr>))"

text \<open>The child's memory is the copy made of the parent's lower half.\<close>

definition syscall_fork :: "u64 \<Rightarrow> u64 \<Rightarrow> u64 \<Rightarrow> u64 \<Rightarrow> u64 \<Rightarrow> nat \<Rightarrow> ('d, 'h) sys \<Rightarrow> ('d, 'h) sys_result" where
  "syscall_fork kernel_pml4 syscall_return r11' rcx' rbp' p s =
     (case process_create_guarded_stack kernel_pml4 (svm s) of Inl e \<Rightarrow> failed e
      | Inr (None, vm1) \<Rightarrow> done_with (Returns SYSCALL_STS_FAIL, s\<lparr>svm := vm1\<rparr>)
      | Inr (Some stack, vm1) \<Rightarrow>
          let root = process_get_cr3 p (sprocs s); (space, vm2) = paging_duplicate_lower kernel_pml4 root vm1
          in (case process_fork dup_handle syscall_return r11' rcx' rbp' (of_nat (le_nat (copy_in p rbp' 8 s))) (Some stack) space p (sprocs s) of
                Inl e \<Rightarrow> failed e
              | Inr (pid', ps) \<Rightarrow>
                  let s1 = s\<lparr>svm := vm2, sprocs := ps, umem := (umem s)(space := umem s root)\<rparr>
                  in done_with (Returns (if pid' = 0 then SYSCALL_STS_FAIL else pid'), s1)))"

definition file_of_handle :: "'h fs_handle_t \<Rightarrow> ('d, 'h) vfs file_ops" where
  "file_of_handle h =
     \<lparr>f_seek = (\<lambda>k v. let (sts, v1) = fs_seek h k v in (sts = FILE_OK, v1)),
      f_read = (\<lambda>n v. let ((_, bs), v1) = fs_read h n v in (bs, v1))\<rparr>"

text \<open>The handle of the executable stays allocated.  The new image waits in \<^verbatim>\<open>meta\<close> until the scheduler runs \<^verbatim>\<open>execve_transfer\<close>; its memory is \<open>lmem\<close> of the
  loader, under the root that the loader made.  \<open>mem0\<close> is what the frames of the new image held.\<close>

definition syscall_execve :: "u64 \<Rightarrow> u64 \<Rightarrow> u64 \<Rightarrow> u64 \<Rightarrow> bytes \<Rightarrow> (u64 \<Rightarrow> u8) \<Rightarrow> bytes \<Rightarrow> bytes list \<Rightarrow> bytes list \<Rightarrow> nat \<Rightarrow> ('d, 'h) sys
    \<Rightarrow> ('d, 'h) sys_result" where
  "syscall_execve kernel_pml4 syscall_return t1 t2 ph0 mem0 pth argv envp p s =
     andthen (openat_addr pth O_RDONLY (process_get_wd p (sprocs s)) 0 s)
       (\<lambda>(r, v). case r of
          None \<Rightarrow> done_with (Returns SYSCALL_STS_FAIL, set_vfs v s)
        | Some h \<Rightarrow>
            let (a, y) = add_handle h ((fsys_of s)\<lparr>fvfs := v\<rparr>); s1 = set_fsys y s
            in (case elf_overwrite (file_of_handle h) kernel_pml4 syscall_return 0 t1 t2 ph0 p argv envp
                       \<lparr>lvm = svm s1, lfile = fvfs (fsys_of s1), lmem = mem0\<rparr> (sprocs s1) of
                  Inl e \<Rightarrow> failed e
                | Inr (None, st, ps) \<Rightarrow> done_with (Returns SYSCALL_STS_FAIL, set_vfs (lfile st) (s1\<lparr>svm := lvm st, sprocs := ps\<rparr>))
                | Inr (Some e, st, ps) \<Rightarrow>
                    let ps1 = process_set_callback Execve_transfer p (upd_pcb p (\<lambda>q. q\<lparr>meta_pcb := e\<rparr>) ps)
                    in done_with (No_return, set_vfs (lfile st)
                         (s1\<lparr>svm := lvm st, sprocs := ps1, umem := (umem s1)(process_get_cr3 e ps1 := lmem st)\<rparr>))))"

text \<open>\<open>now\<close> is the time of \<^verbatim>\<open>time_since_init_ns\<close>.\<close>

definition syscall_epoch_time :: "u64 \<Rightarrow> ('d, 'h) sys \<Rightarrow> ('d, 'h) sys_result" where
  "syscall_epoch_time now s = done_with (Returns now, s)"

definition syscall_getpid :: "nat \<Rightarrow> ('d, 'h) sys \<Rightarrow> ('d, 'h) sys_result" where
  "syscall_getpid p s = done_with (Returns (process_get_pid p (sprocs s)), s)"

definition syscall_getppid :: "nat \<Rightarrow> ('d, 'h) sys \<Rightarrow> ('d, 'h) sys_result" where
  "syscall_getppid p s = (case process_get_ppid p (sprocs s) of Inl e \<Rightarrow> failed e | Inr k \<Rightarrow> done_with (Returns k, s))"

definition syscall_waitpid :: "u64 \<Rightarrow> u64 \<Rightarrow> u64 \<Rightarrow> u64 \<Rightarrow> nat \<Rightarrow> ('d, 'h) sys \<Rightarrow> ('d, 'h) sys_result" where
  "syscall_waitpid arg1 arg2 arg3 arg4 p s =
     (case process_wait_pid arg1 (arg3 AND WNOHANG \<noteq> 0) p (sprocs s) of Inl e \<Rightarrow> failed e
      | Inr Wait_fail \<Rightarrow> done_with (Returns SYSCALL_STS_FAIL, s)
      | Inr (Wait_blocked c ps) \<Rightarrow> done_with (Waits, s\<lparr>sprocs := ps\<rparr>)
      | Inr (Wait_ok k ec ps) \<Rightarrow>
          done_with (Returns SYSCALL_STS_OK,
            copy_out p arg4 (le_bytes 4 (unat (ucast arg1 :: u32)))
              (copy_out p arg2 (le_bytes 4 (unat (push_bit 8 (ucast (ec AND 0xFF)) :: u32))) (s\<lparr>sprocs := ps\<rparr>))))"

text \<open>\<open>logged\<close> collects what is written to the log.\<close>

definition syscall_log :: "bytes \<Rightarrow> bytes list \<Rightarrow> ('d, 'h) sys \<Rightarrow> bytes list \<times> ('d, 'h) sys_result" where
  "syscall_log msg logged s = (logged @ [msg], done_with (Returns SYSCALL_STS_OK, s))"

end
