(* ===== verification/SyscallSpec.thy ===== *)
theory SyscallSpec
  imports Syscall
begin

section \<open>Descriptors across processes\<close>

text \<open>
  The descriptors and working directories of all processes against the handles and files behind them.  In every run of the calls that make,
  copy and drop handles, each allocated handle is held by exactly one slot of one process, and every open file counts the slots that lead to it.
\<close>

subsection \<open>The values in a list\<close>

definition entries :: "'v array_list_t \<Rightarrow> 'v multiset" where
  "entries l = image_mset (array_list_get l) (mset_set {i. array_list_get l i \<noteq> null l})"

definition slot :: "'v \<Rightarrow> 'v \<Rightarrow> 'v multiset" where
  "slot nil v = (if v = nil then {#} else {#v#})"

lemma slot_simps [simp]: "slot nil nil = {#}" "v \<noteq> nil \<Longrightarrow> slot nil v = {#v#}"
  by (simp_all add: slot_def)

lemma entries_split: "entries l = slot (null l) (array_list_get l i) + image_mset (array_list_get l) (mset_set ({i. array_list_get l i \<noteq> null l} - {i}))"
proof (cases "array_list_get l i = null l")
  case True
  then show ?thesis by (simp add: entries_def)
next
  case False
  then have "{i. array_list_get l i \<noteq> null l} = insert i ({i. array_list_get l i \<noteq> null l} - {i})" by auto
  then have "mset_set {i. array_list_get l i \<noteq> null l} = add_mset i (mset_set ({i. array_list_get l i \<noteq> null l} - {i}))"
    using mset_set.insert[of "{i. array_list_get l i \<noteq> null l} - {i}" i] by simp
  then show ?thesis using False by (simp add: entries_def)
qed

lemma entries_change:
  assumes "null l' = null l" "\<forall>j. array_list_get l' j = (if j = i then v else array_list_get l j)"
  shows "entries l' + slot (null l) (array_list_get l i) = entries l + slot (null l) v"
proof -
  let ?S = "\<lambda>l. {i. array_list_get l i \<noteq> null l} - {i}"
  have "?S l' = ?S l" using assms by auto
  moreover have "image_mset (array_list_get l') (mset_set (?S l)) = image_mset (array_list_get l) (mset_set (?S l))"
    using assms(2) by (intro image_mset_cong) simp
  ultimately show ?thesis using entries_split[of l i] entries_split[of l' i] assms by simp
qed

lemma filter_mset_nth: "filter_mset P (mset xs) = image_mset ((!) xs) (mset_set {i. i < length xs \<and> P (xs ! i)})"
proof (induction xs rule: rev_induct)
  case (snoc x xs)
  have "{i. i < length (xs @ [x]) \<and> P ((xs @ [x]) ! i)} = {i. i < length xs \<and> P (xs ! i)} \<union> (if P x then {length xs} else {})"
    by (auto simp: nth_append less_Suc_eq split: if_splits)
  moreover have "image_mset ((!) (xs @ [x])) (mset_set {i. i < length xs \<and> P (xs ! i)}) = image_mset ((!) xs) (mset_set {i. i < length xs \<and> P (xs ! i)})"
    by (intro image_mset_cong) (simp add: nth_append)
  ultimately show ?case using snoc by simp
qed simp

lemma entries_buffer:
  assumes "al_wf l"
  shows "entries l = filter_mset (\<lambda>v. v \<noteq> null l) (mset (buffer l))"
proof -
  let ?I = "{i. array_list_get l i \<noteq> null l}" and ?N = "{n. n < length (buffer l) \<and> buffer l ! n \<noteq> null l}"
  have len: "length (buffer l) = unat (cap l)" using assms by (simp add: al_wf_def)
  have g: "array_list_get l i = buffer l ! unat i" if "i \<in> ?I" for i using that by (auto simp: array_list_get_def split: if_splits)
  have inj: "inj_on unat ?I" by (auto intro: inj_onI)
  have im: "unat ` ?I = ?N"
  proof (intro equalityI subsetI)
    fix n assume "n \<in> ?N"
    moreover from this have u: "unat (of_nat n :: u64) = n" using len unsigned_less[of "cap l", where ?'a = nat] by (simp add: unat_of_nat take_bit_nat_eq_self)
    ultimately have "of_nat n \<in> ?I" using len by (auto simp: array_list_get_def word_le_nat_alt)
    then show "n \<in> unat ` ?I" using u by (metis image_eqI)
  qed (auto simp: array_list_get_def len word_le_nat_alt split: if_splits)
  have "mset_set ?N = image_mset unat (mset_set ?I)" unfolding im[symmetric] by (rule image_mset_mset_set[OF inj, symmetric])
  then have "filter_mset (\<lambda>v. v \<noteq> null l) (mset (buffer l)) = image_mset (\<lambda>i. buffer l ! unat i) (mset_set ?I)"
    by (simp add: filter_mset_nth multiset.map_comp comp_def)
  also have "\<dots> = entries l" unfolding entries_def
  proof (rule image_mset_cong)
    fix i assume "i \<in># mset_set ?I"
    then show "buffer l ! unat i = array_list_get l i" using g[of i] by (metis finite_set_mset_mset_set finite)
  qed
  finally show ?thesis by simp
qed

subsection \<open>The store of handles\<close>

definition live :: "('d, 'h) fsys \<Rightarrow> nat list" where
  "live y = filter (\<lambda>a. handles y a \<noteq> None) [0 ..< next_handle y]"

definition open_handles :: "('d, 'h) fsys \<Rightarrow> 'h fs_handle_t list" where
  "open_handles y = map (\<lambda>a. the (handles y a)) (live y)"

definition store_ok :: "('d, 'h) fsys \<Rightarrow> bool" where
  "store_ok y \<longleftrightarrow> (\<forall>a. handles y a \<noteq> None \<longrightarrow> 0 < a \<and> a < next_handle y) \<and> 0 < next_handle y \<and> vfs_ok (fvfs y) (open_handles y) \<and> \<not> fs_bad y"

lemma store_okD:
  assumes "store_ok y"
  shows "handles y a = Some h \<Longrightarrow> 0 < a \<and> a < next_handle y" "0 < next_handle y" "vfs_ok (fvfs y) (open_handles y)" "handles y (next_handle y) = None"
    "handles y 0 = None" "finite (dom (handles y))" "handles y a = Some h \<Longrightarrow> h \<in> set (open_handles y)" "\<not> fs_bad y"
proof -
  have "dom (handles y) \<subseteq> {..< next_handle y}" using assms by (auto simp: store_ok_def)
  then show "finite (dom (handles y))" by (rule finite_subset) simp
  show "h \<in> set (open_handles y)" if h: "handles y a = Some h"
  proof -
    have "a \<in> set (live y)" using h assms by (auto simp: live_def store_ok_def)
    then show ?thesis using h by (force simp: open_handles_def)
  qed
qed (use assms in \<open>auto simp: store_ok_def\<close>)

lemma vfs_ok_mset: "mset hs = mset hs' \<Longrightarrow> vfs_ok v hs = vfs_ok v hs'"
proof -
  assume m: "mset hs = mset hs'"
  have "handle_count f hs = handle_count f hs'" for f unfolding handle_count_def by (metis m mset_filter size_mset)
  moreover have "length hs = length hs'" "set hs = set hs'" using m by (metis size_mset, metis set_mset_mset)
  ultimately show ?thesis by (simp add: vfs_ok_def vfs_inv_def)
qed

lemma store_add:
  assumes "store_ok y" "vfs_ok v (h # open_handles y)" "add_handle h (y\<lparr>fvfs := v\<rparr>) = (a, y')"
  shows "store_ok y'" "a \<noteq> 0" "handles y a = None" "handles y' = (handles y)(a \<mapsto> h)" "fvfs y' = v" "next_handle y' = Suc (next_handle y)"
    "length (open_handles y') = Suc (length (open_handles y))"
proof -
  have y': "a = next_handle y" "y' = y\<lparr>fvfs := v, handles := (handles y)(a \<mapsto> h), next_handle := Suc (next_handle y)\<rparr>"
    using assms(3) by (auto simp: add_handle_def)
  note D = store_okD[OF assms(1)]
  show 1: "a \<noteq> 0" "handles y a = None" "handles y' = (handles y)(a \<mapsto> h)" "fvfs y' = v" "next_handle y' = Suc (next_handle y)" using y' D(2,4) by auto
  have l: "live y' = live y @ [a]"
    using y' by (simp add: live_def) (intro filter_cong, auto)
  have "a \<notin> set (live y)" using y' by (simp add: live_def)
  then have "open_handles y' = open_handles y @ [h]" unfolding open_handles_def l using 1(3) by (auto intro: map_cong)
  then show "length (open_handles y') = Suc (length (open_handles y))" "store_ok y'"
    using vfs_ok_mset[of "open_handles y @ [h]" "h # open_handles y" v] assms(1,2) y' by (auto simp: store_ok_def less_SucI)
qed

lemma store_close:
  assumes "store_ok y" "handles y a = Some h"
  shows "\<exists>v. fs_close h (fvfs y) = Inr v \<and> store_ok (y\<lparr>fvfs := v, handles := (handles y)(a := None)\<rparr>)
    \<and> length (open_handles (y\<lparr>fvfs := v, handles := (handles y)(a := None)\<rparr>)) \<le> length (open_handles y)"
proof -
  note D = store_okD[OF assms(1)]
  obtain v where v: "fs_close h (fvfs y) = Inr v" "vfs_ok v (remove1 h (open_handles y))" using fs_close_ok[OF D(3) D(7)[OF assms(2)]] by blast
  let ?y = "y\<lparr>fvfs := v, handles := (handles y)(a := None)\<rparr>"
  have a: "a \<in> set (live y)" "distinct (live y)" using D(1)[OF assms(2)] assms(2) by (auto simp: live_def)
  have l: "live ?y = remove1 a (live y)" unfolding distinct_remove1_removeAll[OF a(2)] by (simp add: live_def removeAll_filter_not_eq) (rule filter_cong, auto)
  have o: "open_handles ?y = map (\<lambda>a. the (handles y a)) (remove1 a (live y))" unfolding open_handles_def l by (rule map_cong) (use a(2) in auto)
  have r: "mset (live y) = add_mset a (mset (remove1 a (live y)))" using a(1) by simp
  have "mset (open_handles y) = image_mset (\<lambda>a. the (handles y a)) (mset (live y))" by (simp add: open_handles_def)
  also have "\<dots> = add_mset h (mset (open_handles ?y))" unfolding r o by (simp only: image_mset_add_mset mset_map assms(2) option.sel)
  finally have "mset (open_handles y) = add_mset h (mset (open_handles ?y))" .
  then have m: "mset (open_handles ?y) = mset (remove1 h (open_handles y))" "length (open_handles ?y) \<le> length (open_handles y)"
    by (simp, metis size_add_mset size_mset lessI less_imp_le)
  then show ?thesis using v vfs_ok_mset[OF m(1)] assms(1) by (auto simp: store_ok_def)
qed

lemma store_driver: "store_ok y \<Longrightarrow> store_ok (y\<lparr>fvfs := (fvfs y)\<lparr>driver := d\<rparr>\<rparr>)"
  by (simp add: store_ok_def open_handles_def live_def vfs_ok_def tree_ok_def)

lemma store_dup:
  assumes "store_ok y" "handles y a = Some h" "Suc (length (open_handles y)) < 2 ^ 64"
  shows "fs_dup h (fvfs y) = (None, v) \<Longrightarrow> store_ok (y\<lparr>fvfs := v\<rparr>)" "fs_dup h (fvfs y) = (Some h1, v) \<Longrightarrow> vfs_ok v (h1 # open_handles y)"
proof -
  note D = store_okD[OF assms(1)]
  show "store_ok (y\<lparr>fvfs := v\<rparr>)" if "fs_dup h (fvfs y) = (None, v)"
    using vfs_step_ok[OF vs_dup_fail[OF D(7)[OF assms(2)] that] D(3)] assms(1) by (simp add: store_ok_def open_handles_def live_def)
  show "vfs_ok v (h1 # open_handles y)" if "fs_dup h (fvfs y) = (Some h1, v)"
    using vfs_step_ok[OF vs_dup[OF D(7)[OF assms(2)] that assms(3)] D(3)] .
qed

text \<open>A store that has grown by some handles.\<close>

definition grows :: "('d, 'h) fsys \<Rightarrow> nat multiset \<Rightarrow> ('d, 'h) fsys \<Rightarrow> bool" where
  "grows y N y' \<longleftrightarrow> store_ok y' \<and> mset_set (dom (handles y')) = mset_set (dom (handles y)) + N \<and> handles y \<subseteq>\<^sub>m handles y'
     \<and> length (open_handles y') = length (open_handles y) + size N"

lemma grows_refl: "store_ok y \<Longrightarrow> grows y {#} y"
  by (simp add: grows_def)

lemma grows_trans: "grows y M y1 \<Longrightarrow> grows y1 N y2 \<Longrightarrow> grows y (M + N) y2"
  by (auto simp: grows_def intro: map_le_trans)

lemma grows_add:
  assumes "store_ok y" "vfs_ok v (h # open_handles y)" "add_handle h (y\<lparr>fvfs := v\<rparr>) = (a, y')"
  shows "grows y {#a#} y'" "a \<noteq> 0"
proof -
  note A = store_add[OF assms]
  have "dom (handles y') = insert a (dom (handles y))" "a \<notin> dom (handles y)" using A(3,4) by auto
  then show "grows y {#a#} y'" using A store_okD(6)[OF assms(1)] by (auto simp: grows_def map_le_def)
qed (use store_add[OF assms] in simp)

lemma dup_handle_grows:
  assumes "store_ok y" "handles y a \<noteq> None" "Suc (length (open_handles y)) < 2 ^ 64"
  shows "grows y (slot 0 (fst (dup_handle a y))) (snd (dup_handle a y))"
proof -
  obtain h where h: "handles y a = Some h" using assms(2) by auto
  obtain r v where d: "fs_dup h (fvfs y) = (r, v)" by (meson surj_pair)
  note S = store_dup[OF assms(1) h assms(3)]
  show ?thesis
  proof (cases r)
    case None
    then show ?thesis using S(1) d h by (simp add: dup_handle_def grows_def open_handles_def live_def)
  next
    case (Some h1)
    obtain b y' where b: "add_handle h1 (y\<lparr>fvfs := v\<rparr>) = (b, y')" by (meson surj_pair)
    have "dup_handle a y = (b, y')" using d h Some b by (simp add: dup_handle_def)
    then show ?thesis using grows_add[OF assms(1) S(2) b] d Some by simp
  qed
qed

lemma dup_slots_grows:
  assumes "store_ok y" "\<forall>a \<in> set xs. a \<noteq> 0 \<longrightarrow> handles y a \<noteq> None" "length (open_handles y) + length xs < 2 ^ 64"
  shows "\<exists>ys y'. dup_slots 0 dup_handle xs y = (ys, y') \<and> grows y (filter_mset (\<lambda>a. a \<noteq> 0) (mset ys)) y' \<and> length ys = length xs"
  using assms
proof (induction xs arbitrary: y)
  case (Cons x xs)
  show ?case
  proof (cases "x = 0")
    case True
    obtain ys y' where "dup_slots 0 dup_handle xs y = (ys, y')" "grows y (filter_mset (\<lambda>a. a \<noteq> 0) (mset ys)) y'" "length ys = length xs"
      using Cons.IH[OF Cons.prems(1)] Cons.prems(2,3) by force
    then show ?thesis using True by simp
  next
    case False
    obtain b y1 where b: "dup_handle x y = (b, y1)" by (meson surj_pair)
    have g: "grows y (slot 0 b) y1" using dup_handle_grows[OF Cons.prems(1), of x] Cons.prems(2,3) False b by simp
    have h1: "\<forall>a \<in> set xs. a \<noteq> 0 \<longrightarrow> handles y1 a \<noteq> None" using g Cons.prems(2) by (fastforce simp: grows_def map_le_def dom_def)
    have s1: "store_ok y1" "length (open_handles y1) + length xs < 2 ^ 64" using g Cons.prems(3) by (auto simp: grows_def slot_def split: if_splits)
    obtain ys y' where ys: "dup_slots 0 dup_handle xs y1 = (ys, y')" "grows y1 (filter_mset (\<lambda>a. a \<noteq> 0) (mset ys)) y'" "length ys = length xs"
      using Cons.IH[OF s1(1) h1 s1(2)] by blast
    have "slot 0 b + filter_mset (\<lambda>a. a \<noteq> 0) (mset ys) = filter_mset (\<lambda>a. a \<noteq> 0) (mset (b # ys))" by (simp add: slot_def)
    then have "grows y (filter_mset (\<lambda>a. a \<noteq> 0) (mset (b # ys))) y'" using grows_trans[OF g ys(2)] by simp
    then show ?thesis using False b ys(1,3) by simp
  qed
qed (use grows_refl in force)

lemma close_handle_ok:
  assumes "store_ok y" "handles y a \<noteq> None"
  shows "store_ok (close_handle a y)" "handles (close_handle a y) = (handles y)(a := None)"
    "mset_set (dom (handles y)) = add_mset a (mset_set (dom (handles (close_handle a y))))"
proof -
  obtain h where h: "handles y a = Some h" using assms(2) by auto
  obtain v where v: "fs_close h (fvfs y) = Inr v" "store_ok (y\<lparr>fvfs := v, handles := (handles y)(a := None)\<rparr>)" using store_close[OF assms(1) h] by blast
  then show "store_ok (close_handle a y)" and d: "handles (close_handle a y) = (handles y)(a := None)" using h by (simp_all add: close_handle_def)
  have "dom (handles y) = insert a (dom (handles (close_handle a y)))" "a \<notin> dom (handles (close_handle a y))" using d h by auto
  then show "mset_set (dom (handles y)) = add_mset a (mset_set (dom (handles (close_handle a y))))"
    using store_okD(6)[OF assms(1)] by (metis finite_insert mset_set.insert)
qed

lemma close_slots_ok:
  assumes "store_ok y" "mset_set (dom (handles y)) = filter_mset (\<lambda>a. a \<noteq> 0) (mset xs) + R"
  shows "store_ok (snd (clear_slots 0 (Some close_handle) xs y)) \<and> mset_set (dom (handles (snd (clear_slots 0 (Some close_handle) xs y)))) = R"
  using assms
proof (induction xs arbitrary: y)
  case (Cons x xs)
  show ?case
  proof (cases "x = 0")
    case True
    then show ?thesis using Cons.IH[of y] Cons.prems by (simp add: split_def Let_def)
  next
    case False
    then have "x \<in># mset_set (dom (handles y))" using Cons.prems(2) by simp
    then have "handles y x \<noteq> None" using store_okD(6)[OF Cons.prems(1)] by (simp add: domIff)
    note C = close_handle_ok[OF Cons.prems(1) this]
    have "mset_set (dom (handles (close_handle x y))) = filter_mset (\<lambda>a. a \<noteq> 0) (mset xs) + R" using C(3) Cons.prems(2) False by simp
    then show ?thesis using Cons.IH[OF C(1)] False by (simp add: split_def Let_def)
  qed
qed simp

subsection \<open>The slots of the processes\<close>

definition slots :: "nat \<Rightarrow> 'v procs \<Rightarrow> nat multiset" where
  "slots p ps = (case fd_table (pcbs ps p) of None \<Rightarrow> {#} | Some l \<Rightarrow> entries l) + slot 0 (wd (pcbs ps p))"

definition held :: "nat list \<Rightarrow> 'v procs \<Rightarrow> nat multiset" where
  "held P ps = (\<Sum>p\<leftarrow>P. slots p ps)"

definition table_ok :: "nat \<Rightarrow> 'v procs \<Rightarrow> bool" where
  "table_ok p ps \<longleftrightarrow> p < next_pcb ps \<and> (\<exists>l. fd_table (pcbs ps p) = Some l \<and> al_wf l \<and> null l = 0)"

text \<open>\<open>P\<close> are the processes that have not been reaped: their slots hold exactly the allocated handles, each once.\<close>

definition fd_ok :: "nat list \<Rightarrow> ('d, 'h) sys \<Rightarrow> bool" where
  "fd_ok P s \<longleftrightarrow> distinct P \<and> (\<forall>p \<in> set P. table_ok p (sprocs s)) \<and> store_ok (fsys_of s) \<and> held P (sprocs s) = mset_set (dom (handles (fsys_of s)))"

lemma fd_okD:
  assumes "fd_ok P s"
  shows "distinct P" "p \<in> set P \<Longrightarrow> table_ok p (sprocs s)" "store_ok (fsys_of s)" "held P (sprocs s) = mset_set (dom (handles (fsys_of s)))"
  using assms by (auto simp: fd_ok_def)

lemma held_at: "p \<in> set P \<Longrightarrow> held P ps = slots p ps + held (remove1 p P) ps"
  by (simp add: held_def sum_list_map_remove1)

lemma held_cong: "(\<And>q. q \<in> set P \<Longrightarrow> slots q ps' = slots q ps) \<Longrightarrow> held P ps' = held P ps"
  unfolding held_def by (intro arg_cong[where f = sum_list] map_cong refl)

lemma fd_ok_update:
  assumes "fd_ok P s" "p \<in> set P" "\<And>q. q \<noteq> p \<Longrightarrow> q \<in> set P \<Longrightarrow> slots q (sprocs s') = slots q (sprocs s) \<and> table_ok q (sprocs s')"
    "table_ok p (sprocs s')" "store_ok (fsys_of s')"
    "slots p (sprocs s') + mset_set (dom (handles (fsys_of s))) = slots p (sprocs s) + mset_set (dom (handles (fsys_of s')))"
  shows "fd_ok P s'"
proof -
  note D = fd_okD[OF assms(1)]
  let ?R = "held (remove1 p P) (sprocs s)"
  have r: "held (remove1 p P) (sprocs s') = ?R"
    using assms(3) D(1) by (intro held_cong) simp
  have "mset_set (dom (handles (fsys_of s))) = slots p (sprocs s) + ?R" using D(4) held_at[OF assms(2)] by metis
  then have "slots p (sprocs s') + ?R = mset_set (dom (handles (fsys_of s')))" using assms(6) by (simp add: add.left_commute)
  then have "held P (sprocs s') = mset_set (dom (handles (fsys_of s')))" using held_at[OF assms(2), of "sprocs s'"] r by simp
  moreover have "table_ok q (sprocs s')" if "q \<in> set P" for q using assms(3)[OF _ that] assms(4) by (cases "q = p") simp_all
  ultimately show ?thesis using D(1) assms(5) by (simp add: fd_ok_def)
qed

lemma slot_live:
  assumes "fd_ok P s" "p \<in> set P" "a \<in># slots p (sprocs s)"
  shows "handles (fsys_of s) a \<noteq> None"
proof -
  have "a \<in># mset_set (dom (handles (fsys_of s)))" using fd_okD(4)[OF assms(1)] held_at[OF assms(2), of "sprocs s"] assms(3) by (metis union_iff)
  then show ?thesis using store_okD(6)[OF fd_okD(3)[OF assms(1)]] by (simp add: domIff)
qed

lemma entries_get: "array_list_get l i \<noteq> null l \<Longrightarrow> array_list_get l i \<in># entries l"
  using entries_split[of l i] by simp

lemma with_fd_ok:
  assumes "fd_ok P s" "p \<in> set P" "fd_table (pcbs (sprocs s) p) = Some l"
  shows "with_fd fd p s f = (if array_list_get l fd = 0 then done_with (Returns SYSCALL_STS_FAIL, s)
    else f (array_list_get l fd) (the (handles (fsys_of s) (array_list_get l fd))))"
    "array_list_get l fd \<noteq> 0 \<Longrightarrow> handles (fsys_of s) (array_list_get l fd) \<noteq> None"
proof -
  have "null l = 0" using fd_okD(2)[OF assms(1,2)] assms(3) by (simp add: table_ok_def)
  then show live: "handles (fsys_of s) (array_list_get l fd) \<noteq> None" if "array_list_get l fd \<noteq> 0"
    using slot_live[OF assms(1,2)] entries_get[of l fd] assms(3) that by (simp add: slots_def)
  then show "with_fd fd p s f = (if array_list_get l fd = 0 then done_with (Returns SYSCALL_STS_FAIL, s)
    else f (array_list_get l fd) (the (handles (fsys_of s) (array_list_get l fd))))"
    using assms(3) by (auto simp: with_fd_def process_resolve_fd_def handle_at_def)
qed

subsection \<open>The calls\<close>

lemma set_fsys_simps [simp]:
  "pcbs (sprocs (set_fsys y s)) = pcbs (sprocs s)" "next_pcb (sprocs (set_fsys y s)) = next_pcb (sprocs s)" "fsys_of (set_fsys y s) = y"
  "tables (sprocs (set_fsys y s)) = tables (sprocs s)"
  by (simp_all add: set_fsys_def)

lemma fd_ok_table:
  assumes "fd_ok P s" "p \<in> set P" "fd_table (pcbs (sprocs s) p) = Some l" "al_wf l'" "null l' = 0" "store_ok y"
    "entries l' + mset_set (dom (handles (fsys_of s))) = entries l + mset_set (dom (handles y))"
  shows "fd_ok P ((set_fsys y s)\<lparr>sprocs := upd_pcb p (\<lambda>q. q\<lparr>fd_table := Some l'\<rparr>) (sprocs (set_fsys y s))\<rparr>)"
proof -
  let ?s' = "(set_fsys y s)\<lparr>sprocs := upd_pcb p (\<lambda>q. q\<lparr>fd_table := Some l'\<rparr>) (sprocs (set_fsys y s))\<rparr>"
  let ?W = "slot 0 (wd (pcbs (sprocs s) p))" and ?D = "mset_set (dom (handles (fsys_of s)))" and ?D' = "mset_set (dom (handles y))"
  have sl: "slots p (sprocs ?s') = entries l' + ?W" "slots p (sprocs s) = entries l + ?W" by (simp_all add: slots_def assms(3))
  have "slots p (sprocs ?s') + ?D = (entries l' + ?D) + ?W" unfolding sl by (simp add: ac_simps)
  also have "\<dots> = (entries l + ?D') + ?W" by (simp only: assms(7))
  also have "\<dots> = slots p (sprocs s) + ?D'" unfolding sl by (simp add: ac_simps)
  finally have eq: "slots p (sprocs ?s') + ?D = slots p (sprocs s) + mset_set (dom (handles (fsys_of ?s')))" by simp
  have o: "slots q (sprocs ?s') = slots q (sprocs s) \<and> table_ok q (sprocs ?s')" if "q \<noteq> p" "q \<in> set P" for q
    using fd_okD(2)[OF assms(1) that(2)] that(1) by (simp add: slots_def table_ok_def)
  have "table_ok p (sprocs ?s')" "store_ok (fsys_of ?s')" using fd_okD(2)[OF assms(1,2)] assms(4-6) by (simp_all add: table_ok_def)
  from fd_ok_update[OF assms(1,2) o this eq] show ?thesis .
qed

definition call_ok :: "nat list \<Rightarrow> ('d, 'h) sys_result \<Rightarrow> bool" where
  "call_ok P r \<longleftrightarrow> r = failed (Panic PANIC_NO_MEM) \<or> (\<exists>x s'. r = done_with (Returns x, s') \<and> fd_ok P s')"

lemma call_okI: "fd_ok P s' \<Longrightarrow> call_ok P (done_with (Returns x, s'))"
  by (simp add: call_ok_def)

lemma set_vfs_ok:
  assumes "fd_ok P s" "store_ok ((fsys_of s)\<lparr>fvfs := v\<rparr>)"
  shows "fd_ok P (set_vfs v s)"
  using assms held_cong[of P "sprocs s" "sprocs (set_vfs v s)"] by (simp add: fd_ok_def set_vfs_def table_ok_def slots_def held_def)

lemma install_handle_ok:
  assumes "fd_ok P s" "p \<in> set P" "vfs_ok v (h # open_handles (fsys_of s))"
  shows "call_ok P (install_handle h v p s)"
proof -
  obtain l where l: "fd_table (pcbs (sprocs s) p) = Some l" "al_wf l" "null l = 0" using fd_okD(2)[OF assms(1,2)] by (auto simp: table_ok_def)
  obtain a y where a: "add_handle h ((fsys_of s)\<lparr>fvfs := v\<rparr>) = (a, y)" by (meson surj_pair)
  note G = grows_add[OF fd_okD(3)[OF assms(1)] assms(3) a]
  show ?thesis
  proof (cases rule: array_list_push_cases[OF l(2), where v = a])
    case 1
    then show ?thesis using a l(1) by (simp add: call_ok_def install_handle_def process_register_fd_def)
  next
    case (2 l1)
    then obtain i l' where p: "array_list_push l a = Some (Inr (i, l'))" by blast
    note L = array_list_push_ok[OF l(2) _ p]
    have "entries l' = add_mset a (entries l)" using entries_change[of l' l i a] L G(2) l(3) by simp
    then have "fd_ok P ((set_fsys y s)\<lparr>sprocs := upd_pcb p (\<lambda>q. q\<lparr>fd_table := Some l'\<rparr>) (sprocs (set_fsys y s))\<rparr>)"
      using L G l by (intro fd_ok_table[OF assms(1,2) l(1)]) (auto simp: grows_def)
    then show ?thesis using a l(1) p by (simp add: install_handle_def process_register_fd_def call_okI Let_def)
  qed
qed

definition room :: "('d, 'h) sys \<Rightarrow> bool" where
  "room s \<longleftrightarrow> 2 * length (open_handles (fsys_of s)) + 2 < 2 ^ 64"

lemma room_suc: "room s \<Longrightarrow> Suc (length (open_handles (fsys_of s))) < 2 ^ 64"
  by (simp add: room_def)

lemma store_vfs: "store_ok y \<Longrightarrow> vfs_ok v (open_handles y) \<Longrightarrow> store_ok (y\<lparr>fvfs := v\<rparr>)"
  by (simp add: store_ok_def open_handles_def live_def)

lemma fs_openat_ok:
  assumes "vfs_ok v hs" "at \<in> set hs" "Suc (length hs) < 2 ^ 64"
  shows "\<exists>r v'. fs_openat pth fl at md v = Some (Inr (r, v')) \<and> (case r of None \<Rightarrow> vfs_ok v' hs | Some h \<Rightarrow> vfs_ok v' (h # hs))"
proof -
  have "vfs.files v (fh_shared at) \<noteq> None"
    using vfs_invD(3)[of v hs "fh_shared at"] handle_count_pos[of "fh_shared at" hs] assms(1,2) by (auto simp: vfs_ok_def)
  then obtain r where r: "vfs.files v (fh_shared at) = Some r" by auto
  have o: "\<exists>r v'. fs_open_mode q fl md v = Some (Inr (r, v')) \<and> (case r of None \<Rightarrow> vfs_ok v' hs | Some h \<Rightarrow> vfs_ok v' (h # hs))" for q
    using fs_open_mode_ok[OF assms(1,3), of q fl md] by (elim exE conjE) (intro exI conjI)
  show ?thesis
  proof (cases "pth \<noteq> [] \<and> hd pth = SLASH \<or> path r \<noteq> None")
    case True
    then show ?thesis using o[of pth] o[of "the (path r) @ SLASH # pth"] r by (auto simp: fs_openat_def)
  next
    case False
    then show ?thesis using r assms(1) by (auto simp: fs_openat_def)
  qed
qed

lemma openat_ok:
  assumes "fd_ok P s" "p \<in> set P" "room s"
  shows "call_ok P (syscall_openat pth arg2 arg3 arg4 p s)"
proof -
  note D = fd_okD[OF assms(1)]
  obtain l where l: "fd_table (pcbs (sprocs s) p) = Some l" "null l = 0" using D(2)[OF assms(2)] by (auto simp: table_ok_def)
  define a where "a = (if ucast arg3 = AT_FDCWD then wd (pcbs (sprocs s) p) else array_list_get l arg3)"
  have r: "(if ucast arg3 = AT_FDCWD then Inr (process_get_wd p (sprocs s)) else process_resolve_fd arg3 p (sprocs s)) = Inr a"
    using l by (simp add: a_def process_get_wd_def process_resolve_fd_def)
  show ?thesis
  proof (cases "a = 0")
    case True
    then show ?thesis using r assms(1) by (simp add: syscall_openat_def call_okI)
  next
    case False
    then have "a \<in># slots p (sprocs s)" using l entries_get[of l arg3] by (auto simp: a_def slots_def)
    then obtain at where at: "handles (fsys_of s) a = Some at" using slot_live[OF assms(1,2)] by blast
    obtain q v where o: "fs_openat pth (ucast arg2) at (ucast arg4) (fvfs (fsys_of s)) = Some (Inr (q, v))"
      "case q of None \<Rightarrow> vfs_ok v (open_handles (fsys_of s)) | Some h \<Rightarrow> vfs_ok v (h # open_handles (fsys_of s))"
      using fs_openat_ok[OF store_okD(3)[OF D(3)] store_okD(7)[OF D(3) at] room_suc[OF assms(3)]] by blast
    have e: "syscall_openat pth arg2 arg3 arg4 p s =
      (case q of None \<Rightarrow> done_with (Returns SYSCALL_STS_FAIL, set_vfs v s) | Some h \<Rightarrow> install_handle h v p s)"
      using r False at o(1) by (simp add: syscall_openat_def openat_addr_def handle_at_def)
    show ?thesis
    proof (cases q)
      case None
      then show ?thesis using e o(2) set_vfs_ok[OF assms(1) store_vfs[OF D(3)]] by (simp add: call_okI)
    next
      case (Some h)
      then show ?thesis using e o(2) install_handle_ok[OF assms(1,2)] by simp
    qed
  qed
qed

lemma close_ok:
  assumes "fd_ok P s" "p \<in> set P" "fd_table (pcbs (sprocs s) p) = Some l"
  shows "\<exists>s'. syscall_close fd p s = done_with (Returns (ok_or_fail (array_list_get l fd \<noteq> 0)), s') \<and> fd_ok P s'"
proof (cases "array_list_get l fd = 0")
  case True
  then show ?thesis using with_fd_ok(1)[OF assms] assms(1) by (simp add: syscall_close_def ok_or_fail_def)
next
  case False
  let ?a = "array_list_get l fd" and ?y = "fsys_of s"
  have w: "al_wf l" "null l = 0" using fd_okD(2)[OF assms(1,2)] assms(3) by (auto simp: table_ok_def)
  obtain h where h: "handles ?y ?a = Some h" using with_fd_ok(2)[OF assms False] by blast
  obtain v where v: "fs_close h (fvfs ?y) = Inr v" using store_close[OF fd_okD(3)[OF assms(1)] h] by blast
  let ?y1 = "?y\<lparr>fvfs := v, handles := (handles ?y)(?a := None)\<rparr>"
  have "close_handle ?a ?y = ?y1" using h v by (simp add: close_handle_def)
  then have c: "store_ok ?y1" "mset_set (dom (handles ?y)) = add_mset ?a (mset_set (dom (handles ?y1)))"
    using close_handle_ok(1,3)[OF fd_okD(3)[OF assms(1)], of ?a] h by (metis option.distinct(1))+
  obtain l' where l': "array_list_remove l fd = (?a, l')" "al_wf l'" "null l' = 0" "\<forall>j. array_list_get l' j = (if j = fd then 0 else array_list_get l j)"
    using array_list_remove_ok[OF w(1), of fd] w(2) by (metis surj_pair)
  have e: "entries l = add_mset ?a (entries l')" using entries_change[of l' l fd 0] l' w(2) False by simp
  have "entries l' + mset_set (dom (handles ?y)) = entries l + mset_set (dom (handles ?y1))" by (simp only: c(2) e) simp
  from fd_ok_table[OF assms l'(2,3) c(1) this] show ?thesis
    using with_fd_ok(1)[OF assms] False h v l'(1) assms(3) by (simp add: syscall_close_def process_remove_fd_def ok_or_fail_def Let_def)
qed

lemma dup_ok:
  assumes "fd_ok P s" "p \<in> set P" "room s"
  shows "call_ok P (syscall_dup fd p s)"
proof -
  obtain l where l: "fd_table (pcbs (sprocs s) p) = Some l" using fd_okD(2)[OF assms(1,2)] by (auto simp: table_ok_def)
  note W = with_fd_ok[OF assms(1,2) l, of fd]
  show ?thesis
  proof (cases "array_list_get l fd = 0")
    case True
    then show ?thesis using W(1) assms(1) by (simp add: syscall_dup_def call_okI)
  next
    case False
    then obtain h where h: "handles (fsys_of s) (array_list_get l fd) = Some h" using W(2) by blast
    obtain q v where q: "fs_dup h (fvfs (fsys_of s)) = (q, v)" by (meson surj_pair)
    note S = store_dup[OF fd_okD(3)[OF assms(1)] h room_suc[OF assms(3)]]
    show ?thesis using W(1) False h q S install_handle_ok[OF assms(1,2)] set_vfs_ok[OF assms(1)]
      by (cases q) (simp_all add: syscall_dup_def call_okI)
  qed
qed

lemma close_handle_eq:
  "handles y a = Some h \<Longrightarrow> fs_close h (fvfs y) = Inr v \<Longrightarrow> close_handle a y = y\<lparr>fvfs := v, handles := (handles y)(a := None)\<rparr>"
  by (simp add: close_handle_def)

lemma set_small:
  assumes "al_wf l" "arg2 < 0xFFFFFFFF" "array_list_set l arg2 v = Inl e"
  shows "e = Panic PANIC_NO_MEM"
proof (cases "cap l \<le> arg2")
  case True
  then have u: "unat (arg2 - cap l + 1) < 2 ^ 32" "arg2 - cap l + 1 + cap l = arg2 + 1" "unat (arg2 + 1) = Suc (unat arg2)"
    using assms(2) by (simp_all add: unat_word_ariths(1) unat_sub word_le_nat_alt word_less_nat_alt)
  show ?thesis
  proof (cases "ArrayList.extend l (arg2 - cap l + 1)")
    case (Inl f)
    then show ?thesis using extend_fail[OF assms(1) u(1) Inl] assms(3) True by (simp add: array_list_set_def)
  next
    case (Inr l')
    have "length (buffer l') = unat (arg2 + 1)" using extend_ok[OF assms(1) Inr] u(2) by (simp add: al_wf_def add.commute)
    then show ?thesis using assms(3) True Inr u(3) by (simp add: array_list_set_def)
  qed
next
  case False
  then show ?thesis using assms(1,3) by (simp add: array_list_set_def al_wf_def word_le_nat_alt)
qed

lemma dup2_ok:
  assumes "fd_ok P s" "p \<in> set P" "room s" "arg2 < 0xFFFFFFFF"
  shows "call_ok P (syscall_dup2 fd arg2 p s)"
proof -
  note D = fd_okD[OF assms(1)]
  obtain l where l: "fd_table (pcbs (sprocs s) p) = Some l" "al_wf l" "null l = 0" using D(2)[OF assms(2)] by (auto simp: table_ok_def)
  note W = with_fd_ok[OF assms(1,2) l(1)] and S0 = store_dup[OF D(3) _ room_suc[OF assms(3)]]
  let ?old = "array_list_get l arg2"
  consider (none) "array_list_get l fd = 0" | (fail) h v where "array_list_get l fd \<noteq> 0" "handles (fsys_of s) (array_list_get l fd) = Some h" "fs_dup h (fvfs (fsys_of s)) = (None, v)"
    | (dup) h h1 v where "array_list_get l fd \<noteq> 0" "handles (fsys_of s) (array_list_get l fd) = Some h" "fs_dup h (fvfs (fsys_of s)) = (Some h1, v)"
    using W(2)[of fd] by (metis option.exhaust surj_pair)
  then show ?thesis
  proof cases
    case none
    then show ?thesis using W(1) assms(1) by (simp add: syscall_dup2_def call_okI)
  next
    case fail
    then show ?thesis using W(1) S0(1)[OF fail(2,3)] set_vfs_ok[OF assms(1)] by (simp add: syscall_dup2_def call_okI)
  next
    case dup
    obtain a y where a: "add_handle h1 ((fsys_of s)\<lparr>fvfs := v\<rparr>) = (a, y)" by (meson surj_pair)
    note G = grows_add[OF D(3) S0(2)[OF dup(2,3)] a]
    then have y: "store_ok y" "mset_set (dom (handles y)) = add_mset a (mset_set (dom (handles (fsys_of s))))" "handles (fsys_of s) \<subseteq>\<^sub>m handles y"
      by (simp_all add: grows_def)
    show ?thesis
    proof (cases "array_list_set l arg2 a")
      case (Inl e)
      then show ?thesis using W(1) dup a l(1) set_small[OF l(2) assms(4) Inl]
        by (simp add: syscall_dup2_def process_replace_fd_def call_ok_def Let_def)
    next
      case (Inr ol)
      then obtain old l' where set: "array_list_set l arg2 a = Inr (old, l')" by (cases ol) auto
      have L: "old = ?old" "al_wf l'" "null l' = 0" "entries l' + slot 0 ?old = add_mset a (entries l)"
        using array_list_set_ok[OF l(2) _ set] G(2) l(3) entries_change[of l' l arg2 a] by auto
      show ?thesis
      proof (cases "?old = 0")
        case True
        have "fd_ok P ((set_fsys y s)\<lparr>sprocs := upd_pcb p (\<lambda>q. q\<lparr>fd_table := Some l'\<rparr>) (sprocs (set_fsys y s))\<rparr>)"
          using L y True by (intro fd_ok_table[OF assms(1,2) l(1)]) auto
        then show ?thesis using W(1) dup a l(1) set L(1) True
          by (simp add: syscall_dup2_def process_replace_fd_def handle_at_def call_okI Let_def)
      next
        case False
        have "handles (fsys_of s) ?old \<noteq> None" using W(2)[of arg2] False by simp
        then obtain ho where ho: "handles y ?old = Some ho" using y(3) by (metis domIff map_le_def option.exhaust)
        obtain v2 where v2: "fs_close ho (fvfs y) = Inr v2" using store_close[OF y(1) ho] by blast
        let ?y2 = "close_handle ?old y"
        have "handles y ?old \<noteq> None" using ho by simp
        note C = close_handle_ok[OF y(1) this]
        let ?D = "mset_set (dom (handles (fsys_of s)))" and ?D2 = "mset_set (dom (handles ?y2))"
        have l4: "entries l' + {#?old#} = add_mset a (entries l)" and d2: "add_mset a ?D = add_mset ?old ?D2" using L(4) False y(2) C(3) by simp_all
        have "add_mset ?old (entries l' + ?D) = (entries l' + {#?old#}) + ?D" by simp
        also have "\<dots> = entries l + add_mset a ?D" unfolding l4 by simp
        also have "\<dots> = add_mset ?old (entries l + ?D2)" unfolding d2 by simp
        finally have "fd_ok P ((set_fsys ?y2 s)\<lparr>sprocs := upd_pcb p (\<lambda>q. q\<lparr>fd_table := Some l'\<rparr>) (sprocs (set_fsys ?y2 s))\<rparr>)"
          using L C(1) by (intro fd_ok_table[OF assms(1,2) l(1)]) auto
        moreover have "set_fsys ?y2 ((set_fsys y s)\<lparr>sprocs := upd_pcb p (\<lambda>q. q\<lparr>fd_table := Some l'\<rparr>) (sprocs (set_fsys y s))\<rparr>)
          = (set_fsys ?y2 s)\<lparr>sprocs := upd_pcb p (\<lambda>q. q\<lparr>fd_table := Some l'\<rparr>) (sprocs (set_fsys ?y2 s))\<rparr>"
          by (simp add: set_fsys_def upd_pcb_def)
        ultimately show ?thesis using W(1) dup a l(1) set L(1) False ho v2 close_handle_eq[OF ho v2]
          by (simp add: syscall_dup2_def process_replace_fd_def handle_at_def call_okI Let_def)
      qed
    qed
  qed
qed

lemma ccwd_ok:
  assumes "fd_ok P s" "p \<in> set P" "room s" "wd (pcbs (sprocs s) p) \<noteq> 0"
  shows "\<exists>x s'. syscall_ccwd fd p s = done_with (Returns x, s') \<and> fd_ok P s'"
proof -
  note D = fd_okD[OF assms(1)]
  let ?ps = "sprocs s" and ?y = "fsys_of s"
  let ?w = "wd (pcbs ?ps p)"
  obtain l where l: "fd_table (pcbs ?ps p) = Some l" "al_wf l" "null l = 0" using D(2)[OF assms(2)] by (auto simp: table_ok_def)
  note W = with_fd_ok[OF assms(1,2) l(1)]
  show ?thesis
  proof (cases "array_list_get l fd = 0")
    case True
    then show ?thesis using W(1) assms(1) by (simp add: syscall_ccwd_def)
  next
    case False
    let ?a = "array_list_get l fd"
    obtain hw where hw: "handles ?y ?w = Some hw" using slot_live[OF assms(1,2), of ?w] assms(4) by (auto simp: slots_def)
    obtain h where h: "handles ?y ?a = Some h" using W(2)[OF False] by blast
    have sl: "slots p ?ps = add_mset ?w (entries l)" using l(1) assms(4) by (simp add: slots_def)
    have "?a \<noteq> ?w"
    proof
      assume "?a = ?w"
      then have "2 \<le> count (slots p ?ps) ?w" using entries_get[of l fd] False l(3) sl by (simp add: Suc_le_eq)
      also have "\<dots> \<le> count (mset_set (dom (handles ?y))) ?w" using D(4) held_at[OF assms(2), of ?ps] by (metis count_union le_add1)
      finally show False by (simp add: count_mset_set' split: if_splits)
    qed
    obtain v where v: "fs_close hw (fvfs ?y) = Inr v" using store_close[OF D(3) hw] by blast
    let ?y1 = "close_handle ?w ?y"
    have "handles ?y ?w \<noteq> None" using hw by simp
    note C = close_handle_ok[OF D(3) this]
    have "length (open_handles ?y1) \<le> length (open_handles ?y)" using store_close[OF D(3) hw] close_handle_eq[OF hw v] v by auto
    then have "Suc (length (open_handles ?y1)) < 2 ^ 64" using room_suc[OF assms(3)] by linarith
    moreover have "handles ?y1 ?a \<noteq> None" using C(2) h \<open>?a \<noteq> ?w\<close> by simp
    ultimately have G: "grows ?y1 (slot 0 (fst (dup_handle ?a ?y1))) (snd (dup_handle ?a ?y1))" by (intro dup_handle_grows[OF C(1)])
    obtain b y2 where b: "dup_handle ?a ?y1 = (b, y2)" by (meson surj_pair)
    let ?s' = "(set_fsys y2 s)\<lparr>sprocs := process_set_wd b p (sprocs (set_fsys y2 s))\<rparr>"
    have "syscall_ccwd fd p s = done_with (Returns SYSCALL_STS_OK, ?s')"
      using W(1) False hw v h b close_handle_eq[OF hw v] assms(4) by (simp add: syscall_ccwd_def handle_at_def process_get_wd_def Let_def)
    moreover have "fd_ok P ?s'"
    proof (rule fd_ok_update[OF assms(1,2)])
      have "slots p (sprocs ?s') = entries l + slot 0 b" using l(1) by (simp add: slots_def process_set_wd_def)
      moreover have "mset_set (dom (handles y2)) = mset_set (dom (handles ?y1)) + slot 0 b" using G b by (simp add: grows_def)
      ultimately show "slots p (sprocs ?s') + mset_set (dom (handles (fsys_of s))) = slots p (sprocs s) + mset_set (dom (handles (fsys_of ?s')))"
        using sl C(3) by (simp add: process_set_wd_def)
    qed (use D(2) assms(2) G b in \<open>auto simp: slots_def table_ok_def process_set_wd_def grows_def\<close>)
    ultimately show ?thesis by blast
  qed
qed

lemma fork_files:
  assumes "process_fork dup sr r11' rcx' rbp' ub (Some (va, pa)) space p s = Inr (k, s')"
  obtains fds wd' fs1 fds' fs2 where "fd_table (pcbs s p) = Some fds" "dup (wd (pcbs s p)) (procs.files s) = (wd', fs1)"
    "array_list_dup fds dup fs1 = Inr (fds', fs2)" "procs.files s' = fs2" "next_pcb s' = Suc (next_pcb s)"
    "\<And>q. q \<noteq> next_pcb s \<Longrightarrow> pcbs s' q = pcbs s q" "fd_table (pcbs s' (next_pcb s)) = Some fds'" "wd (pcbs s' (next_pcb s)) = wd'"
  using assms
  by (fastforce simp: process_fork_def signal_wait_alloc_def process_assign_pid_def init_pcb_def scheduler_schedule_def Let_def
      split: option.splits sum.splits prod.splits)

lemma fork_ok_fds:
  assumes "fd_ok P s" "p \<in> set P" "room s" "wd (pcbs (sprocs s) p) \<noteq> 0"
    "process_fork dup_handle sr r11' rcx' rbp' ub (Some (va, pa)) space p (sprocs s) = Inr (k, ps')" "table_ok (next_pcb (sprocs s)) ps'" "sprocs s' = ps'"
  shows "fd_ok (next_pcb (sprocs s) # P) s'"
proof -
  note D = fd_okD[OF assms(1)]
  let ?y = "fsys_of s" and ?c = "next_pcb (sprocs s)"
  obtain fds wd' y1 fds' y2 where f: "fd_table (pcbs (sprocs s) p) = Some fds" "dup_handle (wd (pcbs (sprocs s) p)) ?y = (wd', y1)"
    "array_list_dup fds dup_handle y1 = Inr (fds', y2)" "procs.files ps' = y2" "next_pcb ps' = Suc ?c"
    "\<And>q. q \<noteq> ?c \<Longrightarrow> pcbs ps' q = pcbs (sprocs s) q" "fd_table (pcbs ps' ?c) = Some fds'" "wd (pcbs ps' ?c) = wd'"
    using fork_files[OF assms(5)] by blast
  have w: "al_wf fds" "null fds = 0" using D(2)[OF assms(2)] f(1) by (auto simp: table_ok_def)
  have "handles ?y (wd (pcbs (sprocs s) p)) \<noteq> None" using slot_live[OF assms(1,2)] assms(4) by (simp add: slots_def)
  from dup_handle_grows[OF D(3) this room_suc[OF assms(3)]] have g1: "grows ?y (slot 0 wd') y1" using f(2) by simp
  obtain b where b: "dup_slots 0 dup_handle (buffer fds) y1 = (b, y2)" "buffer fds' = b" "null fds' = 0"
    using f(3) w(2) by (auto simp: array_list_dup_def split: sum.splits prod.splits)
  have lv: "\<forall>a \<in> set (buffer fds). a \<noteq> 0 \<longrightarrow> handles y1 a \<noteq> None"
  proof (intro ballI impI)
    fix a assume "a \<in> set (buffer fds)" "a \<noteq> 0"
    then have "a \<in># slots p (sprocs s)" using f(1) entries_buffer[OF w(1)] w(2) by (simp add: slots_def)
    then have "a \<in> dom (handles ?y)" using slot_live[OF assms(1,2)] by blast
    then show "handles y1 a \<noteq> None" using g1 by (metis domIff grows_def map_le_def)
  qed
  have "length (buffer fds) < 0x40000" using w(1) by (simp add: al_wf_def)
  moreover have "length (open_handles y1) \<le> Suc (length (open_handles ?y))" using g1 by (auto simp: grows_def slot_def split: if_splits)
  ultimately have "length (open_handles y1) + length (buffer fds) < 2 ^ 64" using assms(3) unfolding room_def by simp
  from dup_slots_grows[OF _ lv this] have g2: "grows y1 (filter_mset (\<lambda>a. a \<noteq> 0) (mset b)) y2" using g1 b(1) by (simp add: grows_def)
  have "al_wf fds'" using assms(6) f(7) by (simp add: table_ok_def)
  then have sc: "slots ?c ps' = filter_mset (\<lambda>a. a \<noteq> 0) (mset b) + slot 0 wd'" using f(7,8) entries_buffer[of fds'] b(2,3) by (simp add: slots_def)
  have nc: "?c \<notin> set P" using D(2) by (force simp: table_ok_def)
  have h: "held P ps' = held P (sprocs s)"
  proof (rule held_cong)
    fix q assume "q \<in> set P"
    then have "q \<noteq> ?c" using nc by auto
    then show "slots q ps' = slots q (sprocs s)" using f(6) by (simp add: slots_def)
  qed
  have "held (?c # P) ps' = slots ?c ps' + held P ps'" by (simp add: held_def)
  also have "\<dots> = mset_set (dom (handles y2))" unfolding sc h D(4) using grows_trans[OF g1 g2] by (simp add: grows_def ac_simps)
  finally have "held (?c # P) ps' = mset_set (dom (handles y2))" .
  moreover have "table_ok q ps'" if "q \<in> set P" for q using D(2)[OF that] f(5,6) nc that by (cases "q = ?c") (auto simp: table_ok_def)
  ultimately show ?thesis using D(1) nc assms(6,7) g2 f(4) by (auto simp: fd_ok_def grows_def)
qed

text \<open>What reaping a process does to the files: its working directory and descriptors are closed, and nothing else.\<close>

definition same_fds :: "'v procs \<Rightarrow> 'v procs \<Rightarrow> bool" where
  "same_fds s s' \<longleftrightarrow> procs.files s' = procs.files s \<and> next_pcb s' = next_pcb s \<and> (\<forall>q. fd_table (pcbs s' q) = fd_table (pcbs s q) \<and> wd (pcbs s' q) = wd (pcbs s q))"

lemma same_fds_slots: "same_fds s s' \<Longrightarrow> slots q s' = slots q s" "same_fds s s' \<Longrightarrow> table_ok q s' = table_ok q s"
  by (simp_all add: same_fds_def slots_def table_ok_def)

lemma orphan_stop: "fold orphan_children qs (Inl e) = Inl e"
  by (induction qs) (simp_all add: orphan_children_def)

lemma awake_loop_files: "procs.files (awake_loop q s) = procs.files s" "next_pcb (awake_loop q s) = next_pcb s"
  by (induction q arbitrary: s) (simp_all add: scheduler_schedule_def)

lemma orphan_same_fds: "fold orphan_children qs (Inr s) = Inr s' \<Longrightarrow> same_fds s s'"
proof (induction qs arbitrary: s)
  case (Cons c qs)
  show ?case
  proof (cases "orphan_children c (Inr s)")
    case (Inl e)
    then show ?thesis using Cons.prems by (simp add: orphan_stop)
  next
    case (Inr s1)
    then have "same_fds s s1" by (auto simp: orphan_children_def same_fds_def Let_def split: option.splits sum.splits)
    then show ?thesis using Cons.IH[of s1] Cons.prems Inr by (auto simp: same_fds_def)
  qed
qed (simp add: same_fds_def)

lemma awake_same_fds: "same_fds s (signal_awake_locked w (Some p) s)"
  by (simp add: signal_awake_locked_def same_fds_def awake_loop_pcbs awake_loop_files lock_release_def)

lemma reap_files:
  assumes "reap_prepare close p s = Inr s'" "cr3 (pcbs s p) \<noteq> 0" "init_k_rsp_vaddr (pcbs s p) \<noteq> 0"
  obtains fds where "fd_table (pcbs s p) = Some fds" "procs.files s' = array_list_free fds (Some close) (close (wd (pcbs s p)) (procs.files s))"
    "\<And>q. slots q s' = slots q s" "\<And>q. table_ok q s' = table_ok q s"
proof -
  obtain fds ct w where f: "fd_table (pcbs s p) = Some fds" "child_table (pcbs s p) = Some ct" "monitor (pcbs s p) = Some w"
    using assms by (auto simp: reap_prepare_def Let_def split: option.splits)
  let ?s2 = "s\<lparr>released := Userspace (cr3 (pcbs s p)) # Stack (init_k_rsp_vaddr (pcbs s p)) (init_k_rsp_paddr (pcbs s p)) # released s,
    procs.files := array_list_free fds (Some close) (close (wd (pcbs s p)) (procs.files s))\<rparr>"
  obtain s3 where s3: "fold orphan_children (map snd (concat (buckets (tables s ! ct)))) (Inr ?s2) = Inr s3"
    "s' = signal_awake_locked w (Some p) (upd_pcb p (\<lambda>q. q\<lparr>plock := True, sched_cntr := SCHED_ZOMBIE\<rparr>) s3)"
    using assms f by (auto simp: reap_prepare_def hash_table_free_def hash_table_clear_def fold_clear_chain Let_def split: sum.splits)
  have "same_fds s3 (upd_pcb p (\<lambda>q. q\<lparr>plock := True, sched_cntr := SCHED_ZOMBIE\<rparr>) s3)" by (simp add: same_fds_def)
  then have sf: "same_fds ?s2 s'" using orphan_same_fds[OF s3(1)] awake_same_fds[of _ w p] unfolding s3(2) same_fds_def by metis
  have "slots q ?s2 = slots q s" "table_ok q ?s2 = table_ok q s" for q by (simp_all add: slots_def table_ok_def)
  then show ?thesis using that f(1) sf same_fds_slots[OF sf] by (simp add: same_fds_def)
qed

lemma reap_ok:
  assumes "fd_ok P s" "p \<in> set P" "wd (pcbs (sprocs s) p) \<noteq> 0" "reap_prepare close_handle p (sprocs s) = Inr ps'"
    "cr3 (pcbs (sprocs s) p) \<noteq> 0" "init_k_rsp_vaddr (pcbs (sprocs s) p) \<noteq> 0" "sprocs s' = ps'"
  shows "fd_ok (remove1 p P) s'"
proof -
  note D = fd_okD[OF assms(1)]
  let ?y = "fsys_of s" and ?w = "wd (pcbs (sprocs s) p)" and ?R = "held (remove1 p P) (sprocs s)"
  obtain fds where f: "fd_table (pcbs (sprocs s) p) = Some fds" "procs.files ps' = array_list_free fds (Some close_handle) (close_handle ?w ?y)"
    "\<And>q. slots q ps' = slots q (sprocs s)" "\<And>q. table_ok q ps' = table_ok q (sprocs s)" using reap_files[OF assms(4-6)] by blast
  have w: "al_wf fds" "null fds = 0" using D(2)[OF assms(2)] f(1) by (auto simp: table_ok_def)
  have "handles ?y ?w \<noteq> None" using slot_live[OF assms(1,2)] assms(3) by (simp add: slots_def)
  note C = close_handle_ok[OF D(3) this]
  have "add_mset ?w (mset_set (dom (handles (close_handle ?w ?y)))) = add_mset ?w (entries fds + ?R)"
    using C(3) D(4) held_at[OF assms(2), of "sprocs s"] f(1) assms(3) by (simp add: slots_def)
  then have "mset_set (dom (handles (close_handle ?w ?y))) = filter_mset (\<lambda>a. a \<noteq> 0) (mset (buffer fds)) + ?R"
    using entries_buffer[OF w(1)] w(2) by simp
  from close_slots_ok[OF C(1) this] have "store_ok (procs.files ps')" "mset_set (dom (handles (procs.files ps'))) = ?R"
    unfolding f(2) by (simp_all add: array_list_free_def array_list_clear_def w(2) split_def Let_def)
  moreover have "held (remove1 p P) ps' = ?R" by (rule held_cong) (simp add: f(3))
  ultimately show ?thesis using D(1,2) f(4) assms(7) by (auto simp: fd_ok_def dest: notin_set_remove1)
qed

end
