(* ===== verification/SyscallRun.thy ===== *)
theory SyscallRun
  imports SyscallSpec
begin

section \<open>Runs of system calls\<close>

text \<open>
  The calls that leave descriptors alone, the steps a system of processes makes, and the properties of whole runs; then the buffer of a
  directory read, and calls that do not do what they should.
\<close>

subsection \<open>Calls that leave descriptors alone\<close>

definition quiet :: "('d, 'h) sys \<Rightarrow> ('d, 'h) sys \<Rightarrow> bool" where
  "quiet s s' \<longleftrightarrow> (\<exists>d. fsys_of s' = (fsys_of s)\<lparr>fvfs := (fvfs (fsys_of s))\<lparr>driver := d\<rparr>\<rparr>) \<and> next_pcb (sprocs s') = next_pcb (sprocs s)
     \<and> (\<forall>q. fd_table (pcbs (sprocs s') q) = fd_table (pcbs (sprocs s) q) \<and> wd (pcbs (sprocs s') q) = wd (pcbs (sprocs s) q))"

lemma quiet_fd_ok:
  assumes "quiet s s'" "fd_ok P s"
  shows "fd_ok P s'"
proof -
  have "slots q (sprocs s') = slots q (sprocs s)" "table_ok q (sprocs s') = table_ok q (sprocs s)" for q
    using assms(1) by (simp_all add: quiet_def slots_def table_ok_def)
  moreover from this(1) have "held P (sprocs s') = held P (sprocs s)" by (intro held_cong)
  moreover obtain d where "fsys_of s' = (fsys_of s)\<lparr>fvfs := (fvfs (fsys_of s))\<lparr>driver := d\<rparr>\<rparr>" using assms(1) by (auto simp: quiet_def)
  ultimately show ?thesis using assms(2) store_driver[of "fsys_of s" d] by (simp add: fd_ok_def)
qed

lemma quiet_refl: "quiet s s"
  unfolding quiet_def by (intro conjI exI[of _ "driver (fvfs (fsys_of s))"]) simp_all

lemma quiet_trans: "quiet s t \<Longrightarrow> quiet t u \<Longrightarrow> quiet s u"
  by (auto simp: quiet_def)

lemma quiet_copy_out: "quiet s (copy_out p a bs s)"
  using quiet_refl[of s] by (simp add: copy_out_def quiet_def Let_def)

lemma quiet_set_vfs: "\<exists>d. v = (fvfs (fsys_of s))\<lparr>driver := d\<rparr> \<Longrightarrow> quiet s (set_vfs v s)"
  by (auto simp: set_vfs_def quiet_def)

lemma on_mount_driver: "\<exists>d. snd (on_mount f h v) = v\<lparr>driver := d\<rparr>"
  by (auto simp: on_mount_def split: prod.splits)

lemma read_driver: "\<exists>d. snd (fs_read h n v) = v\<lparr>driver := d\<rparr>"
  using on_mount_driver[of _ h v] by (auto simp: fs_read_def intro: exI[of _ "driver v"])

lemma write_driver: "\<exists>d. snd (fs_write h n v) = v\<lparr>driver := d\<rparr>"
  using on_mount_driver[of _ h v] by (auto simp: fs_write_def intro: exI[of _ "driver v"])

lemma link_driver: "\<exists>d. snd (fs_link h n v) = v\<lparr>driver := d\<rparr>"
  using on_mount_driver[of _ h v] by (auto simp: fs_link_def intro: exI[of _ "driver v"])

lemma with_fd_cases:
  assumes "with_fd fd p s f = done_with r"
  shows "r = (Returns SYSCALL_STS_FAIL, s) \<or> (\<exists>a h. f a h = done_with r)"
  using assms by (auto simp: with_fd_def split: sum.splits option.splits)

lemma fs_call_quiet:
  assumes "\<And>h v. \<exists>d. snd (f h v) = v\<lparr>driver := d\<rparr>" "fs_call fd p f val s = done_with (x, s')"
  shows "quiet s s'"
proof -
  from with_fd_cases[OF assms(2)[unfolded fs_call_def]] show ?thesis
  proof
    assume "\<exists>a h. (let (r, v) = f h (fvfs (fsys_of s)) in done_with (Returns (val r), set_vfs v s)) = done_with (x, s')"
    then obtain h where "s' = set_vfs (snd (f h (fvfs (fsys_of s)))) s" by (auto simp: split_def Let_def)
    then show ?thesis using quiet_set_vfs[OF assms(1)] by simp
  qed (simp add: quiet_refl)
qed

lemma seek_driver: "\<exists>d. snd (fs_get_seek h (snd (fs_seek h k v))) = v\<lparr>driver := d\<rparr>"
  by (auto simp: fs_get_seek_def fs_seek_def on_mount_def split: prod.splits)

lemma read_dir_step_quiet:
  assumes "fs_read_dir h (fvfs (fsys_of s)) = (r, v)" "s2 = copy_out p a bs (set_vfs v s)" "fs_next_dir h (fvfs (fsys_of s2)) = (x, v2)"
  shows "quiet s (set_vfs v s)" "quiet s (set_vfs v2 s2)"
proof -
  have "\<exists>d. v = (fvfs (fsys_of s))\<lparr>driver := d\<rparr>" using on_mount_driver[of m_read_dir h "fvfs (fsys_of s)"] assms(1) by (auto simp: fs_read_dir_def)
  then show q: "quiet s (set_vfs v s)" by (rule quiet_set_vfs)
  have "\<exists>d. v2 = (fvfs (fsys_of s2))\<lparr>driver := d\<rparr>" using on_mount_driver[of m_next_dir h "fvfs (fsys_of s2)"] assms(3) by (auto simp: fs_next_dir_def)
  then have "quiet s2 (set_vfs v2 s2)" by (rule quiet_set_vfs)
  moreover have "quiet s s2" unfolding assms(2) using quiet_trans[OF q quiet_copy_out] .
  ultimately show "quiet s (set_vfs v2 s2)" by (rule quiet_trans[rotated])
qed

lemma read_dir_quiet:
  assumes "read_dir_entries a2 a3 n h p s = Some y"
  shows "quiet s (snd y)"
proof (rule read_dir_entries.raw_induct[where P = "\<lambda>a2 a3 n h p s y. quiet s (snd y)", OF _ assms])
  fix rec a2 a3 n h p and s :: "('d, 'h) sys" and y
  assume IH: "\<And>a2 a3 n h p s y. rec a2 a3 n h p s = Some y \<Longrightarrow> quiet s (snd y)"
    and e: "(let ((sts, info), v) = fs_read_dir h (fvfs (fsys_of s)); s1 = set_vfs v s; name_len = word_of_nat (length (dir_name info)) + 1
      in if sts \<noteq> FILE_OK \<or> a3 < n + name_len + SIZEOF_DIRENT then Some (n, s1)
         else let s2 = copy_out p (a2 + n) (dirent_bytes info) s1; (_, v2) = fs_next_dir h (fvfs (fsys_of s2))
              in rec a2 a3 (n + (name_len + SIZEOF_DIRENT)) h p (set_vfs v2 s2)) = Some y"
  obtain sts info v where r: "fs_read_dir h (fvfs (fsys_of s)) = ((sts, info), v)" by (metis surj_pair)
  define s2 where "s2 = copy_out p (a2 + n) (dirent_bytes info) (set_vfs v s)"
  obtain x v2 where x: "fs_next_dir h (fvfs (fsys_of s2)) = (x, v2)" by (metis surj_pair)
  note Q = read_dir_step_quiet[OF r s2_def x]
  from e r x have "y = (n, set_vfs v s) \<or> rec a2 a3 (n + (of_nat (length (dir_name info)) + 1 + SIZEOF_DIRENT)) h p (set_vfs v2 s2) = Some y"
    by (auto simp: Let_def s2_def split: if_splits)
  then show "quiet s (snd y)"
  proof
    assume "rec a2 a3 (n + (of_nat (length (dir_name info)) + 1 + SIZEOF_DIRENT)) h p (set_vfs v2 s2) = Some y"
    from quiet_trans[OF Q(2) IH[OF this]] show ?thesis .
  qed (simp add: Q(1))
qed

lemma wait_quiet:
  assumes "process_wait_pid k nh p ps = Inr (Wait_ok x ec ps') \<or> process_wait_pid k nh p ps = Inr (Wait_blocked c ps')"
  shows "same_fds ps ps'"
proof -
  have "same_fds ps ps'" if r: "reap_final c ps = Inr ps'" for c
    using r by (auto simp: reap_final_def signal_free_def signal_awake_def signal_awake_locked_def same_fds_def awake_loop_pcbs awake_loop_files
      lock_release_def Let_def split: option.splits sum.splits)
  moreover have "same_fds ps (signal_wait_locked w r p (upd_pcb c (\<lambda>q. q\<lparr>plock := True\<rparr>) ps))" for w r c
    by (simp add: signal_wait_locked_def process_set_callback_def same_fds_def)
  moreover have "ps' = ps \<or> (\<exists>c. reap_final c ps = Inr ps') \<or> (\<exists>w r c. ps' = signal_wait_locked w r p (upd_pcb c (\<lambda>q. q\<lparr>plock := True\<rparr>) ps))"
    using assms by (auto simp: process_wait_pid_def wait_child_def process_reap_child_def Let_def split: option.splits sum.splits if_splits reaped.splits prod.splits)
  ultimately show ?thesis by (auto simp: same_fds_def)
qed

inductive io_call :: "nat \<Rightarrow> (('d, 'h) sys \<Rightarrow> ('d, 'h) sys_result) \<Rightarrow> bool" where
  io_exit: "io_call p (syscall_exit a p)"
| io_read: "io_call p (syscall_read a b c p)"
| io_write: "io_call p (syscall_write a b c p)"
| io_alloc: "io_call p (syscall_alloc a p)"
| io_open_dir: "io_call p (syscall_open_dir a p)"
| io_read_dir: "io_call p (syscall_read_dir a b c p)"
| io_truncate: "io_call p (syscall_truncate a b p)"
| io_seek: "io_call p (syscall_seek a b p)"
| io_tell: "io_call p (syscall_tell a p)"
| io_create_dir: "io_call p (syscall_create_dir a p)"
| io_delete_dir: "io_call p (syscall_delete_dir a p)"
| io_epoch_time: "io_call p (syscall_epoch_time t)"
| io_is_a_tty: "io_call p (syscall_is_a_tty a p)"
| io_gcwd: "io_call p (syscall_gcwd a b p)"
| io_link: "io_call p (syscall_link a b p)"
| io_unlink: "io_call p (syscall_unlink a p)"
| io_stat: "io_call p (syscall_stat a b p)"
| io_getpid: "io_call p (syscall_getpid p)"
| io_getppid: "io_call p (syscall_getppid p)"
| io_waitpid: "io_call p (syscall_waitpid a b c d p)"

lemma same_fds_quiet: "same_fds (sprocs s) ps \<Longrightarrow> quiet s (s\<lparr>sprocs := ps\<rparr>)"
  using quiet_refl[of s] by (auto simp: same_fds_def quiet_def)

lemma dir_driver: "\<exists>d. snd (fs_open_dir h v) = v\<lparr>driver := d\<rparr>"
  by (auto simp: fs_open_dir_def on_mount_def split: prod.splits)

lemma io_call_quiet: "io_call p c \<Longrightarrow> c s = done_with (r, s') \<Longrightarrow> quiet s s'"
proof (induction rule: io_call.induct)
  case (io_exit p a)
  have "same_fds (sprocs s) (process_exit a p (sprocs s))" by (simp add: process_exit_def process_kill_current_def same_fds_def)
  then show ?case using io_exit same_fds_quiet by (auto simp: syscall_exit_def)
next
  case (io_read p a b c)
  from with_fd_cases[OF io_read[unfolded syscall_read_def]] show ?case
  proof
    assume "\<exists>x h. (let ((n, bs), v) = fs_read h c (fvfs (fsys_of s)) in done_with (Returns n, copy_out p b bs (set_vfs v s))) = done_with (r, s')"
    then obtain h bs where "s' = copy_out p b bs (set_vfs (snd (fs_read h c (fvfs (fsys_of s)))) s)" by (auto simp: split_def Let_def)
    then show ?thesis using quiet_trans[OF quiet_set_vfs[OF read_driver] quiet_copy_out] by simp
  qed (simp add: quiet_refl)
next
  case (io_write p a b c)
  then show ?case unfolding syscall_write_def by (rule fs_call_quiet[OF write_driver])
next
  case (io_alloc p a)
  then show ?case using quiet_refl[of s] by (auto simp: syscall_alloc_def quiet_def process_set_mem_top_def Let_def split: prod.splits if_splits)
next
  case (io_open_dir p a)
  then show ?case unfolding syscall_open_dir_def by (rule fs_call_quiet[OF dir_driver])
next
  case (io_read_dir p a b c)
  from with_fd_cases[OF io_read_dir[unfolded syscall_read_dir_def]] show ?case
  proof
    assume "\<exists>x h. (case read_dir_entries b c 0 h p s of None \<Rightarrow> None | Some (n, s1) \<Rightarrow> done_with (Returns n, s1)) = done_with (r, s')"
    then obtain h n where "read_dir_entries b c 0 h p s = Some (n, s')" by (auto split: option.splits)
    from read_dir_quiet[OF this] show ?thesis by simp
  qed (simp add: quiet_refl)
next
  case (io_truncate p a b)
  then show ?case unfolding syscall_truncate_def fs_truncate_def by (rule fs_call_quiet[OF on_mount_driver])
next
  case (io_seek p a b)
  then show ?case unfolding syscall_seek_def by (rule fs_call_quiet[OF seek_driver])
next
  case (io_tell p a)
  then show ?case unfolding syscall_tell_def fs_get_seek_def by (rule fs_call_quiet[OF on_mount_driver])
next
  case (io_create_dir p a)
  then show ?case unfolding syscall_create_dir_def fs_create_dir_def by (rule fs_call_quiet[OF on_mount_driver])
next
  case (io_delete_dir p a)
  then show ?case unfolding syscall_delete_dir_def fs_delete_dir_def by (rule fs_call_quiet[OF on_mount_driver])
next
  case (io_is_a_tty p a)
  then show ?case unfolding syscall_is_a_tty_def fs_is_interactive_def by (rule fs_call_quiet[OF on_mount_driver])
next
  case (io_gcwd p a b)
  then show ?case by (auto simp: syscall_gcwd_def quiet_copy_out split: sum.splits option.splits)
next
  case (io_link p a b)
  from with_fd_cases[OF io_link[unfolded syscall_link_def]] show ?case
  proof
    assume "\<exists>x h. fs_call b p (fs_link h) (\<lambda>r. ok_or_fail (r = FILE_OK)) s = done_with (r, s')"
    then obtain h where e: "fs_call b p (fs_link h) (\<lambda>r. ok_or_fail (r = FILE_OK)) s = done_with (r, s')" by blast
    show ?thesis by (rule fs_call_quiet[OF _ e]) (rule link_driver)
  qed (simp add: quiet_refl)
next
  case (io_unlink p a)
  then show ?case unfolding syscall_unlink_def fs_unlink_def by (rule fs_call_quiet[OF on_mount_driver])
next
  case (io_stat p a b)
  from with_fd_cases[OF io_stat[unfolded syscall_stat_def]] show ?case
  proof
    assume "\<exists>x h. (let ((sts, info), v) = fs_stat h (fvfs (fsys_of s)); s1 = set_vfs v s
      in if sts \<noteq> FILE_OK then done_with (Returns SYSCALL_STS_FAIL, s1) else done_with (Returns SYSCALL_STS_OK, copy_out p b info s1)) = done_with (r, s')"
    then obtain h info where "s' = set_vfs (snd (fs_stat h (fvfs (fsys_of s)))) s \<or> s' = copy_out p b info (set_vfs (snd (fs_stat h (fvfs (fsys_of s)))) s)"
      by (auto simp: split_def Let_def split: if_splits)
    moreover have "quiet s (set_vfs (snd (fs_stat h (fvfs (fsys_of s)))) s)" unfolding fs_stat_def by (rule quiet_set_vfs[OF on_mount_driver])
    ultimately show ?thesis using quiet_trans[OF _ quiet_copy_out] by auto
  qed (simp add: quiet_refl)
next
  case (io_getppid p)
  then show ?case by (auto simp: syscall_getppid_def quiet_refl split: sum.splits)
next
  case (io_waitpid p a b c d)
  show ?case
  proof (cases "process_wait_pid a (c AND WNOHANG \<noteq> 0) p (sprocs s)")
    case (Inl e)
    then show ?thesis using io_waitpid by (simp add: syscall_waitpid_def)
  next
    case (Inr w)
    show ?thesis
    proof (cases w)
      case (Wait_ok x ec ps)
      then have "quiet s (s\<lparr>sprocs := ps\<rparr>)" using Inr wait_quiet same_fds_quiet by blast
      then show ?thesis using io_waitpid Inr Wait_ok quiet_trans[OF quiet_trans[OF _ quiet_copy_out] quiet_copy_out] by (auto simp: syscall_waitpid_def)
    next
      case Wait_fail
      then show ?thesis using io_waitpid Inr quiet_refl[of s] by (simp add: syscall_waitpid_def)
    next
      case (Wait_blocked k ps)
      then have "quiet s (s\<lparr>sprocs := ps\<rparr>)" using Inr wait_quiet same_fds_quiet by blast
      then show ?thesis using io_waitpid Inr Wait_blocked by (auto simp: syscall_waitpid_def)
    qed
  qed
qed (simp_all add: syscall_epoch_time_def syscall_getpid_def quiet_refl)

subsection \<open>Runs\<close>

text \<open>The steps of a system of processes \<open>P\<close>.  Opening, copying and forking need room for the counts of 64 bits; a process that forks or is reaped has a
  working directory; a fork is one whose child got a well-formed table.  \<^verbatim>\<open>execve\<close> is not a step: it keeps the handle of the executable.\<close>

inductive sys_step :: "nat list \<times> ('d, 'h) sys \<Rightarrow> nat list \<times> ('d, 'h) sys \<Rightarrow> bool" where
  st_openat: "p \<in> set P \<Longrightarrow> room s \<Longrightarrow> syscall_openat pth a b c p s = done_with (r, s') \<Longrightarrow> sys_step (P, s) (P, s')"
| st_close: "p \<in> set P \<Longrightarrow> syscall_close fd p s = done_with (r, s') \<Longrightarrow> sys_step (P, s) (P, s')"
| st_dup: "p \<in> set P \<Longrightarrow> room s \<Longrightarrow> syscall_dup fd p s = done_with (r, s') \<Longrightarrow> sys_step (P, s) (P, s')"
| st_dup2: "p \<in> set P \<Longrightarrow> room s \<Longrightarrow> fd2 < 0xFFFFFFFF \<Longrightarrow> syscall_dup2 fd fd2 p s = done_with (r, s') \<Longrightarrow> sys_step (P, s) (P, s')"
| st_ccwd: "p \<in> set P \<Longrightarrow> room s \<Longrightarrow> syscall_ccwd fd p s = done_with (r, s') \<Longrightarrow> sys_step (P, s) (P, s')"
| st_io: "p \<in> set P \<Longrightarrow> io_call p c \<Longrightarrow> c s = done_with (r, s') \<Longrightarrow> sys_step (P, s) (P, s')"
| st_fork: "p \<in> set P \<Longrightarrow> room s \<Longrightarrow> wd (pcbs (sprocs s) p) \<noteq> 0 \<Longrightarrow> syscall_fork kp sr r11' rcx' rbp' p s = done_with (r, s') \<Longrightarrow>
    next_pcb (sprocs s') \<noteq> next_pcb (sprocs s) \<Longrightarrow> table_ok (next_pcb (sprocs s)) (sprocs s') \<Longrightarrow> sys_step (P, s) (next_pcb (sprocs s) # P, s')"
| st_reap: "p \<in> set P \<Longrightarrow> wd (pcbs (sprocs s) p) \<noteq> 0 \<Longrightarrow> cr3 (pcbs (sprocs s) p) \<noteq> 0 \<Longrightarrow> init_k_rsp_vaddr (pcbs (sprocs s) p) \<noteq> 0 \<Longrightarrow>
    reap_prepare close_handle p (sprocs s) = Inr ps \<Longrightarrow> sys_step (P, s) (remove1 p P, s\<lparr>sprocs := ps\<rparr>)"

lemma call_ok_step: "call_ok P r \<Longrightarrow> r = done_with (x, s') \<Longrightarrow> fd_ok P s'"
  by (auto simp: call_ok_def)

lemma ccwd_null:
  assumes "fd_ok P s" "p \<in> set P" "wd (pcbs (sprocs s) p) = 0" "syscall_ccwd fd p s = done_with (r, s')"
  shows "s' = s"
  using with_fd_cases[OF assms(4)[unfolded syscall_ccwd_def]] assms(3) by (auto simp: process_get_wd_def handle_at_def)

lemma sys_step_ok: "sys_step (P, s) (P', s') \<Longrightarrow> fd_ok P s \<Longrightarrow> fd_ok P' s'"
proof (induction "(P, s)" "(P', s')" rule: sys_step.induct)
  case (st_openat p pth a b c r)
  then show ?case using openat_ok call_ok_step by metis
next
  case (st_close p fd r)
  obtain l where "fd_table (pcbs (sprocs s) p) = Some l" using fd_okD(2)[OF st_close(4) st_close(1)] by (auto simp: table_ok_def)
  from close_ok[OF st_close(4) st_close(1) this, of fd] show ?case using st_close by auto
next
  case (st_dup p fd r)
  then show ?case using dup_ok call_ok_step by metis
next
  case (st_dup2 p fd2 fd r)
  then show ?case using dup2_ok call_ok_step by metis
next
  case (st_ccwd p fd r)
  show ?case
  proof (cases "wd (pcbs (sprocs s) p) = 0")
    case True
    from ccwd_null[OF st_ccwd(5) st_ccwd(1) True st_ccwd(3)] show ?thesis using st_ccwd by simp
  next
    case False
    from ccwd_ok[OF st_ccwd(5) st_ccwd(1,2) False, of fd] show ?thesis using st_ccwd by auto
  qed
next
  case (st_io p c r)
  then show ?case using quiet_fd_ok[OF io_call_quiet] by blast
next
  case (st_fork p kp sr r11' rcx' rbp' r)
  obtain stack vm1 where g: "process_create_guarded_stack kp (svm s) = Inr (Some stack, vm1)"
    using st_fork(4,5) by (auto simp: syscall_fork_def split: sum.splits option.splits prod.splits)
  obtain sv sp where sk: "stack = (sv, sp)" by (cases stack)
  obtain space vm2 where d: "paging_duplicate_lower kp (process_get_cr3 p (sprocs s)) vm1 = (space, vm2)" by (meson surj_pair)
  let ?f = "process_fork dup_handle sr r11' rcx' rbp' (of_nat (le_nat (copy_in p rbp' 8 s))) (Some (sv, sp)) space p (sprocs s)"
  obtain k ps where f: "?f = Inr (k, ps)" "sprocs s' = ps"
    using st_fork(4) g d by (auto simp: syscall_fork_def sk Let_def split: sum.splits)
  show ?case using fork_ok_fds[OF st_fork.prems st_fork(1,2,3) f(1) _ f(2)] st_fork(6,7) f(2) by simp
next
  case (st_reap p ps)
  then show ?case using reap_ok[OF st_reap.prems st_reap(1,2) st_reap(5) st_reap(3,4)] by auto
qed

lemma sys_run_ok: "sys_step\<^sup>*\<^sup>* x y \<Longrightarrow> fd_ok (fst x) (snd x) \<Longrightarrow> fd_ok (fst y) (snd y)"
  by (induction rule: rtranclp_induct) (use sys_step_ok in \<open>auto simp: split_beta\<close>)

lemma handle_count_card:
  assumes "store_ok y"
  shows "handle_count f (open_handles y) = card {a. \<exists>h. handles y a = Some h \<and> fh_shared h = f}"
proof -
  have "handle_count f (open_handles y) = length (filter (\<lambda>a. fh_shared (the (handles y a)) = f) (live y))"
    by (simp add: handle_count_def open_handles_def filter_map comp_def)
  also have "\<dots> = card (set (filter (\<lambda>a. fh_shared (the (handles y a)) = f) (live y)))" by (intro distinct_card[symmetric] distinct_filter) (simp add: live_def)
  also have "set (filter (\<lambda>a. fh_shared (the (handles y a)) = f) (live y)) = {a. \<exists>h. handles y a = Some h \<and> fh_shared h = f}"
    using store_okD(1)[OF assms] by (auto simp: live_def)
  finally show ?thesis .
qed

subsection \<open>Reading a directory\<close>

lemma copy_out_mem: "umem (copy_out p a bs s) c x = (if c = process_get_cr3 p (sprocs s) \<and> unat (x - a) < length bs then bs ! unat (x - a) else umem s c x)"
  by (simp add: copy_out_def Let_def)

lemma set_vfs_mem [simp]: "umem (set_vfs v s) = umem s" "pcbs (sprocs (set_vfs v s)) = pcbs (sprocs s)" "fvfs (fsys_of (set_vfs v s)) = v"
  by (simp_all add: set_vfs_def set_fsys_def)

lemma length_dirent: "length (dirent_bytes info) = length (dir_name info) + 20"
  by (simp add: dirent_bytes_def)

lemma read_dir_ends:
  assumes "arg3 < 2 ^ 63" "n \<le> arg3" "\<forall>d. length (dir_name (snd (fst (m_read_dir (mounts (fvfs (fsys_of s)) ! fh_mount h) (fh_handle h) d)))) < 256"
  shows "\<exists>m s'. read_dir_entries arg2 arg3 n h p s = Some (m, s') \<and> m \<le> arg3
    \<and> (\<forall>c x. unat arg3 \<le> unat (x - arg2) \<longrightarrow> umem s' c x = umem s c x)"
  using assms(2,3)
proof (induction "unat arg3 - unat n" arbitrary: n s rule: less_induct)
  case less
  obtain sts info v where r: "fs_read_dir h (fvfs (fsys_of s)) = ((sts, info), v)" by (metis surj_pair)
  define s2 where "s2 = copy_out p (arg2 + n) (dirent_bytes info) (set_vfs v s)"
  obtain x v2 where x: "fs_next_dir h (fvfs (fsys_of s2)) = (x, v2)" by (metis surj_pair)
  let ?k = "of_nat (length (dir_name info)) + 1 + SIZEOF_DIRENT :: u64"
  have m1: "mounts v = mounts (fvfs (fsys_of s))" and info: "length (dir_name info) < 256"
    using r less.prems(2) by (auto simp: fs_read_dir_def on_mount_def split: prod.splits) (metis fst_conv snd_conv)
  have m2: "mounts v2 = mounts v" using x by (auto simp: fs_next_dir_def on_mount_def s2_def copy_out_def set_vfs_def set_fsys_def Let_def split: prod.splits)
  have n63: "unat n \<le> unat arg3" "unat arg3 < 2 ^ 63" using less.prems(1) assms(1) by (simp_all add: word_le_nat_alt word_less_nat_alt)
  have k: "unat ?k = length (dir_name info) + 281" using info by (simp add: SIZEOF_DIRENT_def unat_word_ariths(1) unat_of_nat take_bit_nat_eq_self)
  then have nk: "unat (n + ?k) = unat n + length (dir_name info) + 281" using n63 info by (simp add: unat_word_ariths(1))
  show ?case
  proof (cases "sts \<noteq> FILE_OK \<or> arg3 < n + ?k")
    case True
    then have "read_dir_entries arg2 arg3 n h p s = Some (n, set_vfs v s)" using r by (subst read_dir_entries.simps) (auto simp: Let_def add.assoc)
    then show ?thesis using less.prems(1) by simp
  next
    case False
    then have le: "n + ?k \<le> arg3" by (simp add: not_less)
    have dec: "unat arg3 - unat (n + ?k) < unat arg3 - unat n" using nk le by (simp add: word_le_nat_alt)
    have "\<forall>d. length (dir_name (snd (fst (m_read_dir (mounts (fvfs (fsys_of (set_vfs v2 s2))) ! fh_mount h) (fh_handle h) d)))) < 256"
      using less.prems(2) m1 m2 by simp
    from less.hyps[OF dec le this] obtain m s' where IH: "read_dir_entries arg2 arg3 (n + ?k) h p (set_vfs v2 s2) = Some (m, s')" "m \<le> arg3"
      "\<forall>c x. unat arg3 \<le> unat (x - arg2) \<longrightarrow> umem s' c x = umem (set_vfs v2 s2) c x" by blast
    have "read_dir_entries arg2 arg3 n h p s = Some (m, s')" using r x IH(1) False by (subst read_dir_entries.simps) (simp add: Let_def s2_def add.assoc)
    moreover have "umem s2 c y = umem s c y" if far: "unat arg3 \<le> unat (y - arg2)" for c y
    proof -
      have "unat (y - (arg2 + n)) = unat (y - arg2) - unat n" using far n63(1) unat_sub[of n "y - arg2"] by (simp add: word_le_nat_alt diff_diff_eq)
      moreover have "unat n + length (dir_name info) + 281 \<le> unat arg3" using le nk by (simp add: word_le_nat_alt)
      ultimately have "\<not> unat (y - (arg2 + n)) < length (dirent_bytes info)" using far by (simp add: length_dirent)
      then show ?thesis by (simp add: s2_def copy_out_mem)
    qed
    ultimately show ?thesis using IH(2,3) by auto
  qed
qed

subsection \<open>A sample system\<close>

text \<open>One process, 5, with one descriptor and a working directory on a file without a name.\<close>

definition sample_vfs :: "(unit, nat) vfs" where
  "sample_vfs = \<lparr>fs_root = FsNode [] [] None, mounts = [(mount_stubs 0)\<lparr>m_read_dir := (\<lambda>_ d. ((FILE_OK, replicate 19 0 @ [97, 0]), d))\<rparr>],
     files = [0 \<mapsto> \<lparr>path = None, refs = 2, key = 0, pending_delete = False\<rparr>], next_file = 1, open_table = init_table [], devid_counter = 0,
     driver = (), stale = False\<rparr>"

definition sample_fd :: "nat fs_handle_t" where
  "sample_fd = \<lparr>fh_mount = 0, fh_handle = 0, fh_shared = 0, fh_flags = 2\<rparr>"

definition sample_list :: "nat array_list_t" where
  "sample_list = \<lparr>buffer = [1, 0, 0, 0], null = 0, cap = 4, growth = 8, count = 1, hint = 1\<rparr>"

definition sample_fsys :: "(unit, nat) fsys" where
  "sample_fsys = \<lparr>fvfs = sample_vfs, handles = [1 \<mapsto> sample_fd, 2 \<mapsto> sample_fd], next_handle = 3, fs_bad = False\<rparr>"

definition sample_sys :: "(unit, nat) sys" where
  "sample_sys = \<lparr>sprocs = \<lparr>pcbs = (\<lambda>p. if p = 5 then blank_pcb\<lparr>wd := 2, fd_table := Some sample_list, child_table := Some 0\<rparr> else blank_pcb), active_queue = [],
     sleep_queue = [], waits = [], reap_queue = [], reap_wait = 0, next_pid = 10, init_reaper_pcb = None, tables = [init_table [(2, 2)]], next_pcb = 100,
     freed = [], released = [], files = sample_fsys\<rparr>, svm = \<lparr>pmem = (\<lambda>_. 0), vmm = blank_mm\<rparr>, umem = (\<lambda>_ _. 0)\<rparr>"

lemma sample_sys_simps:
  "fsys_of sample_sys = sample_fsys" "fd_table (pcbs (sprocs sample_sys) 5) = Some sample_list" "wd (pcbs (sprocs sample_sys) 5) = 2"
  "child_table (pcbs (sprocs sample_sys) 5) = Some 0" "tables (sprocs sample_sys) = [init_table [(2, 2)]]" "sched_cntr (pcbs (sprocs sample_sys) q) = SCHED_READY"
  "next_pcb (sprocs sample_sys) = 100" "handles sample_fsys = [1 \<mapsto> sample_fd, 2 \<mapsto> sample_fd]"
  by (simp_all add: sample_sys_def sample_fsys_def blank_pcb_def)

lemma sample_list_ok: "al_wf sample_list" "null sample_list = 0" "array_list_get sample_list 0 = 1" "entries sample_list = {#1#}"
proof -
  show w: "al_wf sample_list" by (simp add: al_wf_def sample_list_def)
  show "entries sample_list = {#1#}" unfolding entries_buffer[OF w] by (simp add: sample_list_def)
qed (simp_all add: sample_list_def array_list_get_def)

lemma sample_fd_ok: "fd_ok [5] sample_sys"
proof -
  have t: "ht_wf (init_table [])" "ht_map (init_table []) = Map.empty"
    by (simp_all add: init_table_def ht_wf_def ht_map_def ht_entries_def chain_ok_def All_less_Suc)
  have "live sample_fsys = [1, 2]" by (simp add: live_def sample_fsys_def upt_rec)
  then have "open_handles sample_fsys = [sample_fd, sample_fd]" by (simp add: open_handles_def sample_fsys_def)
  moreover have "vfs_ok sample_vfs [sample_fd, sample_fd]"
    using t by (auto simp: vfs_ok_def vfs_inv_def tree_ok_def sample_vfs_def sample_fd_def)
  ultimately have "store_ok sample_fsys" by (auto simp: store_ok_def sample_fsys_def)
  moreover have "dom (handles sample_fsys) = {1, 2}" by (auto simp: sample_fsys_def)
  moreover have "held [5] (sprocs sample_sys) = {#1, 2#}" by (simp add: held_def slots_def sample_sys_simps sample_list_ok)
  ultimately show ?thesis using sample_list_ok(1,2) by (simp add: fd_ok_def sample_sys_simps table_ok_def)
qed

subsection \<open>Properties\<close>



text \<open>C17: Reading a directory ends and stays in its buffer.  For a buffer below half of the address space and names that fit a \<^verbatim>\<open>dir_info_t\<close>, the call returns
  however many entries the driver has, even when the driver never comes to an end; the count it returns is at most the size of the
  buffer, and no byte outside of the buffer changes.\<close>

theorem syscall_read_dir_bounded:
  assumes "fd_ok P s" "p \<in> set P" "fd_table (pcbs (sprocs s) p) = Some l" "handles (fsys_of s) (array_list_get l fd) = Some h" "arg3 < 2 ^ 63"
    "\<forall>d. length (dir_name (snd (fst (m_read_dir (mounts (fvfs (fsys_of s)) ! fh_mount h) (fh_handle h) d)))) < 256"
  shows "\<exists>n s'. syscall_read_dir fd arg2 arg3 p s = done_with (Returns n, s') \<and> n \<le> arg3
    \<and> (\<forall>c x. unat arg3 \<le> unat (x - arg2) \<longrightarrow> umem s' c x = umem s c x)"
proof -
  have "array_list_get l fd \<noteq> 0" by (metis assms(4) store_okD(5)[OF fd_okD(3)[OF assms(1)]] option.distinct(1))
  then have "syscall_read_dir fd arg2 arg3 p s =
      (case read_dir_entries arg2 arg3 0 h p s of None \<Rightarrow> None | Some (n, s1) \<Rightarrow> done_with (Returns n, s1))"
    unfolding syscall_read_dir_def with_fd_ok(1)[OF assms(1-3)] using assms(4) by simp
  then show ?thesis using read_dir_ends[OF assms(5) _ assms(6), of 0 arg2 p] by auto
qed

theorem syscall_read_dir_bounded_witness:
  "\<exists>n s'. syscall_read_dir 0 0x1000 600 5 sample_sys = done_with (Returns n, s') \<and> n \<le> 600
    \<and> (\<forall>c x. unat (600 :: u64) \<le> unat (x - 0x1000) \<longrightarrow> umem s' c x = umem sample_sys c x)"
  by (rule syscall_read_dir_bounded[OF sample_fd_ok _ sample_sys_simps(2), where h = sample_fd])
    (simp_all add: sample_sys_simps sample_list_ok sample_fsys_def sample_vfs_def sample_fd_def dir_name_def)

text \<open>C37: A wait without hanging for a child that is still running reports that child as finished: the call succeeds, stores the pid it was asked
  for and a status of zero, and leaves the child as it is.\<close>

theorem syscall_waitpid_running:
  assumes "child_table (pcbs (sprocs s) p) = Some ct" "hash_table_get (tables (sprocs s) ! ct) k = Inr (Some c)" "\<not> is_zombie (sprocs s) c" "k \<noteq> -1"
  shows "\<exists>s'. syscall_waitpid k arg2 WNOHANG arg4 p s = done_with (Returns SYSCALL_STS_OK, s') \<and> sprocs s' = sprocs s
    \<and> (\<forall>i < 4. umem s' (process_get_cr3 p (sprocs s)) (arg4 + of_nat i) = le_bytes 4 (unat (ucast k :: u32)) ! i)"
proof -
  have w: "process_wait_pid k (WNOHANG AND WNOHANG \<noteq> 0) p (sprocs s) = Inr (Wait_ok 0 0 (sprocs s))"
    using assms by (simp add: process_wait_pid_def WNOHANG_def)
  let ?t = "copy_out p arg2 (le_bytes 4 (unat (push_bit 8 (ucast (0 AND 0xFF :: u64)) :: u32))) (s\<lparr>sprocs := sprocs s\<rparr>)"
  let ?s' = "copy_out p arg4 (le_bytes 4 (unat (ucast k :: u32))) ?t"
  have 1: "syscall_waitpid k arg2 WNOHANG arg4 p s = done_with (Returns SYSCALL_STS_OK, ?s')" unfolding syscall_waitpid_def w by simp
  have sp: "sprocs ?t = sprocs s" "sprocs ?s' = sprocs s" by (simp_all add: copy_out_def Let_def)
  have "umem ?s' (process_get_cr3 p (sprocs s)) (arg4 + of_nat i) = le_bytes 4 (unat (ucast k :: u32)) ! i" if "i < 4" for i
  proof -
    have "unat (of_nat i :: u64) = i" using that by (simp add: unat_of_nat take_bit_nat_eq_self)
    moreover have "process_get_cr3 p (sprocs ?t) = process_get_cr3 p (sprocs s)" by (simp only: sp(1))
    ultimately show ?thesis using that unfolding copy_out_mem[of p arg4] by simp
  qed
  then show ?thesis using 1 sp(2) by blast
qed

theorem syscall_waitpid_running_witness:
  "\<exists>s'. syscall_waitpid 2 0x1000 WNOHANG 0x2000 5 sample_sys = done_with (Returns SYSCALL_STS_OK, s') \<and> sprocs s' = sprocs sample_sys
    \<and> (\<forall>i < 4. umem s' (process_get_cr3 5 (sprocs sample_sys)) (0x2000 + of_nat i) = le_bytes 4 (unat (ucast (2 :: u64) :: u32)) ! i)"
  by (rule syscall_waitpid_running[OF sample_sys_simps(4), where c = 2])
    (simp_all add: sample_sys_simps is_zombie_def init_table_def hash_table_get_def bucket_index_def)

text \<open>\<^verbatim>\<open>dup2\<close> to the descriptor -1 overflows the table: its new capacity wraps around to zero.\<close>

lemma syscall_dup2_overflow:
  assumes "fd_ok P s" "p \<in> set P" "fd_table (pcbs (sprocs s) p) = Some l" "0 < cap l" "handles (fsys_of s) (array_list_get l fd) = Some h"
    "fs_dup h (fvfs (fsys_of s)) = (Some h1, v)"
  shows "syscall_dup2 fd (-1) p s = failed Undefined"
proof -
  have nz: "array_list_get l fd \<noteq> 0" by (metis assms(5) store_okD(5)[OF fd_okD(3)[OF assms(1)]] option.distinct(1))
  have "cap l \<le> -1" "cap l + (-1 - cap l + 1) = 0" by simp_all
  moreover have "kmalloc_array 0 = Inr ()" by (rule kmalloc_array_small) simp
  ultimately have "array_list_set l (-1) a = Inl Undefined" for a using assms(4) by (simp add: array_list_set_def ArrayList.extend_def)
  then show ?thesis using with_fd_ok(1)[OF assms(1-3)] nz assms(3,5,6)
    by (simp add: syscall_dup2_def process_replace_fd_def add_handle_def Let_def)
qed

end
