(* ===== verification/Acpi.thy ===== *)
theory Acpi
  imports ByteFields Hash Paging
begin

section \<open>ACPI tables (kernel/acpi/tables.c)\<close>

text \<open>
  The firmware leaves its tables in physical memory; the kernel maps each in turn, checks its sum and copies the ones it needs.  \<open>firmware\<close> gives
  the bytes of physical memory; it is read through the page tables, and an access to an address that does not translate is
  \<open>Inl Undefined\<close> (a page fault).  A copy on the heap is a byte list, and \<^verbatim>\<open>kmalloc\<close> does not fail.  A handle into a copied table is an offset from its
  start, and \<open>None\<close> the null handle.  Messages of the log are left out.
\<close>

definition PAGE_BASE_MASK :: u64 where "PAGE_BASE_MASK = 0xFFFFFFFFFFFFF000"
definition PAT_MMIO_4K :: u64 where "PAT_MMIO_4K = 0x98"
definition V1_TABLE_SIZE :: nat where "V1_TABLE_SIZE = 20"
definition RSDPV1 :: u8 where "RSDPV1 = 1"
definition FOUND_FADT :: u8 where "FOUND_FADT = 0x01"
definition FOUND_MADT :: u8 where "FOUND_MADT = 0x02"
definition FOUND_HPET :: u8 where "FOUND_HPET = 0x04"
definition FOUND_MCFG :: u8 where "FOUND_MCFG = 0x08"
definition FOUND_ALL :: u8 where "FOUND_ALL = FOUND_FADT OR FOUND_MADT OR FOUND_HPET OR FOUND_MCFG"
definition GAS_TYPE_SYS :: u8 where "GAS_TYPE_SYS = 0"
definition GAS_TYPE_IO :: u8 where "GAS_TYPE_IO = 1"
definition SIZEOF_SDT :: nat where "SIZEOF_SDT = 36"
definition SIZEOF_RSDP :: nat where "SIZEOF_RSDP = 36"
definition MAX_HPET :: nat where "MAX_HPET = 8"

definition RSD_PTR :: bytes where "RSD_PTR = [0x52, 0x53, 0x44, 0x20, 0x50, 0x54, 0x52, 0x20]"
definition SIG_RSDT :: bytes where "SIG_RSDT = [0x52, 0x53, 0x44, 0x54]"
definition SIG_XSDT :: bytes where "SIG_XSDT = [0x58, 0x53, 0x44, 0x54]"
definition SIG_FACP :: bytes where "SIG_FACP = [0x46, 0x41, 0x43, 0x50]"
definition SIG_APIC :: bytes where "SIG_APIC = [0x41, 0x50, 0x49, 0x43]"
definition SIG_HPET :: bytes where "SIG_HPET = [0x48, 0x50, 0x45, 0x54]"
definition SIG_MCFG :: bytes where "SIG_MCFG = [0x4D, 0x43, 0x46, 0x47]"

text \<open>Members of the tables.\<close>

definition table_length :: "bytes \<Rightarrow> u32" where "table_length t = field32 t 4"
definition OEMTableID :: "bytes \<Rightarrow> bytes" where "OEMTableID t = take 8 (drop 16 t)"
definition rsdp_Revision :: "bytes \<Rightarrow> u8" where "rsdp_Revision r = r ! 15"
definition RsdtAddress :: "bytes \<Rightarrow> u32" where "RsdtAddress r = field32 r 16"
definition rsdp_Length :: "bytes \<Rightarrow> u32" where "rsdp_Length r = field32 r 20"
definition XsdtAddress :: "bytes \<Rightarrow> u64" where "XsdtAddress r = field64 r 24"
definition SCI_INT :: "bytes \<Rightarrow> u16" where "SCI_INT t = field16 t 46"
definition BASE_ADDRESS_AddressSpaceID :: "bytes \<Rightarrow> u8" where "BASE_ADDRESS_AddressSpaceID t = t ! 40"
definition BASE_ADDRESS_Address :: "bytes \<Rightarrow> u64" where "BASE_ADDRESS_Address t = field64 t 44"
definition HPETNumber :: "bytes \<Rightarrow> u8" where "HPETNumber t = t ! 52"

record acpi_t =
  avm :: vm
  firmware :: "u64 \<Rightarrow> u8"
  acpi_fadt :: "bytes option"
  acpi_madt :: "bytes option"
  acpi_mcfg :: "bytes option"
  acpi_hpet :: "bytes list"

subsection \<open>Reading mapped memory\<close>

definition vbyte :: "u64 \<Rightarrow> acpi_t \<Rightarrow> mem" where
  "vbyte pml4 s va = (case translate pml4 (pmem (avm s)) va of Some p \<Rightarrow> firmware s p | None \<Rightarrow> 0)"

definition readable :: "u64 \<Rightarrow> acpi_t \<Rightarrow> u64 \<Rightarrow> nat \<Rightarrow> bool" where
  "readable pml4 s va n \<longleftrightarrow> list_all (\<lambda>i. translate pml4 (pmem (avm s)) (va + of_nat i) \<noteq> None) [0..<n]"

definition vread :: "u64 \<Rightarrow> acpi_t \<Rightarrow> u64 \<Rightarrow> nat \<Rightarrow> bytes outcome" where
  "vread pml4 s va n =
     (if readable pml4 s va n then Inr (map (\<lambda>i. vbyte pml4 s (va + of_nat i)) [0..<n]) else Inl Undefined)"

subsection \<open>Mapping a table\<close>

definition verify_checksum :: "u64 \<Rightarrow> u64 \<Rightarrow> acpi_t \<Rightarrow> u8 outcome" where
  "verify_checksum pml4 table s =
     (case vread pml4 s table 8 of Inl e \<Rightarrow> Inl e
      | Inr hdr \<Rightarrow>
          if readable pml4 s table (unat (table_length hdr))
          then Inr (hash_byte_sum (vbyte pml4 s) table (ucast (table_length hdr))) else Inl Undefined)"

definition map_mmio :: "u64 \<Rightarrow> u64 \<Rightarrow> u64 \<Rightarrow> acpi_t \<Rightarrow> acpi_t" where
  "map_mmio pml4 vaddr paddr s =
     s\<lparr>avm := snd (paging_map pml4 vaddr paddr (PAGE_PRESENT OR PAGE_RW OR PAT_MMIO_4K) PAGE_4K (avm s))\<rparr>"

definition unmap_page :: "u64 \<Rightarrow> u64 \<Rightarrow> acpi_t \<Rightarrow> acpi_t" where
  "unmap_page pml4 vaddr s = s\<lparr>avm := paging_unmap pml4 vaddr PAGE_4K (avm s)\<rparr>"

definition alloc_va :: "u64 \<Rightarrow> acpi_t \<Rightarrow> u64 \<times> acpi_t" where
  "alloc_va sz s = (let (v, m) = mm_alloc_v sz (vmm (avm s)) in (v, s\<lparr>avm := (avm s)\<lparr>vmm := m\<rparr>\<rparr>))"

definition free_va :: "u64 \<Rightarrow> u64 \<Rightarrow> acpi_t \<Rightarrow> acpi_t" where
  "free_va va sz s = s\<lparr>avm := (avm s)\<lparr>vmm := mm_free_v va sz (vmm (avm s))\<rparr>\<rparr>"

definition page_offsets :: "u64 \<Rightarrow> u64 list" where
  "page_offsets len = map (\<lambda>i. of_nat i * PAGE_SIZE_4K) [0..<(unat len + 4095) div 4096]"

text \<open>The checksum is taken over the two pages mapped first; with a bad sum the page at \<^verbatim>\<open>vaddr + base\<close> is unmapped, as the code has it.\<close>

definition map_table :: "u64 \<Rightarrow> u64 \<Rightarrow> acpi_t \<Rightarrow> (u64 \<times> acpi_t) outcome" where
  "map_table pml4 table s =
     (let base = table AND PAGE_BASE_MASK; (vaddr, s1) = alloc_va (PAGE_SIZE_4K * 2) s
      in if vaddr = 0 then Inl (Panic PANIC_NO_MEM)
         else let s2 = map_mmio pml4 (vaddr + PAGE_SIZE_4K) (base + PAGE_SIZE_4K) (map_mmio pml4 vaddr base s1);
                  v_table = vaddr + table - base
         in case verify_checksum pml4 v_table s2 of Inl e \<Rightarrow> Inl e
            | Inr c \<Rightarrow>
                if c \<noteq> 0
                then Inr (0, free_va vaddr (PAGE_SIZE_4K * 2) (unmap_page pml4 (vaddr + PAGE_SIZE_4K) (unmap_page pml4 (vaddr + base) s2)))
                else case vread pml4 s2 v_table 8 of Inl e \<Rightarrow> Inl e
                     | Inr hdr \<Rightarrow>
                         let len = ucast (table_length hdr) + table - base;
                             s3 = free_va vaddr (PAGE_SIZE_4K * 2) (unmap_page pml4 (vaddr + PAGE_SIZE_4K) (unmap_page pml4 vaddr s2));
                             (vaddr2, s4) = alloc_va len s3
                         in Inr (vaddr2 + table - base, fold (\<lambda>off. map_mmio pml4 (vaddr2 + off) (base + off)) (page_offsets len) s4))"

definition unmap_table :: "u64 \<Rightarrow> u64 \<Rightarrow> acpi_t \<Rightarrow> acpi_t outcome" where
  "unmap_table pml4 table s =
     (case vread pml4 s table 8 of Inl e \<Rightarrow> Inl e
      | Inr hdr \<Rightarrow>
          let base = table AND PAGE_BASE_MASK; len = ucast (table_length hdr) + table - base
          in Inr (free_va base len (fold (\<lambda>off. unmap_page pml4 (base + off)) (page_offsets len) s)))"

subsection \<open>Copying the tables\<close>

definition table_at :: "u64 \<Rightarrow> u64 \<Rightarrow> acpi_t \<Rightarrow> bytes outcome" where
  "table_at pml4 gen s = (case vread pml4 s gen 8 of Inl e \<Rightarrow> Inl e | Inr hdr \<Rightarrow> vread pml4 s gen (unat (table_length hdr)))"

text \<open>\<open>CHECK_AND_COPY\<close> for the four tables; the signatures differ, so at most one of the tests succeeds.\<close>

definition check_and_copy :: "u64 \<Rightarrow> u64 \<Rightarrow> u8 \<times> acpi_t \<Rightarrow> (u8 \<times> acpi_t) outcome" where
  "check_and_copy pml4 gen fs =
     (case vread pml4 (snd fs) gen 4 of Inl e \<Rightarrow> Inl e
      | Inr sig \<Rightarrow>
          if sig \<notin> {SIG_FACP, SIG_APIC, SIG_HPET, SIG_MCFG} then Inr fs
          else case table_at pml4 gen (snd fs) of Inl e \<Rightarrow> Inl e
               | Inr t \<Rightarrow>
                   let (found, s) = fs
                   in if sig = SIG_FACP then Inr (found OR FOUND_FADT, s\<lparr>acpi_fadt := Some t\<rparr>)
                      else if sig = SIG_APIC then Inr (found OR FOUND_MADT, s\<lparr>acpi_madt := Some t\<rparr>)
                      else if sig = SIG_HPET then
                        (if MAX_HPET \<le> length (acpi_hpet s) then Inl Undefined
                         else Inr (found OR FOUND_HPET, s\<lparr>acpi_hpet := acpi_hpet s @ [t]\<rparr>))
                      else Inr (found OR FOUND_MCFG, s\<lparr>acpi_mcfg := Some t\<rparr>))"

definition entry_offsets :: "nat \<Rightarrow> u32 \<Rightarrow> nat list" where
  "entry_offsets sz len = map (\<lambda>i. SIZEOF_SDT + sz * i) [0..<(unat len - SIZEOF_SDT + sz - 1) div sz]"

text \<open>The loop over the entries of the root table at \<open>root\<close>; an entry has four bytes in an RSDT and eight in an XSDT.\<close>

fun copy_entries :: "u64 \<Rightarrow> nat \<Rightarrow> u64 \<Rightarrow> nat list \<Rightarrow> u8 \<times> acpi_t \<Rightarrow> (u8 \<times> acpi_t) outcome" where
  "copy_entries pml4 sz root [] fs = Inr fs"
| "copy_entries pml4 sz root (off # offs) (found, s) =
     (case vread pml4 s (root + of_nat off) sz of Inl e \<Rightarrow> Inl e
      | Inr e \<Rightarrow>
          (case map_table pml4 (of_nat (le_nat e)) s of Inl e \<Rightarrow> Inl e
           | Inr (gen, s1) \<Rightarrow>
               if gen = 0 then copy_entries pml4 sz root offs (found, s1)
               else (case check_and_copy pml4 gen (found, s1) of Inl e \<Rightarrow> Inl e
                     | Inr (found1, s2) \<Rightarrow>
                         (case unmap_table pml4 gen s2 of Inl e \<Rightarrow> Inl e
                          | Inr s3 \<Rightarrow> copy_entries pml4 sz root offs (found1, s3)))))"

text \<open>One root table.  \<open>False\<close> is a table that is not usable: the older format panics, the newer one falls back to it.\<close>

definition use_root :: "u64 \<Rightarrow> nat \<Rightarrow> bytes \<Rightarrow> u64 \<Rightarrow> acpi_t \<Rightarrow> (bool \<times> acpi_t) outcome" where
  "use_root pml4 sz signature addr s =
     (case map_table pml4 addr s of Inl e \<Rightarrow> Inl e
      | Inr (root, s1) \<Rightarrow>
          if root = 0 then Inr (False, s1)
          else (case vread pml4 s1 root 8 of Inl e \<Rightarrow> Inl e
          | Inr hdr \<Rightarrow>
              if take 4 hdr \<noteq> signature then Inr (False, s1)
              else (case copy_entries pml4 sz root (entry_offsets sz (table_length hdr)) (0, s1) of Inl e \<Rightarrow> Inl e
              | Inr (found, s2) \<Rightarrow>
                  if found \<noteq> FOUND_ALL
                  then (case unmap_table pml4 root s2 of Inl e \<Rightarrow> Inl e | Inr s3 \<Rightarrow> Inr (False, s3))
                  else (case acpi_fadt s2 of None \<Rightarrow> Inl Undefined
                        | Some fadt \<Rightarrow>
                            if length fadt < 24 then Inl Undefined
                            else (case vread pml4 s2 (root + 16) 8 of Inl e \<Rightarrow> Inl e
                                  | Inr oem \<Rightarrow>
                                      (case unmap_table pml4 root s2 of Inl e \<Rightarrow> Inl e
                                       | Inr s3 \<Rightarrow> Inr (oem = OEMTableID fadt, s3)))))))"

definition use_rsdt :: "u64 \<Rightarrow> bytes \<Rightarrow> acpi_t \<Rightarrow> acpi_t outcome" where
  "use_rsdt pml4 rsdp s =
     (case use_root pml4 4 SIG_RSDT (ucast (RsdtAddress rsdp)) s of Inl e \<Rightarrow> Inl e
      | Inr (ok, s1) \<Rightarrow> if ok then Inr s1 else Inl (Panic PANIC_ACPI))"

text \<open>\<^verbatim>\<open>hash_byte_sum\<close> of the copy of the root pointer the boot code keeps.\<close>

definition byte_sum :: "bytes \<Rightarrow> u8" where "byte_sum bs = foldl (+) 0 bs"

definition acpi_copy_tables :: "u64 \<Rightarrow> bytes \<Rightarrow> acpi_t \<Rightarrow> acpi_t outcome" where
  "acpi_copy_tables pml4 rsdp s0 =
     (let s = s0\<lparr>acpi_hpet := []\<rparr>
      in if take 8 rsdp \<noteq> RSD_PTR then Inl (Panic PANIC_ACPI)
         else if byte_sum (take V1_TABLE_SIZE rsdp) \<noteq> 0 then Inl (Panic PANIC_ACPI)
         else if rsdp_Revision rsdp = RSDPV1 then use_rsdt pml4 rsdp s
         else if SIZEOF_RSDP < unat (rsdp_Length rsdp) then Inl Undefined
         else if byte_sum (take (unat (rsdp_Length rsdp)) rsdp) \<noteq> 0 then use_rsdt pml4 rsdp s
         else (case use_root pml4 8 SIG_XSDT (XsdtAddress rsdp) s of Inl e \<Rightarrow> Inl e
               | Inr (ok, s1) \<Rightarrow> if ok then Inr s1 else use_rsdt pml4 rsdp s1))"

subsection \<open>Reading the copies\<close>

definition MADT_ICS :: nat where "MADT_ICS = 44"
definition MCFG_CONF :: nat where "MCFG_CONF = 44"
definition SIZEOF_CONF :: nat where "SIZEOF_CONF = 16"

definition acpi_parse_madt_ics_start :: nat where "acpi_parse_madt_ics_start = MADT_ICS"

text \<open>The loop of \<^verbatim>\<open>acpi_parse_madt_ics\<close>: the entry it stops at, and the handle after it.  It does not return when it meets an entry of length 0
  of another type.\<close>

partial_function (option) acpi_parse_madt_ics :: "bytes \<Rightarrow> u8 \<Rightarrow> nat \<Rightarrow> nat \<Rightarrow> (nat \<times> nat option) outcome option" where
  "acpi_parse_madt_ics madt type ics handle =
     (if unat (table_length madt) \<le> handle then done_with (ics, None)
      else if length madt \<le> handle + 1 then failed Undefined
      else if madt ! handle = type then done_with (handle, Some (handle + unat (madt ! (handle + 1))))
      else acpi_parse_madt_ics madt type handle (handle + unat (madt ! (handle + 1))))"

definition acpi_get_sci_int :: "acpi_t \<Rightarrow> u16 outcome" where
  "acpi_get_sci_int s =
     (case acpi_fadt s of None \<Rightarrow> Inl Undefined | Some t \<Rightarrow> if length t < 48 then Inl Undefined else Inr (SCI_INT t))"

record acpi_mcfg_conf_t =
  conf_base :: u64
  conf_segment :: u16
  bus_start :: u8
  bus_end :: u8

definition acpi_parse_mcfg_conf_start :: nat where "acpi_parse_mcfg_conf_start = MCFG_CONF"

definition acpi_parse_mcfg_conf :: "bytes \<Rightarrow> acpi_mcfg_conf_t \<Rightarrow> nat \<Rightarrow> acpi_mcfg_conf_t \<times> nat option" where
  "acpi_parse_mcfg_conf mcfg conf handle =
     (if unat (table_length mcfg) < handle + SIZEOF_CONF then (conf, None)
      else (\<lparr>conf_base = field64 mcfg handle, conf_segment = field16 mcfg (handle + 8),
             bus_start = mcfg ! (handle + 10), bus_end = mcfg ! (handle + 11)\<rparr>, Some (handle + SIZEOF_CONF)))"

text \<open>\<open>bases\<close> has eight elements, and a table with a larger number is stored beyond them.\<close>

fun hpet_bases :: "bytes list \<Rightarrow> u64 list \<Rightarrow> u64 list outcome" where
  "hpet_bases [] bases = Inr bases"
| "hpet_bases (t # ts) bases =
     (if length t < 53 then Inl Undefined
      else if BASE_ADDRESS_AddressSpaceID t \<noteq> GAS_TYPE_SYS \<and> BASE_ADDRESS_AddressSpaceID t \<noteq> GAS_TYPE_IO then Inl (Panic PANIC_ACPI)
      else if length bases \<le> unat (HPETNumber t) then Inl Undefined
      else hpet_bases ts (bases[unat (HPETNumber t) := BASE_ADDRESS_Address t]))"

definition acpi_get_hpet_bases :: "acpi_t \<Rightarrow> u64 list outcome" where
  "acpi_get_hpet_bases s = hpet_bases (acpi_hpet s) (replicate 8 0)"

text \<open>The loop the callers write around the parser, here collecting the entries of a type.\<close>

partial_function (option) madt_entries :: "bytes \<Rightarrow> u8 \<Rightarrow> nat \<Rightarrow> nat list outcome option" where
  "madt_entries madt type handle =
     andthen (acpi_parse_madt_ics madt type 0 handle) (\<lambda>(ics, h).
       case h of None \<Rightarrow> done_with []
       | Some h' \<Rightarrow> andthen (madt_entries madt type h') (\<lambda>es. done_with (ics # es)))"

section \<open>What the tables hold\<close>

lemma byte_sum_hash: "hash_byte_sum m p c = byte_sum (bytes_at m p (unat c))"
  by (simp add: hash_byte_sum_def byte_sum_loop_fold byte_sum_def)

subsection \<open>The entries of the MADT\<close>

text \<open>A well-formed table is a header followed by its entries, each of which holds its own length.\<close>

definition ics_ok :: "bytes \<Rightarrow> bool" where
  "ics_ok e \<longleftrightarrow> 2 \<le> length e \<and> unat (e ! 1) = length e"

definition madt_ok :: "bytes \<Rightarrow> bytes list \<Rightarrow> bool" where
  "madt_ok madt es \<longleftrightarrow> drop MADT_ICS madt = concat es \<and> MADT_ICS \<le> length madt \<and> unat (table_length madt) = length madt \<and> list_all ics_ok es"

definition ics_at :: "bytes \<Rightarrow> nat \<Rightarrow> bytes" where
  "ics_at madt h = take (unat (madt ! (h + 1))) (drop h madt)"

abbreviation of_type :: "u8 \<Rightarrow> bytes \<Rightarrow> bool" where "of_type type e \<equiv> e ! 0 = type"

lemma ics_okD:
  assumes "ics_ok e" "drop h madt = e @ rest"
  shows "h + 1 < length madt" "madt ! h = e ! 0" "unat (madt ! (h + 1)) = length e" "ics_at madt h = e" "drop (h + length e) madt = rest"
proof -
  have l: "length madt - h = length e + length rest" using arg_cong[OF assms(2), of length] by simp
  then show lt: "h + 1 < length madt" using assms(1) unfolding ics_ok_def by arith
  have n: "madt ! (h + k) = (e @ rest) ! k" if "k \<le> 1" for k using assms(2) lt that by (metis add_leD1 nth_drop less_imp_le_nat)
  show "madt ! h = e ! 0" using n[of 0] assms(1) by (cases e) (simp_all add: ics_ok_def)
  show u: "unat (madt ! (h + 1)) = length e" using n[of 1] assms(1) by (simp add: ics_ok_def nth_append)
  show "ics_at madt h = e" using u assms(2) by (simp add: ics_at_def)
  have "drop (h + length e) madt = drop (length e) (drop h madt)" by (simp add: add.commute)
  then show "drop (h + length e) madt = rest" using assms(2) by simp
qed

lemma parse_ics_ok:
  assumes "drop h madt = concat es" "h \<le> length madt" "unat (table_length madt) = length madt" "list_all ics_ok es"
  shows "\<exists>ics' r. acpi_parse_madt_ics madt type ics h = done_with (ics', r)
    \<and> (case dropWhile (\<lambda>e. \<not> of_type type e) es of [] \<Rightarrow> r = None
       | e # es' \<Rightarrow> \<exists>h'. ics_at madt ics' = e \<and> r = Some h' \<and> drop h' madt = concat es' \<and> h' \<le> length madt)"
  using assms
proof (induction es arbitrary: h ics)
  case Nil
  then show ?case by (simp add: acpi_parse_madt_ics.simps[of madt type ics h])
next
  case (Cons e es)
  have e: "ics_ok e" "drop h madt = e @ concat es" using Cons.prems(1,4) by simp_all
  note E = ics_okD[OF e]
  have "h + length e \<le> length madt" using arg_cong[OF e(2), of length] E(1) by simp
  from Cons.IH[OF E(5) this Cons.prems(3), of h] Cons.prems(4) obtain ics' r where
    "acpi_parse_madt_ics madt type h (h + length e) = done_with (ics', r)"
    "case dropWhile (\<lambda>e. \<not> of_type type e) es of [] \<Rightarrow> r = None
       | e # es' \<Rightarrow> \<exists>h'. ics_at madt ics' = e \<and> r = Some h' \<and> drop h' madt = concat es' \<and> h' \<le> length madt" by auto
  then show ?case using E Cons.prems(3) \<open>h + length e \<le> length madt\<close>
    by (cases "of_type type e") (simp_all add: acpi_parse_madt_ics.simps[of madt type ics h])
qed

lemma filter_dropWhile:
  "filter P xs = (case dropWhile (\<lambda>x. \<not> P x) xs of [] \<Rightarrow> [] | y # ys \<Rightarrow> y # filter P ys)"
  by (induction xs) auto

lemma madt_entries_ok:
  assumes "drop h madt = concat es" "h \<le> length madt" "unat (table_length madt) = length madt" "list_all ics_ok es"
  shows "\<exists>hs. madt_entries madt type h = done_with hs \<and> map (ics_at madt) hs = filter (of_type type) es"
  using assms
proof (induction "length es" arbitrary: es h rule: less_induct)
  case less
  from parse_ics_ok[OF less.prems, of type 0] obtain ics' r where p: "acpi_parse_madt_ics madt type 0 h = done_with (ics', r)"
    "case dropWhile (\<lambda>e. \<not> of_type type e) es of [] \<Rightarrow> r = None
       | e # es' \<Rightarrow> \<exists>h'. ics_at madt ics' = e \<and> r = Some h' \<and> drop h' madt = concat es' \<and> h' \<le> length madt" by blast
  show ?case
  proof (cases "dropWhile (\<lambda>e. \<not> of_type type e) es")
    case Nil
    have "r = None" using p(2) unfolding Nil by simp
    moreover have "filter (of_type type) es = []" unfolding filter_dropWhile[of "of_type type" es] Nil by simp
    ultimately show ?thesis using p(1) by (simp add: madt_entries.simps[of madt type h])
  next
    case (Cons e es')
    then obtain h' where h: "ics_at madt ics' = e" "r = Some h'" "drop h' madt = concat es'" "h' \<le> length madt" using p(2) by auto
    have l: "length es' < length es" using length_dropWhile_le[of "\<lambda>e. \<not> of_type type e" es] Cons by simp
    have "set es' \<subseteq> set es" using Cons set_dropWhileD[of _ "\<lambda>e. \<not> of_type type e" es] by fastforce
    then have "list_all ics_ok es'" using less.prems(4) by (auto simp: list_all_iff)
    from less.hyps[OF l h(3,4) less.prems(3) this] obtain hs where
      "madt_entries madt type h' = done_with hs" "map (ics_at madt) hs = filter (of_type type) es'" by blast
    then show ?thesis using p(1) h Cons
      by (simp add: madt_entries.simps[of madt type h] filter_dropWhile[of "of_type type" es])
  qed
qed

text \<open>C33: Walking the interrupt controller structures of a well-formed MADT ends, and gives exactly the entries of the type asked for, in the order of
  the table.\<close>

theorem acpi_madt_enumerates:
  assumes "madt_ok madt es"
  shows "\<exists>hs. madt_entries madt type acpi_parse_madt_ics_start = done_with hs \<and> map (ics_at madt) hs = filter (of_type type) es"
  using madt_entries_ok[of acpi_parse_madt_ics_start madt es type] assms
  by (simp add: madt_ok_def acpi_parse_madt_ics_start_def)

definition sample_madt :: bytes where
  "sample_madt = SIG_APIC @ [58, 0, 0, 0] @ replicate 36 0 @ [0, 8, 1, 1, 1, 0, 0, 0, 4, 6, 0xFF, 5, 0, 1]"

theorem acpi_madt_enumerates_witness:
  "\<exists>hs. madt_entries sample_madt 4 acpi_parse_madt_ics_start = done_with hs \<and> map (ics_at sample_madt) hs = [[4, 6, 0xFF, 5, 0, 1]]"
proof -
  have "madt_ok sample_madt [[0, 8, 1, 1, 1, 0, 0, 0], [4, 6, 0xFF, 5, 0, 1]]"
    by (simp add: madt_ok_def sample_madt_def SIG_APIC_def MADT_ICS_def ics_ok_def table_length_def field32_def le_nat_def)
  from acpi_madt_enumerates[OF this, of 4] show ?thesis by simp
qed

text \<open>An entry of length 0 of another type is never left.\<close>

lemma acpi_madt_zero_length_hangs:
  assumes "h + 1 < length madt" "h < unat (table_length madt)" "madt ! h \<noteq> type" "madt ! (h + 1) = 0"
  shows "acpi_parse_madt_ics madt type ics h = None"
proof -
  let ?P = "\<lambda>m t i k r. m = madt \<longrightarrow> t = type \<longrightarrow> k \<noteq> h"
  have "h \<noteq> h" if r: "acpi_parse_madt_ics madt type ics h = Some r" for r
  proof -
    have "?P madt type ics h r"
      by (rule acpi_parse_madt_ics.raw_induct[where P = ?P, OF _ r]) (use assms in \<open>fastforce split: if_splits\<close>)
    then show ?thesis by simp
  qed
  then show ?thesis by (cases "acpi_parse_madt_ics madt type ics h") auto
qed

subsection \<open>The copies\<close>

text \<open>A copy begins with its signature, and is as long as its header says.\<close>

definition copy_ok :: "bytes \<Rightarrow> bytes \<Rightarrow> bool" where
  "copy_ok sig t \<longleftrightarrow> take 4 t = take (length t) sig \<and> (8 \<le> length t \<longrightarrow> unat (table_length t) = length t)"

definition copies_ok :: "u8 \<Rightarrow> acpi_t \<Rightarrow> bool" where
  "copies_ok found s \<longleftrightarrow> (bit found 0 \<longrightarrow> (\<exists>t. acpi_fadt s = Some t \<and> copy_ok SIG_FACP t))
     \<and> (bit found 1 \<longrightarrow> (\<exists>t. acpi_madt s = Some t \<and> copy_ok SIG_APIC t))
     \<and> (bit found 2 \<longrightarrow> acpi_hpet s \<noteq> []) \<and> (bit found 3 \<longrightarrow> (\<exists>t. acpi_mcfg s = Some t \<and> copy_ok SIG_MCFG t))
     \<and> length (acpi_hpet s) \<le> MAX_HPET \<and> list_all (copy_ok SIG_HPET) (acpi_hpet s)"

definition copies :: "acpi_t \<Rightarrow> bytes option \<times> bytes option \<times> bytes option \<times> bytes list" where
  "copies s = (acpi_fadt s, acpi_madt s, acpi_mcfg s, acpi_hpet s)"

lemma copies_simps [frame_simps]:
  "copies (map_mmio pml4 va pa s) = copies s" "copies (unmap_page pml4 va s) = copies s" "copies (free_va va sz s) = copies s"
  "alloc_va sz s = (v, s') \<Longrightarrow> copies s' = copies s"
  by (auto simp: copies_def map_mmio_def unmap_page_def free_va_def alloc_va_def split: prod.splits)

lemma copies_fold: "(\<And>x s. copies (f x s) = copies s) \<Longrightarrow> copies (fold f xs s) = copies s"
  by (induction xs arbitrary: s) simp_all

lemma copies_map_table: "map_table pml4 table s = Inr (v, s') \<Longrightarrow> copies s' = copies s"
  by (auto simp: map_table_def Let_def frame_simps copies_fold split: prod.splits sum.splits if_splits)

lemma copies_unmap_table: "unmap_table pml4 table s = Inr s' \<Longrightarrow> copies s' = copies s"
  by (auto simp: unmap_table_def Let_def frame_simps copies_fold split: sum.splits)

lemma copies_ok_cong: "copies s' = copies s \<Longrightarrow> copies_ok found s' = copies_ok found s"
  by (simp add: copies_ok_def copies_def)

lemma vread_take:
  assumes "vread pml4 s va n = Inr t" "vread pml4 s va k = Inr h"
  shows "take k t = take n h" "length t = n"
  using assms by (cases "k \<le> n"; auto simp: vread_def take_map take_upt split: if_splits)+

lemma table_at_ok:
  assumes "table_at pml4 gen s = Inr t" "vread pml4 s gen 4 = Inr sig"
  shows "copy_ok sig t"
proof -
  obtain hdr where h: "vread pml4 s gen 8 = Inr hdr" "vread pml4 s gen (unat (table_length hdr)) = Inr t"
    using assms(1) by (auto simp: table_at_def split: sum.splits)
  note T = vread_take[OF h(2)]
  have "table_length t = table_length hdr" if "8 \<le> length t"
  proof -
    have "hdr = take 8 t" using T(1)[OF h(1)] vread_take(2)[OF h(1,1)] T(2)[OF h(1)] that by simp
    then show ?thesis by (simp add: table_length_def field32_def drop_take)
  qed
  then show ?thesis using T(1)[OF assms(2)] T(2)[OF h(1)] by (simp add: copy_ok_def)
qed

lemmas found_defs = FOUND_FADT_def FOUND_MADT_def FOUND_HPET_def FOUND_MCFG_def

lemma found_bits:
  "bit FOUND_FADT n \<longleftrightarrow> n = 0" "bit FOUND_MADT n \<longleftrightarrow> n = 1" "bit FOUND_HPET n \<longleftrightarrow> n = 2" "bit FOUND_MCFG n \<longleftrightarrow> n = 3"
proof -
  have e: "FOUND_FADT = push_bit 0 1" "FOUND_MADT = push_bit 1 1" "FOUND_HPET = push_bit 2 1" "FOUND_MCFG = push_bit 3 1"
    by (simp_all add: found_defs push_bit_eq_mult)
  have b: "bit (push_bit k (1 :: u8)) n \<longleftrightarrow> n = k" if "k < 8" for k
    using that by (simp only: bit_push_bit_iff bit_1_iff) auto
  show "bit FOUND_FADT n \<longleftrightarrow> n = 0" unfolding e by (rule b) simp
  show "bit FOUND_MADT n \<longleftrightarrow> n = 1" unfolding e by (rule b) simp
  show "bit FOUND_HPET n \<longleftrightarrow> n = 2" unfolding e by (rule b) simp
  show "bit FOUND_MCFG n \<longleftrightarrow> n = 3" unfolding e by (rule b) simp
qed

lemma copies_ok_copy:
  assumes "copies_ok found s" "check_and_copy pml4 gen (found, s) = Inr (found', s')"
  shows "copies_ok found' s'"
proof -
  obtain sig where sig: "vread pml4 s gen 4 = Inr sig" using assms(2) by (auto simp: check_and_copy_def split: sum.splits)
  show ?thesis
  proof (cases "sig \<in> {SIG_FACP, SIG_APIC, SIG_HPET, SIG_MCFG}")
    case True
    then obtain t where t: "table_at pml4 gen s = Inr t" using assms(2) sig by (auto simp: check_and_copy_def split: sum.splits)
    note ok = table_at_ok[OF t sig]
    show ?thesis using assms sig t ok True
      by (auto simp: check_and_copy_def copies_ok_def bit_or_iff found_bits split: if_splits)
  qed (use assms sig in \<open>simp add: check_and_copy_def\<close>)
qed

lemma copies_ok_entries:
  "copies_ok found s \<Longrightarrow> copy_entries pml4 sz root offs (found, s) = Inr (found', s') \<Longrightarrow> copies_ok found' s'"
proof (induction offs arbitrary: found s)
  case (Cons off offs)
  from Cons.prems(2) obtain e gen s1 where m: "vread pml4 s (root + of_nat off) sz = Inr e" "map_table pml4 (of_nat (le_nat e)) s = Inr (gen, s1)"
    by (auto split: sum.splits)
  have s1: "copies_ok found s1" using copies_ok_cong[OF copies_map_table[OF m(2)]] Cons.prems(1) by simp
  show ?case
  proof (cases "gen = 0")
    case False
    with Cons.prems(2) m obtain found1 s2 s3 where c: "check_and_copy pml4 gen (found, s1) = Inr (found1, s2)" "unmap_table pml4 gen s2 = Inr s3"
      "copy_entries pml4 sz root offs (found1, s3) = Inr (found', s')" by (auto split: sum.splits)
    have "copies_ok found1 s3" using copies_ok_copy[OF s1 c(1)] copies_ok_cong[OF copies_unmap_table[OF c(2)]] by simp
    then show ?thesis using Cons.IH c(3) by blast
  qed (use Cons s1 m in auto)
qed simp

lemma copies_ok_0: "copies_ok found s \<Longrightarrow> copies_ok 0 s"
  by (simp add: copies_ok_def)

lemma copies_ok_root:
  assumes "copies_ok 0 s" "use_root pml4 sz sig addr s = Inr (ok, s')"
  shows "copies_ok (if ok then FOUND_ALL else 0) s'"
proof -
  obtain root s1 where m: "map_table pml4 addr s = Inr (root, s1)" using assms(2) by (auto simp: use_root_def split: sum.splits)
  have s1: "copies_ok 0 s1" using copies_ok_cong[OF copies_map_table[OF m]] assms(1) by simp
  show ?thesis
  proof (cases "\<exists>hdr. root \<noteq> 0 \<and> vread pml4 s1 root 8 = Inr hdr \<and> take 4 hdr = sig")
    case True
    then obtain hdr found s2 where h: "root \<noteq> 0" "vread pml4 s1 root 8 = Inr hdr" "take 4 hdr = sig"
      "copy_entries pml4 sz root (entry_offsets sz (table_length hdr)) (0, s1) = Inr (found, s2)"
      using assms(2) m by (auto simp: use_root_def split: sum.splits)
    note s2 = copies_ok_entries[OF s1 h(4)]
    have "\<exists>s3. unmap_table pml4 root s2 = Inr s3 \<and> s' = s3 \<and> (ok \<longrightarrow> found = FOUND_ALL)"
      using assms(2) m h by (auto simp: use_root_def split: sum.splits if_splits option.splits)
    then obtain s3 where s3: "unmap_table pml4 root s2 = Inr s3" "s' = s3" "ok \<longrightarrow> found = FOUND_ALL" by blast
    have "copies_ok found s'" using s2 copies_ok_cong[OF copies_unmap_table[OF s3(1)]] s3(2) by simp
    then show ?thesis using s3(3) copies_ok_0 by auto
  qed (use assms(2) m s1 in \<open>auto simp: use_root_def split: sum.splits if_splits\<close>)
qed

lemma copies_ok_rsdt: "copies_ok 0 s \<Longrightarrow> use_rsdt pml4 rsdp s = Inr s' \<Longrightarrow> copies_ok FOUND_ALL s'"
  using copies_ok_root[of s pml4 4 SIG_RSDT "ucast (RsdtAddress rsdp)"] by (fastforce simp: use_rsdt_def split: sum.splits if_splits)

text \<open>The boot goes on after \<^verbatim>\<open>acpi_copy_tables\<close> only when every table the kernel needs has been copied: the FADT, the MADT, the MCFG and between
  one and eight HPET tables, each with its signature and as long as its header says.\<close>

lemma acpi_copy_tables_complete:
  assumes "acpi_copy_tables pml4 rsdp s = Inr s'"
  shows "\<exists>fadt madt mcfg. acpi_fadt s' = Some fadt \<and> acpi_madt s' = Some madt \<and> acpi_mcfg s' = Some mcfg
    \<and> copy_ok SIG_FACP fadt \<and> copy_ok SIG_APIC madt \<and> copy_ok SIG_MCFG mcfg
    \<and> acpi_hpet s' \<noteq> [] \<and> length (acpi_hpet s') \<le> 8 \<and> list_all (copy_ok SIG_HPET) (acpi_hpet s')"
proof -
  have "copies_ok 0 (s\<lparr>acpi_hpet := []\<rparr>)" by (simp add: copies_ok_def)
  then have "copies_ok FOUND_ALL s'"
    using assms copies_ok_rsdt copies_ok_root[of "s\<lparr>acpi_hpet := []\<rparr>" pml4 8 SIG_XSDT "XsdtAddress rsdp"]
    by (fastforce simp: acpi_copy_tables_def Let_def split: sum.splits if_splits)
  then show ?thesis by (simp add: copies_ok_def FOUND_ALL_def bit_or_iff found_bits MAX_HPET_def) blast
qed

end
