(* ===== verification/Spec2Isabelle.thy ===== *)
theory Spec2Isabelle
  imports Prelude KMem Hash Heap HashTable ArrayList MM Alloc AllocHeap Paging VfsPath Vfs Scheduler Process Tty Semaphore Clock ByteFields Gpt Ext2 Ext2Disk Ext2Alloc Ext2File Ext2Write Ext2Spec Ext2Dir Ext2Open Elf ElfStack ElfLoad Devfs Syscall SyscallSpec SyscallRun Acpi
begin

text \<open>
  A verification development of the ModulOS kernel, a multiprocessor kernel for x86-64 written in C.

  \<^bold>\<open>The program.\<close>  The kernel boots from a multiboot2 image, takes over the memory the firmware reports, starts the
  other processors and runs processes under a round-robin scheduler.  Its parts call each other as follows.  The page
  allocator hands out physical pages and kernel addresses; the page tables map one to the other and take their own tables
  from it; the heap cuts two-megabyte arenas of it into blocks.  Hash tables and array lists keep their storage on the
  heap, and carry the file descriptors and the children of a process and the open files of the virtual file system.
  Processes are created, forked, waited for and reaped over the queues of the scheduler; a terminal and the system calls put
  processes to sleep on wait queues and wake them.  The file layer resolves a path to a mount and calls the driver of that
  mount: the device file system with the terminals, or an ext2 file system on a partition, which is found through the partition table of
  its disk.  A system call looks up descriptors in the table of the process and calls the layers below; execve hands a file to the
  ELF loader, which builds a new address space with the program and its stack.

  \<^bold>\<open>Theories and sources.\<close>

  \<^item> \<open>Prelude\<close>: the machine integers, the reasons to panic (\<^verbatim>\<open>kernel/include/core/panic.h\<close>), results of code that may panic or
    be undefined (\<open>outcome\<close>), lemmas on words and lists that the components share.
  \<^item> \<open>KMem\<close>: \<^verbatim>\<open>kmemcpy\<close>, \<^verbatim>\<open>kmemset\<close>, \<^verbatim>\<open>kmemcmp\<close>, \<^verbatim>\<open>kstrlen\<close>, \<^verbatim>\<open>kstrcmp\<close> and the \<^verbatim>\<open>kstrcpy\<close> family of \<^verbatim>\<open>kernel/lib\<close> over a
    byte memory.  The eight-byte copies are plain byte copies; the string loops end on terminated strings.
  \<^item> \<open>Hash\<close>: \<^verbatim>\<open>kernel/lib/hash.c\<close>.  The loops are folds over the message, and small changes of a message change the result.
  \<^item> \<open>HashTable\<close>: \<^verbatim>\<open>kernel/lib/hash_table.c\<close>.  The table implements a finite map.
  \<^item> \<open>ArrayList\<close>: \<^verbatim>\<open>kernel/lib/array_list.c\<close>.  \<^verbatim>\<open>array_list_push\<close> ends and takes the lowest free slot.
  \<^item> \<open>MM\<close>: \<^verbatim>\<open>kernel/core/mm.c\<close>.  The region list implements a set of free addresses; memory whose mapping was removed is
    released only after every processor has acknowledged.
  \<^item> \<open>Heap\<close>, \<open>Alloc\<close>, \<open>AllocHeap\<close>: \<^verbatim>\<open>kernel/core/alloc.c\<close>; the size arithmetic, one arena with its two chains of headers, and the
    arenas together.  The heap implements a set of blocks that never overlap: the locale \<open>block_heap\<close> is its contract and
    its interpretation \<open>kheap\<close> shows that \<^verbatim>\<open>kmalloc\<close> and \<^verbatim>\<open>kfree\<close> keep it.
  \<^item> \<open>Paging\<close>: \<^verbatim>\<open>kernel/core/paging.c\<close>.  Mapping, unmapping, guard pages and address-space creation against \<open>translate\<close>, the
    walk of the processor.
  \<^item> \<open>VfsPath\<close>, \<open>Vfs\<close>: \<^verbatim>\<open>kernel/core/fs.c\<close>; \<^verbatim>\<open>find_mount\<close> against the stack normalisation of a path, then mounts, open files
    and handles with their reference counts.
  \<^item> \<open>Scheduler\<close>, \<open>Process\<close>: \<^verbatim>\<open>kernel/core/scheduler.c\<close>, \<^verbatim>\<open>signal.c\<close> and \<^verbatim>\<open>process.c\<close>.  No process is lost or duplicated, a ready one
    runs, and every run of forks, exits and waits keeps the process tree exact.
  \<^item> \<open>Tty\<close>: \<^verbatim>\<open>kernel/devfs/tty.c\<close>.  The ring with four indices implements a line editor on byte lists.
  \<^item> \<open>Semaphore\<close>: \<^verbatim>\<open>kernel/core/semaphore.c\<close>, as interleaved steps of several processors.
  \<^item> \<open>Clock\<close>: \<^verbatim>\<open>kernel/core/clock_src.c\<close> and \<^verbatim>\<open>time.c\<close>.
  \<^item> \<open>ByteFields\<close>: members of packed structures in byte buffers, for the drivers and the loader.
  \<^item> \<open>Gpt\<close>: \<^verbatim>\<open>drivers/disk/disk.c\<close> and \<^verbatim>\<open>drivers/gpt/gpt.c\<close>.  A table that was written is read back, a damaged one is refused.
  \<^item> \<open>Ext2\<close>: all functions of \<^verbatim>\<open>drivers/ext2/ext2.c\<close>, on the buffers of the superblock, the group descriptors and the inodes.  \<open>Ext2Disk\<close>: the
    blocks of a disk that reads back what was written.  \<open>Ext2Alloc\<close>: an allocated block was free and is marked, nothing else changes.
    \<open>Ext2File\<close>, \<open>Ext2Write\<close>: the tree of blocks of a file, and the write loop over it.  \<open>Ext2Spec\<close>: reads and writes implement
    lookups and updates of a byte sequence, and a write to one file leaves the others alone.  \<open>Ext2Dir\<close>, \<open>Ext2Open\<close>: directories as lists of
    entries, and the resolution of paths.
  \<^item> \<open>Elf\<close>: \<^verbatim>\<open>kernel/core/elf.c\<close>.  \<open>ElfStack\<close>: the stack a program starts with, down to the pointers, strings and the auxiliary vector.
    \<open>ElfLoad\<close>: the segments of an executable are in memory after loading; what the checks before that let through.
  \<^item> \<open>Devfs\<close>: \<^verbatim>\<open>kernel/devfs/devfs.c\<close>, mounted on the file layer of \<open>Vfs\<close> with the terminals of \<open>Tty\<close> behind it.
  \<^item> \<open>Syscall\<close>: the handlers of \<^verbatim>\<open>kernel/core/syscall_dispatch.c\<close> over the processes, the file layer, the page tables and the loader.
    \<open>SyscallSpec\<close>, \<open>SyscallRun\<close>: in every run of them each allocated file handle is held by exactly one descriptor or working directory, and
    the reference counts of the open files are exact; the listing of a directory ends within its buffer.
  \<^item> \<open>Acpi\<close>: \<^verbatim>\<open>kernel/acpi/tables.c\<close>.  The firmware tables are mapped through \<open>Paging\<close>, checked and copied; the boot goes on only with every table it needs,
    and a walk of the MADT gives the entries of a type.

  \<^bold>\<open>How code is modelled.\<close>  A struct is a record with the members of the source, an enumeration a datatype, an integer a
  word of its width, so sums and products wrap as they do on the target.  Stateful code takes and returns its state.  A panic is
  \<open>Inl (Panic c)\<close>, an access the C language leaves undefined (a null or freed pointer, a division by zero, a read beyond a
  buffer) is \<open>Inl Undefined\<close>; a status code is a value of its enumeration.  Pointers are addresses where the layout of
  memory matters (\<open>KMem\<close>, \<open>Alloc\<close>, \<open>Paging\<close>) and names of objects or positions in a list where only their links do.
  An operation whose whole body holds a lock is one step; \<open>Semaphore\<close>, whose counter is also written outside the lock, and the
  shootdown protocol of \<open>MM\<close> are step relations.

  \<^bold>\<open>Loops.\<close>  A loop over a counter is recursion with a measure.  A loop that follows pointers, or that grows what it searches, is a
  \<open>partial_function\<close> into \<open>option\<close>, where not returning is \<open>None\<close>: the searches of \<^verbatim>\<open>kmalloc\<close>, \<^verbatim>\<open>array_list_push\<close>, the string loops,
  the busy wait, the opening of a file, the allocation, the read, write and search loops of ext2, the listing of a directory and the walk of the MADT.  For each of them a property
  or lemma states that it returns, under the invariant of its component; the exception is the search for room in a directory when ext2 creates a
  file (\<open>insert_entry\<close>), of which nothing is claimed.

  \<^bold>\<open>Hypotheses.\<close>  A property of an operation assumes the invariant of its component, and for every invariant a property or lemma
  shows that the initial state has it and that the operations keep it.  Beyond that: physical memory lies below
  the size of the identity window (\<open>2\<^sup>4\<^sup>0\<close>, \<^verbatim>\<open>IDENT_BASE\<close> to the end of the address space), which is what \<^verbatim>\<open>paging_ident\<close> relies on; memory that is
  released was not free; two pointers given to a copy do not overlap.  The disk below the partition tables and ext2 (\<open>good_disk\<close>: it reads back
  what was written), the file below the loader (\<open>good_file\<close>: a seek sets the position a read takes its bytes from), the driver below the file layer,
  the file layer below the processes and the counter of a clock are arguments; the sample disks, files and drivers of the witnesses meet these hypotheses.  What
  uninitialised memory holds and how a read goes on that waits for input are arguments of \<open>Devfs\<close> and hold for every value.  The run of system
  calls starts in a state with the invariant \<open>fd_ok\<close>, which a sample state has, and makes handles only while the 64-bit counters have room.

  \<^bold>\<open>Behaviour that is proved and not intended.\<close>  Some properties state what the code does where it departs from its
  purpose: an exit status that never reaches the parent, an execve of the first process that panics, a sleeper kept waiting by
  the order of the sleep queue, a terminal line that fills the ring, a path-hash collision, the last close of a file, the
  race on the counter of a semaphore, a double free the page allocator accepts, an array size that wraps in the partition reader, a file
  that ext2 creates in the root directory instead of the one named, a read that goes past the end of a file with holes, an executable that
  is loaded over the kernel, a descriptor that overruns the table in dup2, a waitpid that reports a running child as finished, and a MADT entry of length 0 that is never left.

  \<^bold>\<open>Not modelled.\<close>  The assembly stubs, the boot code and the programming of devices (interrupt controllers, descriptor tables,
  AHCI, PCIe, serial port, HPET, framebuffer) are writes to registers whose meaning is in no source here; the kernel reads the tables of
  ACPI and interprets none of its code.  Logging only formats text.  User programs and the port of the C library run outside the kernel.
\<close>

end
